(* ===== verification/Prelude.thy ===== *)
theory Prelude
  imports Main "HOL-Library.Word"
begin

text \<open>
  Shared vocabulary of the development: the kernel's integer types (\<^verbatim>\<open>src/kernel/types.h\<close>),
  the page-stepping loop that several components run, generic facts about words, page masks,
  lists and finite counts, and the locales that state a contract more than one component
  satisfies.
\<close>

unbundle bit_operations_syntax

section \<open>Machine integers\<close>

type_synonym u8 = "8 word"
type_synonym u16 = "16 word"
type_synonym u32 = "32 word"
type_synonym u64 = "64 word"

named_theorems word_nat \<open>reading 32-bit arithmetic back as arithmetic on nat\<close>

lemmas [word_nat] = word_le_nat_alt word_less_nat_alt unat_div unat_mod

lemma unat_u32_bound: "unat (x :: u32) < 4294967296"
  using unsigned_less [of x] by simp

lemma unat_add_u32 [word_nat]:
  "unat x + unat y < 4294967296 \<Longrightarrow> unat ((x :: u32) + y) = unat x + unat y"
  by (simp add: unat_word_ariths)

lemma unat_sub_u32 [word_nat]:
  "(y :: u32) \<le> x \<Longrightarrow> unat (x - y) = unat x - unat y"
  by (rule unat_sub)

lemma unat_mult_u32 [word_nat]:
  "unat x * unat y < 4294967296 \<Longrightarrow> unat ((x :: u32) * y) = unat x * unat y"
  by (simp add: unat_word_ariths)

lemma unat_of_nat_u32 [word_nat]:
  "n < 4294967296 \<Longrightarrow> unat (of_nat n :: u32) = n"
  by (simp add: unat_of_nat)

text \<open>Packing a field above another one, \<^verbatim>\<open>(x << n) | y\<close>.\<close>

lemma nat_shift_or: "b < 2 ^ n \<Longrightarrow> push_bit n a OR b = a * 2 ^ n + (b :: nat)"
proof -
  assume "b < 2 ^ n"
  then have "take_bit n b = b" by (simp add: take_bit_nat_eq_self_iff)
  then have "push_bit n a AND b = push_bit n a AND take_bit n b" by simp
  also have "\<dots> = 0" by (rule bit_eqI) (auto simp: bit_simps)
  finally show ?thesis by (simp add: push_bit_eq_mult flip: disjunctive_add_eq_or)
qed

lemma unat_shift_or:
  fixes x y :: "'a::len word"
  assumes "unat y < 2 ^ n" "unat x * 2 ^ n < 2 ^ LENGTH('a)"
  shows "unat (push_bit n x OR y) = unat x * 2 ^ n + unat y"
proof -
  have "unat (push_bit n x) = take_bit LENGTH('a) (push_bit n (unat x))"
    by (rule unsigned_push_bit_eq)
  also have "\<dots> = push_bit n (unat x)"
    using assms(2) by (simp add: take_bit_nat_eq_self_iff push_bit_eq_mult)
  finally have "unat (push_bit n x) = push_bit n (unat x)" .
  then show ?thesis by (simp add: unsigned_or_eq nat_shift_or [OF assms(1)])
qed

section \<open>Pages\<close>

definition PAGE_SIZE :: u32 where "PAGE_SIZE = 4096"

lemma page_mask_eq: "(PAGE_SIZE - 1) = mask 12"
  by (simp add: PAGE_SIZE_def mask_eq_exp_minus_1)

lemma and_not_low_mask: "(x :: 'a::len word) AND NOT (mask n) = push_bit n (drop_bit n x)"
  by (rule bit_word_eqI) (auto simp: bit_simps)

lemma unat_floor_mask: "unat ((x :: 'a::len word) AND NOT (mask n)) = unat x div 2 ^ n * 2 ^ n"
proof -
  have "unat x div 2 ^ n * 2 ^ n < 2 ^ LENGTH('a)"
    by (rule le_less_trans [OF _ unsigned_less [of x]]) simp
  moreover have "unat (push_bit n (drop_bit n x)) =
      take_bit LENGTH('a) (push_bit n (drop_bit n (unat x)))"
    by (simp only: unsigned_push_bit_eq unat_drop_bit_eq)
  ultimately show ?thesis
    by (simp add: and_not_low_mask push_bit_eq_mult drop_bit_eq_div take_bit_eq_mod del: push_bit_of_nat)
qed

lemma unat_and_mask: "unat ((x :: 'a::len word) AND mask n) = unat x mod 2 ^ n"
  by (metis take_bit_eq_mask unsigned_take_bit_eq take_bit_eq_mod)

lemma unat_page_floor [word_nat]:
  "unat ((x :: u32) AND NOT 4095) = unat x div 4096 * 4096"
  using unat_floor_mask [of x 12] by (simp add: mask_eq_exp_minus_1)

lemma unat_page_floor' [word_nat]: "unat ((x :: u32) AND - 4096) = unat x div 4096 * 4096"
  using unat_page_floor [of x] by simp

lemma unat_page_offset [word_nat]: "unat ((x :: u32) AND 4095) = unat x mod 4096"
  using unat_and_mask [of x 12] by (simp add: mask_eq_exp_minus_1)

lemma unat_word_floor [word_nat]: "unat ((x :: u32) AND - 4) = unat x div 4 * 4"
  using unat_floor_mask [of x 2] by (simp add: mask_eq_exp_minus_1)

lemma unat_word_offset [word_nat]: "unat ((x :: u32) AND 3) = unat x mod 4"
  using unat_and_mask [of x 2] by (simp add: mask_eq_exp_minus_1)

lemma unat_octet_floor [word_nat]: "unat ((x :: u32) AND - 8) = unat x div 8 * 8"
  using unat_floor_mask [of x 3] by (simp add: mask_eq_exp_minus_1)

subsection \<open>The page-stepping loop\<close>

text \<open>
  The addresses visited by \<^verbatim>\<open>for (u32 a = start; a < end; a += PAGE_SIZE)\<close>. The inner
  test ends the list where the 32-bit addition would wrap, a case that cannot occur for
  the page-aligned bounds every caller passes: lemma \<open>page_addrs_aligned\<close>.
\<close>

function page_addrs :: "u32 \<Rightarrow> u32 \<Rightarrow> u32 list" where
  "page_addrs a e =
     (if a < e then a # (if a < a + 4096 then page_addrs (a + 4096) e else []) else [])"
  by pat_completeness auto
termination
  by (relation "measure (\<lambda>(a, e). unat e - unat a)") (auto simp: word_less_nat_alt)

declare page_addrs.simps [simp del]

lemma page_addrs_empty [simp]: "e \<le> a \<Longrightarrow> page_addrs a e = []"
  by (simp add: page_addrs.simps [of a e] not_less)

definition page_aligned :: "u32 \<Rightarrow> bool" where
  "page_aligned a \<longleftrightarrow> a AND 4095 = 0"

lemma page_aligned_dvd: "page_aligned a \<longleftrightarrow> 4096 dvd unat a"
  by (simp add: page_aligned_def word_unat_eq_iff unat_page_offset dvd_eq_mod_eq_0)

lemma page_aligned_floor [simp]: "page_aligned (x AND NOT 4095)"
  by (simp add: page_aligned_dvd unat_page_floor')

lemma page_aligned_bound:
  assumes "page_aligned a"
  shows "unat a \<le> 4294963200"
proof -
  from assms obtain k where k: "unat a = 4096 * k" by (auto simp: page_aligned_dvd)
  with unat_u32_bound [of a] have "k < 1048576" by simp
  with k show ?thesis by simp
qed

lemma page_aligned_next:
  assumes "page_aligned a" "page_aligned e" "a < e"
  shows "unat (a + 4096) = unat a + 4096" "a < a + 4096" "a + 4096 \<le> e" "page_aligned (a + 4096)"
proof -
  from assms(1,2) obtain k m where km: "unat a = 4096 * k" "unat e = 4096 * m"
    unfolding page_aligned_dvd dvd_def by auto
  from assms(3) km have "k < m" by (simp add: word_less_nat_alt)
  then have le: "unat a + 4096 \<le> unat e" using km by simp
  then show n: "unat (a + 4096) = unat a + 4096"
    using unat_u32_bound [of e] by (simp add: unat_add_u32)
  show "a < a + 4096" "a + 4096 \<le> e"
    using n le by (simp_all add: word_less_nat_alt word_le_nat_alt)
  show "page_aligned (a + 4096)" using n assms(1) by (simp add: page_aligned_dvd)
qed

lemma page_addrs_aligned:
  assumes "page_aligned a" "page_aligned e"
  shows "map unat (page_addrs a e) = map ((*) 4096) [unat a div 4096..<unat e div 4096]"
  using assms
proof (induction a e rule: page_addrs.induct)
  case (1 a e)
  show ?case
  proof (cases "a < e")
    case True
    note nx = page_aligned_next [OF "1.prems" True]
    have d: "unat a = 4096 * (unat a div 4096)"
      using "1.prems"(1) by (simp add: page_aligned_dvd)
    have lt: "unat a div 4096 < unat e div 4096"
      using div_le_mono [of "unat a + 4096" "unat e" 4096] nx(1,3) by (simp add: word_le_nat_alt)
    have "map unat (page_addrs (a + 4096) e) = map ((*) 4096) [Suc (unat a div 4096)..<unat e div 4096]"
      using "1.IH" [OF True nx(2,4) "1.prems"(2)] nx(1) div_add_self2 [of 4096 "unat a"] by simp
    with True nx(2) d lt show ?thesis
      by (subst page_addrs.simps) (simp add: upt_conv_Cons)
  next
    case False
    then have "unat e div 4096 \<le> unat a div 4096"
      by (simp add: word_less_nat_alt div_le_mono)
    with False show ?thesis by (subst page_addrs.simps) simp
  qed
qed

lemma set_page_addrs_aligned:
  assumes "page_aligned a" "page_aligned e"
  shows "x \<in> set (page_addrs a e) \<longleftrightarrow> page_aligned x \<and> a \<le> x \<and> x < e"
proof -
  have "x \<in> set (page_addrs a e) \<longleftrightarrow> unat x \<in> set (map unat (page_addrs a e))"
    by (auto dest: unsigned_word_eqI)
  also have "\<dots> \<longleftrightarrow> (\<exists>k. unat x = 4096 * k \<and> unat a div 4096 \<le> k \<and> k < unat e div 4096)"
    by (auto simp: page_addrs_aligned [OF assms])
  also have "\<dots> \<longleftrightarrow> page_aligned x \<and> a \<le> x \<and> x < e"
    using assms unfolding page_aligned_dvd dvd_def
    by (auto simp: word_le_nat_alt word_less_nat_alt)
  finally show ?thesis .
qed

section \<open>Counting loops\<close>

lemma card_less_le: "card {i. i < n \<and> P i} \<le> (n :: nat)"
  using card_mono [of "{..<n}" "{i. i < n \<and> P i}"] by auto

lemma card_less_Suc:
  "card {i. i < Suc n \<and> P i} = (if P n then Suc (card {i. i < n \<and> P i}) else card {i. i < n \<and> P i})"
proof -
  have "{i. i < Suc n \<and> P i} = (if P n then insert n {i. i < n \<and> P i} else {i. i < n \<and> P i})"
    by (auto simp: less_Suc_eq)
  then show ?thesis by simp
qed

lemma fold_count_u32:
  assumes "n < 4294967296"
  shows "unat (fold (\<lambda>i c. if P i then c + 1 else c) [0..<n] (0 :: u32)) = card {i. i < n \<and> P i}"
  using assms
proof (induction n)
  case 0
  then show ?case by simp
next
  case (Suc n)
  let ?c = "fold (\<lambda>i c. if P i then c + 1 else c) [0..<n] (0 :: u32)"
  have IH: "unat ?c = card {i. i < n \<and> P i}" using Suc by simp
  then have "unat (?c + 1) = Suc (card {i. i < n \<and> P i})"
    using Suc.prems card_less_le [of n P] by (simp add: unat_add_u32)
  with IH show ?case by (simp add: card_less_Suc)
qed

end
