(* ===== verification/Boot_Info.thy ===== *)
theory Boot_Info
  imports Prelude
begin

text \<open>
  The boot information block the loader leaves at \<^verbatim>\<open>BOOT_INFO_PHYS\<close>
  (\<^verbatim>\<open>src/kernel/boot_info.h\<close>, \<^verbatim>\<open>src/kernel/boot_info.c\<close>) and the predicates by which
  the kernel decides which parts of it to trust. \<^verbatim>\<open>boot_info_get()\<close> is a cast of a fixed
  address, so the functions take the block itself.
\<close>

section \<open>The block\<close>

definition BOOT_INFO_PHYS :: u32 where "BOOT_INFO_PHYS = 0x90000"
definition BOOT_FONT_PHYS :: u32 where "BOOT_FONT_PHYS = 0x91000"
definition BOOT_INFO_MAGIC :: u32 where "BOOT_INFO_MAGIC = 0x534D4F53"
definition BOOT_INFO_VERSION :: u32 where "BOOT_INFO_VERSION = 3"
definition BOOT_E820_MAX :: u32 where "BOOT_E820_MAX = 32"

record boot_e820_entry =
  e820_base :: u64
  e820_length :: u64
  e820_type :: u32
  e820_attr :: u32

record boot_info =
  bi_magic :: u32
  bi_version :: u32
  bi_size :: u32
  framebuffer_phys :: u32
  framebuffer_width :: u32
  framebuffer_height :: u32
  framebuffer_pitch :: u32
  framebuffer_bpp :: u32
  framebuffer_format :: u32
  framebuffer_valid :: u32
  e820_count :: u32
  e820_valid :: u32
  e820 :: "boot_e820_entry list"
  ramdisk_phys :: u32
  ramdisk_size :: u32
  ramdisk_valid :: u32
  bi_reserved :: u32

text \<open>
  \<^verbatim>\<open>sizeof(boot_info_t)\<close> on i386: twelve 32-bit words, 32 memory-map entries of 24 bytes,
  four 32-bit words.
\<close>

definition sizeof_boot_info :: u32 where
  "sizeof_boot_info = 12 * 4 + 32 * 24 + 4 * 4"

section \<open>Validation\<close>

definition boot_info_header_valid :: "boot_info \<Rightarrow> bool" where
  "boot_info_header_valid info \<longleftrightarrow>
     bi_magic info = BOOT_INFO_MAGIC \<and>
     bi_version info = BOOT_INFO_VERSION \<and>
     bi_size info \<ge> sizeof_boot_info"

definition e820_entry_sane :: "boot_e820_entry \<Rightarrow> bool" where
  "e820_entry_sane ent \<longleftrightarrow>
     (if e820_length ent = 0 then False
      else if e820_base ent + e820_length ent < e820_base ent then False
      else True)"

definition boot_info_validate :: "boot_info \<Rightarrow> bool" where
  "boot_info_validate info \<longleftrightarrow>
     (if \<not> boot_info_header_valid info then False
      else if e820_count info > BOOT_E820_MAX then False
      else True)"

definition boot_info_framebuffer_valid :: "boot_info \<Rightarrow> bool" where
  "boot_info_framebuffer_valid info \<longleftrightarrow>
     (if \<not> boot_info_header_valid info then False
      else framebuffer_valid info \<noteq> 0 \<and>
           framebuffer_phys info \<noteq> 0 \<and>
           framebuffer_width info \<noteq> 0 \<and>
           framebuffer_height info \<noteq> 0 \<and>
           framebuffer_pitch info \<noteq> 0 \<and>
           framebuffer_bpp info \<noteq> 0)"

text \<open>The entries the code indexes, \<^verbatim>\<open>info->e820[i]\<close> for \<^verbatim>\<open>i < info->e820_count\<close>.\<close>

abbreviation e820_entries :: "boot_info \<Rightarrow> boot_e820_entry list" where
  "e820_entries info \<equiv> take (unat (e820_count info)) (e820 info)"

definition boot_info_e820_valid :: "boot_info \<Rightarrow> bool" where
  "boot_info_e820_valid info \<longleftrightarrow>
     (if \<not> boot_info_validate info \<or> e820_valid info = 0 \<or> e820_count info = 0 \<or>
         e820_count info > BOOT_E820_MAX then False
      else list_all e820_entry_sane (e820_entries info))"

definition boot_info_e820_count :: "boot_info \<Rightarrow> u32" where
  "boot_info_e820_count info =
     (if \<not> boot_info_e820_valid info then 0 else e820_count info)"

definition boot_info_ramdisk_valid :: "boot_info \<Rightarrow> bool" where
  "boot_info_ramdisk_valid info \<longleftrightarrow>
     (if \<not> boot_info_header_valid info then False
      else ramdisk_valid info \<noteq> 0 \<and> ramdisk_phys info \<noteq> 0 \<and> ramdisk_size info \<noteq> 0)"

definition boot_info_ramdisk_phys :: "boot_info \<Rightarrow> u32" where
  "boot_info_ramdisk_phys info = (if boot_info_ramdisk_valid info then ramdisk_phys info else 0)"

definition boot_info_ramdisk_size :: "boot_info \<Rightarrow> u32" where
  "boot_info_ramdisk_size info = (if boot_info_ramdisk_valid info then ramdisk_size info else 0)"

section \<open>What a validated memory map guarantees\<close>

lemma e820_entry_sane_no_wrap:
  assumes "e820_entry_sane ent"
  shows "unat (e820_base ent + e820_length ent) = unat (e820_base ent) + unat (e820_length ent)"
    and "e820_base ent < e820_base ent + e820_length ent"
proof -
  have le: "e820_base ent \<le> e820_base ent + e820_length ent"
    using assms by (auto simp: e820_entry_sane_def not_less split: if_splits)
  then show eq: "unat (e820_base ent + e820_length ent) = unat (e820_base ent) + unat (e820_length ent)"
    by (rule unat_plus_simple [THEN iffD1])
  have "e820_length ent \<noteq> 0" using assms by (simp add: e820_entry_sane_def split: if_splits)
  then have "0 < unat (e820_length ent)" by (simp add: unat_gt_0)
  with eq show "e820_base ent < e820_base ent + e820_length ent"
    by (simp add: word_less_nat_alt)
qed

lemma boot_info_e820_validD:
  assumes "boot_info_e820_valid info"
  shows "boot_info_header_valid info" "e820_count info \<noteq> 0" "e820_count info \<le> BOOT_E820_MAX"
    and "\<And>ent. ent \<in> set (e820_entries info) \<Longrightarrow> e820_entry_sane ent"
  using assms
  by (auto simp: boot_info_e820_valid_def boot_info_validate_def list_all_iff split: if_splits)

end
