(* ===== verification/Pmm.thy ===== *)
theory Pmm
  imports Boot_Info
begin

text \<open>
  The physical memory manager, \<^verbatim>\<open>src/kernel/pmm.c\<close>: a bitmap and a table of 16-bit
  reference counts over the 4 KB frames from \<^verbatim>\<open>PMM_BASE\<close> up to the limit chosen at boot.
  The static variables of the file are the record \<open>pmm\<close>; each function takes and returns it.
  Frame addresses and counters keep the 32-bit width of the code, and 0 is the failure value of
  the allocators as it is there. Console output is left out.
\<close>

section \<open>State\<close>

definition PMM_BASE :: u32 where "PMM_BASE = 0x200000"
definition PMM_LIMIT :: u32 where "PMM_LIMIT = 0x10000000"
definition PMM_SIZE :: u32 where "PMM_SIZE = PMM_LIMIT - PMM_BASE"
definition PMM_FALLBACK_SIZE :: u32 where "PMM_FALLBACK_SIZE = 0x1E00000"
definition PMM_FRAME_SIZE :: u32 where "PMM_FRAME_SIZE = 4096"
definition PMM_NUM_FRAMES :: u32 where "PMM_NUM_FRAMES = PMM_SIZE div PMM_FRAME_SIZE"

lemmas pmm_consts = PMM_BASE_def PMM_LIMIT_def PMM_SIZE_def PMM_FALLBACK_SIZE_def
  PMM_FRAME_SIZE_def

lemma PMM_NUM_FRAMES_value: "PMM_NUM_FRAMES = 65024"
  by (simp add: PMM_NUM_FRAMES_def pmm_consts)

record pmm =
  s_bitmap :: "u8 list"
  s_refcount :: "u16 list"
  s_bitmap_bytes :: u32
  s_managed_frames :: u32
  s_max_phys :: u32
  s_free_count :: u32
  s_total_count :: u32
  s_next_free :: u32
  s_ready :: bool

section \<open>Bitmap helpers\<close>

definition frame_is_used :: "pmm \<Rightarrow> u32 \<Rightarrow> bool" where
  "frame_is_used p idx \<longleftrightarrow>
     drop_bit (unat (idx mod 8)) (s_bitmap p ! unat (idx div 8)) AND 1 = 1"

definition frame_mark_used :: "pmm \<Rightarrow> u32 \<Rightarrow> pmm" where
  "frame_mark_used p idx =
     p\<lparr>s_bitmap := (s_bitmap p)[unat (idx div 8) :=
        s_bitmap p ! unat (idx div 8) OR push_bit (unat (idx mod 8)) 1]\<rparr>"

definition frame_mark_free :: "pmm \<Rightarrow> u32 \<Rightarrow> pmm" where
  "frame_mark_free p idx =
     p\<lparr>s_bitmap := (s_bitmap p)[unat (idx div 8) :=
        s_bitmap p ! unat (idx div 8) AND NOT (push_bit (unat (idx mod 8)) 1)]\<rparr>"

definition addr_to_idx :: "u32 \<Rightarrow> u32" where
  "addr_to_idx addr = (addr - PMM_BASE) div PMM_FRAME_SIZE"

definition idx_to_addr :: "u32 \<Rightarrow> u32" where
  "idx_to_addr idx = PMM_BASE + idx * PMM_FRAME_SIZE"

definition pmm_mark_idx_used :: "pmm \<Rightarrow> u32 \<Rightarrow> pmm" where
  "pmm_mark_idx_used p idx =
     (let p = (if \<not> frame_is_used p idx
               then (let p = frame_mark_used p idx in
                     if s_free_count p > 0 then p\<lparr>s_free_count := s_free_count p - 1\<rparr> else p)
               else p)
      in if s_refcount p ! unat idx = 0
         then p\<lparr>s_refcount := (s_refcount p)[unat idx := 1]\<rparr> else p)"

definition pmm_mark_idx_free :: "pmm \<Rightarrow> u32 \<Rightarrow> pmm" where
  "pmm_mark_idx_free p idx =
     (let p = (if frame_is_used p idx
               then (let p = frame_mark_free p idx; p = p\<lparr>s_free_count := s_free_count p + 1\<rparr> in
                     if idx < s_next_free p then p\<lparr>s_next_free := idx\<rparr> else p)
               else p)
      in p\<lparr>s_refcount := (s_refcount p)[unat idx := 0]\<rparr>)"

definition round_down_frame :: "u32 \<Rightarrow> u32" where
  "round_down_frame addr = addr AND NOT (PMM_FRAME_SIZE - 1)"

definition round_up_frame :: "u32 \<Rightarrow> u32" where
  "round_up_frame addr = (addr + PMM_FRAME_SIZE - 1) AND NOT (PMM_FRAME_SIZE - 1)"

definition pmm_mark_range_free :: "pmm \<Rightarrow> u32 \<Rightarrow> u32 \<Rightarrow> pmm" where
  "pmm_mark_range_free p start end' =
     (if end' \<le> PMM_BASE \<or> start \<ge> s_max_phys p then p
      else
        let start = (if start < PMM_BASE then PMM_BASE else start);
            end' = (if end' > s_max_phys p then s_max_phys p else end');
            start = round_up_frame start;
            end' = round_down_frame end'
        in if end' \<le> start then p
           else fold (\<lambda>addr p. pmm_mark_idx_free p (addr_to_idx addr)) (page_addrs start end') p)"

definition pmm_mark_range_used :: "pmm \<Rightarrow> u32 \<Rightarrow> u32 \<Rightarrow> pmm" where
  "pmm_mark_range_used p start end' =
     (if end' \<le> PMM_BASE \<or> start \<ge> s_max_phys p then p
      else
        let start = (if start < PMM_BASE then PMM_BASE else start);
            end' = (if end' > s_max_phys p then s_max_phys p else end');
            start = round_down_frame start;
            end' = round_up_frame end'
        in if end' \<le> start then p
           else fold (\<lambda>addr p. pmm_mark_idx_used p (addr_to_idx addr)) (page_addrs start end') p)"

section \<open>Boot-time sizing\<close>

definition pmm_free_e820_entry :: "boot_e820_entry \<Rightarrow> pmm \<Rightarrow> pmm" where
  "pmm_free_e820_entry ent p =
     (if e820_type ent \<noteq> 1 \<or> e820_length ent = 0 then p
      else
        let end64 = e820_base ent + e820_length ent in
        if end64 \<le> ucast PMM_BASE \<or> e820_base ent \<ge> ucast (s_max_phys p) then p
        else
          let start = (if e820_base ent < ucast PMM_BASE then PMM_BASE else ucast (e820_base ent));
              end' = (if end64 > ucast (s_max_phys p) then s_max_phys p else ucast end64)
          in pmm_mark_range_free p start end')"

definition pmm_free_e820_usable_ranges :: "boot_info \<Rightarrow> pmm \<Rightarrow> pmm" where
  "pmm_free_e820_usable_ranges info p = fold pmm_free_e820_entry (e820_entries info) p"

definition pmm_free_fixed_range :: "pmm \<Rightarrow> pmm" where
  "pmm_free_fixed_range p = pmm_mark_range_free p PMM_BASE (PMM_BASE + PMM_FALLBACK_SIZE)"

definition pmm_grow_max_phys :: "boot_e820_entry \<Rightarrow> u32 \<Rightarrow> u32" where
  "pmm_grow_max_phys ent max_phys =
     (if e820_type ent \<noteq> 1 \<or> e820_length ent = 0 then max_phys
      else
        let end64 = e820_base ent + e820_length ent in
        if end64 \<le> ucast PMM_BASE then max_phys
        else if e820_base ent \<ge> ucast PMM_LIMIT then max_phys
        else
          let end64 = (if end64 > ucast PMM_LIMIT then ucast PMM_LIMIT else end64) in
          if ucast end64 > max_phys then ucast end64 else max_phys)"

definition pmm_detect_max_phys :: "boot_info \<Rightarrow> u32" where
  "pmm_detect_max_phys info =
     (let max_phys = PMM_BASE + PMM_FALLBACK_SIZE;
          max_phys =
            (if boot_info_e820_valid info
             then (let m = fold pmm_grow_max_phys (e820_entries info) PMM_BASE in
                   if m \<le> PMM_BASE then PMM_BASE + PMM_FALLBACK_SIZE else m)
             else max_phys);
          max_phys = (if max_phys > PMM_LIMIT then PMM_LIMIT else max_phys);
          max_phys = max_phys AND NOT (PMM_FRAME_SIZE - 1)
      in if max_phys \<le> PMM_BASE then PMM_BASE + PMM_FRAME_SIZE else max_phys)"

section \<open>Public operations\<close>

definition pmm_reserve_range :: "pmm \<Rightarrow> u32 \<Rightarrow> u32 \<Rightarrow> pmm" where
  "pmm_reserve_range p start end' =
     (if \<not> s_ready p then p else pmm_mark_range_used p start end')"

definition pmm_scan_order :: "pmm \<Rightarrow> u32 list" where
  "pmm_scan_order p =
     map (\<lambda>i. (s_next_free p + of_nat i) mod s_managed_frames p) [0..<unat (s_managed_frames p)]"

definition pmm_alloc_frame :: "pmm \<Rightarrow> u32 \<times> pmm" where
  "pmm_alloc_frame p =
     (if s_free_count p = 0 then (0, p)
      else case List.find (\<lambda>idx. \<not> frame_is_used p idx) (pmm_scan_order p) of
        None \<Rightarrow> (0, p)
      | Some idx \<Rightarrow>
          (let p = frame_mark_used p idx;
               p = p\<lparr>s_refcount := (s_refcount p)[unat idx := 1]\<rparr>;
               p = p\<lparr>s_free_count := s_free_count p - 1\<rparr>;
               p = p\<lparr>s_next_free := (idx + 1) mod s_managed_frames p\<rparr>
           in (idx_to_addr idx, p)))"

text \<open>
  The inner loop of \<^verbatim>\<open>pmm_alloc_contiguous_frames\<close>: the first offset of the window at
  \<open>start\<close> whose frame is used.
\<close>

definition pmm_first_used :: "pmm \<Rightarrow> u32 \<Rightarrow> u32 \<Rightarrow> u32 option" where
  "pmm_first_used p start count =
     List.find (\<lambda>off. frame_is_used p (start + off)) (map of_nat [0..<unat count])"

text \<open>
  The outer loop: a window with a used frame at \<open>off\<close> is skipped past that frame
  (\<^verbatim>\<open>start += off\<close>, then the loop's \<^verbatim>\<open>start++\<close>). The test on \<open>start'\<close> ends the search
  where the 32-bit addition would wrap, which no managed window reaches.
\<close>

function pmm_find_run :: "pmm \<Rightarrow> u32 \<Rightarrow> u32 \<Rightarrow> u32 option" where
  "pmm_find_run p count start =
     (if start + count \<le> s_managed_frames p
      then (case pmm_first_used p start count of
              None \<Rightarrow> Some start
            | Some off \<Rightarrow>
                (let start' = start + off + 1 in
                 if start < start' then pmm_find_run p count start' else None))
      else None)"
  by pat_completeness auto
termination
  by (relation "measure (\<lambda>(p, count, start). 4294967296 - unat start)")
    (auto simp: word_less_nat_alt intro: diff_less_mono2 unat_u32_bound)

declare pmm_find_run.simps [simp del]

definition pmm_claim_idx :: "pmm \<Rightarrow> u32 \<Rightarrow> pmm" where
  "pmm_claim_idx p idx =
     (let p = frame_mark_used p idx in p\<lparr>s_refcount := (s_refcount p)[unat idx := 1]\<rparr>)"

definition pmm_alloc_contiguous_frames :: "pmm \<Rightarrow> u32 \<Rightarrow> u32 \<times> pmm" where
  "pmm_alloc_contiguous_frames p count =
     (if count = 0 \<or> count > s_free_count p \<or> count > s_managed_frames p then (0, p)
      else case pmm_find_run p count 0 of
        None \<Rightarrow> (0, p)
      | Some start \<Rightarrow>
          (let p = fold (\<lambda>off p. pmm_claim_idx p (start + of_nat off)) [0..<unat count] p;
               p = p\<lparr>s_free_count := s_free_count p - count\<rparr>;
               p = p\<lparr>s_next_free := (start + count) mod s_managed_frames p\<rparr>
           in (idx_to_addr start, p)))"

definition pmm_retain_frame :: "pmm \<Rightarrow> u32 \<Rightarrow> bool \<times> pmm" where
  "pmm_retain_frame p addr =
     (if addr < PMM_BASE \<or> addr \<ge> s_max_phys p then (False, p)
      else
        let idx = addr_to_idx addr in
        if \<not> frame_is_used p idx then (False, p)
        else if s_refcount p ! unat idx = 0xFFFF then (False, p)
        else (True, p\<lparr>s_refcount := (s_refcount p)[unat idx := s_refcount p ! unat idx + 1]\<rparr>))"

definition pmm_release_frame :: "pmm \<Rightarrow> u32 \<Rightarrow> pmm" where
  "pmm_release_frame p addr =
     (if addr < PMM_BASE \<or> addr \<ge> s_max_phys p then p
      else
        let idx = addr_to_idx addr in
        if \<not> frame_is_used p idx \<or> s_refcount p ! unat idx = 0 then p
        else
          let p = p\<lparr>s_refcount := (s_refcount p)[unat idx := s_refcount p ! unat idx - 1]\<rparr> in
          if s_refcount p ! unat idx = 0
          then (let p = frame_mark_free p idx;
                    p = p\<lparr>s_free_count := s_free_count p + 1\<rparr>
                in if idx < s_next_free p then p\<lparr>s_next_free := idx\<rparr> else p)
          else p)"

definition pmm_free_frame :: "pmm \<Rightarrow> u32 \<Rightarrow> pmm" where
  "pmm_free_frame p addr = pmm_release_frame p addr"

definition pmm_free_contiguous_frames :: "pmm \<Rightarrow> u32 \<Rightarrow> u32 \<Rightarrow> pmm" where
  "pmm_free_contiguous_frames p addr count =
     (if count = 0 then p
      else fold (\<lambda>off p. pmm_free_frame p (addr + of_nat off * PMM_FRAME_SIZE)) [0..<unat count] p)"

definition pmm_frame_refcount :: "pmm \<Rightarrow> u32 \<Rightarrow> u32" where
  "pmm_frame_refcount p addr =
     (if addr < PMM_BASE \<or> addr \<ge> s_max_phys p then 0
      else ucast (s_refcount p ! unat (addr_to_idx addr)))"

definition pmm_used_count :: "pmm \<Rightarrow> u32" where
  "pmm_used_count p =
     (if s_total_count p \<ge> s_free_count p then s_total_count p - s_free_count p else 0)"

definition pmm_shared_count :: "pmm \<Rightarrow> u32" where
  "pmm_shared_count p =
     fold (\<lambda>i count. if frame_is_used p (of_nat i) \<and> s_refcount p ! i > 1 then count + 1 else count)
       [0..<unat (s_managed_frames p)] 0"

definition pmm_largest_free_run :: "pmm \<Rightarrow> u32" where
  "pmm_largest_free_run p =
     fst (fold (\<lambda>i (best, cur).
            if \<not> frame_is_used p (of_nat i)
            then (let cur = cur + 1 in (if cur > best then cur else best, cur))
            else (best, 0))
          [0..<unat (s_managed_frames p)] (0, 0))"

section \<open>Invariant and abstraction\<close>

text \<open>
  The abstract state of the manager is the reference count of each managed frame, as a
  function of the frame's index; 0 is a free frame. The invariant ties the concrete state to
  it: the tables have the managed size, the bitmap bit of a frame is set exactly when its count
  is not 0, and the free counter is the number of clear bits.
\<close>

definition n_frames :: "pmm \<Rightarrow> nat" where
  "n_frames p = unat (s_managed_frames p)"

definition used :: "pmm \<Rightarrow> nat \<Rightarrow> bool" where
  "used p i = bit (s_bitmap p ! (i div 8)) (i mod 8)"

definition pmm_refs :: "pmm \<Rightarrow> nat \<Rightarrow> nat" where
  "pmm_refs p i = (if i < n_frames p then unat (s_refcount p ! i) else 0)"

definition pmm_wf :: "pmm \<Rightarrow> bool" where
  "pmm_wf p \<longleftrightarrow>
     0 < n_frames p \<and> n_frames p \<le> 65024 \<and>
     length (s_bitmap p) = (n_frames p + 7) div 8 \<and>
     unat (s_bitmap_bytes p) = (n_frames p + 7) div 8 \<and>
     length (s_refcount p) = n_frames p \<and>
     unat (s_max_phys p) = 0x200000 + 4096 * n_frames p"

definition pmm_inv :: "pmm \<Rightarrow> bool" where
  "pmm_inv p \<longleftrightarrow>
     pmm_wf p \<and>
     unat (s_next_free p) < n_frames p \<and>
     (\<forall>i < n_frames p. used p i \<longleftrightarrow> pmm_refs p i \<noteq> 0) \<and>
     unat (s_free_count p) = card {i. i < n_frames p \<and> pmm_refs p i = 0}"

text \<open>What no operation after boot changes.\<close>

definition same_window :: "pmm \<Rightarrow> pmm \<Rightarrow> bool" where
  "same_window p p' \<longleftrightarrow>
     s_managed_frames p' = s_managed_frames p \<and> s_max_phys p' = s_max_phys p \<and>
     s_bitmap_bytes p' = s_bitmap_bytes p \<and> s_total_count p' = s_total_count p \<and>
     s_ready p' = s_ready p"

lemma same_window_refl [simp]: "same_window p p"
  by (simp add: same_window_def)

lemma same_window_trans: "same_window p q \<Longrightarrow> same_window q r \<Longrightarrow> same_window p r"
  by (simp add: same_window_def)

lemma same_window_n_frames: "same_window p p' \<Longrightarrow> n_frames p' = n_frames p"
  by (simp add: same_window_def n_frames_def)

subsection \<open>Bits\<close>

lemma frame_is_used_iff: "frame_is_used p idx \<longleftrightarrow> used p (unat idx)"
  by (simp add: frame_is_used_def used_def unat_div unat_mod and_one_eq mod_2_eq_odd
      bit_iff_odd_drop_bit)

lemma bit_u8_one_shift: "k < 8 \<Longrightarrow> bit (2 ^ k :: u8) m \<longleftrightarrow> m = k"
  by (auto simp: bit_exp_iff)

lemma frame_mark_used_sel [simp]:
  "s_refcount (frame_mark_used p idx) = s_refcount p"
  "s_bitmap_bytes (frame_mark_used p idx) = s_bitmap_bytes p"
  "s_managed_frames (frame_mark_used p idx) = s_managed_frames p"
  "s_max_phys (frame_mark_used p idx) = s_max_phys p"
  "s_free_count (frame_mark_used p idx) = s_free_count p"
  "s_total_count (frame_mark_used p idx) = s_total_count p"
  "s_next_free (frame_mark_used p idx) = s_next_free p"
  "s_ready (frame_mark_used p idx) = s_ready p"
  "length (s_bitmap (frame_mark_used p idx)) = length (s_bitmap p)"
  by (simp_all add: frame_mark_used_def)

lemma frame_mark_free_sel [simp]:
  "s_refcount (frame_mark_free p idx) = s_refcount p"
  "s_bitmap_bytes (frame_mark_free p idx) = s_bitmap_bytes p"
  "s_managed_frames (frame_mark_free p idx) = s_managed_frames p"
  "s_max_phys (frame_mark_free p idx) = s_max_phys p"
  "s_free_count (frame_mark_free p idx) = s_free_count p"
  "s_total_count (frame_mark_free p idx) = s_total_count p"
  "s_next_free (frame_mark_free p idx) = s_next_free p"
  "s_ready (frame_mark_free p idx) = s_ready p"
  "length (s_bitmap (frame_mark_free p idx)) = length (s_bitmap p)"
  by (simp_all add: frame_mark_free_def)

lemma same_byte_iff: "(j :: nat) div 8 = i div 8 \<Longrightarrow> j mod 8 = i mod 8 \<longleftrightarrow> j = i"
  by (metis div_mult_mod_eq)

lemma used_frame_mark_used:
  assumes "pmm_wf p" "unat idx < n_frames p"
  shows "used (frame_mark_used p idx) j \<longleftrightarrow> j = unat idx \<or> used p j"
proof (cases "j div 8 = unat idx div 8")
  case True
  have "unat idx div 8 < length (s_bitmap p)"
    using assms by (auto simp: pmm_wf_def)
  with True show ?thesis
    by (auto simp: used_def frame_mark_used_def unat_div unat_mod bit_or_iff bit_u8_one_shift
        same_byte_iff)
next
  case False
  then show ?thesis
    by (auto simp: used_def frame_mark_used_def unat_div)
qed

lemma used_frame_mark_free:
  assumes "pmm_wf p" "unat idx < n_frames p"
  shows "used (frame_mark_free p idx) j \<longleftrightarrow> j \<noteq> unat idx \<and> used p j"
proof (cases "j div 8 = unat idx div 8")
  case True
  have "unat idx div 8 < length (s_bitmap p)"
    using assms by (auto simp: pmm_wf_def)
  moreover have "bit w (j mod 8) \<Longrightarrow> j mod 8 < 8" for w :: u8 by simp
  ultimately show ?thesis using True
    by (auto simp: used_def frame_mark_free_def unat_div unat_mod bit_and_iff bit_not_iff
        bit_u8_one_shift same_byte_iff)
next
  case False
  then show ?thesis
    by (auto simp: used_def frame_mark_free_def unat_div)
qed

subsection \<open>The two transitions every operation is made of\<close>

lemma card_free_claim:
  fixes r :: "nat \<Rightarrow> nat"
  assumes "i < n" "r i = 0" "v \<noteq> 0"
  shows "card {k. k < n \<and> (r(i := v)) k = 0} = card {k. k < n \<and> r k = 0} - 1"
    and "0 < card {k. k < n \<and> r k = 0}"
proof -
  have "{k. k < n \<and> (r(i := v)) k = 0} = {k. k < n \<and> r k = 0} - {i}"
    using assms by auto
  moreover have "i \<in> {k. k < n \<and> r k = 0}" "finite {k. k < n \<and> r k = 0}"
    using assms by auto
  ultimately show "card {k. k < n \<and> (r(i := v)) k = 0} = card {k. k < n \<and> r k = 0} - 1"
    "0 < card {k. k < n \<and> r k = 0}"
    by (auto simp: card_gt_0_iff)
qed

lemma card_free_release:
  fixes r :: "nat \<Rightarrow> nat"
  assumes "i < n" "r i \<noteq> 0"
  shows "card {k. k < n \<and> (r(i := 0)) k = 0} = Suc (card {k. k < n \<and> r k = 0})"
proof -
  have "{k. k < n \<and> (r(i := 0)) k = 0} = insert i {k. k < n \<and> r k = 0}"
    using assms by auto
  moreover have "i \<notin> {k. k < n \<and> r k = 0}" "finite {k. k < n \<and> r k = 0}"
    using assms by auto
  ultimately show ?thesis by simp
qed

lemma card_free_le: "card {k. k < n \<and> (r :: nat \<Rightarrow> nat) k = 0} \<le> n"
  using card_mono [of "{..<n}" "{k. k < n \<and> r k = 0}"] by auto

lemma refs_update:
  assumes "pmm_wf p" "i < n_frames p" "s_refcount p' = (s_refcount p)[i := v]" "same_window p p'"
  shows "pmm_refs p' = (pmm_refs p)(i := unat v)"
  using assms by (auto simp: fun_eq_iff pmm_refs_def pmm_wf_def same_window_n_frames)

lemma pmm_wf_update:
  assumes "pmm_wf p" "same_window p p'" "length (s_bitmap p') = length (s_bitmap p)"
    "length (s_refcount p') = length (s_refcount p)"
  shows "pmm_wf p'"
  using assms by (auto simp: pmm_wf_def same_window_def n_frames_def)

lemma unat_u32_pred: "unat x = n \<Longrightarrow> 0 < n \<Longrightarrow> unat ((x :: u32) - 1) = n - 1"
  by (metis neq0_conv unat_minus_one unat_0)

lemma unat_u32_succ: "unat x = n \<Longrightarrow> n < 4294967295 \<Longrightarrow> unat ((x :: u32) + 1) = Suc n"
  by (simp add: unat_add_u32)

text \<open>A free frame is taken.\<close>

lemma pmm_claim_step:
  assumes inv: "pmm_inv p" and i: "unat idx < n_frames p" and free: "pmm_refs p (unat idx) = 0"
    and bm: "s_bitmap p' = s_bitmap (frame_mark_used p idx)"
    and rc: "s_refcount p' = (s_refcount p)[unat idx := v]" and v: "v \<noteq> 0"
    and fc: "s_free_count p' = s_free_count p - 1"
    and win: "same_window p p'" and nf: "unat (s_next_free p') < n_frames p"
  shows "pmm_inv p'" and "pmm_refs p' = (pmm_refs p)(unat idx := unat v)"
proof -
  have wf: "pmm_wf p" using inv by (simp add: pmm_inv_def)
  show refs: "pmm_refs p' = (pmm_refs p)(unat idx := unat v)"
    by (rule refs_update [OF wf i rc win])
  have wf': "pmm_wf p'"
    by (rule pmm_wf_update [OF wf win]) (simp_all add: bm rc)
  have v0: "unat v \<noteq> 0" using v by (simp add: unat_eq_0)
  have u: "used p' j \<longleftrightarrow> j = unat idx \<or> used p j" for j
    using used_frame_mark_used [OF wf i, of j] by (simp add: used_def bm)
  have "unat (s_free_count p') = card {k. k < n_frames p \<and> pmm_refs p' k = 0}"
    unfolding fc refs using card_free_claim [of "unat idx" _ "pmm_refs p", OF i free v0] inv
    by (simp add: unat_u32_pred pmm_inv_def)
  then show "pmm_inv p'"
    using inv wf' u v0 nf by (auto simp: pmm_inv_def refs same_window_n_frames [OF win])
qed

text \<open>A used frame becomes free.\<close>

lemma pmm_free_step:
  assumes inv: "pmm_inv p" and i: "unat idx < n_frames p" and busy: "pmm_refs p (unat idx) \<noteq> 0"
    and bm: "s_bitmap p' = s_bitmap (frame_mark_free p idx)"
    and rc: "s_refcount p' = (s_refcount p)[unat idx := 0]"
    and fc: "s_free_count p' = s_free_count p + 1"
    and win: "same_window p p'" and nf: "unat (s_next_free p') < n_frames p"
  shows "pmm_inv p'" and "pmm_refs p' = (pmm_refs p)(unat idx := 0)"
proof -
  have wf: "pmm_wf p" using inv by (simp add: pmm_inv_def)
  show refs: "pmm_refs p' = (pmm_refs p)(unat idx := 0)"
    using refs_update [OF wf i rc win] by simp
  have wf': "pmm_wf p'"
    by (rule pmm_wf_update [OF wf win]) (simp_all add: bm rc)
  have u: "used p' j \<longleftrightarrow> j \<noteq> unat idx \<and> used p j" for j
    using used_frame_mark_free [OF wf i, of j] by (simp add: used_def bm)
  have "card {k. k < n_frames p \<and> pmm_refs p k = 0} \<le> 65024"
    using card_free_le [of "n_frames p" "pmm_refs p"] wf by (simp add: pmm_wf_def)
  then have "unat (s_free_count p') = card {k. k < n_frames p \<and> pmm_refs p' k = 0}"
    unfolding fc refs card_free_release [of "unat idx" _ "pmm_refs p", OF i busy] using inv
    by (intro unat_u32_succ) (auto simp: pmm_inv_def)
  then show "pmm_inv p'"
    using inv wf' u nf by (auto simp: pmm_inv_def refs same_window_n_frames [OF win])
qed

text \<open>A count changes between values that are not 0.\<close>

lemma pmm_recount_step:
  assumes inv: "pmm_inv p" and i: "unat idx < n_frames p" and busy: "pmm_refs p (unat idx) \<noteq> 0"
    and v: "v \<noteq> 0" and p': "p' = p\<lparr>s_refcount := (s_refcount p)[unat idx := v]\<rparr>"
  shows "pmm_inv p'" and "pmm_refs p' = (pmm_refs p)(unat idx := unat v)" and "same_window p p'"
proof -
  have wf: "pmm_wf p" using inv by (simp add: pmm_inv_def)
  show win: "same_window p p'" by (simp add: p' same_window_def)
  show refs: "pmm_refs p' = (pmm_refs p)(unat idx := unat v)"
    by (rule refs_update [OF wf i _ win]) (simp add: p')
  have wf': "pmm_wf p'"
    by (rule pmm_wf_update [OF wf win]) (simp_all add: p')
  have v0: "unat v \<noteq> 0" using v by (simp add: unat_eq_0)
  have "used p' j = used p j" for j by (simp add: used_def p')
  moreover have "{k. k < n_frames p \<and> pmm_refs p' k = 0} = {k. k < n_frames p \<and> pmm_refs p k = 0}"
    using busy v0 by (auto simp: refs)
  ultimately show "pmm_inv p'"
    using inv wf' busy v0 same_window_n_frames [OF win]
    by (auto simp: pmm_inv_def refs) (simp_all add: p')
qed

section \<open>Frame addresses\<close>

text \<open>The physical address of frame \<open>i\<close>, as a natural number.\<close>

definition frame_base :: "nat \<Rightarrow> nat" where
  "frame_base i = 0x200000 + 4096 * i"

definition pmm_managed :: "pmm \<Rightarrow> u32 \<Rightarrow> bool" where
  "pmm_managed p addr \<longleftrightarrow> PMM_BASE \<le> addr \<and> addr < s_max_phys p"

lemma unat_PMM_BASE [simp]: "unat PMM_BASE = 0x200000"
  by (simp add: PMM_BASE_def)

lemma unat_addr_to_idx:
  "PMM_BASE \<le> addr \<Longrightarrow> unat (addr_to_idx addr) = (unat addr - 0x200000) div 4096"
  by (simp add: addr_to_idx_def PMM_FRAME_SIZE_def unat_div unat_sub_u32)

lemma addr_to_idx_bound:
  "pmm_wf p \<Longrightarrow> pmm_managed p addr \<Longrightarrow> unat (addr_to_idx addr) < n_frames p"
  by (auto simp: pmm_managed_def unat_addr_to_idx pmm_wf_def word_less_nat_alt word_le_nat_alt
      less_mult_imp_div_less)

lemma unat_idx_to_addr:
  "unat idx < 65024 \<Longrightarrow> unat (idx_to_addr idx) = frame_base (unat idx)"
  by (simp add: idx_to_addr_def PMM_FRAME_SIZE_def frame_base_def unat_add_u32 unat_mult_u32)

lemma idx_to_addr_managed:
  assumes "pmm_wf p" "unat idx < n_frames p"
  shows "pmm_managed p (idx_to_addr idx)" "addr_to_idx (idx_to_addr idx) = idx"
    "page_aligned (idx_to_addr idx)" "idx_to_addr idx \<noteq> 0"
proof -
  have a: "unat (idx_to_addr idx) = frame_base (unat idx)"
    using assms by (simp add: unat_idx_to_addr pmm_wf_def)
  then show m: "pmm_managed p (idx_to_addr idx)"
    using assms by (auto simp: pmm_managed_def word_le_nat_alt word_less_nat_alt frame_base_def pmm_wf_def)
  have "unat (addr_to_idx (idx_to_addr idx)) = unat idx"
    using m a by (simp add: unat_addr_to_idx pmm_managed_def frame_base_def)
  then show "addr_to_idx (idx_to_addr idx) = idx" by (rule unsigned_word_eqI)
  have "frame_base (unat idx) = 4096 * (512 + unat idx)" by (simp add: frame_base_def)
  then show "page_aligned (idx_to_addr idx)" unfolding page_aligned_dvd a by (metis dvd_triv_left)
  show "idx_to_addr idx \<noteq> 0" using a by (auto simp: frame_base_def)
qed

lemma idx_to_addr_to_idx:
  assumes "pmm_wf p" "pmm_managed p addr" "page_aligned addr"
  shows "idx_to_addr (addr_to_idx addr) = addr"
proof (rule unsigned_word_eqI)
  have b: "unat (addr_to_idx addr) < n_frames p" using assms(1,2) by (rule addr_to_idx_bound)
  from assms(3) obtain k where k: "unat addr = 4096 * k" by (auto simp: page_aligned_dvd)
  have "512 \<le> k" using assms(2) k by (simp add: pmm_managed_def word_le_nat_alt)
  then have "unat (addr_to_idx addr) = k - 512"
    using assms(2) k by (simp add: unat_addr_to_idx pmm_managed_def)
  with b \<open>512 \<le> k\<close> k show "unat (idx_to_addr (addr_to_idx addr)) = unat addr"
    using assms(1) by (simp add: unat_idx_to_addr frame_base_def pmm_wf_def)
qed

lemma same_window_managed: "same_window p p' \<Longrightarrow> pmm_managed p' = pmm_managed p"
  by (simp add: fun_eq_iff pmm_managed_def same_window_def)

section \<open>Marking\<close>

lemma pmm_inv_wf: "pmm_inv p \<Longrightarrow> pmm_wf p"
  by (simp add: pmm_inv_def)

lemma pmm_used_iff: "pmm_inv p \<Longrightarrow> unat idx < n_frames p \<Longrightarrow>
    frame_is_used p idx \<longleftrightarrow> pmm_refs p (unat idx) \<noteq> 0"
  by (simp add: frame_is_used_iff pmm_inv_def)

lemma pmm_refcount_0_iff: "unat idx < n_frames p \<Longrightarrow>
    s_refcount p ! unat idx = 0 \<longleftrightarrow> pmm_refs p (unat idx) = 0"
  by (simp add: pmm_refs_def unat_eq_0)

lemma pmm_free_count_pos:
  assumes "pmm_inv p" "i < n_frames p" "pmm_refs p i = 0"
  shows "0 < unat (s_free_count p)"
  using assms card_free_claim(2) [of i "n_frames p" "pmm_refs p" 1] by (simp add: pmm_inv_def)

lemma pmm_mark_idx_used:
  assumes inv: "pmm_inv p" and i: "unat idx < n_frames p"
  shows "pmm_inv (pmm_mark_idx_used p idx)"
    and "pmm_refs (pmm_mark_idx_used p idx) = (pmm_refs p)(unat idx := max 1 (pmm_refs p (unat idx)))"
    and "same_window p (pmm_mark_idx_used p idx)"
proof -
  let ?p' = "pmm_mark_idx_used p idx"
  have "pmm_inv ?p' \<and>
    pmm_refs ?p' = (pmm_refs p)(unat idx := max 1 (pmm_refs p (unat idx))) \<and> same_window p ?p'"
  proof (cases "pmm_refs p (unat idx) = 0")
    case True
    then have free: "\<not> frame_is_used p idx" "s_refcount p ! unat idx = 0"
      by (simp_all add: pmm_used_iff [OF inv i] pmm_refcount_0_iff [OF i])
    have "0 < s_free_count p"
      using pmm_free_count_pos [OF inv i True] by (simp add: word_less_nat_alt)
    then have p': "?p' = (frame_mark_used p idx)\<lparr>s_free_count := s_free_count p - 1,
        s_refcount := (s_refcount p)[unat idx := 1]\<rparr>"
      using free by (simp add: pmm_mark_idx_used_def)
    have win: "same_window p ?p'" by (simp add: p' same_window_def)
    have nf: "unat (s_next_free ?p') < n_frames p" using inv by (simp add: p' pmm_inv_def)
    show ?thesis
      using pmm_claim_step [OF inv i True, of ?p' 1] win nf True by (simp add: p')
  next
    case False
    then have "?p' = p"
      by (simp add: pmm_mark_idx_used_def pmm_used_iff [OF inv i] pmm_refcount_0_iff [OF i])
    with inv False show ?thesis by (simp add: max_def fun_upd_idem)
  qed
  then show "pmm_inv ?p'" "pmm_refs ?p' = (pmm_refs p)(unat idx := max 1 (pmm_refs p (unat idx)))"
    "same_window p ?p'" by blast+
qed

lemma pmm_mark_idx_free:
  assumes inv: "pmm_inv p" and i: "unat idx < n_frames p"
  shows "pmm_inv (pmm_mark_idx_free p idx)"
    and "pmm_refs (pmm_mark_idx_free p idx) = (pmm_refs p)(unat idx := 0)"
    and "same_window p (pmm_mark_idx_free p idx)"
proof -
  let ?p' = "pmm_mark_idx_free p idx"
  have "pmm_inv ?p' \<and> pmm_refs ?p' = (pmm_refs p)(unat idx := 0) \<and> same_window p ?p'"
  proof (cases "pmm_refs p (unat idx) = 0")
    case True
    then have "\<not> frame_is_used p idx" "s_refcount p ! unat idx = 0"
      by (simp_all add: pmm_used_iff [OF inv i] pmm_refcount_0_iff [OF i])
    then have "?p' = p"
      by (simp add: pmm_mark_idx_free_def) (metis list_update_id pmm.surjective pmm.update_convs(2))
    with inv True show ?thesis by (simp add: fun_upd_idem)
  next
    case False
    then have busy: "frame_is_used p idx" by (simp add: pmm_used_iff [OF inv i])
    have win: "same_window p ?p'"
      using busy by (simp add: pmm_mark_idx_free_def same_window_def Let_def)
    have nf: "unat (s_next_free ?p') < n_frames p"
      using busy inv i by (simp add: pmm_mark_idx_free_def Let_def pmm_inv_def)
    have "s_bitmap ?p' = s_bitmap (frame_mark_free p idx)"
      "s_refcount ?p' = (s_refcount p)[unat idx := 0]" "s_free_count ?p' = s_free_count p + 1"
      using busy by (simp_all add: pmm_mark_idx_free_def Let_def)
    then show ?thesis using pmm_free_step [OF inv i False, of ?p'] win nf by simp
  qed
  then show "pmm_inv ?p'" "pmm_refs ?p' = (pmm_refs p)(unat idx := 0)" "same_window p ?p'"
    by blast+
qed

text \<open>Marking every frame of a list of managed addresses.\<close>

lemma pmm_mark_used_fold:
  assumes "pmm_inv p" "\<And>a. a \<in> set xs \<Longrightarrow> pmm_managed p a"
  defines "p' \<equiv> fold (\<lambda>addr p. pmm_mark_idx_used p (addr_to_idx addr)) xs p"
  shows "pmm_inv p' \<and> same_window p p' \<and>
    pmm_refs p' = (\<lambda>i. if i \<in> (\<lambda>a. unat (addr_to_idx a)) ` set xs then max 1 (pmm_refs p i) else pmm_refs p i)"
  using assms(1,2) unfolding p'_def
proof (induction xs arbitrary: p)
  case Nil
  then show ?case by simp
next
  case (Cons a xs)
  let ?q = "pmm_mark_idx_used p (addr_to_idx a)"
  have i: "unat (addr_to_idx a) < n_frames p"
    using Cons.prems by (simp add: addr_to_idx_bound pmm_inv_wf)
  note q = pmm_mark_idx_used [OF Cons.prems(1) i]
  have "\<And>b. b \<in> set xs \<Longrightarrow> pmm_managed ?q b"
    using Cons.prems(2) same_window_managed [OF q(3)] by simp
  from Cons.IH [OF q(1) this] q(2,3) show ?case
    by (auto simp: fun_eq_iff intro: same_window_trans)
qed

lemma pmm_mark_free_fold:
  assumes "pmm_inv p" "\<And>a. a \<in> set xs \<Longrightarrow> pmm_managed p a"
  defines "p' \<equiv> fold (\<lambda>addr p. pmm_mark_idx_free p (addr_to_idx addr)) xs p"
  shows "pmm_inv p' \<and> same_window p p' \<and>
    pmm_refs p' = (\<lambda>i. if i \<in> (\<lambda>a. unat (addr_to_idx a)) ` set xs then 0 else pmm_refs p i)"
  using assms(1,2) unfolding p'_def
proof (induction xs arbitrary: p)
  case Nil
  then show ?case by simp
next
  case (Cons a xs)
  let ?q = "pmm_mark_idx_free p (addr_to_idx a)"
  have i: "unat (addr_to_idx a) < n_frames p"
    using Cons.prems by (simp add: addr_to_idx_bound pmm_inv_wf)
  note q = pmm_mark_idx_free [OF Cons.prems(1) i]
  have "\<And>b. b \<in> set xs \<Longrightarrow> pmm_managed ?q b"
    using Cons.prems(2) same_window_managed [OF q(3)] by simp
  from Cons.IH [OF q(1) this] q(2,3) show ?case
    by (auto simp: fun_eq_iff intro: same_window_trans)
qed

text \<open>The frames a page-aligned range inside the managed window covers.\<close>

lemma page_addrs_frames:
  assumes wf: "pmm_wf p" and al: "page_aligned s" "page_aligned e"
    and lo: "PMM_BASE \<le> s" and hi: "e \<le> s_max_phys p"
  shows "\<And>a. a \<in> set (page_addrs s e) \<Longrightarrow> pmm_managed p a"
    and "i \<in> (\<lambda>a. unat (addr_to_idx a)) ` set (page_addrs s e) \<longleftrightarrow>
           i < n_frames p \<and> unat s \<le> frame_base i \<and> frame_base i < unat e"
proof -
  note set_eq = set_page_addrs_aligned [OF al]
  show m: "\<And>a. a \<in> set (page_addrs s e) \<Longrightarrow> pmm_managed p a"
    using lo hi by (auto simp: set_eq pmm_managed_def)
  have fb: "unat a = frame_base (unat (addr_to_idx a))" if "a \<in> set (page_addrs s e)" for a
    using idx_to_addr_to_idx [OF wf m [OF that]] addr_to_idx_bound [OF wf m [OF that]] that wf
      unat_idx_to_addr [of "addr_to_idx a"]
    by (auto simp: set_eq pmm_wf_def)
  show "i \<in> (\<lambda>a. unat (addr_to_idx a)) ` set (page_addrs s e) \<longleftrightarrow>
           i < n_frames p \<and> unat s \<le> frame_base i \<and> frame_base i < unat e" (is "?L \<longleftrightarrow> ?R")
  proof
    assume ?L
    then obtain a where a: "a \<in> set (page_addrs s e)" "i = unat (addr_to_idx a)" by auto
    with fb [OF a(1)] addr_to_idx_bound [OF wf m [OF a(1)]] show ?R
      by (auto simp: set_eq word_le_nat_alt word_less_nat_alt)
  next
    assume R: ?R
    let ?a = "idx_to_addr (of_nat i)"
    have i: "unat (of_nat i :: u32) = i" using R wf by (simp add: pmm_wf_def unat_of_nat_u32)
    then have a: "unat ?a = frame_base i" "addr_to_idx ?a = of_nat i" "page_aligned ?a"
      using R wf idx_to_addr_managed [OF wf, of "of_nat i"] unat_idx_to_addr [of "of_nat i"]
      by (auto simp: pmm_wf_def)
    then have "?a \<in> set (page_addrs s e)"
      using R by (simp add: set_eq word_le_nat_alt word_less_nat_alt)
    then show ?L using a(2) i by force
  qed
qed

lemma unat_round_down: "unat (round_down_frame a) = unat a div 4096 * 4096"
  by (simp add: round_down_frame_def PMM_FRAME_SIZE_def unat_page_floor')

lemma unat_round_up:
  "unat a \<le> 0x10000000 \<Longrightarrow> unat (round_up_frame a) = (unat a + 4095) div 4096 * 4096"
proof -
  assume "unat a \<le> 0x10000000"
  then have "unat (4095 + a) = unat a + 4095" by (simp add: unat_add_u32)
  then show ?thesis
    by (simp add: round_up_frame_def PMM_FRAME_SIZE_def unat_page_floor')
qed

lemma page_aligned_round [simp]: "page_aligned (round_down_frame a)" "page_aligned (round_up_frame a)"
  using page_aligned_floor by (simp_all add: round_down_frame_def round_up_frame_def PMM_FRAME_SIZE_def)

lemma floor_le_page_iff: "(a :: nat) div 4096 * 4096 \<le> 4096 * k \<longleftrightarrow> a < 4096 * Suc k"
  using div_less_iff_less_mult [of 4096 a "Suc k"] by (simp add: less_Suc_eq_le mult.commute)

lemma frame_base_pages: "frame_base i = 4096 * (512 + i)"
  by (simp add: frame_base_def)

lemma floor_le_frame_iff: "a div 4096 * 4096 \<le> frame_base i \<longleftrightarrow> a < frame_base (Suc i)"
  using floor_le_page_iff [of a "512 + i"] by (simp add: frame_base_pages)

lemma ceil_le_frame_iff: "(a + 4095) div 4096 * 4096 \<le> frame_base i \<longleftrightarrow> a \<le> frame_base i"
  using floor_le_page_iff [of "a + 4095" "512 + i"] by (simp add: frame_base_pages) linarith

lemma frame_less_ceil_iff: "frame_base i < (a + 4095) div 4096 * 4096 \<longleftrightarrow> frame_base i < a"
  using ceil_le_frame_iff [of a i] by linarith

lemma frame_less_floor_iff: "frame_base i < a div 4096 * 4096 \<longleftrightarrow> frame_base (Suc i) \<le> a"
  using floor_le_frame_iff [of a i] by linarith

lemma frame_base_window:
  "pmm_wf p \<Longrightarrow> i < n_frames p \<Longrightarrow>
    0x200000 \<le> frame_base i \<and> frame_base (Suc i) \<le> unat (s_max_phys p)"
  by (auto simp: frame_base_def pmm_wf_def)

lemma frame_base_Suc_gt: "0x200000 < frame_base (Suc i)" "frame_base i < frame_base (Suc i)"
  by (simp_all add: frame_base_def)

lemma pmm_max_phys_bound: "pmm_wf p \<Longrightarrow> unat (s_max_phys p) \<le> 0x10000000"
  by (auto simp: pmm_wf_def)

lemma pmm_mark_range_used:
  assumes inv: "pmm_inv p"
  shows "pmm_inv (pmm_mark_range_used p start end') \<and>
    same_window p (pmm_mark_range_used p start end') \<and>
    pmm_refs (pmm_mark_range_used p start end') =
      (\<lambda>i. if i < n_frames p \<and> unat start < frame_base (Suc i) \<and> frame_base i < unat end'
           then max 1 (pmm_refs p i) else pmm_refs p i)"
proof (cases "end' \<le> PMM_BASE \<or> start \<ge> s_max_phys p")
  case True
  have "\<not> (i < n_frames p \<and> unat start < frame_base (Suc i) \<and> frame_base i < unat end')" for i
    using True frame_base_window [OF pmm_inv_wf [OF inv], of i] by (auto simp: word_le_nat_alt)
  with True inv show ?thesis by (auto simp: pmm_mark_range_used_def fun_eq_iff)
next
  case False
  have wf: "pmm_wf p" using inv by (rule pmm_inv_wf)
  define s where "s = (if start < PMM_BASE then PMM_BASE else start)"
  define e where "e = (if end' > s_max_phys p then s_max_phys p else end')"
  have us: "unat s = max (unat start) 0x200000"
    by (auto simp: s_def word_less_nat_alt)
  have ue: "unat e = min (unat end') (unat (s_max_phys p))"
    by (auto simp: e_def word_less_nat_alt)
  have e_le: "unat e \<le> 0x10000000" "e \<le> s_max_phys p"
    using pmm_max_phys_bound [OF wf] by (simp_all add: word_le_nat_alt ue)
  have lo: "PMM_BASE \<le> round_down_frame s"
    using div_le_mono [of 2097152 "unat s" 4096] us by (simp add: word_le_nat_alt unat_round_down)
  have hi: "round_up_frame e \<le> s_max_phys p"
    using div_le_mono [of "unat e + 4095" "4096 * (512 + n_frames p) + 4095" 4096] e_le(2) wf
    by (simp add: word_le_nat_alt unat_round_up [OF e_le(1)] pmm_wf_def)
  note fr = page_addrs_frames [OF wf _ _ lo hi]
  have cover: "i < n_frames p \<and> unat (round_down_frame s) \<le> frame_base i \<and> frame_base i < unat (round_up_frame e) \<longleftrightarrow>
      i < n_frames p \<and> unat start < frame_base (Suc i) \<and> frame_base i < unat end'" for i
    using frame_base_window [OF wf, of i] frame_base_Suc_gt [of i]
    unfolding unat_round_down unat_round_up [OF e_le(1)] floor_le_frame_iff frame_less_ceil_iff us ue
    by auto
  have eq: "pmm_mark_range_used p start end' =
      fold (\<lambda>addr p. pmm_mark_idx_used p (addr_to_idx addr))
        (page_addrs (round_down_frame s) (round_up_frame e)) p"
    using False by (auto simp: pmm_mark_range_used_def s_def e_def Let_def)
  show ?thesis
    unfolding eq using pmm_mark_used_fold [OF inv fr(1)] fr(2) cover by simp
qed

lemma pmm_mark_range_free:
  assumes inv: "pmm_inv p"
  shows "pmm_inv (pmm_mark_range_free p start end') \<and>
    same_window p (pmm_mark_range_free p start end') \<and>
    pmm_refs (pmm_mark_range_free p start end') =
      (\<lambda>i. if i < n_frames p \<and> unat start \<le> frame_base i \<and> frame_base (Suc i) \<le> unat end'
           then 0 else pmm_refs p i)"
proof (cases "end' \<le> PMM_BASE \<or> start \<ge> s_max_phys p")
  case True
  have "\<not> (i < n_frames p \<and> unat start \<le> frame_base i \<and> frame_base (Suc i) \<le> unat end')" for i
    using True frame_base_window [OF pmm_inv_wf [OF inv], of i] frame_base_Suc_gt [of i]
    by (auto simp: word_le_nat_alt)
  with True inv show ?thesis by (auto simp: pmm_mark_range_free_def fun_eq_iff)
next
  case False
  have wf: "pmm_wf p" using inv by (rule pmm_inv_wf)
  define s where "s = (if start < PMM_BASE then PMM_BASE else start)"
  define e where "e = (if end' > s_max_phys p then s_max_phys p else end')"
  have us: "unat s = max (unat start) 0x200000"
    by (auto simp: s_def word_less_nat_alt)
  have ue: "unat e = min (unat end') (unat (s_max_phys p))"
    by (auto simp: e_def word_less_nat_alt)
  have s_le: "unat s \<le> 0x10000000"
    using False pmm_max_phys_bound [OF wf] us by (simp add: word_le_nat_alt)
  have e_le: "e \<le> s_max_phys p" by (simp add: word_le_nat_alt ue)
  have lo: "PMM_BASE \<le> round_up_frame s"
    using div_le_mono [of 2097152 "unat s + 4095" 4096] us
    by (simp add: word_le_nat_alt unat_round_up [OF s_le])
  have hi: "round_down_frame e \<le> s_max_phys p"
    using e_le div_times_less_eq_dividend [of "unat e" 4096] by (simp add: word_le_nat_alt unat_round_down)
  note fr = page_addrs_frames [OF wf _ _ lo hi]
  have cover: "i < n_frames p \<and> unat (round_up_frame s) \<le> frame_base i \<and> frame_base i < unat (round_down_frame e) \<longleftrightarrow>
      i < n_frames p \<and> unat start \<le> frame_base i \<and> frame_base (Suc i) \<le> unat end'" for i
    using frame_base_window [OF wf, of i]
    unfolding unat_round_down unat_round_up [OF s_le] ceil_le_frame_iff frame_less_floor_iff us ue
    by auto
  have eq: "pmm_mark_range_free p start end' =
      fold (\<lambda>addr p. pmm_mark_idx_free p (addr_to_idx addr))
        (page_addrs (round_up_frame s) (round_down_frame e)) p"
    using False by (auto simp: pmm_mark_range_free_def s_def e_def Let_def)
  show ?thesis
    unfolding eq using pmm_mark_free_fold [OF inv fr(1)] fr(2) cover by simp
qed

section \<open>Allocation\<close>

text \<open>
  The scan of \<^verbatim>\<open>pmm_alloc_frame\<close> visits every managed frame once, so it finds a free frame
  whenever one exists.
\<close>

lemma pmm_scan_order_unat:
  assumes "pmm_wf p" "unat (s_next_free p) < n_frames p"
  shows "map unat (pmm_scan_order p) =
    map (\<lambda>i. (unat (s_next_free p) + i) mod n_frames p) [0..<n_frames p]"
  using assms
  by (auto simp: pmm_scan_order_def pmm_wf_def unat_mod unat_add_u32 unat_of_nat_u32 simp flip: n_frames_def)

lemma set_pmm_scan_order:
  assumes "pmm_wf p" "unat (s_next_free p) < n_frames p"
  shows "unat ` set (pmm_scan_order p) = {..<n_frames p}"
proof -
  let ?k = "unat (s_next_free p)" and ?n = "n_frames p"
  have "unat ` set (pmm_scan_order p) = (\<lambda>i. (?k + i) mod ?n) ` {..<?n}"
    using arg_cong [OF pmm_scan_order_unat [OF assms], of set] by (simp add: lessThan_atLeast0)
  also have "\<dots> = {..<?n}"
  proof
    show "(\<lambda>i. (?k + i) mod ?n) ` {..<?n} \<subseteq> {..<?n}" using assms by auto
    show "{..<?n} \<subseteq> (\<lambda>i. (?k + i) mod ?n) ` {..<?n}"
    proof
      fix j assume j: "j \<in> {..<?n}"
      let ?i = "(?n - ?k + j) mod ?n"
      have "(?k + ?i) mod ?n = (?n + j) mod ?n"
        using assms by (simp add: mod_add_right_eq)
      also have "\<dots> = j" using j by simp
      finally show "j \<in> (\<lambda>i. (?k + i) mod ?n) ` {..<?n}"
        using assms by (intro image_eqI [of _ _ ?i]) auto
    qed
  qed
  finally show ?thesis .
qed

lemma pmm_alloc_frame_cases:
  assumes inv: "pmm_inv p"
  obtains (full) "pmm_alloc_frame p = (0, p)" "\<And>i. i < n_frames p \<Longrightarrow> pmm_refs p i \<noteq> 0"
  | (frame) idx p' where "pmm_alloc_frame p = (idx_to_addr idx, p')" "unat idx < n_frames p"
      "pmm_refs p (unat idx) = 0" "pmm_inv p'" "same_window p p'"
      "pmm_refs p' = (pmm_refs p)(unat idx := 1)" "s_free_count p' = s_free_count p - 1"
proof (cases "s_free_count p = 0")
  case True
  then have "card {i. i < n_frames p \<and> pmm_refs p i = 0} = 0"
    using inv by (simp add: pmm_inv_def)
  then have "\<And>i. i < n_frames p \<Longrightarrow> pmm_refs p i \<noteq> 0" by auto
  with True show ?thesis by (intro full) (auto simp: pmm_alloc_frame_def)
next
  case False
  have wf: "pmm_wf p" and nf: "unat (s_next_free p) < n_frames p"
    using inv by (simp_all add: pmm_inv_def)
  have "card {i. i < n_frames p \<and> pmm_refs p i = 0} \<noteq> 0"
    using inv False unat_eq_0 [of "s_free_count p"] by (simp add: pmm_inv_def)
  then obtain i where i: "i < n_frames p" "pmm_refs p i = 0" by (auto simp: card_eq_0_iff)
  have "\<exists>idx \<in> set (pmm_scan_order p). \<not> frame_is_used p idx"
  proof -
    have "i \<in> unat ` set (pmm_scan_order p)"
      using set_pmm_scan_order [OF wf nf] i(1) by simp
    then obtain idx where "idx \<in> set (pmm_scan_order p)" "unat idx = i" by auto
    then show ?thesis using pmm_used_iff [OF inv, of idx] i by auto
  qed
  then obtain idx where find: "List.find (\<lambda>idx. \<not> frame_is_used p idx) (pmm_scan_order p) = Some idx"
    by (cases "List.find (\<lambda>idx. \<not> frame_is_used p idx) (pmm_scan_order p)") (auto simp: find_None_iff)
  then have fu: "\<not> frame_is_used p idx" and "idx \<in> set (pmm_scan_order p)"
    by (auto simp: find_Some_iff in_set_conv_nth)
  then have b: "unat idx < n_frames p" using set_pmm_scan_order [OF wf nf] by auto
  let ?p' = "snd (pmm_alloc_frame p)"
  have alloc: "pmm_alloc_frame p = (idx_to_addr idx, ?p')"
    using False find by (simp add: pmm_alloc_frame_def Let_def)
  have free: "pmm_refs p (unat idx) = 0" using fu by (simp add: pmm_used_iff [OF inv b])
  have win: "same_window p ?p'"
    using False find by (simp add: pmm_alloc_frame_def Let_def same_window_def)
  have "unat (s_next_free ?p') < n_frames p"
    using False find wf by (simp add: pmm_alloc_frame_def Let_def unat_mod pmm_wf_def n_frames_def)
  then have "pmm_inv ?p'" "pmm_refs ?p' = (pmm_refs p)(unat idx := 1)"
    using pmm_claim_step [OF inv b free, of ?p' 1] win False find
    by (simp_all add: pmm_alloc_frame_def Let_def)
  moreover have "s_free_count ?p' = s_free_count p - 1"
    using False find by (simp add: pmm_alloc_frame_def Let_def)
  ultimately show ?thesis using frame [OF alloc b free _ win] by simp
qed

end
