(* ===== verification/Pmm_Correct.thy ===== *)
theory Pmm_Correct
  imports Pmm
begin

text \<open>
  Correctness of the allocator operations of \<^verbatim>\<open>src/kernel/pmm.c\<close>: retaining and releasing
  single frames, the first-fit search for contiguous frames and the statistics over the tables,
  all stated on the reference counts \<^const>\<open>pmm_refs\<close>.
\<close>

section \<open>Retain and release\<close>

lemma pmm_managed_not: "\<not> pmm_managed p addr \<longleftrightarrow> addr < PMM_BASE \<or> addr \<ge> s_max_phys p"
  by (auto simp: pmm_managed_def)

lemma unat_u16_pred: "unat (w :: u16) = n \<Longrightarrow> 0 < n \<Longrightarrow> unat (w - 1) = n - 1"
  by (metis neq0_conv unat_minus_one unat_0)

lemma unat_eq_of_nat_u16: "unat (w :: u16) = 65535 \<Longrightarrow> w = 0xFFFF"
  by (rule unsigned_word_eqI) simp

lemma unat_u16_succ: "(w :: u16) \<noteq> 0xFFFF \<Longrightarrow> unat (w + 1) = Suc (unat w)"
proof -
  assume "w \<noteq> 0xFFFF"
  then have "unat w \<noteq> 65535" by (metis unat_eq_of_nat_u16)
  moreover have "unat w < 65536" using unsigned_less [where 'a = nat, of w] by simp
  ultimately show ?thesis by (simp add: unat_word_ariths)
qed

lemma pmm_retain_frame_spec:
  assumes inv: "pmm_inv p"
  shows "case pmm_retain_frame p addr of
      (True, p') \<Rightarrow> pmm_inv p' \<and> same_window p p' \<and> pmm_managed p addr \<and>
        0 < pmm_refs p (unat (addr_to_idx addr)) \<and>
        pmm_refs p' = (pmm_refs p)(unat (addr_to_idx addr) := Suc (pmm_refs p (unat (addr_to_idx addr))))
    | (False, p') \<Rightarrow> p' = p \<and> (\<not> pmm_managed p addr \<or>
        pmm_refs p (unat (addr_to_idx addr)) \<in> {0, 0xFFFF})"
proof (cases "pmm_managed p addr")
  case False
  then show ?thesis by (simp add: pmm_retain_frame_def pmm_managed_not)
next
  case True
  let ?i = "addr_to_idx addr" and ?w = "s_refcount p ! unat (addr_to_idx addr)"
  have i: "unat ?i < n_frames p" by (rule addr_to_idx_bound [OF pmm_inv_wf [OF inv] True])
  have refs: "pmm_refs p (unat ?i) = unat ?w" using i by (simp add: pmm_refs_def)
  show ?thesis
  proof (cases "pmm_refs p (unat ?i) = 0 \<or> ?w = 0xFFFF")
    case True': True
    then show ?thesis
      using True refs by (auto simp: pmm_retain_frame_def pmm_used_iff [OF inv i] Let_def)
  next
    case False
    then have w: "unat (?w + 1) = Suc (unat ?w)" by (intro unat_u16_succ) simp
    then have nz: "?w + 1 \<noteq> 0" by (metis nat.distinct(1) unat_0)
    from False True have "pmm_retain_frame p addr =
        (True, p\<lparr>s_refcount := (s_refcount p)[unat ?i := ?w + 1]\<rparr>)"
      by (auto simp: pmm_retain_frame_def pmm_used_iff [OF inv i] Let_def pmm_managed_def)
    then show ?thesis
      using pmm_recount_step [OF inv i _ nz refl] False True w refs by auto
  qed
qed

lemma pmm_release_frame_spec:
  assumes inv: "pmm_inv p"
  shows "pmm_inv (pmm_release_frame p addr) \<and> same_window p (pmm_release_frame p addr) \<and>
    pmm_refs (pmm_release_frame p addr) =
      (if pmm_managed p addr
       then (pmm_refs p)(unat (addr_to_idx addr) := pmm_refs p (unat (addr_to_idx addr)) - 1)
       else pmm_refs p)"
proof (cases "pmm_managed p addr")
  case False
  then have "pmm_release_frame p addr = p" by (simp add: pmm_release_frame_def pmm_managed_not)
  then show ?thesis using inv False by simp
next
  case True
  let ?i = "addr_to_idx addr" and ?w = "s_refcount p ! unat (addr_to_idx addr)"
  have i: "unat ?i < n_frames p" by (rule addr_to_idx_bound [OF pmm_inv_wf [OF inv] True])
  have refs: "pmm_refs p (unat ?i) = unat ?w" using i by (simp add: pmm_refs_def)
  have in_range: "\<not> (addr < PMM_BASE \<or> addr \<ge> s_max_phys p)" using True pmm_managed_not by blast
  have len: "unat ?i < length (s_refcount p)"
    using i pmm_inv_wf [OF inv] by (simp add: pmm_wf_def)
  consider "?w = 0" | "?w = 1" | "?w \<noteq> 0" "?w \<noteq> 1" by blast
  then show ?thesis
  proof cases
    case 1
    then have "pmm_release_frame p addr = p" by (simp add: pmm_release_frame_def Let_def)
    then show ?thesis using inv 1 refs by (auto simp: fun_eq_iff)
  next
    case 2
    then have busy: "pmm_refs p (unat ?i) \<noteq> 0" using refs by simp
    let ?p' = "pmm_release_frame p addr"
    have step: "s_bitmap ?p' = s_bitmap (frame_mark_free p ?i)"
      "s_refcount ?p' = (s_refcount p)[unat ?i := 0]" "s_free_count ?p' = s_free_count p + 1"
      "same_window p ?p'" "unat (s_next_free ?p') < n_frames p"
      using 2 in_range busy len i inv
      by (auto simp: pmm_release_frame_def Let_def pmm_used_iff [OF inv i] frame_mark_free_def
          same_window_def pmm_inv_def)
    from pmm_free_step [OF inv i busy step] step(4) refs 2 True show ?thesis by simp
  next
    case 3
    then have busy: "pmm_refs p (unat ?i) \<noteq> 0" using refs by (simp add: unat_eq_0)
    have w: "unat (?w - 1) = unat ?w - 1" using 3 by (intro unat_u16_pred) (auto simp: unat_gt_0)
    have nz: "?w - 1 \<noteq> 0" using 3 by simp
    have "pmm_release_frame p addr = p\<lparr>s_refcount := (s_refcount p)[unat ?i := ?w - 1]\<rparr>"
      using 3 in_range busy len by (simp add: pmm_release_frame_def Let_def pmm_used_iff [OF inv i])
    then show ?thesis using pmm_recount_step [OF inv i busy nz refl] w refs True by simp
  qed
qed

section \<open>Contiguous allocation\<close>

text \<open>The window of \<open>count\<close> frames at \<open>start\<close> is free.\<close>

definition free_window :: "pmm \<Rightarrow> nat \<Rightarrow> nat \<Rightarrow> bool" where
  "free_window p start count \<longleftrightarrow>
     start + count \<le> n_frames p \<and> (\<forall>i. start \<le> i \<and> i < start + count \<longrightarrow> pmm_refs p i = 0)"

lemma pmm_first_used_cases:
  assumes inv: "pmm_inv p" and win: "unat start + unat count \<le> n_frames p"
  obtains (none) "pmm_first_used p start count = None" "free_window p (unat start) (unat count)"
  | (some) off where "pmm_first_used p start count = Some off" "unat off < unat count"
      "pmm_refs p (unat start + unat off) \<noteq> 0"
proof -
  have n: "n_frames p \<le> 65024" using inv by (simp add: pmm_inv_def pmm_wf_def)
  have iff: "frame_is_used p (start + of_nat k) \<longleftrightarrow> pmm_refs p (unat start + k) \<noteq> 0"
    and un: "unat (of_nat k :: u32) = k" if "k < unat count" for k
  proof -
    show un: "unat (of_nat k :: u32) = k" using that win n by (simp add: unat_of_nat_u32)
    then have "unat (start + of_nat k) = unat start + k"
      using that win n by (simp add: unat_add_u32)
    then show "frame_is_used p (start + of_nat k) \<longleftrightarrow> pmm_refs p (unat start + k) \<noteq> 0"
      using pmm_used_iff [OF inv, of "start + of_nat k"] that win by simp
  qed
  show ?thesis
  proof (cases "pmm_first_used p start count")
    case None
    then have free: "pmm_refs p (unat start + k) = 0" if "k < unat count" for k
      using that iff by (auto simp: pmm_first_used_def find_None_iff)
    have "pmm_refs p i = 0" if "unat start \<le> i" "i < unat start + unat count" for i
      using free [of "i - unat start"] that by simp
    with win have "free_window p (unat start) (unat count)" by (simp add: free_window_def)
    with None show ?thesis by (rule none)
  next
    case (Some off)
    then obtain k where "k < unat count" "off = of_nat k" "frame_is_used p (start + of_nat k)"
      unfolding pmm_first_used_def find_Some_iff by auto
    then show ?thesis using some [OF Some] iff un by simp
  qed
qed

text \<open>
  The search is first fit: it returns the lowest free window at or above the start, and fails
  only when there is none, although it steps over several starts at once.
\<close>

lemma pmm_find_run_spec:
  assumes inv: "pmm_inv p" and c: "0 < unat count" "unat count \<le> n_frames p"
    and s: "unat start \<le> n_frames p"
  shows "case pmm_find_run p count start of
      Some s \<Rightarrow> unat start \<le> unat s \<and> free_window p (unat s) (unat count) \<and>
        (\<forall>j. unat start \<le> j \<and> j < unat s \<longrightarrow> \<not> free_window p j (unat count))
    | None \<Rightarrow> \<forall>j \<ge> unat start. \<not> free_window p j (unat count)"
  using c s
proof (induction "65536 - unat start" arbitrary: start rule: less_induct)
  case less
  have n: "n_frames p \<le> 65024" using inv by (simp add: pmm_inv_def pmm_wf_def)
  have guard: "start + count \<le> s_managed_frames p \<longleftrightarrow> unat start + unat count \<le> n_frames p"
    using less.prems n by (simp add: word_le_nat_alt unat_add_u32 n_frames_def)
  show ?case
  proof (cases "unat start + unat count \<le> n_frames p")
    case False
    then have "\<not> free_window p j (unat count)" if "j \<ge> unat start" for j
      using that by (simp add: free_window_def)
    then show ?thesis using False guard by (subst pmm_find_run.simps) simp
  next
    case True
    from inv True show ?thesis
    proof (cases rule: pmm_first_used_cases)
      case none
      then show ?thesis using True guard by (subst pmm_find_run.simps) auto
    next
      case (some off)
      let ?s' = "start + off + 1"
      have us: "unat ?s' = unat start + unat off + 1"
        using some(2) True n by (simp add: unat_add_u32)
      have next': "pmm_find_run p count start = pmm_find_run p count ?s'"
        using some(1) True guard us
        by (subst pmm_find_run.simps) (simp add: word_less_nat_alt Let_def)
      have skip: "\<not> free_window p j (unat count)" if "unat start \<le> j" "j < unat ?s'" for j
      proof
        assume "free_window p j (unat count)"
        then have "j \<le> unat start + unat off \<and> unat start + unat off < j + unat count \<longrightarrow>
            pmm_refs p (unat start + unat off) = 0"
          by (simp add: free_window_def)
        with some(2,3) that us show False by linarith
      qed
      have "case pmm_find_run p count ?s' of
          Some s \<Rightarrow> unat ?s' \<le> unat s \<and> free_window p (unat s) (unat count) \<and>
            (\<forall>j. unat ?s' \<le> j \<and> j < unat s \<longrightarrow> \<not> free_window p j (unat count))
        | None \<Rightarrow> \<forall>j \<ge> unat ?s'. \<not> free_window p j (unat count)"
        by (rule less.hyps) (use us some(2) True n less.prems in auto)
      then show ?thesis unfolding next' using us skip
        by (force split: option.splits simp: not_less)
    qed
  qed
qed

lemma pmm_inv_next_free:
  assumes "pmm_inv p" "unat v < n_frames p"
  shows "pmm_inv (p\<lparr>s_next_free := v\<rparr>)" "pmm_refs (p\<lparr>s_next_free := v\<rparr>) = pmm_refs p"
    "same_window p (p\<lparr>s_next_free := v\<rparr>)"
  using assms
  by (auto simp: pmm_inv_def pmm_wf_def n_frames_def pmm_refs_def used_def same_window_def fun_eq_iff)

lemma pmm_claim_fold:
  assumes inv: "pmm_inv p" and win: "free_window p (unat start) c"
    and k: "k \<le> c"
  defines "q \<equiv> \<lambda>k. fold (\<lambda>off p. pmm_claim_idx p (start + of_nat off)) [0..<k] p"
  defines "r \<equiv> \<lambda>k. (q k)\<lparr>s_free_count := s_free_count p - of_nat k\<rparr>"
  shows "pmm_inv (r k) \<and> same_window p (r k) \<and> s_free_count (q k) = s_free_count p \<and>
    s_next_free (q k) = s_next_free p \<and>
    pmm_refs (r k) = (\<lambda>i. if unat start \<le> i \<and> i < unat start + k then 1 else pmm_refs p i)"
  using k
proof (induction k)
  case 0
  then show ?case using inv by (auto simp: q_def r_def fun_eq_iff)
next
  case (Suc k)
  then have IH: "pmm_inv (r k)" "same_window p (r k)" "s_free_count (q k) = s_free_count p"
    "s_next_free (q k) = s_next_free p"
    "pmm_refs (r k) = (\<lambda>i. if unat start \<le> i \<and> i < unat start + k then 1 else pmm_refs p i)"
    by simp_all
  have n: "n_frames p \<le> 65024" using inv by (simp add: pmm_inv_def pmm_wf_def)
  have nr: "n_frames (r k) = n_frames p" using IH(2) by (rule same_window_n_frames)
  have b: "unat start + k < n_frames p" using win Suc.prems by (auto simp: free_window_def)
  have idx: "unat (start + of_nat k) = unat start + k"
    using b n by (simp add: unat_add_u32 unat_of_nat_u32)
  have free: "pmm_refs (r k) (unat (start + of_nat k)) = 0"
    using win Suc.prems b by (simp add: idx IH(5) free_window_def)
  have qS: "q (Suc k) = pmm_claim_idx (q k) (start + of_nat k)" by (simp add: q_def)
  have nf: "s_next_free (r (Suc k)) = s_next_free p" "s_next_free (q (Suc k)) = s_next_free p"
    "s_free_count (q (Suc k)) = s_free_count p"
    using IH(3,4) by (simp_all add: r_def qS pmm_claim_idx_def Let_def)
  have win': "same_window (r k) (r (Suc k))"
    by (simp add: r_def qS pmm_claim_idx_def Let_def same_window_def)
  have nf': "unat (s_next_free (r (Suc k))) < n_frames (r k)"
    using inv nr nf by (simp add: pmm_inv_def)
  have fields: "s_bitmap (r (Suc k)) = s_bitmap (frame_mark_used (r k) (start + of_nat k))"
    "s_refcount (r (Suc k)) = (s_refcount (r k))[unat (start + of_nat k) := 1]"
    "s_free_count (r (Suc k)) = s_free_count (r k) - 1"
    by (simp_all add: r_def qS pmm_claim_idx_def Let_def frame_mark_used_def)
  have b': "unat (start + of_nat k) < n_frames (r k)" using b by (simp add: nr idx)
  have step: "pmm_inv (r (Suc k))"
    "pmm_refs (r (Suc k)) = (pmm_refs (r k))(unat (start + of_nat k) := unat (1 :: u16))"
    by (rule pmm_claim_step [OF IH(1) b' free fields(1,2) _ fields(3) win' nf'], simp)+
  moreover have "same_window p (r (Suc k))" using IH(2) win' by (rule same_window_trans)
  ultimately show ?case using nf by (auto simp: fun_eq_iff IH(5) idx)
qed

lemma pmm_alloc_contiguous_frames_cases:
  assumes inv: "pmm_inv p"
  obtains (fail) "pmm_alloc_contiguous_frames p count = (0, p)"
      "count = 0 \<or> (\<forall>j. \<not> free_window p j (unat count))"
  | (run) start p' where "pmm_alloc_contiguous_frames p count = (idx_to_addr start, p')"
      "0 < unat count" "free_window p (unat start) (unat count)"
      "\<forall>j < unat start. \<not> free_window p j (unat count)"
      "pmm_inv p'" "same_window p p'" "s_free_count p' = s_free_count p - count"
      "pmm_refs p' = (\<lambda>i. if unat start \<le> i \<and> i < unat start + unat count then 1 else pmm_refs p i)"
proof (cases "count = 0 \<or> count > s_free_count p \<or> count > s_managed_frames p")
  case True
  have "\<not> free_window p j (unat count)" if "count \<noteq> 0" for j
  proof
    assume w: "free_window p j (unat count)"
    then have "{j..<j + unat count} \<subseteq> {i. i < n_frames p \<and> pmm_refs p i = 0}"
      by (auto simp: free_window_def)
    then have "unat count \<le> unat (s_free_count p)"
      using inv card_mono [of "{i. i < n_frames p \<and> pmm_refs p i = 0}" "{j..<j + unat count}"]
      by (simp add: pmm_inv_def)
    with True that w show False
      by (auto simp: word_less_nat_alt free_window_def n_frames_def)
  qed
  with True show ?thesis by (intro fail) (auto simp: pmm_alloc_contiguous_frames_def)
next
  case False
  then have c: "0 < unat count" "unat count \<le> n_frames p"
    by (auto simp: unat_gt_0 word_less_nat_alt n_frames_def)
  note spec = pmm_find_run_spec [OF inv c, of 0]
  show ?thesis
  proof (cases "pmm_find_run p count 0")
    case None
    then show ?thesis using spec False
      by (intro fail) (auto simp: pmm_alloc_contiguous_frames_def)
  next
    case (Some start)
    with spec have w: "free_window p (unat start) (unat count)"
      "\<forall>j < unat start. \<not> free_window p j (unat count)" by auto
    let ?q = "fold (\<lambda>off p. pmm_claim_idx p (start + of_nat off)) [0..<unat count] p"
    let ?r = "?q\<lparr>s_free_count := s_free_count p - count\<rparr>"
    let ?v = "(start + count) mod s_managed_frames p"
    have fold: "pmm_inv ?r" "same_window p ?r" "s_free_count ?q = s_free_count p"
      "pmm_refs ?r = (\<lambda>i. if unat start \<le> i \<and> i < unat start + unat count then 1 else pmm_refs p i)"
      using pmm_claim_fold [OF inv w(1) order_refl] by simp_all
    have v: "unat ?v < n_frames ?r"
      using same_window_n_frames [OF fold(2)] c by (simp add: n_frames_def unat_mod)
    have sm: "s_managed_frames ?q = s_managed_frames p" using fold(2) by (simp add: same_window_def)
    have eq: "pmm_alloc_contiguous_frames p count = (idx_to_addr start, ?r\<lparr>s_next_free := ?v\<rparr>)"
      using False Some fold(3) by (auto simp: pmm_alloc_contiguous_frames_def Let_def sm)
    show ?thesis
      using run [OF eq c(1) w pmm_inv_next_free(1) [OF fold(1) v]] pmm_inv_next_free [OF fold(1) v]
        same_window_trans [OF fold(2) pmm_inv_next_free(3) [OF fold(1) v]] fold(4) by simp
  qed
qed

lemma pmm_free_contiguous_frames_spec:
  assumes inv: "pmm_inv p" and win: "unat start + unat count \<le> n_frames p"
  shows "pmm_inv (pmm_free_contiguous_frames p (idx_to_addr start) count) \<and>
    same_window p (pmm_free_contiguous_frames p (idx_to_addr start) count) \<and>
    pmm_refs (pmm_free_contiguous_frames p (idx_to_addr start) count) =
      (\<lambda>i. if unat start \<le> i \<and> i < unat start + unat count then pmm_refs p i - 1 else pmm_refs p i)"
proof -
  define q where "q k = fold (\<lambda>off p. pmm_free_frame p
    (idx_to_addr start + of_nat off * PMM_FRAME_SIZE)) [0..<k] p" for k
  have n: "n_frames p \<le> 65024" using inv by (simp add: pmm_inv_def pmm_wf_def)
  have "pmm_inv (q k) \<and> same_window p (q k) \<and> pmm_refs (q k) =
    (\<lambda>i. if unat start \<le> i \<and> i < unat start + k then pmm_refs p i - 1 else pmm_refs p i)"
    if "k \<le> unat count" for k
    using that
  proof (induction k)
    case 0
    then show ?case using inv by (auto simp: q_def fun_eq_iff)
  next
    case (Suc k)
    let ?idx = "start + of_nat k"
    have idx: "unat ?idx = unat start + k"
      using Suc.prems win n by (simp add: unat_add_u32 unat_of_nat_u32)
    have addr: "idx_to_addr start + of_nat k * PMM_FRAME_SIZE = idx_to_addr ?idx"
      by (simp add: idx_to_addr_def algebra_simps)
    have "unat ?idx < n_frames p" using idx Suc.prems win by simp
    then have m: "pmm_managed p (idx_to_addr ?idx)" "addr_to_idx (idx_to_addr ?idx) = ?idx"
      by (rule idx_to_addr_managed [OF pmm_inv_wf [OF inv]])+
    have IH: "pmm_inv (q k)" "same_window p (q k)" "pmm_refs (q k) =
        (\<lambda>i. if unat start \<le> i \<and> i < unat start + k then pmm_refs p i - 1 else pmm_refs p i)"
      using Suc by simp_all
    have "q (Suc k) = pmm_release_frame (q k) (idx_to_addr ?idx)"
      by (simp add: q_def pmm_free_frame_def addr)
    then show ?case
      using pmm_release_frame_spec [OF IH(1), of "idx_to_addr ?idx"] IH(2,3) m idx
      by (auto simp: same_window_managed fun_eq_iff intro: same_window_trans)
  qed
  from this [of "unat count"] show ?thesis
    by (auto simp: pmm_free_contiguous_frames_def q_def fun_eq_iff)
qed

section \<open>Statistics\<close>

lemma pmm_shared_count_spec:
  assumes inv: "pmm_inv p"
  shows "unat (pmm_shared_count p) = card {i. i < n_frames p \<and> 1 < pmm_refs p i}"
proof -
  have n: "n_frames p \<le> 65024" using inv by (simp add: pmm_inv_def pmm_wf_def)
  have cond: "frame_is_used p (of_nat k) \<and> s_refcount p ! k > 1 \<longleftrightarrow> 1 < pmm_refs p k"
    if "k < n_frames p" for k
  proof -
    have "unat (of_nat k :: u32) = k" using that n by (simp add: unat_of_nat_u32)
    then show ?thesis using pmm_used_iff [OF inv, of "of_nat k"] that
      by (auto simp: pmm_refs_def word_less_nat_alt)
  qed
  have "{i. i < n_frames p \<and> frame_is_used p (of_nat i) \<and> s_refcount p ! i > 1} =
      {i. i < n_frames p \<and> 1 < pmm_refs p i}"
    using cond by blast
  then show ?thesis
    unfolding pmm_shared_count_def using n by (simp add: fold_count_u32 flip: n_frames_def)
qed

text \<open>The state of the loop of \<^verbatim>\<open>pmm_largest_free_run\<close> after \<open>k\<close> frames.\<close>

definition run_state :: "pmm \<Rightarrow> nat \<Rightarrow> nat \<Rightarrow> nat \<Rightarrow> bool" where
  "run_state p k best cur \<longleftrightarrow>
     cur \<le> best \<and> best \<le> k \<and> (\<forall>i. k - cur \<le> i \<and> i < k \<longrightarrow> pmm_refs p i = 0) \<and>
     (cur < k \<longrightarrow> pmm_refs p (k - cur - 1) \<noteq> 0) \<and>
     (\<exists>j. j + best \<le> k \<and> (\<forall>i. j \<le> i \<and> i < j + best \<longrightarrow> pmm_refs p i = 0)) \<and>
     (\<forall>j c. j + c \<le> k \<and> (\<forall>i. j \<le> i \<and> i < j + c \<longrightarrow> pmm_refs p i = 0) \<longrightarrow> c \<le> best)"

lemma run_state_free:
  assumes "run_state p k best cur" "pmm_refs p k = 0"
  shows "run_state p (Suc k) (max best (Suc cur)) (Suc cur)"
proof -
  have st: "cur \<le> best" "best \<le> k" "\<And>i. k - cur \<le> i \<Longrightarrow> i < k \<Longrightarrow> pmm_refs p i = 0"
    "cur < k \<Longrightarrow> pmm_refs p (k - cur - 1) \<noteq> 0"
    using assms(1) by (auto simp: run_state_def)
  obtain j where j: "j + best \<le> k" "\<And>i. j \<le> i \<Longrightarrow> i < j + best \<Longrightarrow> pmm_refs p i = 0"
    using assms(1) by (auto simp: run_state_def)
  have max: "c \<le> best" if "j + c \<le> k" "\<And>i. j \<le> i \<Longrightarrow> i < j + c \<Longrightarrow> pmm_refs p i = 0" for j c
    using assms(1) that unfolding run_state_def by blast
  have cur: "pmm_refs p i = 0" if "k - cur \<le> i" "i < Suc k" for i
    using that st(3) assms(2) by (cases "i = k") auto
  have ex: "\<exists>j. j + max best (Suc cur) \<le> Suc k \<and>
      (\<forall>i. j \<le> i \<and> i < j + max best (Suc cur) \<longrightarrow> pmm_refs p i = 0)"
  proof (cases "Suc cur \<le> best")
    case True
    then show ?thesis using j by (intro exI [of _ j]) (auto simp: max_def)
  next
    case False
    then show ?thesis using cur st(1,2) by (intro exI [of _ "k - cur"]) (auto simp: max_def)
  qed
  have all: "c \<le> max best (Suc cur)"
    if "j + c \<le> Suc k" "\<And>i. j \<le> i \<Longrightarrow> i < j + c \<Longrightarrow> pmm_refs p i = 0" for j c
  proof (cases "j + c = Suc k \<and> Suc cur < c")
    case True
    then have "pmm_refs p (k - cur - 1) = 0" "cur < k" using that(2) [of "k - cur - 1"] by auto
    with st(4) show ?thesis by simp
  next
    case False
    then show ?thesis using max [of j c] that by (cases "j + c = Suc k") auto
  qed
  have "Suc cur \<le> max best (Suc cur)" "max best (Suc cur) \<le> Suc k" using st(1,2) by auto
  moreover have "Suc cur < Suc k \<longrightarrow> pmm_refs p (Suc k - Suc cur - 1) \<noteq> 0" using st(4) by simp
  moreover have "\<forall>i. Suc k - Suc cur \<le> i \<and> i < Suc k \<longrightarrow> pmm_refs p i = 0" using cur by simp
  ultimately show ?thesis unfolding run_state_def using ex all by blast
qed

lemma run_state_used:
  assumes "run_state p k best cur" "pmm_refs p k \<noteq> 0"
  shows "run_state p (Suc k) best 0"
proof -
  have "c \<le> best" if "j + c \<le> Suc k" "\<forall>i. j \<le> i \<and> i < j + c \<longrightarrow> pmm_refs p i = 0" for j c
  proof (cases "j + c = Suc k \<and> c \<noteq> 0")
    case True
    then have "j \<le> k \<and> k < j + c" by linarith
    then have "pmm_refs p k = 0" using that(2) by simp
    with assms(2) show ?thesis by simp
  next
    case False
    then have "c = 0 \<or> j + c \<le> k" using that(1) by linarith
    then show ?thesis using assms(1) that(2) unfolding run_state_def by blast
  qed
  then have all: "\<forall>j c. j + c \<le> Suc k \<and> (\<forall>i. j \<le> i \<and> i < j + c \<longrightarrow> pmm_refs p i = 0) \<longrightarrow> c \<le> best"
    by blast
  obtain j where "j + best \<le> k" "\<forall>i. j \<le> i \<and> i < j + best \<longrightarrow> pmm_refs p i = 0"
    using assms(1) unfolding run_state_def by blast
  then have ex: "\<exists>j. j + best \<le> Suc k \<and> (\<forall>i. j \<le> i \<and> i < j + best \<longrightarrow> pmm_refs p i = 0)"
    using le_SucI by blast
  have "best \<le> Suc k" using assms(1) by (auto simp: run_state_def)
  with all ex assms(2) show ?thesis unfolding run_state_def by simp
qed

lemma pmm_largest_free_run_state:
  assumes inv: "pmm_inv p" and k: "k \<le> n_frames p"
  defines "f \<equiv> \<lambda>i (best :: u32, cur :: u32).
            if \<not> frame_is_used p (of_nat i)
            then (let cur = cur + 1 in (if cur > best then cur else best, cur))
            else (best, 0)"
  shows "run_state p k (unat (fst (fold f [0..<k] (0, 0)))) (unat (snd (fold f [0..<k] (0, 0))))"
  using k
proof (induction k)
  case 0
  then show ?case by (simp add: run_state_def)
next
  case (Suc k)
  obtain best cur where bc: "fold f [0..<k] (0, 0) = (best, cur)" by fastforce
  have IH: "run_state p k (unat best) (unat cur)" using Suc bc by simp
  have n: "n_frames p \<le> 65024" using inv by (simp add: pmm_inv_def pmm_wf_def)
  then have "unat (of_nat k :: u32) = k" using Suc.prems by (simp add: unat_of_nat_u32)
  then have used: "frame_is_used p (of_nat k) \<longleftrightarrow> pmm_refs p k \<noteq> 0"
    using pmm_used_iff [OF inv, of "of_nat k"] Suc.prems by simp
  have "unat cur < 65024" using IH Suc.prems n by (auto simp: run_state_def)
  then have c1: "unat (cur + 1) = Suc (unat cur)" by (simp add: unat_add_u32)
  have step: "fold f [0..<Suc k] (0, 0) = f k (best, cur)" by (simp add: bc)
  show ?case
  proof (cases "pmm_refs p k = 0")
    case True
    then have "unat (fst (f k (best, cur))) = max (unat best) (Suc (unat cur))"
      "unat (snd (f k (best, cur))) = Suc (unat cur)"
      using used c1 by (simp_all add: f_def Let_def word_less_nat_alt)
    then show ?thesis unfolding step using run_state_free [OF IH True] by simp
  next
    case False
    then show ?thesis unfolding step using run_state_used [OF IH False] used by (simp add: f_def)
  qed
qed

lemma pmm_largest_free_run_spec:
  assumes inv: "pmm_inv p"
  shows "(\<exists>j. free_window p j (unat (pmm_largest_free_run p))) \<and>
    (\<forall>j c. free_window p j c \<longrightarrow> c \<le> unat (pmm_largest_free_run p))"
  using pmm_largest_free_run_state [OF inv order_refl]
  by (simp add: pmm_largest_free_run_def run_state_def free_window_def flip: n_frames_def)

end
