(* ===== verification/Frame_Pool.thy ===== *)
theory Frame_Pool
  imports Pmm_Correct
begin

text \<open>
  The contract between the physical memory manager and the code that owns frames (page tables,
  address spaces, the kernel allocator): a pool of reference-counted frames. What a client may
  rely on over a whole run of operations is proved once from the contract, which
  \<^verbatim>\<open>src/kernel/pmm.c\<close> is then shown to meet.
\<close>

section \<open>The contract\<close>

datatype pool_op = PoolAlloc | PoolRetain u32 | PoolRelease u32

text \<open>One call, with the frame that an allocation returned, and a run of calls.\<close>

fun pool_step :: "('s \<Rightarrow> u32 \<times> 's) \<Rightarrow> ('s \<Rightarrow> u32 \<Rightarrow> bool \<times> 's) \<Rightarrow> ('s \<Rightarrow> u32 \<Rightarrow> 's) \<Rightarrow>
    pool_op \<Rightarrow> 's \<Rightarrow> u32 list \<times> 's" where
  "pool_step alloc retain release PoolAlloc s = (let (a, s') = alloc s in ([a], s'))"
| "pool_step alloc retain release (PoolRetain a) s = ([], snd (retain s a))"
| "pool_step alloc retain release (PoolRelease a) s = ([], release s a)"

fun pool_run :: "('s \<Rightarrow> u32 \<times> 's) \<Rightarrow> ('s \<Rightarrow> u32 \<Rightarrow> bool \<times> 's) \<Rightarrow> ('s \<Rightarrow> u32 \<Rightarrow> 's) \<Rightarrow>
    pool_op list \<Rightarrow> 's \<Rightarrow> u32 list \<times> 's" where
  "pool_run alloc retain release [] s = ([], s)"
| "pool_run alloc retain release (op # ops) s =
     (let (xs, s') = pool_step alloc retain release op s;
          (ys, s'') = pool_run alloc retain release ops s'
      in (xs @ ys, s''))"

lemma pool_run_ConsE:
  assumes "pool_run alloc retain release (op # ops) s = (xs, s')"
  obtains ys s1 zs where "pool_step alloc retain release op s = (ys, s1)"
    "pool_run alloc retain release ops s1 = (zs, s')" "xs = ys @ zs"
  using assms by (auto split: prod.splits)

fun op_on :: "u32 set \<Rightarrow> pool_op \<Rightarrow> bool" where
  "op_on A PoolAlloc = True"
| "op_on A (PoolRetain a) = (a \<in> A)"
| "op_on A (PoolRelease a) = (a \<in> A)"

locale frame_pool =
  fixes inv :: "'s \<Rightarrow> bool"
    and frames :: "'s \<Rightarrow> u32 set"
    and refs :: "'s \<Rightarrow> u32 \<Rightarrow> nat"
    and alloc :: "'s \<Rightarrow> u32 \<times> 's"
    and retain :: "'s \<Rightarrow> u32 \<Rightarrow> bool \<times> 's"
    and release :: "'s \<Rightarrow> u32 \<Rightarrow> 's"
  assumes zero_frame: "inv s \<Longrightarrow> 0 \<notin> frames s"
    and alloc_full: "inv s \<Longrightarrow> alloc s = (0, s') \<Longrightarrow> s' = s \<and> (\<forall>a \<in> frames s. refs s a \<noteq> 0)"
    and alloc_frame: "inv s \<Longrightarrow> alloc s = (a, s') \<Longrightarrow> a \<noteq> 0 \<Longrightarrow>
      a \<in> frames s \<and> refs s a = 0 \<and> inv s' \<and> frames s' = frames s \<and> refs s' = (refs s)(a := 1)"
    and retain_frame: "inv s \<Longrightarrow> a \<in> frames s \<Longrightarrow> retain s a = (ok, s') \<Longrightarrow>
      inv s' \<and> frames s' = frames s \<and>
      refs s' = (if ok then (refs s)(a := Suc (refs s a)) else refs s)"
    and retain_free: "inv s \<Longrightarrow> a \<in> frames s \<Longrightarrow> refs s a = 0 \<Longrightarrow> \<not> fst (retain s a)"
    and release_frame: "inv s \<Longrightarrow> a \<in> frames s \<Longrightarrow>
      inv (release s a) \<and> frames (release s a) = frames s \<and>
      refs (release s a) = (refs s)(a := refs s a - 1)"
begin

lemma step_inv:
  assumes "inv s" "op_on (frames s) op" "pool_step alloc retain release op s = (xs, s')"
  shows "inv s' \<and> frames s' = frames s"
proof (cases op)
  case PoolAlloc
  obtain a s1 where "alloc s = (a, s1)" by (cases "alloc s")
  then show ?thesis
    using PoolAlloc assms alloc_full [of s s1] alloc_frame [of s a s1] by (cases "a = 0") auto
next
  case (PoolRetain a)
  then show ?thesis using assms retain_frame [of s a "fst (retain s a)" "snd (retain s a)"] by auto
next
  case (PoolRelease a)
  then show ?thesis using assms release_frame [of s a] by auto
qed

lemma run_inv:
  assumes "inv s" "\<forall>op \<in> set ops. op_on (frames s) op" "pool_run alloc retain release ops s = (xs, s')"
  shows "inv s' \<and> frames s' = frames s"
  using assms
proof (induction ops arbitrary: s xs)
  case (Cons op ops)
  from Cons.prems(3) obtain ys s1 zs where step: "pool_step alloc retain release op s = (ys, s1)"
    and rest: "pool_run alloc retain release ops s1 = (zs, s')" by (rule pool_run_ConsE)
  have "inv s1 \<and> frames s1 = frames s"
    using Cons.prems(2) by (intro step_inv [OF Cons.prems(1) _ step]) simp
  then show ?case using Cons.IH [OF _ _ rest] Cons.prems(2) by simp
qed simp

text \<open>A step takes at most one reference of a frame, and only by releasing that frame.\<close>

lemma step_held:
  assumes "inv s" "op_on (frames s) op" "pool_step alloc retain release op s = (xs, s')"
    and "0 < refs s a"
  shows "a \<notin> set xs \<or> a = 0" and "refs s a \<le> refs s' a + (if op = PoolRelease a then 1 else 0)"
proof -
  have "(a \<notin> set xs \<or> a = 0) \<and> refs s a \<le> refs s' a + (if op = PoolRelease a then 1 else 0)"
  proof (cases op)
    case PoolAlloc
    obtain b s1 where b: "alloc s = (b, s1)" by (cases "alloc s")
    then show ?thesis
      using PoolAlloc assms alloc_full [of s s1] alloc_frame [of s b s1] by (cases "b = 0") auto
  next
    case (PoolRetain b)
    then show ?thesis using assms retain_frame [of s b "fst (retain s b)" "snd (retain s b)"] by auto
  next
    case (PoolRelease b)
    then show ?thesis using assms release_frame [of s b] by auto
  qed
  then show "a \<notin> set xs \<or> a = 0" "refs s a \<le> refs s' a + (if op = PoolRelease a then 1 else 0)"
    by simp_all
qed

text \<open>
  A frame with more references than a run releases is never handed out during the run, and is
  still referenced after it.
\<close>

lemma run_held:
  assumes "inv s" "\<forall>op \<in> set ops. op_on (frames s) op" "pool_run alloc retain release ops s = (xs, s')"
    and "a \<noteq> 0" "count_list ops (PoolRelease a) < refs s a"
  shows "a \<notin> set xs \<and> 0 < refs s' a"
  using assms
proof (induction ops arbitrary: s xs)
  case (Cons op ops)
  from Cons.prems(3) obtain ys s1 zs where step: "pool_step alloc retain release op s = (ys, s1)"
    and rest: "pool_run alloc retain release ops s1 = (zs, s')" "xs = ys @ zs"
    by (rule pool_run_ConsE)
  have on: "op_on (frames s) op" using Cons.prems by simp
  have inv: "inv s1" "frames s1 = frames s" using step_inv [OF Cons.prems(1) on step] by auto
  have "0 < refs s a" using Cons.prems(5) by simp
  note held = step_held [OF Cons.prems(1) on step this]
  have "count_list ops (PoolRelease a) < refs s1 a"
    using held(2) Cons.prems(5) by (auto split: if_splits)
  then have "a \<notin> set zs \<and> 0 < refs s' a"
    using Cons.IH [OF inv(1) _ rest(1) Cons.prems(4)] Cons.prems(2) inv(2) by simp
  with held(1) Cons.prems(4) rest(2) show ?case by auto
qed simp

text \<open>A frame that is allocated and released is free again.\<close>

lemma alloc_release:
  assumes "inv s" "alloc s = (a, s')" "a \<noteq> 0"
  shows "inv (release s' a) \<and> refs (release s' a) = refs s"
  using alloc_frame [OF assms] release_frame [of s' a] by (auto simp: fun_eq_iff)

end

section \<open>The manager meets it\<close>

definition pmm_frames :: "pmm \<Rightarrow> u32 set" where
  "pmm_frames p = {a. pmm_managed p a \<and> page_aligned a}"

definition frame_refs :: "pmm \<Rightarrow> u32 \<Rightarrow> nat" where
  "frame_refs p a = (if pmm_managed p a \<and> page_aligned a then pmm_refs p (unat (addr_to_idx a)) else 0)"

lemma addr_to_idx_inj:
  assumes "pmm_wf p" "a \<in> pmm_frames p" "b \<in> pmm_frames p" "unat (addr_to_idx a) = unat (addr_to_idx b)"
  shows "a = b"
proof -
  have "addr_to_idx a = addr_to_idx b" using assms(4) by (rule unsigned_word_eqI)
  moreover have "idx_to_addr (addr_to_idx a) = a" "idx_to_addr (addr_to_idx b) = b"
    using assms(2,3) by (simp_all add: pmm_frames_def idx_to_addr_to_idx [OF assms(1)])
  ultimately show ?thesis by metis
qed

lemma frame_refs_update:
  assumes "pmm_wf p" "a \<in> pmm_frames p" "same_window p p'"
    "pmm_refs p' = (pmm_refs p)(unat (addr_to_idx a) := v)"
  shows "frame_refs p' = (frame_refs p)(a := v)" "pmm_frames p' = pmm_frames p"
proof -
  show fr: "pmm_frames p' = pmm_frames p"
    using assms(3) by (simp add: pmm_frames_def same_window_managed)
  show "frame_refs p' = (frame_refs p)(a := v)"
  proof
    fix b
    show "frame_refs p' b = ((frame_refs p)(a := v)) b"
      using assms addr_to_idx_inj [OF assms(1), of a b] same_window_managed [OF assms(3)]
      by (auto simp: frame_refs_def pmm_frames_def)
  qed
qed

interpretation pmm_pool: frame_pool pmm_inv pmm_frames frame_refs pmm_alloc_frame pmm_retain_frame
  pmm_release_frame
proof unfold_locales
  fix s :: pmm assume inv: "pmm_inv s"
  show "0 \<notin> pmm_frames s" by (simp add: pmm_frames_def pmm_managed_def PMM_BASE_def)
  fix s' a ok
  { assume al: "pmm_alloc_frame s = (0, s')"
    from inv show "s' = s \<and> (\<forall>a \<in> pmm_frames s. frame_refs s a \<noteq> 0)"
    proof (cases rule: pmm_alloc_frame_cases)
      case full
      then show ?thesis using al addr_to_idx_bound [OF pmm_inv_wf [OF inv]]
        by (auto simp: pmm_frames_def frame_refs_def)
    next
      case (frame idx p')
      then show ?thesis using al idx_to_addr_managed(4) [OF pmm_inv_wf [OF inv], of idx] by simp
    qed }
  { assume al: "pmm_alloc_frame s = (a, s')" "a \<noteq> 0"
    from inv show "a \<in> pmm_frames s \<and> frame_refs s a = 0 \<and> pmm_inv s' \<and>
        pmm_frames s' = pmm_frames s \<and> frame_refs s' = (frame_refs s)(a := 1)"
    proof (cases rule: pmm_alloc_frame_cases)
      case full
      then show ?thesis using al by simp
    next
      case (frame idx p')
      note m = idx_to_addr_managed [OF pmm_inv_wf [OF inv] frame(2)]
      have a: "a = idx_to_addr idx" "s' = p'" using al frame(1) by auto
      then have "a \<in> pmm_frames s" using m by (simp add: pmm_frames_def)
      then show ?thesis
        using frame a m frame_refs_update [OF pmm_inv_wf [OF inv], of a s' 1] by (simp add: frame_refs_def)
    qed }
  assume a: "a \<in> pmm_frames s"
  then have ref: "frame_refs s a = pmm_refs s (unat (addr_to_idx a))" "pmm_managed s a"
    by (simp_all add: frame_refs_def pmm_frames_def)
  show "pmm_inv s' \<and> pmm_frames s' = pmm_frames s \<and>
      frame_refs s' = (if ok then (frame_refs s)(a := Suc (frame_refs s a)) else frame_refs s)"
    if "pmm_retain_frame s a = (ok, s')"
    using pmm_retain_frame_spec [OF inv, of a] that ref inv
      frame_refs_update [OF pmm_inv_wf [OF inv] a, of s'] by (cases ok) auto
  show "\<not> fst (pmm_retain_frame s a)" if "frame_refs s a = 0"
    using pmm_retain_frame_spec [OF inv, of a] that ref by (auto split: prod.splits bool.splits)
  show "pmm_inv (pmm_release_frame s a) \<and> pmm_frames (pmm_release_frame s a) = pmm_frames s \<and>
      frame_refs (pmm_release_frame s a) = (frame_refs s)(a := frame_refs s a - 1)"
    using pmm_release_frame_spec [OF inv, of a] ref
      frame_refs_update [OF pmm_inv_wf [OF inv] a, of "pmm_release_frame s a"] by simp
qed

section \<open>Properties\<close>

text \<open>A manager of four frames, the second of which has one owner and the third two.\<close>

definition pmm_example :: pmm where
  "pmm_example = \<lparr>s_bitmap = [6], s_refcount = [0, 1, 2, 0], s_bitmap_bytes = 1,
     s_managed_frames = 4, s_max_phys = 0x204000, s_free_count = 2, s_total_count = 4,
     s_next_free = 1, s_ready = True\<rparr>"

lemma pmm_inv_code:
  "pmm_inv p \<longleftrightarrow>
     pmm_wf p \<and> unat (s_next_free p) < n_frames p \<and>
     list_all (\<lambda>i. used p i \<longleftrightarrow> pmm_refs p i \<noteq> 0) [0..<n_frames p] \<and>
     unat (s_free_count p) = length (filter (\<lambda>i. pmm_refs p i = 0) [0..<n_frames p])"
proof -
  have "length (filter P [0..<n]) = card {i. i < n \<and> P i}" for P and n :: nat
    by (induction n) (simp_all add: card_less_Suc)
  then show ?thesis by (auto simp: pmm_inv_def list_all_iff)
qed

lemmas pmm_eval = pmm_example_def frame_is_used_def pmm_wf_def n_frames_def used_def pmm_refs_def
  frame_refs_def pmm_managed_def page_aligned_def addr_to_idx_def idx_to_addr_def pmm_consts
  pmm_scan_order_def upt_conv_Cons Let_def

lemma pmm_example_inv: "pmm_inv pmm_example"
  by (simp add: pmm_inv_code pmm_eval)

text \<open>
  C2: \<^verbatim>\<open>pmm_alloc_frame\<close> returns 0 exactly when every managed frame is in use, and then changes
  nothing; otherwise it returns the page-aligned address of a managed frame that had no owner,
  gives it one reference, changes no other count, and keeps the bitmap, counts and free counter
  consistent.
\<close>

theorem pmm_alloc_frame_correct:
  assumes "pmm_inv p" "pmm_alloc_frame p = (a, p')"
  shows "(a = 0 \<longleftrightarrow> (\<forall>f \<in> pmm_frames p. frame_refs p f \<noteq> 0)) \<and>
    (if a = 0 then p' = p
     else a \<in> pmm_frames p \<and> frame_refs p a = 0 \<and> frame_refs p' = (frame_refs p)(a := 1) \<and>
       pmm_inv p' \<and> pmm_frames p' = pmm_frames p)"
  using pmm_pool.alloc_full [OF assms(1), of p'] pmm_pool.alloc_frame [OF assms] assms(2)
  by (cases "a = 0") auto

theorem pmm_alloc_frame_correct_witness:
  "let (a, p') = pmm_alloc_frame pmm_example in
     a = 0x203000 \<and> frame_refs p' = (frame_refs pmm_example)(0x203000 := 1) \<and> pmm_inv p'"
proof -
  have a: "fst (pmm_alloc_frame pmm_example) = 0x203000"
    by (simp add: pmm_alloc_frame_def Let_def pmm_eval)
  then show ?thesis
    using pmm_alloc_frame_correct [OF pmm_example_inv prod.collapse [symmetric]]
    by (simp add: case_prod_beta)
qed

text \<open>
  C1: exclusive ownership over runs. During any sequence of \<^verbatim>\<open>pmm_alloc_frame\<close>,
  \<^verbatim>\<open>pmm_retain_frame\<close> and \<^verbatim>\<open>pmm_release_frame\<close> calls on managed frames, a frame with more
  references than the sequence releases is never handed out, and it stays referenced.
\<close>

theorem pmm_held_frame_not_reallocated:
  assumes "pmm_inv p" "\<forall>op \<in> set ops. op_on (pmm_frames p) op"
    and "pool_run pmm_alloc_frame pmm_retain_frame pmm_release_frame ops p = (xs, p')"
    and "a \<noteq> 0" "count_list ops (PoolRelease a) < frame_refs p a"
  shows "a \<notin> set xs \<and> 0 < frame_refs p' a"
  using assms by (rule pmm_pool.run_held)

theorem pmm_held_frame_not_reallocated_witness:
  "0x202000 \<notin> set (fst (pool_run pmm_alloc_frame pmm_retain_frame pmm_release_frame
     [PoolAlloc, PoolRelease 0x202000, PoolAlloc, PoolAlloc] pmm_example))"
proof -
  let ?ops = "[PoolAlloc, PoolRelease 0x202000, PoolAlloc, PoolAlloc]"
  have on: "\<forall>op \<in> set ?ops. op_on (pmm_frames pmm_example) op"
    by (simp add: pmm_frames_def pmm_managed_def pmm_example_def page_aligned_def PMM_BASE_def)
  have "frame_refs pmm_example 0x202000 = 2" by (simp add: pmm_eval)
  then have "count_list ?ops (PoolRelease 0x202000) < frame_refs pmm_example 0x202000" by simp
  from pmm_held_frame_not_reallocated [OF pmm_example_inv on prod.collapse [symmetric] _ this]
  show ?thesis by simp
qed

text \<open>
  C3: \<^verbatim>\<open>pmm_alloc_contiguous_frames\<close> is first fit and complete. For a count above 0 it fails
  exactly when no window of that many consecutive free frames exists; otherwise it returns the
  lowest such window, gives every frame in it one reference, changes no other count, and keeps
  the invariant.
\<close>

theorem pmm_alloc_contiguous_first_fit:
  assumes inv: "pmm_inv p" and "count \<noteq> 0" and al: "pmm_alloc_contiguous_frames p count = (a, p')"
  shows "if \<exists>j. free_window p j (unat count)
    then \<exists>start. a = idx_to_addr start \<and> free_window p (unat start) (unat count) \<and>
      (\<forall>j < unat start. \<not> free_window p j (unat count)) \<and> pmm_inv p' \<and>
      pmm_refs p' =
        (\<lambda>i. if unat start \<le> i \<and> i < unat start + unat count then 1 else pmm_refs p i)
    else a = 0 \<and> p' = p"
  using inv
proof (cases rule: pmm_alloc_contiguous_frames_cases [where count = count])
  case fail
  then show ?thesis using assms by auto
next
  case (run start q)
  then have "\<exists>j. free_window p j (unat count)" "a = idx_to_addr start" "p' = q" using al by auto
  then show ?thesis using run by auto
qed

theorem pmm_alloc_contiguous_first_fit_witness:
  "pmm_alloc_contiguous_frames pmm_example 2 = (0, pmm_example) \<and>
   \<not> (\<exists>j. free_window pmm_example j 2)"
proof -
  have a: "fst (pmm_alloc_contiguous_frames pmm_example 2) = 0"
    by (simp add: pmm_alloc_contiguous_frames_def pmm_find_run.simps pmm_first_used_def pmm_eval)
  have nz: "idx_to_addr start \<noteq> 0" if "free_window pmm_example (unat start) 2" for start
    using idx_to_addr_managed(4) [OF pmm_inv_wf [OF pmm_example_inv]] that
    by (simp add: free_window_def)
  show ?thesis
    using pmm_alloc_contiguous_first_fit [OF pmm_example_inv, of 2 0
        "snd (pmm_alloc_contiguous_frames pmm_example 2)"] a nz
    by (auto simp: prod_eq_iff split: if_splits)
qed

text \<open>
  \<^verbatim>\<open>pmm_free_contiguous_frames\<close> undoes \<^verbatim>\<open>pmm_alloc_contiguous_frames\<close>: freeing the block
  that an allocation returned gives back every reference count and the free counter.
\<close>

theorem pmm_contiguous_roundtrip:
  assumes inv: "pmm_inv p" and al: "pmm_alloc_contiguous_frames p count = (a, p')" and "a \<noteq> 0"
  shows "pmm_refs (pmm_free_contiguous_frames p' a count) = pmm_refs p \<and>
    s_free_count (pmm_free_contiguous_frames p' a count) = s_free_count p \<and>
    pmm_inv (pmm_free_contiguous_frames p' a count)"
  using inv
proof (cases rule: pmm_alloc_contiguous_frames_cases [where count = count])
  case fail
  then show ?thesis using assms by simp
next
  case (run start q)
  let ?r = "pmm_free_contiguous_frames q (idx_to_addr start) count"
  have eq: "a = idx_to_addr start" "p' = q" using run(1) al by auto
  have "unat start + unat count \<le> n_frames q"
    using run(3) same_window_n_frames [OF run(6)] by (simp add: free_window_def)
  note spec = pmm_free_contiguous_frames_spec [OF run(5) this]
  have refs: "pmm_refs ?r = pmm_refs p"
    using spec run(3,8) by (auto simp: fun_eq_iff free_window_def)
  moreover have "n_frames ?r = n_frames p"
    using spec same_window_n_frames [OF run(6)] same_window_n_frames by auto
  ultimately have "unat (s_free_count ?r) = unat (s_free_count p)"
    using inv spec by (simp add: pmm_inv_def)
  then show ?thesis using refs spec eq by (auto intro: unsigned_word_eqI)
qed

theorem pmm_contiguous_roundtrip_witness:
  "let p' = snd (pmm_alloc_contiguous_frames pmm_example 1) in
   pmm_refs (pmm_free_contiguous_frames p' 0x200000 1) = pmm_refs pmm_example"
proof -
  have "fst (pmm_alloc_contiguous_frames pmm_example 1) = 0x200000"
    by (simp add: pmm_alloc_contiguous_frames_def pmm_find_run.simps pmm_first_used_def pmm_eval)
  then have "pmm_alloc_contiguous_frames pmm_example 1 =
      (0x200000, snd (pmm_alloc_contiguous_frames pmm_example 1))" by (simp add: prod_eq_iff)
  from pmm_contiguous_roundtrip [OF pmm_example_inv this] show ?thesis by simp
qed

text \<open>
  \<^verbatim>\<open>pmm_largest_free_run\<close> is the length of the longest run of consecutive free frames: a run
  of that length exists and no run is longer.
\<close>

theorem pmm_largest_free_run_correct:
  assumes "pmm_inv p"
  shows "(\<exists>j. free_window p j (unat (pmm_largest_free_run p))) \<and>
    (\<forall>j c. free_window p j c \<longrightarrow> c \<le> unat (pmm_largest_free_run p))"
  using assms by (rule pmm_largest_free_run_spec)

theorem pmm_largest_free_run_correct_witness:
  "pmm_largest_free_run pmm_example = 1 \<and> (\<exists>j. free_window pmm_example j 1) \<and>
   (\<nexists>j. free_window pmm_example j 2)"
proof -
  have "pmm_largest_free_run pmm_example = 1"
    by (simp add: pmm_largest_free_run_def Let_def pmm_eval)
  then show ?thesis using pmm_largest_free_run_correct [OF pmm_example_inv] by fastforce
qed

end
