(* ===== verification/Memory.thy ===== *)
theory Memory
  imports Frame_Pool
begin

text \<open>
  The kernel bump allocator, \<^verbatim>\<open>src/kernel/memory.c\<close>, and the start-up of the physical memory
  manager, \<^verbatim>\<open>pmm_init\<close> of \<^verbatim>\<open>src/kernel/pmm.c\<close>, which takes its tables from it. The static
  variables of the two files are the record \<open>kmem\<close>. The boot information block, which the code
  reads at a fixed address, is an argument. \<^verbatim>\<open>pmm_init\<close> halts the machine when it has no room
  for its tables: the model returns \<^const>\<open>None\<close>.
\<close>

section \<open>The bump allocator\<close>

record kmem =
  heap_current :: u32
  heap_base :: u32
  kpmm :: pmm

definition memory_init :: "kmem \<Rightarrow> u32 \<Rightarrow> kmem" where
  "memory_init m start = m\<lparr>heap_base := start, heap_current := start\<rparr>"

definition kmalloc :: "kmem \<Rightarrow> u32 \<Rightarrow> u32 \<times> kmem" where
  "kmalloc m nbytes =
     (if nbytes = 0 then (0, m)
      else
        let old_top = heap_current m;
            m = m\<lparr>heap_current := heap_current m + nbytes\<rparr>;
            m = (if heap_current m AND 3 \<noteq> 0
                 then m\<lparr>heap_current := (heap_current m AND NOT 3) + 4\<rparr> else m);
            m = m\<lparr>kpmm := pmm_reserve_range (kpmm m) old_top (heap_current m)\<rparr>
        in (old_top, m))"

definition kmalloc_page :: "kmem \<Rightarrow> u32 \<times> kmem" where
  "kmalloc_page m =
     (let m = (if heap_current m AND (PAGE_SIZE - 1) \<noteq> 0
               then m\<lparr>heap_current := (heap_current m + PAGE_SIZE - 1) AND NOT (PAGE_SIZE - 1)\<rparr>
               else m);
          old_top = heap_current m;
          m = m\<lparr>heap_current := heap_current m + PAGE_SIZE\<rparr>;
          m = m\<lparr>kpmm := pmm_reserve_range (kpmm m) old_top (heap_current m)\<rparr>
      in (old_top, m))"

definition memory_get_heap_top :: "kmem \<Rightarrow> u32" where
  "memory_get_heap_top m = heap_current m"

definition memory_get_heap_base :: "kmem \<Rightarrow> u32" where
  "memory_get_heap_base m = heap_base m"

section \<open>Start-up of the manager\<close>

definition KERNEL_BOOT_STACK_TOP :: u32 where "KERNEL_BOOT_STACK_TOP = 0x3FF000"

text \<open>
  The tables are allocated with whatever the memory holds; the model gives them zeros, and
  \<^verbatim>\<open>pmm_init\<close> overwrites every entry before it reads one.
\<close>

definition pmm_metadata_init :: "boot_info \<Rightarrow> kmem \<Rightarrow> kmem option" where
  "pmm_metadata_init info m =
     (let p = (kpmm m)\<lparr>s_max_phys := pmm_detect_max_phys info\<rparr>;
          p = p\<lparr>s_managed_frames := (s_max_phys p - PMM_BASE) div PMM_FRAME_SIZE\<rparr>;
          p = (if s_managed_frames p > PMM_NUM_FRAMES
               then p\<lparr>s_managed_frames := PMM_NUM_FRAMES,
                      s_max_phys := PMM_BASE + PMM_NUM_FRAMES * PMM_FRAME_SIZE\<rparr> else p);
          p = p\<lparr>s_bitmap_bytes := (s_managed_frames p + 7) div 8\<rparr>;
          (bitmap, m) = kmalloc (m\<lparr>kpmm := p\<rparr>) (s_bitmap_bytes p);
          (refcount, m) = kmalloc m (s_managed_frames p * 2)
      in if bitmap = 0 \<or> refcount = 0 then None
         else Some (m\<lparr>kpmm := (kpmm m)\<lparr>s_bitmap := replicate (unat (s_bitmap_bytes p)) 0,
                                      s_refcount := replicate (unat (s_managed_frames p)) 0\<rparr>\<rparr>))"

definition pmm_boot_ranges :: "boot_info \<Rightarrow> u32 \<Rightarrow> (u32 \<times> u32) list" where
  "pmm_boot_ranges info heap_top =
     [(0x00000000, 0x00001000), (0x00007C00, 0x00007E00), (0x00080000, 0x00082000),
      (BOOT_INFO_PHYS, BOOT_INFO_PHYS + sizeof_boot_info),
      (BOOT_FONT_PHYS, BOOT_FONT_PHYS + 0x1000),
      (KERNEL_BOOT_STACK_TOP - PMM_FRAME_SIZE, KERNEL_BOOT_STACK_TOP),
      (0x00100000, heap_top)] @
     (if boot_info_framebuffer_valid info
      then [(framebuffer_phys info,
             framebuffer_phys info + framebuffer_pitch info * framebuffer_height info)] else []) @
     (if boot_info_ramdisk_valid info
      then [(ramdisk_phys info, ramdisk_phys info + ramdisk_size info)] else [])"

definition pmm_reserve_boot_ranges :: "boot_info \<Rightarrow> u32 \<Rightarrow> pmm \<Rightarrow> pmm" where
  "pmm_reserve_boot_ranges info heap_top p =
     fold (\<lambda>(start, end') p. pmm_mark_range_used p start end') (pmm_boot_ranges info heap_top) p"

definition pmm_init :: "boot_info \<Rightarrow> kmem \<Rightarrow> kmem option" where
  "pmm_init info m =
     (case pmm_metadata_init info m of
        None \<Rightarrow> None
      | Some m \<Rightarrow>
          (let p = kpmm m;
               p = p\<lparr>s_bitmap := replicate (unat (s_bitmap_bytes p)) 0xFF,
                     s_refcount := replicate (unat (s_managed_frames p)) 1\<rparr>;
               p = p\<lparr>s_free_count := 0, s_total_count := 0, s_next_free := 0, s_ready := False\<rparr>;
               p = (if boot_info_e820_valid info then pmm_free_e820_usable_ranges info p
                    else pmm_free_fixed_range p);
               p = pmm_reserve_boot_ranges info (memory_get_heap_top m) p;
               p = p\<lparr>s_ready := True\<rparr>;
               p = p\<lparr>s_total_count := s_free_count p\<rparr>
           in Some (m\<lparr>kpmm := p\<rparr>)))"

section \<open>What start-up frees\<close>

lemma unat_ucast_u64 [simp]: "unat (ucast (x :: u32) :: u64) = unat x"
  by (simp add: unsigned_ucast_eq take_bit_nat_eq_self_iff less_trans [OF unat_u32_bound])

lemma unat_ucast_u32: "unat (x :: u64) < 4294967296 \<Longrightarrow> unat (ucast x :: u32) = unat x"
  by (simp add: unsigned_ucast_eq take_bit_nat_eq_self_iff)

text \<open>A frame lies in a usable entry of the memory map.\<close>

definition e820_usable :: "boot_e820_entry \<Rightarrow> nat \<Rightarrow> bool" where
  "e820_usable ent i \<longleftrightarrow>
     e820_type ent = 1 \<and> e820_length ent \<noteq> 0 \<and> unat (e820_base ent) \<le> frame_base i \<and>
     frame_base (Suc i) \<le> unat (e820_base ent + e820_length ent)"

lemma pmm_free_e820_entry_spec:
  assumes inv: "pmm_inv p"
  shows "pmm_inv (pmm_free_e820_entry ent p) \<and> same_window p (pmm_free_e820_entry ent p) \<and>
    pmm_refs (pmm_free_e820_entry ent p) =
      (\<lambda>i. if i < n_frames p \<and> e820_usable ent i then 0 else pmm_refs p i)"
proof -
  let ?b = "e820_base ent" and ?e = "e820_base ent + e820_length ent"
  note win = frame_base_window [OF pmm_inv_wf [OF inv]]
  show ?thesis
  proof (cases "e820_type ent \<noteq> 1 \<or> e820_length ent = 0 \<or> ?e \<le> ucast PMM_BASE \<or> ?b \<ge> ucast (s_max_phys p)")
    case True
    then have "pmm_free_e820_entry ent p = p" by (auto simp: pmm_free_e820_entry_def Let_def)
    moreover have "\<not> (i < n_frames p \<and> e820_usable ent i)" for i
      using True win [of i] frame_base_Suc_gt [of i]
      by (auto simp: e820_usable_def word_le_nat_alt)
    ultimately show ?thesis using inv by (auto simp: fun_eq_iff)
  next
    case False
    define s where "s = (if ?b < ucast PMM_BASE then PMM_BASE else ucast ?b :: u32)"
    define e where "e = (if ?e > ucast (s_max_phys p) then s_max_phys p else ucast ?e :: u32)"
    have max: "unat (s_max_phys p) \<le> 0x10000000" by (rule pmm_max_phys_bound [OF pmm_inv_wf [OF inv]])
    have us: "unat s = max 0x200000 (unat ?b)"
      using False max by (auto simp: s_def word_le_nat_alt word_less_nat_alt unat_ucast_u32)
    have ue: "unat e = min (unat (s_max_phys p)) (unat ?e)"
      using max by (auto simp: e_def word_less_nat_alt unat_ucast_u32)
    have "pmm_free_e820_entry ent p = pmm_mark_range_free p s e"
      using False by (simp add: pmm_free_e820_entry_def Let_def s_def e_def)
    moreover have "(unat s \<le> frame_base i \<and> frame_base (Suc i) \<le> unat e) \<longleftrightarrow> e820_usable ent i"
      if "i < n_frames p" for i
      using False win [OF that] by (auto simp: us ue e820_usable_def)
    ultimately show ?thesis using pmm_mark_range_free [OF inv, of s e] by (auto simp: fun_eq_iff)
  qed
qed

lemma pmm_free_e820_usable_spec:
  assumes inv: "pmm_inv p"
  shows "pmm_inv (fold pmm_free_e820_entry ents p) \<and> same_window p (fold pmm_free_e820_entry ents p) \<and>
    pmm_refs (fold pmm_free_e820_entry ents p) =
      (\<lambda>i. if i < n_frames p \<and> (\<exists>ent \<in> set ents. e820_usable ent i) then 0 else pmm_refs p i)"
  using inv
proof (induction ents arbitrary: p)
  case Nil
  then show ?case by simp
next
  case (Cons ent ents)
  let ?q = "pmm_free_e820_entry ent p"
  have q: "pmm_inv ?q" "same_window p ?q" "pmm_refs ?q =
      (\<lambda>i. if i < n_frames p \<and> e820_usable ent i then 0 else pmm_refs p i)"
    using pmm_free_e820_entry_spec [OF Cons.prems] by auto
  from Cons.IH [OF q(1)] same_window_trans [OF q(2)] same_window_n_frames [OF q(2)] q(3)
  show ?case by (auto simp: fun_eq_iff)
qed

definition overlaps_frame :: "u32 \<times> u32 \<Rightarrow> nat \<Rightarrow> bool" where
  "overlaps_frame r i \<longleftrightarrow> unat (fst r) < frame_base (Suc i) \<and> frame_base i < unat (snd r)"

lemma pmm_reserve_ranges_spec:
  fixes rs :: "(u32 \<times> u32) list"
  assumes inv: "pmm_inv p"
  defines "q \<equiv> fold (\<lambda>(start, end') p. pmm_mark_range_used p start end') rs p"
  shows "pmm_inv q \<and> same_window p q \<and>
    (\<forall>i < n_frames p. pmm_refs q i = 0 \<longleftrightarrow> pmm_refs p i = 0 \<and> \<not> (\<exists>r \<in> set rs. overlaps_frame r i))"
  using inv unfolding q_def
proof (induction rs arbitrary: p)
  case Nil
  then show ?case by simp
next
  case (Cons r rs)
  let ?q = "pmm_mark_range_used p (fst r) (snd r)"
  have q: "pmm_inv ?q" "same_window p ?q" "pmm_refs ?q =
      (\<lambda>i. if i < n_frames p \<and> overlaps_frame r i then max 1 (pmm_refs p i) else pmm_refs p i)"
    using pmm_mark_range_used [OF Cons.prems, of "fst r" "snd r"] by (auto simp: overlaps_frame_def)
  from Cons.IH [OF q(1)] same_window_trans [OF q(2)] same_window_n_frames [OF q(2)] q(3)
  show ?case by (auto simp: case_prod_beta)
qed

section \<open>Start-up establishes the invariant\<close>

lemma pmm_detect_max_phys_bounds:
  "page_aligned (pmm_detect_max_phys info)" "PMM_BASE < pmm_detect_max_phys info"
  "pmm_detect_max_phys info \<le> PMM_LIMIT"
proof -
  have "\<exists>x. pmm_detect_max_phys info =
      (if x AND NOT (PMM_FRAME_SIZE - 1) \<le> PMM_BASE then PMM_BASE + PMM_FRAME_SIZE
       else x AND NOT (PMM_FRAME_SIZE - 1)) \<and> x \<le> PMM_LIMIT"
    unfolding pmm_detect_max_phys_def Let_def by (rule exI, rule conjI, rule refl) auto
  then obtain x where x: "x \<le> PMM_LIMIT" "pmm_detect_max_phys info =
      (if x AND NOT (PMM_FRAME_SIZE - 1) \<le> PMM_BASE then PMM_BASE + PMM_FRAME_SIZE
       else x AND NOT (PMM_FRAME_SIZE - 1))" by blast
  show "page_aligned (pmm_detect_max_phys info)"
    using x(2) page_aligned_floor [of x] by (auto simp: pmm_consts page_aligned_def)
  show "PMM_BASE < pmm_detect_max_phys info" using x(2) by (auto simp: pmm_consts)
  have "x AND NOT (PMM_FRAME_SIZE - 1) \<le> x"
    by (simp add: word_le_nat_alt pmm_consts unat_page_floor')
  then show "pmm_detect_max_phys info \<le> PMM_LIMIT"
    using x by (auto simp: pmm_consts)
qed

lemma pmm_detect_frames:
  obtains k where "0 < k" "k \<le> 65024" "unat (pmm_detect_max_phys info) = 0x200000 + 4096 * k"
proof -
  obtain j where j: "unat (pmm_detect_max_phys info) = 4096 * j"
    using pmm_detect_max_phys_bounds(1) by (auto simp: page_aligned_dvd)
  have "512 < j" "j \<le> 65536"
    using pmm_detect_max_phys_bounds(2,3) [of info] j
    by (auto simp: word_less_nat_alt word_le_nat_alt PMM_LIMIT_def)
  with j show ?thesis by (intro that [of "j - 512"]) auto
qed

lemma kmalloc_spec:
  assumes "nbytes \<noteq> 0" "unat (heap_current m) + unat nbytes + 4 < 4294967296"
  shows "\<exists>tp. kmalloc m nbytes =
      (heap_current m, m\<lparr>heap_current := tp, kpmm := pmm_reserve_range (kpmm m) (heap_current m) tp\<rparr>) \<and>
    unat tp = (unat (heap_current m) + unat nbytes + 3) div 4 * 4"
proof -
  let ?h = "heap_current m + nbytes"
  have h: "unat ?h = unat (heap_current m) + unat nbytes" using assms by (simp add: unat_add_u32)
  have z: "?h AND 3 = 0 \<longleftrightarrow> unat ?h mod 4 = 0"
    using unat_word_offset [of ?h] by (metis unat_eq_0)
  have up: "unat ((?h AND - 4) + 4) = unat ?h div 4 * 4 + 4"
    using assms(2) h by (simp add: unat_add_u32 unat_word_floor)
  have arith: "(x + 3) div 4 * 4 = (if x mod 4 = 0 then x else x div 4 * 4 + 4)" for x :: nat
    by presburger
  show ?thesis
    using assms(1) z up arith [of "unat ?h"] h
    by (cases "?h AND 3 = 0") (auto simp: kmalloc_def Let_def)
qed

lemma pmm_metadata_init_spec:
  assumes rdy: "\<not> s_ready (kpmm m)" and h0: "heap_current m \<noteq> 0"
    and room: "unat (heap_current m) + 200000 < 4294967296"
  obtains m' k where "pmm_metadata_init info m = Some m'" "0 < k" "k \<le> 65024"
    "unat (s_managed_frames (kpmm m')) = k" "unat (s_bitmap_bytes (kpmm m')) = (k + 7) div 8"
    "unat (s_max_phys (kpmm m')) = 0x200000 + 4096 * k"
    "unat (heap_current m) + (k + 7) div 8 + 2 * k \<le> unat (heap_current m')"
    "heap_base m' = heap_base m"
proof -
  obtain k where k: "0 < k" "k \<le> 65024" "unat (pmm_detect_max_phys info) = 0x200000 + 4096 * k"
    by (rule pmm_detect_frames)
  define mf where "mf = (pmm_detect_max_phys info - PMM_BASE) div PMM_FRAME_SIZE"
  define bb where "bb = (mf + 7) div 8"
  have mf: "unat mf = k"
    using pmm_detect_max_phys_bounds(2) [of info] k(3)
    by (simp add: mf_def unat_div unat_sub_u32 PMM_FRAME_SIZE_def)
  have bb: "unat bb = (k + 7) div 8" using k mf by (simp add: bb_def unat_div unat_add_u32)
  have bbk: "(k + 7) div 8 \<le> 8128" using k(2) by linarith
  have le: "\<not> mf > PMM_NUM_FRAMES" using mf k by (simp add: word_less_nat_alt PMM_NUM_FRAMES_value)
  have mf2: "unat (mf * 2) = 2 * k" using mf k by (simp add: unat_mult_u32)
  have "unat bb \<noteq> 0" "unat (mf * 2) \<noteq> 0" using bb mf2 k by auto
  then have nz: "bb \<noteq> 0" "mf * 2 \<noteq> 0" by (auto simp: unat_eq_0)
  define p where "p = (kpmm m)\<lparr>s_max_phys := pmm_detect_max_phys info, s_managed_frames := mf,
      s_bitmap_bytes := bb\<rparr>"
  have pf: "s_bitmap_bytes p = bb" "s_managed_frames p = mf" by (simp_all add: p_def)
  have noop: "pmm_reserve_range p a b = p" for a b using rdy by (simp add: pmm_reserve_range_def p_def)
  obtain top1 where t1: "kmalloc (m\<lparr>kpmm := p\<rparr>) bb = (heap_current m, m\<lparr>heap_current := top1, kpmm := p\<rparr>)"
    "unat top1 = (unat (heap_current m) + unat bb + 3) div 4 * 4"
    using kmalloc_spec [OF nz(1), of "m\<lparr>kpmm := p\<rparr>"] room bb bbk by (auto simp: noop)
  have b1: "unat (heap_current m) + (k + 7) div 8 \<le> unat top1" "unat top1 < unat (heap_current m) + 8200"
    using t1(2) bb bbk by linarith+
  obtain top2 where t2: "kmalloc (m\<lparr>heap_current := top1, kpmm := p\<rparr>) (mf * 2) =
      (top1, m\<lparr>heap_current := top2, kpmm := p\<rparr>)" "unat top2 = (unat top1 + 2 * k + 3) div 4 * 4"
    using kmalloc_spec [OF nz(2), of "m\<lparr>heap_current := top1, kpmm := p\<rparr>"] room b1 mf2 k(2)
    by (auto simp: noop)
  have b2: "unat top1 + 2 * k \<le> unat top2" using t2(2) by linarith
  have "unat top1 \<noteq> 0" using b1(1) k(1) by auto
  then have "top1 \<noteq> 0" by (auto simp: unat_eq_0)
  then have "pmm_metadata_init info m = Some (m\<lparr>heap_current := top2, kpmm :=
      p\<lparr>s_bitmap := replicate (unat bb) 0, s_refcount := replicate (unat mf) 0\<rparr>\<rparr>)"
    using le h0 t1(1) t2(1)
    by (simp add: pmm_metadata_init_def Let_def mf_def [symmetric] bb_def [symmetric] p_def [symmetric] pf)
  then show ?thesis
    by (rule that [OF _ k(1,2)]) (use mf bb k b1 b2 in \<open>simp_all add: p_def\<close>)
qed

lemma pmm_all_used_inv:
  assumes "0 < k" "k \<le> 65024" "unat (s_managed_frames p) = k" "unat (s_bitmap_bytes p) = (k + 7) div 8"
    "unat (s_max_phys p) = 0x200000 + 4096 * k" "s_free_count p = 0" "s_next_free p = 0"
    "s_bitmap p = replicate (unat (s_bitmap_bytes p)) 0xFF"
    "s_refcount p = replicate (unat (s_managed_frames p)) 1"
  shows "pmm_inv p" "n_frames p = k" "\<And>i. i < k \<Longrightarrow> pmm_refs p i = 1"
proof -
  have bits: "bit (255 :: u8) j \<longleftrightarrow> j < 8" for j
    using bit_mask_iff [of 8 j, where 'a = "8 word"] by (simp add: mask_eq_exp_minus_1)
  show n: "n_frames p = k" using assms by (simp add: n_frames_def)
  show refs: "\<And>i. i < k \<Longrightarrow> pmm_refs p i = 1" using assms n by (simp add: pmm_refs_def)
  have "{i. i < k \<and> pmm_refs p i = 0} = {}" using refs by auto
  moreover have "used p i" if "i < k" for i
  proof -
    have "i div 8 < (k + 7) div 8" using that by linarith
    then have "used p i \<longleftrightarrow> bit (255 :: u8) (i mod 8)" using assms by (simp add: used_def)
    then show ?thesis unfolding bits by simp
  qed
  ultimately show "pmm_inv p"
    using assms n refs by (simp add: pmm_inv_def pmm_wf_def)
qed

lemma pmm_inv_ready:
  "pmm_inv p \<Longrightarrow> pmm_inv (p\<lparr>s_ready := r, s_total_count := t\<rparr>)"
  "pmm_refs (p\<lparr>s_ready := r, s_total_count := t\<rparr>) = pmm_refs p"
  "n_frames (p\<lparr>s_ready := r, s_total_count := t\<rparr>) = n_frames p"
  by (auto simp: pmm_inv_def pmm_wf_def n_frames_def pmm_refs_def used_def fun_eq_iff)

text \<open>The frames the memory map, or the fixed fallback, makes available.\<close>

definition boot_usable :: "boot_info \<Rightarrow> nat \<Rightarrow> bool" where
  "boot_usable info i \<longleftrightarrow>
     (if boot_info_e820_valid info then \<exists>ent \<in> set (e820_entries info). e820_usable ent i
      else frame_base (Suc i) \<le> 0x200000 + 0x1E00000)"

lemma pmm_init_spec:
  assumes rdy: "\<not> s_ready (kpmm m)" and h0: "heap_current m \<noteq> 0"
    and room: "unat (heap_current m) + 200000 < 4294967296"
  obtains m' where "pmm_init info m = Some m'" "pmm_inv (kpmm m')" "s_ready (kpmm m')"
    "s_total_count (kpmm m') = s_free_count (kpmm m')"
    "unat (heap_current m) + (n_frames (kpmm m') + 7) div 8 + 2 * n_frames (kpmm m') \<le> unat (heap_current m')"
    "\<And>i. i < n_frames (kpmm m') \<Longrightarrow> pmm_refs (kpmm m') i = 0 \<longleftrightarrow>
       boot_usable info i \<and> \<not> (\<exists>r \<in> set (pmm_boot_ranges info (heap_current m')). overlaps_frame r i)"
proof -
  obtain m1 k where m1: "pmm_metadata_init info m = Some m1" "0 < k" "k \<le> 65024"
    "unat (s_managed_frames (kpmm m1)) = k" "unat (s_bitmap_bytes (kpmm m1)) = (k + 7) div 8"
    "unat (s_max_phys (kpmm m1)) = 0x200000 + 4096 * k"
    "unat (heap_current m) + (k + 7) div 8 + 2 * k \<le> unat (heap_current m1)"
    using pmm_metadata_init_spec [OF assms] .
  define p0 where "p0 = (kpmm m1)\<lparr>s_bitmap := replicate (unat (s_bitmap_bytes (kpmm m1))) 0xFF,
    s_refcount := replicate (unat (s_managed_frames (kpmm m1))) 1,
    s_free_count := 0, s_total_count := 0, s_next_free := 0, s_ready := False\<rparr>"
  have p0: "pmm_inv p0" "n_frames p0 = k" "\<And>i. i < k \<Longrightarrow> pmm_refs p0 i = 1"
    using pmm_all_used_inv [OF m1(2,3), of p0] m1(4,5,6) by (simp_all add: p0_def)
  define p1 where "p1 = (if boot_info_e820_valid info then pmm_free_e820_usable_ranges info p0
    else pmm_free_fixed_range p0)"
  have p1: "pmm_inv p1" "same_window p0 p1"
    "\<And>i. i < k \<Longrightarrow> pmm_refs p1 i = 0 \<longleftrightarrow> boot_usable info i"
    using pmm_free_e820_usable_spec [OF p0(1), of "e820_entries info"] p0(2,3)
      pmm_mark_range_free [OF p0(1), of PMM_BASE "PMM_BASE + PMM_FALLBACK_SIZE"]
    by (auto simp: p1_def pmm_free_e820_usable_ranges_def pmm_free_fixed_range_def boot_usable_def
        pmm_consts frame_base_def)
  have n1: "n_frames p1 = k" using same_window_n_frames [OF p1(2)] p0(2) by simp
  define p2 where "p2 = pmm_reserve_boot_ranges info (heap_current m1) p1"
  have p2: "pmm_inv p2" "n_frames p2 = k" "\<And>i. i < k \<Longrightarrow> pmm_refs p2 i = 0 \<longleftrightarrow>
      boot_usable info i \<and> \<not> (\<exists>r \<in> set (pmm_boot_ranges info (heap_current m1)). overlaps_frame r i)"
    using pmm_reserve_ranges_spec [OF p1(1), of "pmm_boot_ranges info (heap_current m1)"] p1(3) n1
      same_window_n_frames
    by (auto simp: p2_def pmm_reserve_boot_ranges_def)
  define m' where "m' = m1\<lparr>kpmm := p2\<lparr>s_ready := True, s_total_count := s_free_count p2\<rparr>\<rparr>"
  have "pmm_init info m = Some m'"
    by (simp add: pmm_init_def m1(1) Let_def memory_get_heap_top_def m'_def p2_def p1_def p0_def)
  then show ?thesis
    by (rule that) (use p2 pmm_inv_ready m1(7) in \<open>simp_all add: m'_def\<close>)
qed

section \<open>The kernel heap stays out of the pool\<close>

text \<open>
  After start-up no free frame overlaps the kernel image and heap, the bytes from
  \<^verbatim>\<open>0x100000\<close> up to the bump pointer.
\<close>

definition heap_reserved :: "kmem \<Rightarrow> bool" where
  "heap_reserved m \<longleftrightarrow>
     pmm_inv (kpmm m) \<and> s_ready (kpmm m) \<and>
     (\<forall>i < n_frames (kpmm m). overlaps_frame (0x100000, heap_current m) i \<longrightarrow> pmm_refs (kpmm m) i \<noteq> 0)"

lemma heap_reserved_grow:
  assumes res: "heap_reserved m" and tp: "heap_current m \<le> tp" and old: "unat old < unat (heap_current m) + 4096"
  shows "heap_reserved (m\<lparr>heap_current := tp, kpmm := pmm_reserve_range (kpmm m) old tp\<rparr>)"
proof -
  have inv: "pmm_inv (kpmm m)" "s_ready (kpmm m)" using res by (simp_all add: heap_reserved_def)
  let ?p = "pmm_reserve_range (kpmm m) old tp"
  have eq: "?p = pmm_mark_range_used (kpmm m) old tp" using inv(2) by (simp add: pmm_reserve_range_def)
  have used: "pmm_inv ?p" "same_window (kpmm m) ?p" "pmm_refs ?p =
      (\<lambda>i. if i < n_frames (kpmm m) \<and> unat old < frame_base (Suc i) \<and> frame_base i < unat tp
           then max 1 (pmm_refs (kpmm m) i) else pmm_refs (kpmm m) i)"
    unfolding eq using pmm_mark_range_used [OF inv(1), of old tp] by blast+
  have "s_ready ?p" using used(2) inv(2) by (simp add: same_window_def)
  moreover have "n_frames ?p = n_frames (kpmm m)" using used(2) by (rule same_window_n_frames)
  moreover have "pmm_refs ?p i \<noteq> 0" if i: "i < n_frames (kpmm m)" "overlaps_frame (0x100000, tp) i" for i
  proof (cases "unat old < frame_base (Suc i)")
    case True
    then show ?thesis using i unfolding used(3) by (simp add: overlaps_frame_def)
  next
    case False
    then have "overlaps_frame (0x100000, heap_current m) i"
      using old by (simp add: overlaps_frame_def frame_base_def)
    then show ?thesis using res i(1) False unfolding used(3) by (auto simp: heap_reserved_def)
  qed
  ultimately show ?thesis using used(1) unfolding heap_reserved_def by simp
qed

lemma kmalloc_heap_reserved:
  assumes "heap_reserved m" "nbytes \<noteq> 0" "unat (heap_current m) + unat nbytes + 4 < 4294967296"
    and "kmalloc m nbytes = (a, m')"
  shows "heap_reserved m' \<and> a = heap_current m \<and> unat a + unat nbytes \<le> unat (heap_current m')"
proof -
  obtain tp where tp: "kmalloc m nbytes =
      (heap_current m, m\<lparr>heap_current := tp, kpmm := pmm_reserve_range (kpmm m) (heap_current m) tp\<rparr>)"
    "unat tp = (unat (heap_current m) + unat nbytes + 3) div 4 * 4"
    using kmalloc_spec [OF assms(2,3)] by auto
  have le: "unat (heap_current m) + unat nbytes \<le> unat tp" using tp(2) by linarith
  then have "heap_current m \<le> tp" by (simp add: word_le_nat_alt)
  then show ?thesis using heap_reserved_grow [OF assms(1), of tp "heap_current m"] tp(1) le assms(4) by auto
qed

lemma page_ceil_aligned: "n mod 4096 = 0 \<Longrightarrow> (n + 4095) div 4096 * 4096 = (n :: nat)"
  by (auto elim!: dvdE simp flip: dvd_eq_mod_eq_0)

lemma kmalloc_page_spec:
  assumes "unat (heap_current m) + 8192 < 4294967296"
  shows "\<exists>old tp. kmalloc_page m = (old, m\<lparr>heap_current := tp, kpmm := pmm_reserve_range (kpmm m) old tp\<rparr>) \<and>
    page_aligned old \<and> unat old = (unat (heap_current m) + 4095) div 4096 * 4096 \<and> unat tp = unat old + 4096"
proof -
  let ?h = "heap_current m"
  define old where "old = (if ?h AND 4095 \<noteq> 0 then (?h + 4095) AND - 4096 else ?h)"
  have z: "?h AND 4095 = 0 \<longleftrightarrow> unat ?h mod 4096 = 0"
    using unat_page_offset [of ?h] by (metis unat_eq_0)
  have "unat (?h + 4095) = unat ?h + 4095" using assms by (simp add: unat_add_u32)
  then have old: "unat old = (unat ?h + 4095) div 4096 * 4096"
    unfolding old_def using z page_ceil_aligned [of "unat ?h"] by (simp add: unat_page_floor')
  then have al: "page_aligned old" by (simp add: page_aligned_dvd)
  have "unat old \<le> unat ?h + 4095" using old by linarith
  then have "unat (old + 4096) = unat old + 4096" using assms by (simp add: unat_add_u32)
  then show ?thesis using old al
    by (auto simp: kmalloc_page_def Let_def PAGE_SIZE_def old_def algebra_simps split: if_splits)
qed

lemma kmalloc_page_heap_reserved:
  assumes "heap_reserved m" "unat (heap_current m) + 8192 < 4294967296" "kmalloc_page m = (a, m')"
  shows "heap_reserved m' \<and> page_aligned a \<and> heap_current m \<le> a \<and> unat a + 4096 \<le> unat (heap_current m')"
proof -
  obtain old tp where page: "kmalloc_page m =
      (old, m\<lparr>heap_current := tp, kpmm := pmm_reserve_range (kpmm m) old tp\<rparr>)"
    "page_aligned old" "unat old = (unat (heap_current m) + 4095) div 4096 * 4096" "unat tp = unat old + 4096"
    using kmalloc_page_spec [OF assms(2)] by auto
  have b: "unat (heap_current m) \<le> unat old" "unat old < unat (heap_current m) + 4096"
    using page(3) by linarith+
  then have "heap_current m \<le> tp" "heap_current m \<le> old" using page(4) by (simp_all add: word_le_nat_alt)
  then show ?thesis
    using heap_reserved_grow [OF assms(1) _ b(2), of tp] page assms(3) by auto
qed

lemma pmm_alloc_frame_heap_reserved:
  assumes res: "heap_reserved m" and al: "pmm_alloc_frame (kpmm m) = (f, p')" and "f \<noteq> 0"
  shows "heap_reserved (m\<lparr>kpmm := p'\<rparr>) \<and> unat (heap_current m) \<le> unat f"
proof -
  have inv: "pmm_inv (kpmm m)" using res by (simp add: heap_reserved_def)
  then show ?thesis
  proof (cases rule: pmm_alloc_frame_cases)
    case full
    then show ?thesis using al assms(3) by simp
  next
    case (frame idx q)
    have eq: "f = idx_to_addr idx" "p' = q" using frame(1) al by auto
    have "unat idx < 65024" using frame(2) inv by (simp add: pmm_inv_def pmm_wf_def)
    then have "unat f = frame_base (unat idx)" by (simp add: eq unat_idx_to_addr)
    moreover have "\<not> overlaps_frame (0x100000, heap_current m) (unat idx)"
      using res frame(2,3) by (auto simp: heap_reserved_def)
    ultimately have "unat (heap_current m) \<le> unat f"
      using frame_base_Suc_gt [of "unat idx"] by (simp add: overlaps_frame_def)
    moreover have "s_ready q" using frame(5) res by (simp add: same_window_def heap_reserved_def)
    ultimately show ?thesis
      using res frame(4,6) same_window_n_frames [OF frame(5)] by (auto simp: heap_reserved_def eq)
  qed
qed

section \<open>Properties\<close>

definition boot_example :: boot_info where
  "boot_example = \<lparr>bi_magic = BOOT_INFO_MAGIC, bi_version = BOOT_INFO_VERSION, bi_size = 832,
     framebuffer_phys = 0, framebuffer_width = 0, framebuffer_height = 0, framebuffer_pitch = 0,
     framebuffer_bpp = 0, framebuffer_format = 0, framebuffer_valid = 0, e820_count = 1,
     e820_valid = 1,
     e820 = [\<lparr>e820_base = 0x100000, e820_length = 0x7F00000, e820_type = 1, e820_attr = 1\<rparr>],
     ramdisk_phys = 0, ramdisk_size = 0, ramdisk_valid = 0, bi_reserved = 0\<rparr>"

text \<open>The static variables before start-up, with the bump pointer at \<open>start\<close>.\<close>

definition kmem_boot :: "u32 \<Rightarrow> kmem" where
  "kmem_boot start = memory_init \<lparr>heap_current = 0, heap_base = 0, kpmm =
     \<lparr>s_bitmap = [], s_refcount = [], s_bitmap_bytes = 0, s_managed_frames = 0, s_max_phys = 0,
      s_free_count = 0, s_total_count = 0, s_next_free = 0, s_ready = False\<rparr>\<rparr> start"

text \<open>
  C4: \<^verbatim>\<open>pmm_init\<close> does not halt when 200000 bytes are left above the bump pointer, and then the
  manager is consistent and ready, its tables lie below the new bump pointer, and a managed frame
  is free exactly when the memory map (or the fixed fallback range) makes the whole frame usable
  and it overlaps none of the reserved ranges: low memory, boot block, boot font, boot stack,
  kernel image and heap including the tables, framebuffer and ramdisk.
\<close>

theorem pmm_init_frees_exactly_usable:
  assumes "\<not> s_ready (kpmm m)" "heap_current m \<noteq> 0" "unat (heap_current m) + 200000 < 4294967296"
  shows "\<exists>m'. pmm_init info m = Some m' \<and> pmm_inv (kpmm m') \<and> s_ready (kpmm m') \<and>
    unat (heap_current m) + (n_frames (kpmm m') + 7) div 8 + 2 * n_frames (kpmm m')
      \<le> unat (heap_current m') \<and>
    (\<forall>i < n_frames (kpmm m'). pmm_refs (kpmm m') i = 0 \<longleftrightarrow>
       boot_usable info i \<and>
       \<not> (\<exists>r \<in> set (pmm_boot_ranges info (heap_current m')). overlaps_frame r i))"
  by (rule pmm_init_spec [OF assms, of info]) blast

theorem pmm_init_frees_exactly_usable_witness:
  "\<exists>m'. pmm_init boot_example (kmem_boot 0x180000) = Some m' \<and> pmm_inv (kpmm m') \<and> s_ready (kpmm m')"
  using pmm_init_frees_exactly_usable [of "kmem_boot 0x180000" boot_example]
  by (auto simp: kmem_boot_def memory_init_def)

text \<open>
  the kernel heap never shrinks into the frame pool. While no free frame overlaps the kernel
  image and heap, \<^verbatim>\<open>kmalloc\<close> and \<^verbatim>\<open>kmalloc_page\<close> return fresh memory at or above the bump
  pointer and keep it that way, and a frame that \<^verbatim>\<open>pmm_alloc_frame\<close> hands out afterwards lies
  above the whole heap.
\<close>

theorem kernel_heap_disjoint_from_new_frames:
  assumes "heap_reserved m"
  shows "(nbytes \<noteq> 0 \<longrightarrow> unat (heap_current m) + unat nbytes + 4 < 4294967296 \<longrightarrow>
      (\<exists>m'. kmalloc m nbytes = (heap_current m, m') \<and> heap_reserved m' \<and>
         unat (heap_current m) + unat nbytes \<le> unat (heap_current m'))) \<and>
    (unat (heap_current m) + 8192 < 4294967296 \<longrightarrow>
      (\<exists>a m'. kmalloc_page m = (a, m') \<and> heap_reserved m' \<and> page_aligned a \<and> heap_current m \<le> a \<and>
         unat a + 4096 \<le> unat (heap_current m'))) \<and>
    (\<forall>f p'. pmm_alloc_frame (kpmm m) = (f, p') \<and> f \<noteq> 0 \<longrightarrow>
      heap_reserved (m\<lparr>kpmm := p'\<rparr>) \<and> unat (heap_current m) \<le> unat f)"
proof (intro conjI impI allI)
  assume nz: "nbytes \<noteq> 0" "unat (heap_current m) + unat nbytes + 4 < 4294967296"
  obtain a m' where k: "kmalloc m nbytes = (a, m')" by (cases "kmalloc m nbytes")
  from kmalloc_heap_reserved [OF assms nz k] k
  show "\<exists>m'. kmalloc m nbytes = (heap_current m, m') \<and> heap_reserved m' \<and>
      unat (heap_current m) + unat nbytes \<le> unat (heap_current m')" by auto
next
  assume room: "unat (heap_current m) + 8192 < 4294967296"
  obtain a m' where k: "kmalloc_page m = (a, m')" by (cases "kmalloc_page m")
  from kmalloc_page_heap_reserved [OF assms room k] k
  show "\<exists>a m'. kmalloc_page m = (a, m') \<and> heap_reserved m' \<and> page_aligned a \<and> heap_current m \<le> a \<and>
      unat a + 4096 \<le> unat (heap_current m')" by blast
qed (use pmm_alloc_frame_heap_reserved [OF assms] in blast)+

text \<open>Three frames hold the kernel and its heap, which ends at the fourth.\<close>

definition kmem_example :: kmem where
  "kmem_example = \<lparr>heap_current = 0x203000, heap_base = 0x180000, kpmm =
     \<lparr>s_bitmap = [7], s_refcount = [1, 1, 1, 0], s_bitmap_bytes = 1, s_managed_frames = 4,
      s_max_phys = 0x204000, s_free_count = 1, s_total_count = 1, s_next_free = 0, s_ready = True\<rparr>\<rparr>"

lemma kmem_example_reserved: "heap_reserved kmem_example"
proof -
  have "pmm_inv (kpmm kmem_example)" by (simp add: kmem_example_def pmm_inv_code pmm_eval)
  moreover have "pmm_refs (kpmm kmem_example) i \<noteq> 0"
    if "i < 4" "overlaps_frame (0x100000, heap_current kmem_example) i" for i
  proof -
    have "i < 3" using that by (simp add: overlaps_frame_def kmem_example_def frame_base_def)
    then consider "i = 0" | "i = 1" | "i = 2" by linarith
    then show ?thesis by cases (simp_all add: kmem_example_def pmm_refs_def n_frames_def)
  qed
  ultimately show ?thesis by (simp add: heap_reserved_def kmem_example_def n_frames_def)
qed

theorem kernel_heap_disjoint_from_new_frames_witness:
  "\<exists>m'. kmalloc kmem_example 100 = (0x203000, m') \<and> heap_reserved m'"
  using kernel_heap_disjoint_from_new_frames [OF kmem_example_reserved, of 100]
  by (auto simp: kmem_example_def)


end
