(* ===== verification/Unicode.thy ===== *)
theory Unicode
  imports Prelude
begin

text \<open>
  The UTF-8 decoder and the code page 437 table of \<^verbatim>\<open>src/drivers/unicode.c\<close>, and the loop of
  \<^verbatim>\<open>src/drivers/terminal.c\<close> that drives them. The decoder is verified against UTF-8 itself,
  given as the encoding of a code point.
\<close>

section \<open>The decoder\<close>

definition UNICODE_REPLACEMENT_CHAR :: u32 where "UNICODE_REPLACEMENT_CHAR = 0xFFFD"

record utf8_decoder =
  codepoint :: u32
  min_codepoint :: u32
  remaining :: u8

datatype utf8_decode_result =
  UTF8_DECODE_WAIT | UTF8_DECODE_ACCEPT | UTF8_DECODE_REJECT | UTF8_DECODE_REJECT_RETRY

definition utf8_decoder_reset :: "utf8_decoder \<Rightarrow> utf8_decoder" where
  "utf8_decoder_reset dec = dec\<lparr>codepoint := 0, min_codepoint := 0, remaining := 0\<rparr>"

text \<open>
  The result, the value written to \<^verbatim>\<open>*out_codepoint\<close> if one is, and the decoder after the call.
  The sole caller passes the addresses of two variables, so the test for null pointers is left out.
\<close>

definition utf8_decoder_feed ::
    "utf8_decoder \<Rightarrow> u8 \<Rightarrow> utf8_decode_result \<times> u32 option \<times> utf8_decoder" where
  "utf8_decoder_feed dec byte =
     (if remaining dec > 0 then
        if byte AND 0xC0 \<noteq> 0x80 then
          (UTF8_DECODE_REJECT_RETRY, Some UNICODE_REPLACEMENT_CHAR, utf8_decoder_reset dec)
        else
          let dec = dec\<lparr>codepoint := push_bit 6 (codepoint dec) OR (ucast byte AND 0x3F)\<rparr>;
              dec = dec\<lparr>remaining := remaining dec - 1\<rparr>
          in if remaining dec > 0 then (UTF8_DECODE_WAIT, None, dec)
             else
               let cp = codepoint dec;
                   cp = (if cp < min_codepoint dec \<or> (cp \<ge> 0xD800 \<and> cp \<le> 0xDFFF) \<or> cp > 0x10FFFF
                         then UNICODE_REPLACEMENT_CHAR else cp)
               in (UTF8_DECODE_ACCEPT, Some cp, utf8_decoder_reset dec)
      else if byte < 0x80 then (UTF8_DECODE_ACCEPT, Some (ucast byte), dec)
      else if byte \<ge> 0xC2 \<and> byte \<le> 0xDF then
        (UTF8_DECODE_WAIT, None,
         dec\<lparr>codepoint := ucast byte AND 0x1F, min_codepoint := 0x80, remaining := 1\<rparr>)
      else if byte \<ge> 0xE0 \<and> byte \<le> 0xEF then
        (UTF8_DECODE_WAIT, None,
         dec\<lparr>codepoint := ucast byte AND 0x0F, min_codepoint := 0x800, remaining := 2\<rparr>)
      else if byte \<ge> 0xF0 \<and> byte \<le> 0xF4 then
        (UTF8_DECODE_WAIT, None,
         dec\<lparr>codepoint := ucast byte AND 0x07, min_codepoint := 0x10000, remaining := 3\<rparr>)
      else (UTF8_DECODE_REJECT, Some UNICODE_REPLACEMENT_CHAR, dec))"

section \<open>Code page 437\<close>

definition cp437_table :: "(u32 \<times> u8) list" where
  "cp437_table = [
    (0x00A1, 0xAD), (0x00A2, 0x9B), (0x00A3, 0x9C), (0x00A5, 0x9D), (0x00AA, 0xA6),
    (0x00AB, 0xAE), (0x00AC, 0xAA), (0x00B0, 0xF8), (0x00B1, 0xF1), (0x00B2, 0xFD),
    (0x00B5, 0xE6), (0x00B7, 0xFA), (0x00BA, 0xA7), (0x00BB, 0xAF), (0x00BC, 0xAC),
    (0x00BD, 0xAB), (0x00BF, 0xA8), (0x00C4, 0x8E), (0x00C5, 0x8F), (0x00C6, 0x92),
    (0x00C7, 0x80), (0x00C9, 0x90), (0x00D1, 0xA5), (0x00D6, 0x99), (0x00DC, 0x9A),
    (0x00DF, 0xE1), (0x00E0, 0x85), (0x00E1, 0xA0), (0x00E2, 0x83), (0x00E4, 0x84),
    (0x00E5, 0x86), (0x00E6, 0x91), (0x00E7, 0x87), (0x00E8, 0x8A), (0x00E9, 0x82),
    (0x00EA, 0x88), (0x00EB, 0x89), (0x00EC, 0x8D), (0x00ED, 0xA1), (0x00EE, 0x8C),
    (0x00EF, 0x8B), (0x00F1, 0xA4), (0x00F2, 0x95), (0x00F3, 0xA2), (0x00F4, 0x93),
    (0x00F6, 0x94), (0x00F7, 0xF6), (0x00F9, 0x97), (0x00FA, 0xA3), (0x00FB, 0x96),
    (0x00FC, 0x81), (0x00FF, 0x98), (0x0192, 0x9F), (0x203C, 0x13), (0x20A7, 0x9E),
    (0x25AC, 0x16), (0x25B2, 0x1E), (0x25BA, 0x10), (0x25BC, 0x1F), (0x25C4, 0x11),
    (0x263A, 0x01), (0x263B, 0x02), (0x263C, 0x0F), (0x2640, 0x0C), (0x2642, 0x0B),
    (0x2660, 0x06), (0x2663, 0x05), (0x2665, 0x03), (0x2666, 0x04), (0x266A, 0x0D),
    (0x266B, 0x0E), (0x0393, 0xE2), (0x0398, 0xE9), (0x03A3, 0xE4), (0x03A6, 0xE8),
    (0x03A9, 0xEA), (0x03B1, 0xE0), (0x03B4, 0xEB), (0x03B5, 0xEE), (0x03C0, 0xE3),
    (0x03C3, 0xE5), (0x03C4, 0xE7), (0x03C6, 0xED), (0x2022, 0x07), (0x2190, 0x1B),
    (0x2191, 0x18), (0x2192, 0x1A), (0x2193, 0x19), (0x2194, 0x1D), (0x2195, 0x12),
    (0x21A8, 0x17), (0x221A, 0xFB), (0x221E, 0xEC), (0x2229, 0xEF), (0x2248, 0xF7),
    (0x2261, 0xF0), (0x2264, 0xF3), (0x2265, 0xF2), (0x2302, 0x7F), (0x2310, 0xA9),
    (0x2320, 0xF4), (0x2321, 0xF5), (0x2500, 0xC4), (0x2502, 0xB3), (0x250C, 0xDA),
    (0x2510, 0xBF), (0x2514, 0xC0), (0x2518, 0xD9), (0x251C, 0xC3), (0x2524, 0xB4),
    (0x252C, 0xC2), (0x2534, 0xC1), (0x253C, 0xC5), (0x2550, 0xCD), (0x2551, 0xBA),
    (0x2554, 0xC9), (0x2557, 0xBB), (0x255A, 0xC8), (0x255D, 0xBC), (0x2560, 0xCC),
    (0x2563, 0xB9), (0x2566, 0xCB), (0x2569, 0xCA), (0x256C, 0xCE), (0x2580, 0xDF),
    (0x2584, 0xDC), (0x2588, 0xDB), (0x258C, 0xDD), (0x2590, 0xDE), (0x2591, 0xB0),
    (0x2592, 0xB1), (0x2593, 0xB2), (0x25A0, 0xFE)]"

definition unicode_to_cp437 :: "u32 \<Rightarrow> u8" where
  "unicode_to_cp437 cp =
     (if cp < 0x80 then ucast cp
      else case map_of cp437_table cp of Some b \<Rightarrow> b | None \<Rightarrow> 0x3F)"

section \<open>The terminal's decoding loop\<close>

lemma utf8_feed_retry:
  "utf8_decoder_feed dec b = (UTF8_DECODE_REJECT_RETRY, out, dec') \<Longrightarrow>
     0 < unat (remaining dec) \<and> remaining dec' = 0"
  by (auto simp: utf8_decoder_feed_def Let_def utf8_decoder_reset_def unat_gt_0 split: if_splits)

text \<open>
  \<^verbatim>\<open>terminal_emit_utf8_byte\<close>: the code points passed to \<^verbatim>\<open>terminal_emit_codepoint\<close>, and the
  decoder. The loop runs again only after a rejected continuation byte, with a reset decoder.
\<close>

function terminal_emit_utf8_byte :: "utf8_decoder \<Rightarrow> u8 \<Rightarrow> u32 list \<times> utf8_decoder" where
  "terminal_emit_utf8_byte dec b =
     (let (result, out, dec') = utf8_decoder_feed dec b in
      if result = UTF8_DECODE_WAIT then ([], dec')
      else
        let cp = (case out of Some c \<Rightarrow> c | None \<Rightarrow> 0) in
        if result \<noteq> UTF8_DECODE_REJECT_RETRY then ([cp], dec')
        else let (cps, dec'') = terminal_emit_utf8_byte dec' b in (cp # cps, dec''))"
  by pat_completeness auto
termination
  by (relation "measure (\<lambda>(dec, b). unat (remaining dec))") (auto dest!: utf8_feed_retry [OF sym])

declare terminal_emit_utf8_byte.simps [simp del]

fun terminal_emit_bytes :: "utf8_decoder \<Rightarrow> u8 list \<Rightarrow> u32 list \<times> utf8_decoder" where
  "terminal_emit_bytes dec [] = ([], dec)"
| "terminal_emit_bytes dec (b # bs) =
     (let (xs, dec') = terminal_emit_utf8_byte dec b;
          (ys, dec'') = terminal_emit_bytes dec' bs
      in (xs @ ys, dec''))"

section \<open>UTF-8\<close>

definition scalar_value :: "nat \<Rightarrow> bool" where
  "scalar_value n \<longleftrightarrow> n \<le> 0x10FFFF \<and> \<not> (0xD800 \<le> n \<and> n \<le> 0xDFFF)"

definition utf8_encode :: "nat \<Rightarrow> nat list" where
  "utf8_encode n =
     (if n < 0x80 then [n]
      else if n < 0x800 then [0xC0 + n div 64, 0x80 + n mod 64]
      else if n < 0x10000 then [0xE0 + n div 4096, 0x80 + n div 64 mod 64, 0x80 + n mod 64]
      else [0xF0 + n div 262144, 0x80 + n div 4096 mod 64, 0x80 + n div 64 mod 64, 0x80 + n mod 64])"

definition utf8_bytes :: "nat \<Rightarrow> u8 list" where
  "utf8_bytes n = map of_nat (utf8_encode n)"

subsection \<open>The decoder on numbers\<close>

lemma unat_eq_of_nat_u8: "unat (w :: u8) = 128 \<longleftrightarrow> w = 0x80"
  using unsigned_word_eqI [where 'a = nat, of w "0x80"] by auto

lemma utf8_cont_iff: "(b :: u8) AND 0xC0 = 0x80 \<longleftrightarrow> unat b div 64 = 2"
proof -
  have "unat (b AND 0xC0) = unat b div 64 * 64"
  proof -
    have "(0xC0 :: u8) = NOT (mask 6)" by (simp add: mask_eq_exp_minus_1)
    then show ?thesis using unat_floor_mask [of b 6] by simp
  qed
  moreover have "b AND 0xC0 = 0x80 \<longleftrightarrow> unat (b AND 0xC0) = 0x80"
    by (metis unat_eq_of_nat_u8)
  ultimately show ?thesis by linarith
qed

lemma unat_ucast_u8 [simp]: "unat (ucast (b :: u8) :: u32) = unat b"
  using unsigned_less [where 'a = nat, of b] by (simp add: unsigned_ucast_eq take_bit_nat_eq_self_iff)

lemma unat_low_bits:
  "unat (ucast (b :: u8) AND 0x3F :: u32) = unat b mod 64"
  "unat (ucast b AND 0x1F :: u32) = unat b mod 32"
  "unat (ucast b AND 0x0F :: u32) = unat b mod 16"
  "unat (ucast b AND 0x07 :: u32) = unat b mod 8"
  using unat_and_mask [of "ucast b :: u32" 6] unat_and_mask [of "ucast b :: u32" 5]
    unat_and_mask [of "ucast b :: u32" 4] unat_and_mask [of "ucast b :: u32" 3]
  by (simp_all add: mask_eq_exp_minus_1)

text \<open>A byte of each class, on a decoder that waits for none or for some continuation bytes.\<close>

lemma emit_ascii:
  "remaining dec = 0 \<Longrightarrow> unat b < 0x80 \<Longrightarrow> terminal_emit_utf8_byte dec b = ([ucast b], dec)"
  by (subst terminal_emit_utf8_byte.simps) (simp add: utf8_decoder_feed_def word_less_nat_alt)

lemma emit_lead:
  assumes "remaining dec = 0"
  shows "0xC2 \<le> unat b \<Longrightarrow> unat b \<le> 0xDF \<Longrightarrow> terminal_emit_utf8_byte dec b =
      ([], dec\<lparr>codepoint := ucast b AND 0x1F, min_codepoint := 0x80, remaining := 1\<rparr>)"
    and "0xE0 \<le> unat b \<Longrightarrow> unat b \<le> 0xEF \<Longrightarrow> terminal_emit_utf8_byte dec b =
      ([], dec\<lparr>codepoint := ucast b AND 0x0F, min_codepoint := 0x800, remaining := 2\<rparr>)"
    and "0xF0 \<le> unat b \<Longrightarrow> unat b \<le> 0xF4 \<Longrightarrow> terminal_emit_utf8_byte dec b =
      ([], dec\<lparr>codepoint := ucast b AND 0x07, min_codepoint := 0x10000, remaining := 3\<rparr>)"
  using assms
  by (subst terminal_emit_utf8_byte.simps,
      simp add: utf8_decoder_feed_def word_less_nat_alt word_le_nat_alt)+

lemma emit_bad:
  assumes "remaining dec = 0" "0x80 \<le> unat b" "unat b < 0xC2 \<or> 0xF4 < unat b"
  shows "terminal_emit_utf8_byte dec b = ([UNICODE_REPLACEMENT_CHAR], dec)"
  using assms
  by (subst terminal_emit_utf8_byte.simps)
    (auto simp: utf8_decoder_feed_def word_less_nat_alt word_le_nat_alt)

lemma emit_non_cont:
  assumes "remaining dec \<noteq> 0" "unat b div 64 \<noteq> 2"
  shows "\<exists>xs dec'. terminal_emit_utf8_byte dec b = (UNICODE_REPLACEMENT_CHAR # xs, dec')"
  using assms
  by (subst terminal_emit_utf8_byte.simps)
    (simp add: utf8_decoder_feed_def utf8_cont_iff word_neq_0_conv case_prod_beta)

definition next_code :: "utf8_decoder \<Rightarrow> u8 \<Rightarrow> u32" where
  "next_code dec b = push_bit 6 (codepoint dec) OR (ucast b AND 0x3F)"

lemma unat_next_code:
  "unat (codepoint dec) < 2 ^ 26 \<Longrightarrow> unat (next_code dec b) = unat (codepoint dec) * 64 + unat b mod 64"
  unfolding next_code_def by (subst unat_shift_or) (simp_all add: unat_low_bits)

lemma emit_cont:
  assumes "1 < unat (remaining dec)" "unat b div 64 = 2"
  shows "terminal_emit_utf8_byte dec b =
    ([], dec\<lparr>codepoint := next_code dec b, remaining := remaining dec - 1\<rparr>)"
proof -
  have "remaining dec \<noteq> 0" "remaining dec - 1 \<noteq> 0" using assms(1) by (auto simp: unat_eq_0)
  then have "0 < remaining dec" "0 < remaining dec - 1" by (simp_all only: word_neq_0_conv)
  then show ?thesis using assms(2)
    by (subst terminal_emit_utf8_byte.simps)
      (simp add: utf8_decoder_feed_def utf8_cont_iff word_neq_0_conv Let_def next_code_def)
qed

text \<open>What a complete sequence of value \<open>v\<close> is accepted as, given the least value of its length.\<close>

definition accepted_code :: "nat \<Rightarrow> nat \<Rightarrow> u32" where
  "accepted_code lo v =
     (if v < lo \<or> \<not> scalar_value v then UNICODE_REPLACEMENT_CHAR else of_nat v)"

lemma emit_last:
  assumes "remaining dec = 1" "unat b div 64 = 2"
  shows "terminal_emit_utf8_byte dec b =
    ([accepted_code (unat (min_codepoint dec)) (unat (next_code dec b))], utf8_decoder_reset dec)"
  using assms
  by (subst terminal_emit_utf8_byte.simps)
    (auto simp: accepted_code_def utf8_decoder_feed_def utf8_cont_iff Let_def utf8_decoder_reset_def scalar_value_def
      word_less_nat_alt word_le_nat_alt simp flip: next_code_def)

subsection \<open>Round trip\<close>

text \<open>Continuation bytes carry base-64 digits.\<close>

definition cont_byte :: "nat \<Rightarrow> u8" where
  "cont_byte d = of_nat (0x80 + d)"

definition digits_value :: "nat \<Rightarrow> nat list \<Rightarrow> nat" where
  "digits_value c ds = fold (\<lambda>d a. a * 64 + d) ds c"

lemma digits_value_simps [simp]:
  "digits_value c [] = c" "digits_value c (d # ds) = digits_value (c * 64 + d) ds"
  by (simp_all add: digits_value_def)

lemma unat_cont_byte:
  assumes "d < 64"
  shows "unat (cont_byte d) = 0x80 + d" "unat (cont_byte d) div 64 = 2" "unat (cont_byte d) mod 64 = d"
proof -
  show u: "unat (cont_byte d) = 0x80 + d"
    unfolding cont_byte_def using assms by (subst unat_of_nat) simp
  show "unat (cont_byte d) div 64 = 2" using u assms by simp
  have "(128 + d) mod 64 = d mod 64" using mod_mult_self2 [of d 64 2] by (simp add: add.commute)
  then show "unat (cont_byte d) mod 64 = d" using u assms by simp
qed

lemma emit_digits:
  assumes "length ds = unat (remaining dec)" "ds \<noteq> []" "\<forall>d \<in> set ds. d < 64"
    and "(unat (codepoint dec) + 1) * 64 ^ length ds \<le> 2 ^ 26"
  defines "v \<equiv> digits_value (unat (codepoint dec)) ds"
  shows "\<exists>dec'. terminal_emit_bytes dec (map cont_byte ds) =
    ([accepted_code (unat (min_codepoint dec)) v], dec') \<and> remaining dec' = 0"
  using assms(1-4) unfolding v_def
proof (induction ds arbitrary: dec)
  case (Cons d ds)
  have d: "d < 64" using Cons.prems(3) by simp
  note cb = unat_cont_byte [OF d]
  have pow: "(unat (codepoint dec) + 1) * 64 * 64 ^ length ds \<le> 2 ^ 26"
    using Cons.prems(4) by (simp add: algebra_simps)
  have "(unat (codepoint dec) + 1) * 64 \<le> 2 ^ 26"
    by (rule order_trans [OF _ pow]) (simp del: mult_Suc)
  then have b: "unat (codepoint dec) < 2 ^ 20" by simp
  have nc: "unat (next_code dec (cont_byte d)) = unat (codepoint dec) * 64 + d"
    using b cb by (subst unat_next_code) simp_all
  show ?case
  proof (cases "ds = []")
    case True
    then have r1: "remaining dec = 1" using Cons.prems(1) by (metis length_Cons list.size(3) One_nat_def unsigned_1 unsigned_word_eqI)
    then show ?thesis using True emit_last [OF r1 cb(2)] nc by (simp add: utf8_decoder_reset_def)
  next
    case False
    let ?dec = "dec\<lparr>codepoint := next_code dec (cont_byte d), remaining := remaining dec - 1\<rparr>"
    have r: "1 < unat (remaining dec)" using False Cons.prems(1) by (cases ds) auto
    then have r': "unat (remaining dec - 1) = unat (remaining dec) - 1"
      by (metis gr_implies_not_zero unat_0 unat_minus_one)
    have "(unat (codepoint ?dec) + 1) * 64 ^ length ds \<le> 2 ^ 26"
    proof -
      have "(unat (codepoint dec) * 64 + d + 1) * 64 ^ length ds \<le> (unat (codepoint dec) + 1) * 64 * 64 ^ length ds"
        using d by (intro mult_le_mono1) simp
      then show ?thesis using pow nc by simp
    qed
    then have "\<exists>dec'. terminal_emit_bytes ?dec (map cont_byte ds) =
        ([accepted_code (unat (min_codepoint ?dec)) (digits_value (unat (codepoint ?dec)) ds)], dec') \<and>
        remaining dec' = 0"
      using Cons.prems False r' by (intro Cons.IH) simp_all
    then show ?thesis using nc emit_cont [OF r cb(2)] by auto
  qed
qed simp

lemma utf8_bytes_digits:
  "utf8_bytes n =
     (if n < 0x80 then [of_nat n]
      else if n < 0x800 then of_nat (0xC0 + n div 64) # map cont_byte [n mod 64]
      else if n < 0x10000 then of_nat (0xE0 + n div 4096) # map cont_byte [n div 64 mod 64, n mod 64]
      else of_nat (0xF0 + n div 262144) # map cont_byte [n div 4096 mod 64, n div 64 mod 64, n mod 64])"
  by (simp add: utf8_bytes_def utf8_encode_def cont_byte_def)

lemma digits_join:
  "n div 64 * 64 + n mod 64 = (n :: nat)"
  "(n div 4096 * 64 + n div 64 mod 64) = n div 64"
  "(n div 262144 * 64 + n div 4096 mod 64) = n div 4096"
  using div_mult_mod_eq [of n 64] div_mult_mod_eq [of "n div 64" 64]
    div_mult_mod_eq [of "n div 4096" 64]
  by (simp_all add: div_mult2_eq [symmetric])

lemma emit_lead_digits:
  assumes idle: "remaining dec = 0" and ds: "\<forall>d \<in> set ds. d < 64"
    and lead: "(length ds = 1 \<and> 2 \<le> k \<and> k < 32 \<and> base = 0xC0 \<and> lo = 0x80) \<or>
      (length ds = 2 \<and> k < 16 \<and> base = 0xE0 \<and> lo = 0x800) \<or>
      (length ds = 3 \<and> k \<le> 4 \<and> base = 0xF0 \<and> lo = 0x10000)"
  shows "\<exists>dec'. terminal_emit_bytes dec (of_nat (base + k) # map cont_byte ds) =
    ([accepted_code lo (digits_value k ds)], dec') \<and> remaining dec' = 0"
proof -
  let ?b = "of_nat (base + k) :: u8"
  have b: "unat ?b = base + k" using lead by (subst unat_of_nat) auto
  obtain dec1 where d1: "terminal_emit_utf8_byte dec ?b = ([], dec1)" "unat (remaining dec1) = length ds"
    "unat (min_codepoint dec1) = lo" "unat (codepoint dec1) = k" "(k + 1) * 64 ^ length ds \<le> 2 ^ 26"
    using lead
  proof (elim disjE conjE)
    assume k: "length ds = 1" "2 \<le> k" "k < 32" "base = 0xC0" "lo = 0x80"
    have "(192 + k) mod 32 = k" using k(3) mod_mult_self2 [of k 32 6] by (simp add: add.commute)
    then show ?thesis
      using that [OF emit_lead(1) [OF idle, of ?b]] k b by (simp add: unat_low_bits)
  next
    assume k: "length ds = 2" "k < 16" "base = 0xE0" "lo = 0x800"
    have "(224 + k) mod 16 = k" using k(2) mod_mult_self2 [of k 16 14] by (simp add: add.commute)
    then show ?thesis
      using that [OF emit_lead(2) [OF idle, of ?b]] k b by (simp add: unat_low_bits)
  next
    assume k: "length ds = 3" "k \<le> 4" "base = 0xF0" "lo = 0x10000"
    have "(240 + k) mod 8 = k" using k(2) mod_mult_self2 [of k 8 30] by (simp add: add.commute)
    then show ?thesis
      using that [OF emit_lead(3) [OF idle, of ?b]] k b by (simp add: unat_low_bits)
  qed
  have "ds \<noteq> []" using lead by auto
  then obtain dec' where "terminal_emit_bytes dec1 (map cont_byte ds) =
      ([accepted_code lo (digits_value k ds)], dec')" "remaining dec' = 0"
    using emit_digits [of ds dec1] ds d1 by auto
  then show ?thesis using d1(1) by simp
qed

lemma utf8_bytes_emitted:
  assumes idle: "remaining dec = 0" and sv: "scalar_value n"
  shows "\<exists>dec'. terminal_emit_bytes dec (utf8_bytes n) = ([of_nat n], dec') \<and> remaining dec' = 0"
proof -
  have n: "n \<le> 0x10FFFF" using sv by (simp add: scalar_value_def)
  have v1: "digits_value (n div 64) [n mod 64] = n" by (simp only: digits_value_simps digits_join)
  have v2: "digits_value (n div 4096) [n div 64 mod 64, n mod 64] = n"
    by (simp only: digits_value_simps digits_join)
  have v3: "digits_value (n div 262144) [n div 4096 mod 64, n div 64 mod 64, n mod 64] = n"
    by (simp only: digits_value_simps digits_join)
  consider "n < 0x80" | "0x80 \<le> n" "n < 0x800" | "0x800 \<le> n" "n < 0x10000" | "0x10000 \<le> n" by linarith
  then show ?thesis
  proof cases
    case 1
    then have b: "unat (of_nat n :: u8) = n" by (subst unat_of_nat) simp
    have "ucast (of_nat n :: u8) = (of_nat n :: u32)"
      by (rule unsigned_word_eqI [where 'a = nat]) (use b 1 in \<open>simp add: unat_of_nat_u32\<close>)
    then show ?thesis using 1 b idle by (simp add: utf8_bytes_digits emit_ascii)
  next
    case 2
    then have k: "2 \<le> n div 64" "n div 64 < 32" by linarith+
    show ?thesis
      using emit_lead_digits [OF idle, of "[n mod 64]" "n div 64" 192 128] k 2 sv v1
      by (simp add: utf8_bytes_digits accepted_code_def del: digits_value_simps)
  next
    case 3
    then have k: "n div 4096 < 16" by linarith
    show ?thesis
      using emit_lead_digits [OF idle, of "[n div 64 mod 64, n mod 64]" "n div 4096" 224 2048] k 3 sv v2
      by (simp add: utf8_bytes_digits accepted_code_def del: digits_value_simps)
  next
    case 4
    then have k: "n div 262144 \<le> 4" using n by linarith
    show ?thesis
      using emit_lead_digits [OF idle, of "[n div 4096 mod 64, n div 64 mod 64, n mod 64]"
          "n div 262144" 240 65536] k 4 sv v3
      by (simp add: utf8_bytes_digits accepted_code_def del: digits_value_simps)
  qed
qed

subsection \<open>Only UTF-8 is accepted\<close>

text \<open>The bytes \<open>bs\<close> are one sequence for the decoder: nothing is emitted before the last byte.\<close>

definition one_sequence :: "utf8_decoder \<Rightarrow> u8 list \<Rightarrow> u32 \<Rightarrow> bool" where
  "one_sequence dec bs cp \<longleftrightarrow>
     bs \<noteq> [] \<and> fst (terminal_emit_bytes dec (butlast bs)) = [] \<and> fst (terminal_emit_bytes dec bs) = [cp]"

lemma terminal_emit_Cons:
  "terminal_emit_utf8_byte dec b = (xs, dec') \<Longrightarrow>
     fst (terminal_emit_bytes dec (b # bs)) = xs @ fst (terminal_emit_bytes dec' bs)"
  by (simp add: case_prod_beta)

text \<open>A sequence whose first byte emits ends there; otherwise the rest is one for the new state.\<close>

lemma one_sequence_emits:
  assumes "one_sequence dec (b # bs) cp" "terminal_emit_utf8_byte dec b = (x # xs, dec')"
  shows "bs = [] \<and> x = cp \<and> xs = []"
  using assms terminal_emit_Cons [OF assms(2)]
  by (cases bs) (auto simp: one_sequence_def simp del: terminal_emit_bytes.simps)

lemma one_sequence_waits:
  assumes "one_sequence dec (b # bs) cp" "terminal_emit_utf8_byte dec b = ([], dec')"
  shows "one_sequence dec' bs cp"
  using assms terminal_emit_Cons [OF assms(2)]
  by (cases bs) (auto simp: one_sequence_def simp del: terminal_emit_bytes.simps(2))

lemma byte_cont: "unat (b :: u8) div 64 = 2 \<Longrightarrow> b = cont_byte (unat b mod 64)"
proof (rule unsigned_word_eqI [where 'a = nat])
  assume "unat b div 64 = 2"
  then have "unat b = 128 + unat b mod 64" using div_mult_mod_eq [of "unat b" 64] by simp
  then show "unat b = unat (cont_byte (unat b mod 64))" by (simp add: unat_cont_byte)
qed

lemma pending_sound:
  assumes "one_sequence dec bs cp" "unat (remaining dec) = Suc r" "cp \<noteq> UNICODE_REPLACEMENT_CHAR"
  shows "\<exists>ds. length ds = Suc r \<and> (\<forall>d \<in> set ds. d < 64) \<and> bs = map cont_byte ds"
  using assms
proof (induction r arbitrary: dec bs)
  case 0
  obtain b bs' where bs: "bs = b # bs'" using 0(1) by (cases bs) (auto simp: one_sequence_def)
  have r: "remaining dec = 1" using 0(2) by (metis One_nat_def unsigned_1 unsigned_word_eqI)
  have c: "unat b div 64 = 2"
    using 0(1,3) emit_non_cont [of dec b] one_sequence_emits [of dec b bs'] r unfolding bs by fastforce
  have "bs' = []" using one_sequence_emits [OF 0(1) [unfolded bs] emit_last [OF r c]] by simp
  then show ?case using byte_cont [OF c] bs by (intro exI [of _ "[unat b mod 64]"]) simp
next
  case (Suc r)
  obtain b bs' where bs: "bs = b # bs'" using Suc.prems(1) by (cases bs) (auto simp: one_sequence_def)
  have nz: "remaining dec \<noteq> 0" using Suc.prems(2) by auto
  have c: "unat b div 64 = 2"
    using Suc.prems(1,3) emit_non_cont [OF nz, of b] one_sequence_emits [of dec b bs'] unfolding bs
    by fastforce
  let ?dec = "dec\<lparr>codepoint := next_code dec b, remaining := remaining dec - 1\<rparr>"
  have "one_sequence ?dec bs' cp"
    using Suc.prems(1,2) by (intro one_sequence_waits [OF _ emit_cont [OF _ c]]) (simp_all add: bs)
  moreover have "unat (remaining ?dec) = Suc r" using Suc.prems(2) nz by (simp add: unat_minus_one)
  ultimately obtain ds where "length ds = Suc r" "\<forall>d \<in> set ds. d < 64" "bs' = map cont_byte ds"
    using Suc.IH Suc.prems(3) by blast
  then show ?case using byte_cont [OF c] bs by (intro exI [of _ "unat b mod 64 # ds"]) simp
qed

lemma div_64_steps:
  "(n :: nat) div 4096 = n div 64 div 64" "n div 262144 = n div 64 div 64 div 64"
  by (simp_all add: div_mult2_eq [symmetric])

lemma digit_div_mod: "d < 64 \<Longrightarrow> (a * 64 + d) div 64 = (a :: nat)" "d < 64 \<Longrightarrow> (a * 64 + d) mod 64 = (d :: nat)"
  by simp_all

lemma digits_value_bytes:
  assumes ds: "\<forall>d \<in> set ds. d < 64" and lo: "lo \<le> digits_value k ds"
  shows "length ds = 1 \<Longrightarrow> lo = 0x80 \<Longrightarrow> k < 32 \<Longrightarrow>
      utf8_bytes (digits_value k ds) = of_nat (0xC0 + k) # map cont_byte ds"
    and "length ds = 2 \<Longrightarrow> lo = 0x800 \<Longrightarrow> k < 16 \<Longrightarrow>
      utf8_bytes (digits_value k ds) = of_nat (0xE0 + k) # map cont_byte ds"
    and "length ds = 3 \<Longrightarrow> lo = 0x10000 \<Longrightarrow>
      utf8_bytes (digits_value k ds) = of_nat (0xF0 + k) # map cont_byte ds"
proof -
  show "utf8_bytes (digits_value k ds) = of_nat (0xC0 + k) # map cont_byte ds"
    if len: "length ds = 1" and "lo = 0x80" "k < 32"
  proof -
    obtain d where d: "ds = [d]" "d < 64" using len ds by (auto simp: length_Suc_conv)
    then have "k * 64 + d < 0x800" "\<not> k * 64 + d < 0x80" using that lo by simp_all
    then show ?thesis using d by (simp add: utf8_bytes_digits digit_div_mod)
  qed
  show "utf8_bytes (digits_value k ds) = of_nat (0xE0 + k) # map cont_byte ds"
    if len: "length ds = 2" and "lo = 0x800" "k < 16"
  proof -
    obtain d e where d: "ds = [d, e]" "d < 64" "e < 64"
      using len ds by (auto simp: length_Suc_conv numeral_2_eq_2)
    then have "(k * 64 + d) * 64 + e < 0x10000" "\<not> (k * 64 + d) * 64 + e < 0x800"
      "\<not> (k * 64 + d) * 64 + e < 0x80" using that lo by simp_all
    then show ?thesis using d by (simp only: utf8_bytes_digits digits_value_simps div_64_steps
          digit_div_mod if_False if_True)
  qed
  show "utf8_bytes (digits_value k ds) = of_nat (0xF0 + k) # map cont_byte ds"
    if len: "length ds = 3" and "lo = 0x10000"
  proof -
    obtain d e f where d: "ds = [d, e, f]" "d < 64" "e < 64" "f < 64"
      using len ds by (auto simp: length_Suc_conv numeral_3_eq_3)
    then have "\<not> ((k * 64 + d) * 64 + e) * 64 + f < 0x10000" "\<not> ((k * 64 + d) * 64 + e) * 64 + f < 0x800"
      "\<not> ((k * 64 + d) * 64 + e) * 64 + f < 0x80" using that lo by simp_all
    then show ?thesis using d by (simp only: utf8_bytes_digits digits_value_simps div_64_steps
          digit_div_mod if_False if_True)
  qed
qed

lemma byte_lead: "unat (b :: u8) = n \<Longrightarrow> b = of_nat n"
  by auto

lemma lead_sound:
  fixes lo :: nat
  assumes seq: "one_sequence dec (b # bs) cp" and idle: "remaining dec = 0"
    and nr: "cp \<noteq> UNICODE_REPLACEMENT_CHAR" and b: "unat b = base + k"
    and wait: "terminal_emit_utf8_byte dec b = ([], dec1)" "unat (remaining dec1) = Suc r"
    and lead: "(Suc r = 1 \<and> 2 \<le> k \<and> k < 32 \<and> base = 0xC0 \<and> lo = 0x80) \<or>
      (Suc r = 2 \<and> k < 16 \<and> base = 0xE0 \<and> lo = 0x800) \<or>
      (Suc r = 3 \<and> k \<le> 4 \<and> base = 0xF0 \<and> lo = 0x10000)"
  shows "scalar_value (unat cp) \<and> b # bs = utf8_bytes (unat cp)"
proof -
  obtain ds where ds: "length ds = Suc r" "\<forall>d \<in> set ds. d < 64" "bs = map cont_byte ds"
    using pending_sound [OF one_sequence_waits [OF seq wait(1)] wait(2) nr] by blast
  let ?v = "digits_value k ds"
  have "fst (terminal_emit_bytes dec (b # bs)) = [accepted_code lo ?v]"
    using emit_lead_digits [OF idle ds(2), of k base lo] lead ds(1,3) byte_lead [OF b] by fastforce
  then have "cp = accepted_code lo ?v" using seq by (simp add: one_sequence_def)
  then have v: "lo \<le> ?v" "scalar_value ?v" "cp = of_nat ?v"
    using nr by (auto simp: accepted_code_def split: if_splits)
  have "unat cp = ?v" using v(2,3) by (simp add: scalar_value_def unat_of_nat_u32)
  moreover have "b # bs = utf8_bytes ?v"
    using digits_value_bytes [OF ds(2) v(1)] lead ds(1,3) byte_lead [OF b] by auto
  ultimately show ?thesis using v(2) by simp
qed

lemma one_sequence_utf8:
  assumes seq: "one_sequence dec bs cp" and idle: "remaining dec = 0"
    and nr: "cp \<noteq> UNICODE_REPLACEMENT_CHAR"
  shows "scalar_value (unat cp) \<and> bs = utf8_bytes (unat cp)"
proof -
  obtain b bs' where bs: "bs = b # bs'" using seq by (cases bs) (auto simp: one_sequence_def)
  have seq': "one_sequence dec (b # bs') cp" using seq bs by simp
  consider (ascii) "unat b < 0x80" | (two) "0xC2 \<le> unat b" "unat b \<le> 0xDF"
    | (three) "0xE0 \<le> unat b" "unat b \<le> 0xEF" | (four) "0xF0 \<le> unat b" "unat b \<le> 0xF4"
    | (bad) "0x80 \<le> unat b" "unat b < 0xC2 \<or> 0xF4 < unat b" by linarith
  then show ?thesis
  proof cases
    case ascii
    from one_sequence_emits [OF seq' emit_ascii [OF idle ascii]]
    have "bs' = []" "cp = ucast b" by auto
    then show ?thesis using ascii bs by (simp add: utf8_bytes_digits scalar_value_def)
  next
    case two
    from lead_sound [OF seq' idle nr, of "0xC0" "unat b - 0xC0" _ 0, OF _ emit_lead(1) [OF idle two]]
    have "2 \<le> unat b - 0xC0 \<and> unat b - 0xC0 < 32 \<Longrightarrow> ?thesis" unfolding bs using two by simp
    then show ?thesis using two by linarith
  next
    case three
    from lead_sound [OF seq' idle nr, of "0xE0" "unat b - 0xE0" _ 1, OF _ emit_lead(2) [OF idle three]]
    have "unat b - 0xE0 < 16 \<Longrightarrow> ?thesis" unfolding bs using three by simp
    then show ?thesis using three by linarith
  next
    case four
    from lead_sound [OF seq' idle nr, of "0xF0" "unat b - 0xF0" _ 2, OF _ emit_lead(3) [OF idle four]]
    have "unat b - 0xF0 \<le> 4 \<Longrightarrow> ?thesis" unfolding bs using four by simp
    then show ?thesis using four by linarith
  next
    case bad
    from one_sequence_emits [OF seq' emit_bad [OF idle bad]] nr show ?thesis by simp
  qed
qed

lemma emitted_scalar: "list_all (\<lambda>cp. scalar_value (unat cp)) (fst (terminal_emit_utf8_byte dec b))"
proof (induction dec b rule: terminal_emit_utf8_byte.induct)
  case (1 dec b)
  obtain r out dec' where f: "utf8_decoder_feed dec b = (r, out, dec')" by (cases "utf8_decoder_feed dec b")
  have b: "unat b < 256" using unsigned_less [where 'a = nat, of b] by simp
  have "scalar_value (unat (case out of Some c \<Rightarrow> c | None \<Rightarrow> 0))"
    using f b by (auto simp: utf8_decoder_feed_def scalar_value_def UNICODE_REPLACEMENT_CHAR_def Let_def
        word_less_nat_alt word_le_nat_alt split: if_splits)
  then show ?case
    using 1 [OF f [symmetric]] f by (subst terminal_emit_utf8_byte.simps) (auto simp: case_prod_beta Let_def)
qed

section \<open>Properties\<close>

definition utf8_idle :: utf8_decoder where
  "utf8_idle = \<lparr>codepoint = 0, min_codepoint = 0, remaining = 0\<rparr>"

text \<open>
  C30: decoding inverts UTF-8. Fed with the UTF-8 encoding of any sequence of Unicode scalar
  values, a decoder that waits for no continuation byte emits exactly that sequence and ends
  waiting for none.
\<close>

theorem utf8_decode_encode:
  assumes "remaining dec = 0" "list_all scalar_value ns"
  shows "\<exists>dec'. terminal_emit_bytes dec (concat (map utf8_bytes ns)) = (map of_nat ns, dec') \<and>
    remaining dec' = 0"
  using assms
proof (induction ns arbitrary: dec)
  case (Cons n ns)
  have app: "terminal_emit_bytes d (xs @ ys) =
      (let (us, d') = terminal_emit_bytes d xs; (vs, d'') = terminal_emit_bytes d' ys in (us @ vs, d''))"
    for d xs ys by (induction xs arbitrary: d) (simp_all add: case_prod_beta Let_def)
  obtain d1 where d1: "terminal_emit_bytes dec (utf8_bytes n) = ([of_nat n], d1)" "remaining d1 = 0"
    using utf8_bytes_emitted [OF Cons.prems(1)] Cons.prems(2) by auto
  from Cons.IH [OF d1(2)] Cons.prems(2) d1(1) show ?case by (auto simp: app)
qed simp

theorem utf8_decode_encode_witness:
  "\<exists>dec'. terminal_emit_bytes utf8_idle [0x41, 0xC3, 0xA9, 0xE2, 0x82, 0xAC, 0xF0, 0x9F, 0x98, 0x80] =
     ([0x41, 0xE9, 0x20AC, 0x1F600], dec')"
  using utf8_decode_encode [of utf8_idle "[0x41, 0xE9, 0x20AC, 0x1F600]"]
  by (auto simp: utf8_idle_def utf8_bytes_def utf8_encode_def scalar_value_def)

text \<open>
  nothing but UTF-8 is accepted. When a decoder that waits for nothing emits its first code
  point at the last byte of a sequence, that code point is U+FFFD or a scalar value whose UTF-8
  encoding is the sequence: overlong forms, surrogates, values above U+10FFFF and stray bytes are
  never taken for a character.
\<close>

theorem utf8_accepts_only_utf8:
  assumes "bs \<noteq> []" "fst (terminal_emit_bytes dec (butlast bs)) = []"
    and "fst (terminal_emit_bytes dec bs) = [cp]" "remaining dec = 0"
  shows "cp = UNICODE_REPLACEMENT_CHAR \<or> scalar_value (unat cp) \<and> bs = utf8_bytes (unat cp)"
  using one_sequence_utf8 [of dec bs cp] assms by (auto simp: one_sequence_def)

theorem utf8_accepts_only_utf8_witness:
  "0x20AC = UNICODE_REPLACEMENT_CHAR \<or>
   scalar_value 0x20AC \<and> [0xE2, 0x82, 0xAC] = utf8_bytes 0x20AC"
proof -
  have w: "fst (terminal_emit_bytes utf8_idle [0xE2, 0x82]) = []"
    "fst (terminal_emit_bytes utf8_idle [0xE2, 0x82, 0xAC]) = [0x20AC]"
    by (simp_all add: terminal_emit_utf8_byte.simps utf8_decoder_feed_def utf8_idle_def Let_def)
  show ?thesis
    using utf8_accepts_only_utf8 [of "[0xE2, 0x82, 0xAC]" utf8_idle "0x20AC"] w
    by (simp add: utf8_idle_def)
qed

text \<open>
  whatever bytes arrive and whatever state the decoder is in, every code point emitted to the
  display is a Unicode scalar value.
\<close>

theorem utf8_emits_scalar_values:
  "list_all (\<lambda>cp. scalar_value (unat cp)) (fst (terminal_emit_bytes dec bs))"
  by (induction bs arbitrary: dec) (simp_all add: case_prod_beta emitted_scalar)

text \<open>
  Code page 437 translation loses nothing it can show: two code points above ASCII with the
  same glyph byte are equal, unless both fall back to the question mark.
\<close>

theorem unicode_to_cp437_inj:
  assumes "0x80 \<le> a" "0x80 \<le> b" "unicode_to_cp437 a = unicode_to_cp437 b" "unicode_to_cp437 a \<noteq> 0x3F"
  shows "a = b"
proof -
  have "distinct (map unat (map snd cp437_table))" by (simp add: cp437_table_def)
  then have dist: "distinct (map snd cp437_table)" by (simp only: distinct_map)
  have "map_of cp437_table a = Some (unicode_to_cp437 a)" "map_of cp437_table b = Some (unicode_to_cp437 a)"
    using assms by (auto simp: unicode_to_cp437_def split: option.splits if_splits)
  then have "(a, unicode_to_cp437 a) \<in> set cp437_table" "(b, unicode_to_cp437 a) \<in> set cp437_table"
    by (simp_all add: map_of_SomeD)
  then show ?thesis using dist by (metis distinct_map inj_onD prod.inject snd_conv)
qed

theorem unicode_to_cp437_inj_witness:
  "unicode_to_cp437 0xA1 = 0xAD \<and> 0xA1 = (0xA1 :: u32)"
  using unicode_to_cp437_inj [of "0xA1" "0xA1"]
  by (simp add: unicode_to_cp437_def cp437_table_def)

end
