(* ===== verification/Compiler_Rt.thy ===== *)
theory Compiler_Rt
  imports Prelude "HOL-Library.Signed_Division"
begin

text \<open>
  The 64-bit division helpers that compiled user programs call,
  \<^verbatim>\<open>src/user/libc/compiler_rt.c\<close>: shift-and-subtract division and its signed variants, against
  division on numbers. The first loop of \<^verbatim>\<open>udivmod64\<close> would not end for a zero divisor, so it is
  a partial function.
\<close>

section \<open>The routines\<close>

partial_function (option) udiv_scale :: "u64 \<Rightarrow> u64 \<Rightarrow> u64 \<Rightarrow> (u64 \<times> u64) option" where
  [code]: "udiv_scale num den b =
     (if den AND push_bit 63 1 = 0 \<and> den < num
      then udiv_scale num (push_bit 1 den) (push_bit 1 b)
      else Some (den, b))"

lemma unat_half [simp]: "unat (drop_bit (Suc 0) (w :: u64)) = unat w div 2"
  by (simp only: unat_drop_bit_eq) (simp add: drop_bit_Suc)

function udiv_subtract :: "u64 \<Rightarrow> u64 \<Rightarrow> u64 \<Rightarrow> u64 \<Rightarrow> u64 \<times> u64" where
  "udiv_subtract num den quot b =
     (if b = 0 then (quot, num)
      else
        let (num, quot) = (if num \<ge> den then (num - den, quot OR b) else (num, quot))
        in udiv_subtract num (drop_bit 1 den) quot (drop_bit 1 b))"
  by pat_completeness auto
termination
  by (relation "measure (\<lambda>(num, den, quot, b). unat b)")
    (auto simp: unat_gt_0)

declare udiv_subtract.simps [simp del]

text \<open>The quotient and the value stored through \<^verbatim>\<open>rem\<close>.\<close>

definition udivmod64 :: "u64 \<Rightarrow> u64 \<Rightarrow> (u64 \<times> u64) option" where
  "udivmod64 num den =
     (if den = 0 then Some (0, 0)
      else case udiv_scale num den 1 of
        None \<Rightarrow> None
      | Some (den, b) \<Rightarrow> Some (udiv_subtract num den 0 b))"

definition udivdi3 :: "u64 \<Rightarrow> u64 \<Rightarrow> u64 option" where
  "udivdi3 num den = map_option fst (udivmod64 num den)"

definition umoddi3 :: "u64 \<Rightarrow> u64 \<Rightarrow> u64 option" where
  "umoddi3 num den = map_option snd (udivmod64 num den)"

definition udivmoddi4 :: "u64 \<Rightarrow> u64 \<Rightarrow> (u64 \<times> u64) option" where
  "udivmoddi4 num den = udivmod64 num den"

definition divdi3 :: "u64 \<Rightarrow> u64 \<Rightarrow> u64 option" where
  "divdi3 num den =
     (let (neg, unum) = (if num <s 0 then (True, - num) else (False, num));
          (neg, uden) = (if den <s 0 then (\<not> neg, - den) else (neg, den))
      in map_option (\<lambda>(q, r). if neg then - q else q) (udivmod64 unum uden))"

definition moddi3 :: "u64 \<Rightarrow> u64 \<Rightarrow> u64 option" where
  "moddi3 num den =
     (let (neg, unum) = (if num <s 0 then (True, - num) else (False, num));
          uden = (if den <s 0 then - den else den)
      in map_option (\<lambda>(q, r). if neg then - r else r) (udivmod64 unum uden))"

section \<open>The loops\<close>

lemma top_bit_clear: "(w :: u64) AND 0x8000000000000000 = 0 \<longleftrightarrow> unat w < 2 ^ 63"
proof -
  have "(0x8000000000000000 :: u64) = NOT (mask 63)" by (simp add: mask_eq_exp_minus_1)
  then have "unat (w AND 0x8000000000000000) = unat w div 2 ^ 63 * 2 ^ 63"
    using unat_floor_mask [of w 63] by simp
  then have "w AND 0x8000000000000000 = 0 \<longleftrightarrow> unat w div 2 ^ 63 = 0" by (metis mult_is_0 power_not_zero unat_eq_0 zero_neq_numeral)
  then show ?thesis by (simp add: div_eq_0_iff)
qed

lemma unat_double_u64: "unat w < 2 ^ 63 \<Longrightarrow> unat (push_bit 1 w :: u64) = 2 * unat w"
  by (simp add: unat_word_ariths)

lemma udiv_scale_spec:
  assumes "unat den = D * 2 ^ k" "unat b = 2 ^ k" "0 < D"
  shows "\<exists>den' b' j. udiv_scale num den b = Some (den', b') \<and> unat den' = D * 2 ^ j \<and> unat b' = 2 ^ j \<and>
    unat num < 2 * unat den'"
  using assms
proof (induction "2 ^ 64 - unat den" arbitrary: den b k rule: less_induct)
  case less
  show ?case
  proof (cases "den AND push_bit 63 1 = 0 \<and> den < num")
    case True
    then have top: "unat den < 2 ^ 63" by (simp add: top_bit_clear)
    then have d: "unat (push_bit 1 den) = 2 * unat den" by (rule unat_double_u64)
    have "2 ^ k \<le> unat den" using less.prems by simp
    then have "unat b < 2 ^ 63" using less.prems(2) top by simp
    then have b: "unat (push_bit 1 b) = 2 * unat b" by (rule unat_double_u64)
    have "0 < unat den" using less.prems by simp
    then have "2 ^ 64 - unat (push_bit 1 den) < 2 ^ 64 - unat den" using d top by simp
    from less.hyps [OF this, of "Suc k"] d b less.prems True
    show ?thesis by (subst udiv_scale.simps) (simp add: top_bit_clear)
  next
    case False
    moreover have "0 < unat den" using less.prems by simp
    ultimately have "unat num < 2 * unat den"
      using unsigned_less [where 'a = nat, of num] by (auto simp: top_bit_clear word_less_nat_alt)
    then show ?thesis using False less.prems by (subst udiv_scale.simps) (auto simp: top_bit_clear)
  qed
qed

lemma unat_or_bit:
  assumes "unat quot mod 2 ^ Suc j = 0" "unat b = 2 ^ j"
  shows "unat ((quot :: u64) OR b) = unat quot + 2 ^ j"
proof -
  obtain q where q: "unat quot = q * 2 ^ Suc j"
    using assms(1) by (metis mod_0_imp_dvd dvd_def mult.commute)
  have "unat (quot OR b) = push_bit (Suc j) q OR 2 ^ j"
    using assms(2) q by (simp add: unsigned_or_eq push_bit_eq_mult)
  then show ?thesis using nat_shift_or [of "2 ^ j" "Suc j" q] q by simp
qed

lemma udiv_subtract_spec:
  assumes "unat den = D * 2 ^ j" "unat b = 2 ^ j" "0 < D" "unat num < 2 * unat den"
    and "unat quot mod 2 ^ Suc j = 0" "unat quot * D + unat num < 2 ^ 64"
  shows "\<exists>q r. udiv_subtract num den quot b = (q, r) \<and> unat r < D \<and>
    unat q * D + unat r = unat quot * D + unat num"
  using assms
proof (induction j arbitrary: num den quot b)
  case 0
  have b1: "b = 1" using 0(2) by (metis One_nat_def power_0 unsigned_1 unsigned_word_eqI)
  have orb: "unat (quot OR 1) = unat quot + 1" using unat_or_bit [of quot 0 1] 0(5) by simp
  show ?case
  proof (cases "den \<le> num")
    case True
    then have "unat (num - den) = unat num - D" "D \<le> unat num"
      using 0(1) by (simp_all add: unat_sub word_le_nat_alt)
    moreover have "udiv_subtract num den quot b = (quot OR 1, num - den)"
      using True b1 by (subst udiv_subtract.simps, subst udiv_subtract.simps) simp
    ultimately show ?thesis using 0 orb by simp
  next
    case False
    then show ?thesis using b1 0
      by (subst udiv_subtract.simps, subst udiv_subtract.simps) (simp add: word_le_nat_alt)
  qed
next
  case (Suc j)
  have b0: "b \<noteq> 0" using Suc.prems(2) by auto
  have half: "unat (drop_bit (Suc 0) den) = D * 2 ^ j" "unat (drop_bit (Suc 0) b) = 2 ^ j"
    using Suc.prems(1,2) by simp_all
  have orb: "unat (quot OR b) = unat quot + 2 ^ Suc j"
    by (rule unat_or_bit [OF Suc.prems(5,2)])
  have mod: "unat quot mod 2 ^ Suc j = 0"
    using Suc.prems(5) by (metis dvd_imp_mod_0 dvd_trans le_imp_power_dvd le_SucI order_refl mod_0_imp_dvd)
  have mod': "(unat quot + 2 ^ Suc j) mod 2 ^ Suc j = 0" using mod by simp
  show ?case
  proof (cases "den \<le> num")
    case True
    then have sub: "unat (num - den) = unat num - unat den" "unat den \<le> unat num"
      by (simp_all add: unat_sub word_le_nat_alt)
    have "\<exists>q r. udiv_subtract (num - den) (drop_bit (Suc 0) den) (quot OR b) (drop_bit (Suc 0) b) = (q, r) \<and> unat r < D \<and>
        unat q * D + unat r = unat (quot OR b) * D + unat (num - den)"
      using half Suc.prems sub orb mod'
      by (intro Suc.IH) (simp_all add: algebra_simps)
    moreover have "unat (quot OR b) * D + unat (num - den) = unat quot * D + unat num"
      using sub orb Suc.prems(1) by (simp add: algebra_simps)
    ultimately show ?thesis using True b0 by (subst udiv_subtract.simps) simp
  next
    case False
    then have "\<exists>q r. udiv_subtract num (drop_bit (Suc 0) den) quot (drop_bit (Suc 0) b) = (q, r) \<and> unat r < D \<and>
        unat q * D + unat r = unat quot * D + unat num"
      using half Suc.prems mod by (intro Suc.IH) (simp_all add: word_le_nat_alt)
    then show ?thesis using False b0 by (subst udiv_subtract.simps) simp
  qed
qed

lemma udivmod64_spec:
  assumes "den \<noteq> 0"
  shows "udivmod64 num den = Some (num div den, num mod den)"
proof -
  have D: "0 < unat den" using assms by (simp add: unat_gt_0)
  obtain den' b' j where s: "udiv_scale num den 1 = Some (den', b')" "unat den' = unat den * 2 ^ j"
    "unat b' = 2 ^ j" "unat num < 2 * unat den'"
    using udiv_scale_spec [of den "unat den" 0 1 num] D by auto
  obtain q r where qr: "udiv_subtract num den' 0 b' = (q, r)" "unat r < unat den"
    "unat q * unat den + unat r = unat num"
    using udiv_subtract_spec [OF s(2,3) D s(4), of 0] unsigned_less [where 'a = nat, of num] by auto
  have "unat q = unat num div unat den" "unat r = unat num mod unat den"
    using qr(2,3) by (metis add.commute div_less div_mult_self3 D add_0 less_not_refl2,
        metis mod_mult_self3 mod_less)
  then have "q = num div den" "r = num mod den"
    by (auto intro!: unsigned_word_eqI [where 'a = nat] simp: unat_div unat_mod)
  then show ?thesis using assms s(1) qr(1) by (simp add: udivmod64_def)
qed

section \<open>Signed division\<close>

lemma sint_u64_bounds: "- 9223372036854775808 \<le> sint (w :: u64)" "sint w < 9223372036854775808"
  using sint_ge [of w] sint_less [of w] by simp_all

lemma uint_abs_u64:
  fixes w :: u64
  shows "uint (if w <s 0 then - w else w) = \<bar>sint w\<bar>"
proof -
  have uw: "uint w = sint w mod 2 ^ 64" by (simp add: uint_sint take_bit_eq_mod)
  have "uint (- w) = (- uint w) mod 2 ^ 64" by (simp add: uint_word_ariths)
  also have "\<dots> = (- sint w) mod 2 ^ 64" unfolding uw by (rule mod_minus_eq)
  finally show ?thesis
    using uw sint_u64_bounds [of w] by (auto simp: word_sless_alt)
qed

lemma sint_of_int_u64:
  "- 9223372036854775808 \<le> k \<Longrightarrow> k < 9223372036854775808 \<Longrightarrow> sint (word_of_int k :: u64) = k"
  by (simp add: signed_of_int signed_take_bit_int_eq_self)

lemma sint_signed_u64:
  assumes "uint (w :: u64) < 9223372036854775808 \<or> neg \<and> uint w \<le> 9223372036854775808"
  shows "sint (if neg then - w else w) = (if neg then - uint w else uint w)"
proof -
  have "0 \<le> uint w" by simp
  then have b: "- 9223372036854775808 \<le> (if neg then - uint w else uint w)"
    "(if neg then - uint w else uint w) < 9223372036854775808"
    using assms by (cases neg; simp only: if_True if_False simp_thms; linarith)+
  have "(if neg then - w else w) = word_of_int (if neg then - uint w else uint w)" by simp
  then show ?thesis using sint_of_int_u64 [OF b] by simp
qed

text \<open>Sign and magnitude of the truncated quotient and remainder.\<close>

lemma sdiv_sign:
  "d \<noteq> 0 \<Longrightarrow> (if (n < 0) \<noteq> (d < 0) then - (\<bar>n\<bar> div \<bar>d\<bar>) else \<bar>n\<bar> div \<bar>d\<bar>) = (n :: int) sdiv d"
  by (cases n "0 :: int" rule: linorder_cases; cases d "0 :: int" rule: linorder_cases)
    (auto simp: signed_divide_int_def)

lemma smod_sign: "(if n < 0 then - (\<bar>n\<bar> mod \<bar>d\<bar>) else \<bar>n\<bar> mod \<bar>d\<bar>) = (n :: int) smod d"
  by (cases n "0 :: int" rule: linorder_cases) (auto simp: signed_modulo_int_def)

lemma quotient_fits:
  fixes n d :: int
  assumes "- 9223372036854775808 \<le> n" "n < 9223372036854775808" "d \<noteq> 0"
    and "\<not> (n = - 9223372036854775808 \<and> d = - 1)"
  shows "\<bar>n\<bar> div \<bar>d\<bar> < 9223372036854775808 \<or> (n < 0) \<noteq> (d < 0) \<and> \<bar>n\<bar> div \<bar>d\<bar> \<le> 9223372036854775808"
proof (cases "n = - 9223372036854775808 \<and> d < 0")
  case True
  then have "2 \<le> \<bar>d\<bar>" using assms(4) by auto
  then have "\<bar>n\<bar> div \<bar>d\<bar> \<le> \<bar>n\<bar> div 2" by (intro zdiv_mono2) auto
  then show ?thesis using True by simp
next
  case False
  have "\<bar>n\<bar> div \<bar>d\<bar> \<le> \<bar>n\<bar>" using assms(3) zdiv_mono2 [of "\<bar>n\<bar>" 1 "\<bar>d\<bar>"] by simp
  then show ?thesis using False assms by auto
qed

section \<open>Properties\<close>

text \<open>
  C31: \<^verbatim>\<open>udivmod64\<close> always returns, and for a divisor other than 0 it returns the quotient and
  the remainder of unsigned division.
\<close>

theorem udivmod64_correct:
  "udivmod64 num den = Some (if den = 0 then (0, 0) else (num div den, num mod den))"
  using udivmod64_spec [of den num] by (simp add: udivmod64_def)

text \<open>
  \<^verbatim>\<open>__divdi3\<close> and \<^verbatim>\<open>__moddi3\<close> are C's signed division and remainder, which round towards
  zero, for every divisor other than 0, except the quotient of the least number by -1, which does
  not fit.
\<close>

theorem signed_division_truncates:
  assumes "den \<noteq> 0" "\<not> (sint num = - (2 ^ 63) \<and> sint den = - 1)"
  shows "map_option sint (divdi3 num den) = Some (sint num sdiv sint den) \<and>
    map_option sint (moddi3 num den) = Some (sint num smod sint den)"
proof -
  let ?un = "if num <s 0 then - num else num" and ?ud = "if den <s 0 then - den else den"
  let ?n = "sint num" and ?d = "sint den"
  have un: "uint ?un = \<bar>?n\<bar>" "uint ?ud = \<bar>?d\<bar>" by (rule uint_abs_u64)+
  have ud0: "?ud \<noteq> 0" using assms(1) by auto
  have d0: "?d \<noteq> 0"
  proof
    assume "?d = 0"
    then have "uint ?ud = 0" using un(2) by (simp only: abs_zero)
    with ud0 show False by (simp only: uint_0_iff simp_thms)
  qed
  have dm: "udivmod64 ?un ?ud = Some (?un div ?ud, ?un mod ?ud)" by (rule udivmod64_spec [OF ud0])
  have q: "uint (?un div ?ud) = \<bar>?n\<bar> div \<bar>?d\<bar>" "uint (?un mod ?ud) = \<bar>?n\<bar> mod \<bar>?d\<bar>"
    by (simp_all only: uint_div uint_mod un)
  have sl: "num <s 0 \<longleftrightarrow> ?n < 0" "den <s 0 \<longleftrightarrow> ?d < 0" by (simp_all add: word_sless_alt)
  have "divdi3 num den = Some (if (?n < 0) \<noteq> (?d < 0) then - (?un div ?ud) else ?un div ?ud)"
    unfolding divdi3_def using dm by (simp add: Let_def sl split del: if_split) (auto simp: sl)
  moreover have "sint (if (?n < 0) \<noteq> (?d < 0) then - (?un div ?ud) else ?un div ?ud) = ?n sdiv ?d"
    using quotient_fits [OF sint_u64_bounds d0] assms(2)
    by (subst sint_signed_u64) (simp_all only: q sdiv_sign [OF d0], simp)
  moreover have "moddi3 num den = Some (if ?n < 0 then - (?un mod ?ud) else ?un mod ?ud)"
    unfolding moddi3_def using dm by (simp add: Let_def sl split del: if_split) (auto simp: sl)
  moreover have "sint (if ?n < 0 then - (?un mod ?ud) else ?un mod ?ud) = ?n smod ?d"
  proof -
    have "\<bar>?n\<bar> mod \<bar>?d\<bar> < \<bar>?d\<bar>" using d0 by simp
    moreover have "\<bar>?n\<bar> mod \<bar>?d\<bar> \<le> \<bar>?n\<bar>" by (rule zmod_le_nonneg_dividend) simp
    ultimately have "uint (?un mod ?ud) < 9223372036854775808"
      using sint_u64_bounds [of den] unfolding q by linarith
    then show ?thesis by (subst sint_signed_u64) (simp_all only: q smod_sign, simp)
  qed
  ultimately show ?thesis by simp
qed

theorem signed_division_truncates_witness:
  "map_option sint (divdi3 (- 7) 2) = Some (- 3) \<and> map_option sint (moddi3 (- 7) 2) = Some (- 1)"
  using signed_division_truncates [of 2 "- 7"]
  by (simp add: signed_divide_int_def signed_modulo_int_def)

end
