(* ===== verification/Time.thy ===== *)
theory Time
  imports Prelude
begin

text \<open>
  Calendar conversion of the C library, \<^verbatim>\<open>src/user/libc/time.c\<close>. A \<^verbatim>\<open>time_t\<close> is an unsigned
  32-bit number of seconds; the fields of \<^verbatim>\<open>struct tm\<close> are C ints, here integers, and the
  unsigned arithmetic of \<^verbatim>\<open>timegm\<close> is arithmetic on 32-bit words. Strings are lists of
  characters without their terminator; reading at the end of one gives the character 0.
\<close>

section \<open>Calendar\<close>

record tm =
  tm_sec :: int
  tm_min :: int
  tm_hour :: int
  tm_mday :: int
  tm_mon :: int
  tm_year :: int
  tm_wday :: int
  tm_yday :: int
  tm_isdst :: int

definition is_leap :: "int \<Rightarrow> bool" where
  "is_leap year \<longleftrightarrow> (year mod 4 = 0 \<and> year mod 100 \<noteq> 0) \<or> year mod 400 = 0"

definition month_days :: "nat list" where
  "month_days = [31, 28, 31, 30, 31, 30, 31, 31, 30, 31, 30, 31]"

definition year_days :: "int \<Rightarrow> nat" where
  "year_days year = (if is_leap year then 366 else 365)"

text \<open>The two loops of \<^verbatim>\<open>gmtime_r\<close>.\<close>

function gm_year :: "u32 \<Rightarrow> int \<Rightarrow> u32 \<times> int" where
  "gm_year days year =
     (let yd = (if is_leap year then 366 else 365) in
      if days < yd then (days, year) else gm_year (days - yd) (year + 1))"
  by pat_completeness auto
termination
  by (relation "measure (\<lambda>(days, year). unat days)") (auto simp: unat_sub_u32 word_less_nat_alt word_le_nat_alt)

declare gm_year.simps [simp del]

definition gm_month_days :: "int \<Rightarrow> nat \<Rightarrow> u32" where
  "gm_month_days year mon =
     (let md = of_nat (month_days ! mon) in if mon = 1 \<and> is_leap year then md + 1 else md)"

function gm_month :: "int \<Rightarrow> u32 \<Rightarrow> nat \<Rightarrow> u32 \<times> nat" where
  "gm_month year days mon =
     (if mon < 12 then
        let md = gm_month_days year mon in
        if days < md then (days, mon) else gm_month year (days - md) (mon + 1)
      else (days, mon))"
  by pat_completeness auto
termination
  by (relation "measure (\<lambda>(year, days, mon). 12 - mon)") auto

declare gm_month.simps [simp del]

definition gmtime_r :: "u32 \<Rightarrow> tm" where
  "gmtime_r v =
     (let days = v div 86400;
          rem = v mod 86400;
          hour = int (unat (rem div 3600));
          mn = int (unat ((rem div 60) mod 60));
          sec = int (unat (rem mod 60));
          wday = int (unat ((days + 4) mod 7));
          (days, year) = gm_year days 1970;
          yday = days;
          (days, mon) = gm_month year days 0
      in \<lparr>tm_sec = sec, tm_min = mn, tm_hour = hour, tm_mday = int (unat days) + 1,
          tm_mon = int mon, tm_year = year - 1900, tm_wday = wday, tm_yday = int (unat yday),
          tm_isdst = 0\<rparr>)"

definition timegm :: "tm \<Rightarrow> u32" where
  "timegm t =
     (let year = tm_year t + 1900 in
      if year < 1970 then 0
      else
        let days = fold (\<lambda>y days. days + (if is_leap y then 366 else 365)) [1970..year - 1] 0;
            days = fold (\<lambda>m days. let days = days + of_nat (month_days ! m) in
                          if m = 1 \<and> is_leap year then days + 1 else days)
                     [0..<nat (min (tm_mon t) 12)] days;
            days = (if tm_mday t > 0 then days + word_of_int (tm_mday t - 1) else days)
        in days * 86400 + word_of_int (tm_hour t) * 3600 + word_of_int (tm_min t) * 60 +
           word_of_int (tm_sec t))"

definition mktime :: "tm \<Rightarrow> u32 \<times> tm" where
  "mktime t =
     (let value = timegm t;
          normalized = gmtime_r value
      in (value, t\<lparr>tm_wday := tm_wday normalized, tm_yday := tm_yday normalized\<rparr>))"

section \<open>Parsing and printing dates\<close>

definition s_months :: "string list" where
  "s_months = [''Jan'', ''Feb'', ''Mar'', ''Apr'', ''May'', ''Jun'', ''Jul'', ''Aug'', ''Sep'',
     ''Oct'', ''Nov'', ''Dec'']"

definition s_weekdays :: "string list" where
  "s_weekdays = [''Sun'', ''Mon'', ''Tue'', ''Wed'', ''Thu'', ''Fri'', ''Sat'']"

definition peek :: "string \<Rightarrow> char" where
  "peek p = (case p of [] \<Rightarrow> CHR 0x00 | c # _ \<Rightarrow> c)"

definition is_digit :: "char \<Rightarrow> bool" where
  "is_digit c \<longleftrightarrow> 48 \<le> (of_char c :: nat) \<and> (of_char c :: nat) \<le> 57"

definition digit_of :: "char \<Rightarrow> int" where
  "digit_of c = of_char c - 48"

text \<open>\<^verbatim>\<open>str_eq_n (p, s, n)\<close> for an \<open>s\<close> of \<open>n\<close> characters other than the terminator.\<close>

definition str_eq_n :: "string \<Rightarrow> string \<Rightarrow> nat \<Rightarrow> bool" where
  "str_eq_n a b n \<longleftrightarrow> take n (a @ [CHR 0x00]) = take n b"

fun str_eq :: "string \<Rightarrow> string \<Rightarrow> bool" where
  "str_eq (a # as) (b # bs) = (if a = b then str_eq as bs else False)"
| "str_eq [] [] = True"
| "str_eq _ _ = False"

text \<open>A failed parse leaves the target as it was.\<close>

fun parse_u2_loop :: "string \<Rightarrow> int \<Rightarrow> nat \<Rightarrow> string \<times> int \<times> nat" where
  "parse_u2_loop [] value digits = ([], value, digits)"
| "parse_u2_loop (c # p) value digits =
     (if is_digit c \<and> digits < 2 then parse_u2_loop p (value * 10 + digit_of c) (digits + 1)
      else (c # p, value, digits))"

definition parse_u2 :: "string \<Rightarrow> (string \<times> int) option" where
  "parse_u2 p =
     (let (p, value, digits) = parse_u2_loop p 0 0 in
      if digits = 0 then None else Some (p, value))"

definition parse_u4 :: "string \<Rightarrow> (string \<times> int) option" where
  "parse_u4 p =
     (if length p \<ge> 4 \<and> list_all is_digit (take 4 p)
      then Some (drop 4 p, fold (\<lambda>c value. value * 10 + digit_of c) (take 4 p) 0) else None)"

fun parse_name :: "string \<Rightarrow> string list \<Rightarrow> int \<Rightarrow> (string \<times> int) option" where
  "parse_name p [] i = None"
| "parse_name p (name # names) i =
     (if str_eq_n p name 3 then Some (drop 3 p, i) else parse_name p names (i + 1))"

text \<open>\<^verbatim>\<open>*p++ == c\<close> on a character other than the terminator.\<close>

definition expect :: "char \<Rightarrow> string \<Rightarrow> string option" where
  "expect c p = (case p of [] \<Rightarrow> None | d # p' \<Rightarrow> if d = c then Some p' else None)"

text \<open>
  The body of \<^verbatim>\<open>strptime\<close> fills \<^verbatim>\<open>*tm\<close> as it goes: a step ends with the rest of the input and
  the fields, or fails with the fields written so far.
\<close>

type_synonym parse_result = "tm + string \<times> tm"

definition parse_then :: "parse_result \<Rightarrow> (string \<Rightarrow> tm \<Rightarrow> parse_result) \<Rightarrow> parse_result" where
  "parse_then r f = (case r of Inl t \<Rightarrow> Inl t | Inr (p, t) \<Rightarrow> f p t)"

definition parse_char :: "char \<Rightarrow> string \<Rightarrow> tm \<Rightarrow> parse_result" where
  "parse_char c p t = (case expect c p of None \<Rightarrow> Inl t | Some p \<Rightarrow> Inr (p, t))"

definition parse_chars :: "string \<Rightarrow> string \<Rightarrow> tm \<Rightarrow> parse_result" where
  "parse_chars cs p t = fold (\<lambda>c r. parse_then r (parse_char c)) cs (Inr (p, t))"

definition parse_field ::
    "(string \<times> int) option \<Rightarrow> (int \<Rightarrow> tm \<Rightarrow> tm) \<Rightarrow> string \<Rightarrow> tm \<Rightarrow> parse_result" where
  "parse_field r upd seps t =
     (case r of None \<Rightarrow> Inl t | Some (p, v) \<Rightarrow> parse_chars seps p (upd v t))"

text \<open>A weekday, a month and the year are stored only after the separators that follow them.\<close>

definition parse_late_field ::
    "(string \<times> int) option \<Rightarrow> (int \<Rightarrow> tm \<Rightarrow> tm) \<Rightarrow> string \<Rightarrow> tm \<Rightarrow> parse_result" where
  "parse_late_field r upd seps t =
     (case r of None \<Rightarrow> Inl t
      | Some (p, v) \<Rightarrow> parse_then (parse_chars seps p t) (\<lambda>p t. Inr (p, upd v t)))"

definition strptime :: "string \<Rightarrow> string \<Rightarrow> tm \<Rightarrow> string option \<times> tm" where
  "strptime buf fmt t =
     (if \<not> str_eq fmt ''%a, %d %b %Y %H:%M:%S GMT'' then (None, t)
      else case
        parse_then (parse_late_field (parse_name buf s_weekdays 0) (\<lambda>v t. t\<lparr>tm_wday := v\<rparr>) '', '' t) (\<lambda>p t.
        parse_then (parse_field (parse_u2 p) (\<lambda>v t. t\<lparr>tm_mday := v\<rparr>) '' '' t) (\<lambda>p t.
        parse_then (parse_late_field (parse_name p s_months 0) (\<lambda>v t. t\<lparr>tm_mon := v\<rparr>) '' '' t) (\<lambda>p t.
        parse_then (parse_late_field (parse_u4 p) (\<lambda>v t. t\<lparr>tm_year := v - 1900\<rparr>) '' '' t) (\<lambda>p t.
        parse_then (parse_field (parse_u2 p) (\<lambda>v t. t\<lparr>tm_hour := v\<rparr>) '':'' t) (\<lambda>p t.
        parse_then (parse_field (parse_u2 p) (\<lambda>v t. t\<lparr>tm_min := v\<rparr>) '':'' t) (\<lambda>p t.
        parse_then (parse_field (parse_u2 p) (\<lambda>v t. t\<lparr>tm_sec := v\<rparr>) '' '' t) (\<lambda>p t.
        if str_eq_n p ''GMT'' 3 then Inr (drop 3 p, t) else Inl t))))))) of
          Inl t \<Rightarrow> (None, t)
        | Inr (p, t) \<Rightarrow> (Some p, t))"

text \<open>
  The output buffer of \<^verbatim>\<open>strftime\<close> is a list of \<^verbatim>\<open>max\<close> characters and the position counts on when
  it is full.
\<close>

definition append_ch :: "char \<Rightarrow> string \<times> nat \<Rightarrow> string \<times> nat" where
  "append_ch c st =
     (let (out, pos) = st in
      (if pos + 1 < length out then out[pos := c] else out, pos + 1))"

definition append_str :: "string \<Rightarrow> string \<times> nat \<Rightarrow> string \<times> nat" where
  "append_str s st = fold append_ch s st"

definition digit_char :: "nat \<Rightarrow> char" where
  "digit_char d = char_of (48 + d)"

text \<open>The digits of \<^verbatim>\<open>append_u32\<close>, least significant first, at most 16 of them.\<close>

function u32_digits :: "nat \<Rightarrow> nat \<Rightarrow> string" where
  "u32_digits v i =
     digit_char (v mod 10) # (if v div 10 > 0 \<and> i + 1 < 16 then u32_digits (v div 10) (i + 1) else [])"
  by pat_completeness auto
termination
  by (relation "measure (\<lambda>(v, i). 16 - i)") auto

declare u32_digits.simps [simp del]

definition u32_string :: "u32 \<Rightarrow> nat \<Rightarrow> string" where
  "u32_string v width =
     (let ds = u32_digits (unat v) 0 in rev (ds @ replicate (min width 16 - length ds) (CHR ''0'')))"

definition append_u32 :: "u32 \<Rightarrow> nat \<Rightarrow> string \<times> nat \<Rightarrow> string \<times> nat" where
  "append_u32 v width st = append_str (u32_string v width) st"

definition strftime_conv :: "char \<Rightarrow> tm \<Rightarrow> string \<times> nat \<Rightarrow> string \<times> nat" where
  "strftime_conv c t =
     (if c = CHR ''%'' then append_ch (CHR ''%'')
      else if c = CHR ''b'' then
        append_str (s_months ! (if tm_mon t \<ge> 0 \<and> tm_mon t < 12 then nat (tm_mon t) else 0))
      else if c = CHR ''a'' then
        append_str (s_weekdays ! (if tm_wday t \<ge> 0 \<and> tm_wday t < 7 then nat (tm_wday t) else 0))
      else if c = CHR ''d'' then append_u32 (word_of_int (tm_mday t)) 2
      else if c = CHR ''H'' then append_u32 (word_of_int (tm_hour t)) 2
      else if c = CHR ''M'' then append_u32 (word_of_int (tm_min t)) 2
      else if c = CHR ''S'' then append_u32 (word_of_int (tm_sec t)) 2
      else if c = CHR ''Y'' then append_u32 (word_of_int (tm_year t + 1900)) 4
      else append_ch c)"

text \<open>
  The loop over the format. A format that ends in a percent sign makes the loop step over its
  terminator and read on behind the string: \<^const>\<open>None\<close>.
\<close>

fun strftime_loop :: "string \<Rightarrow> tm \<Rightarrow> string \<times> nat \<Rightarrow> (string \<times> nat) option" where
  "strftime_loop [] t st = Some st"
| "strftime_loop [c] t st = (if c \<noteq> CHR ''%'' then Some (append_ch c st) else None)"
| "strftime_loop (c # d # p) t st =
     (if c \<noteq> CHR ''%'' then strftime_loop (d # p) t (append_ch c st)
      else strftime_loop p t (strftime_conv d t st))"

definition strftime :: "string \<Rightarrow> string \<Rightarrow> tm \<Rightarrow> (nat \<times> string) option" where
  "strftime s format t =
     (if length s = 0 then Some (0, s)
      else case strftime_loop format t (s, 0) of
        None \<Rightarrow> None
      | Some (s, pos) \<Rightarrow>
          if pos \<ge> length s then Some (0, s[length s - 1 := CHR 0x00])
          else Some (pos, s[pos := CHR 0x00]))"

section \<open>Calendar arithmetic\<close>

definition month_len :: "int \<Rightarrow> nat \<Rightarrow> nat" where
  "month_len year mon = month_days ! mon + (if mon = 1 \<and> is_leap year then 1 else 0)"

lemma unat_gm_month_days: "mon < 12 \<Longrightarrow> unat (gm_month_days year mon) = month_len year mon"
proof -
  assume "mon < 12"
  then have "mon \<in> set [0..<12]" by simp
  then show ?thesis
    by (auto simp: gm_month_days_def month_len_def month_days_def upt_conv_Cons Let_def)
qed

lemma sum_month_len: "sum_list (map (month_len year) [0..<12]) = year_days year"
  by (simp add: month_len_def month_days_def year_days_def upt_conv_Cons)

lemma gm_year_result:
  "gm_year d y = (r, y') \<Longrightarrow>
    y \<le> y' \<and> unat r < year_days y' \<and> unat d = sum_list (map year_days [y..y' - 1]) + unat r"
proof (induction d y arbitrary: r y' rule: gm_year.induct)
  case (1 d y)
  let ?yd = "if is_leap y then 366 else 365 :: u32"
  have yd: "unat ?yd = year_days y" by (simp add: year_days_def)
  show ?case
  proof (cases "d < ?yd")
    case True
    then have "r = d" "y' = y" using 1(2) by (simp_all add: gm_year.simps [of d y] Let_def)
    then show ?thesis using True yd by (simp add: word_less_nat_alt)
  next
    case False
    then have "gm_year (d - ?yd) (y + 1) = (r, y')"
      using 1(2) by (simp add: gm_year.simps [of d y] Let_def split del: if_split)
    from 1(1) [OF refl False this]
    have IH: "y + 1 \<le> y'" "unat r < year_days y'"
      "unat (d - ?yd) = sum_list (map year_days [y + 1..y' - 1]) + unat r" by auto
    have "unat (d - ?yd) = unat d - year_days y" "year_days y \<le> unat d"
      using False yd by (simp_all only: unat_sub_u32 not_less word_le_nat_alt)
    moreover have "[y..y' - 1] = y # [y + 1..y' - 1]" using IH(1) by (simp add: upto_rec1)
    ultimately show ?thesis using IH by simp
  qed
qed

lemma gm_month_result:
  "gm_month y d mon = (r, m') \<Longrightarrow> mon \<le> 12 \<Longrightarrow>
    mon \<le> m' \<and> m' \<le> 12 \<and> (m' < 12 \<longrightarrow> unat r < month_len y m') \<and>
    unat d = sum_list (map (month_len y) [mon..<m']) + unat r"
proof (induction y d mon arbitrary: r m' rule: gm_month.induct)
  case (1 y d mon)
  let ?md = "gm_month_days y mon"
  show ?case
  proof (cases "mon < 12")
    case False
    then have "mon = 12" using 1(3) by simp
    then show ?thesis using 1(2) by (simp add: gm_month.simps [of y d 12])
  next
    case m: True
    note md = unat_gm_month_days [OF m, of y]
    show ?thesis
    proof (cases "d < ?md")
      case True
      then show ?thesis using 1(2) m md
        by (auto simp: gm_month.simps [of y d mon] Let_def word_less_nat_alt)
    next
      case False
      then have "gm_month y (d - ?md) (mon + 1) = (r, m')"
        using 1(2) m by (simp add: gm_month.simps [of y d mon] Let_def)
      from 1(1) [OF m refl False this] m
      have IH: "mon + 1 \<le> m'" "m' \<le> 12" "m' < 12 \<longrightarrow> unat r < month_len y m'"
        "unat (d - ?md) = sum_list (map (month_len y) [mon + 1..<m']) + unat r" by auto
      have "unat (d - ?md) = unat d - month_len y mon" "month_len y mon \<le> unat d"
        using False md by (simp_all only: unat_sub_u32 not_less word_le_nat_alt)
      moreover have "[mon..<m'] = mon # [mon + 1..<m']" using IH(1) by (simp add: upt_conv_Cons)
      ultimately show ?thesis using IH by simp
    qed
  qed
qed

lemma timegm_years: "fold (\<lambda>y days. days + (if is_leap y then 366 else 365)) ys d =
    d + of_nat (sum_list (map year_days ys))" for d :: u32
  by (induction ys arbitrary: d) (simp_all add: year_days_def)

lemma timegm_months:
  "fold (\<lambda>m days. let days = days + of_nat (month_days ! m) in
      if m = 1 \<and> is_leap year then days + 1 else days) ms d =
    d + of_nat (sum_list (map (month_len year) ms))" for d :: u32
  by (induction ms arbitrary: d) (simp_all add: month_len_def Let_def)

text \<open>The day number and the fields that \<^verbatim>\<open>gmtime_r\<close> makes of a time.\<close>

lemma gmtime_r_date:
  obtains year mon day where "gmtime_r v =
      \<lparr>tm_sec = int (unat v mod 86400 mod 60), tm_min = int (unat v mod 86400 div 60 mod 60),
       tm_hour = int (unat v mod 86400 div 3600), tm_mday = int day + 1, tm_mon = int mon,
       tm_year = year - 1900, tm_wday = int ((unat v div 86400 + 4) mod 7),
       tm_yday = int (sum_list (map (month_len year) [0..<mon]) + day), tm_isdst = 0\<rparr>"
    "1970 \<le> year" "mon < 12" "day < month_len year mon"
    "unat v div 86400 =
      sum_list (map year_days [1970..year - 1]) + sum_list (map (month_len year) [0..<mon]) + day"
proof -
  obtain d1 year where y: "gm_year (v div 86400) 1970 = (d1, year)" by fastforce
  obtain d2 mon where m: "gm_month year d1 0 = (d2, mon)" by fastforce
  have yr: "1970 \<le> year" "unat d1 < year_days year"
    "unat (v div 86400) = sum_list (map year_days [1970..year - 1]) + unat d1"
    using gm_year_result [OF y] by auto
  have mr: "mon \<le> 12" "mon < 12 \<longrightarrow> unat d2 < month_len year mon"
    "unat d1 = sum_list (map (month_len year) [0..<mon]) + unat d2"
    using gm_month_result [OF m] by auto
  have "mon < 12" using mr yr(2) sum_month_len [of year] by (cases "mon = 12") auto
  moreover have "unat (v div 86400 + 4) = unat v div 86400 + 4"
    using unat_u32_bound [of v] by (simp add: unat_add_u32 unat_div)
  moreover have "uint d1 = int (sum_list (map (month_len year) [0..<mon])) + uint d2"
    using arg_cong [OF mr(3), of int] by simp
  ultimately show ?thesis
    using y m yr mr by (intro that [of "unat d2" mon year])
      (simp_all add: gmtime_r_def Let_def unat_div unat_mod)
qed

lemma seconds_of_day:
  "r mod 60 + 60 * (r div 60 mod 60) + 3600 * (r div 3600) = (r :: nat)"
proof -
  have "r div 3600 = r div 60 div 60" by (simp add: div_mult2_eq [symmetric])
  then show ?thesis using mult_div_mod_eq [of 60 r] mult_div_mod_eq [of 60 "r div 60"] by linarith
qed

lemma timegm_gmtime: "timegm (gmtime_r v) = v"
proof (rule gmtime_r_date [of v])
  fix year mon day
  let ?n = "unat v"
  assume gm: "gmtime_r v =
      \<lparr>tm_sec = int (?n mod 86400 mod 60), tm_min = int (?n mod 86400 div 60 mod 60),
       tm_hour = int (?n mod 86400 div 3600), tm_mday = int day + 1, tm_mon = int mon,
       tm_year = year - 1900, tm_wday = int ((?n div 86400 + 4) mod 7),
       tm_yday = int (sum_list (map (month_len year) [0..<mon]) + day), tm_isdst = 0\<rparr>"
    and y: "1970 \<le> year" and mon: "mon < 12"
    and days: "?n div 86400 = sum_list (map year_days [1970..year - 1]) +
      sum_list (map (month_len year) [0..<mon]) + day"
  have mn: "nat (min (int mon) 12) = mon" using mon by simp
  have "timegm (gmtime_r v) =
      of_nat (sum_list (map year_days [1970..year - 1]) + sum_list (map (month_len year) [0..<mon]) + day) * 86400 +
      of_nat (?n mod 86400 div 3600) * 3600 + of_nat (?n mod 86400 div 60 mod 60) * 60 +
      of_nat (?n mod 86400 mod 60)"
    using y by (simp add: gm timegm_def Let_def mn timegm_years timegm_months [unfolded Let_def One_nat_def] algebra_simps del: of_nat_mod)
  also have "\<dots> = of_nat (?n div 86400 * 86400 + (?n mod 86400 mod 60 +
      60 * (?n mod 86400 div 60 mod 60) + 3600 * (?n mod 86400 div 3600)))"
    unfolding days [symmetric] by (simp only: of_nat_add of_nat_mult of_nat_numeral) (simp only: algebra_simps)
  also have "\<dots> = v" by (simp only: seconds_of_day div_mult_mod_eq) simp
  finally show ?thesis .
qed

section \<open>Printing\<close>

text \<open>
  The text a format stands for, and the buffer after a text was written to it: all of it, or as
  much as leaves room for the terminator.
\<close>

definition conv_text :: "char \<Rightarrow> tm \<Rightarrow> string" where
  "conv_text c t =
     (if c = CHR ''b'' then s_months ! (if tm_mon t \<ge> 0 \<and> tm_mon t < 12 then nat (tm_mon t) else 0)
      else if c = CHR ''a'' then s_weekdays ! (if tm_wday t \<ge> 0 \<and> tm_wday t < 7 then nat (tm_wday t) else 0)
      else if c = CHR ''d'' then u32_string (word_of_int (tm_mday t)) 2
      else if c = CHR ''H'' then u32_string (word_of_int (tm_hour t)) 2
      else if c = CHR ''M'' then u32_string (word_of_int (tm_min t)) 2
      else if c = CHR ''S'' then u32_string (word_of_int (tm_sec t)) 2
      else if c = CHR ''Y'' then u32_string (word_of_int (tm_year t + 1900)) 4
      else [c])"

fun format_text :: "string \<Rightarrow> tm \<Rightarrow> string option" where
  "format_text [] t = Some []"
| "format_text [c] t = (if c \<noteq> CHR ''%'' then Some [c] else None)"
| "format_text (c # d # p) t =
     (if c \<noteq> CHR ''%'' then map_option ((#) c) (format_text (d # p) t)
      else map_option ((@) (conv_text d t)) (format_text p t))"

definition wrote :: "nat \<Rightarrow> string \<Rightarrow> string \<times> nat \<Rightarrow> bool" where
  "wrote sz s st \<longleftrightarrow> length (fst st) = sz \<and> snd st = length s \<and>
     take (min (length s) (sz - 1)) (fst st) = take (sz - 1) s"

lemma wrote_append_ch: "wrote sz s st \<Longrightarrow> wrote sz (s @ [c]) (append_ch c st)"
proof (cases "length s + 1 < sz")
  case True
  then have "min (length s) (sz - 1) = length s" "min (length (s @ [c])) (sz - 1) = Suc (length s)"
    by simp_all
  moreover assume "wrote sz s st"
  ultimately show ?thesis using True
    by (auto simp: wrote_def append_ch_def case_prod_beta take_Suc_conv_app_nth)
next
  case False
  then have "min (length s) (sz - 1) = sz - 1" "min (length (s @ [c])) (sz - 1) = sz - 1" by simp_all
  moreover assume "wrote sz s st"
  ultimately show ?thesis using False by (auto simp: wrote_def append_ch_def case_prod_beta)
qed

lemma wrote_append_str: "wrote sz s st \<Longrightarrow> wrote sz (s @ u) (append_str u st)"
proof (induction u arbitrary: s st)
  case (Cons c u)
  from Cons.IH [OF wrote_append_ch [OF Cons.prems, of c]] show ?case by (simp add: append_str_def)
qed (simp add: append_str_def)

lemma strftime_conv_text: "strftime_conv c t st = append_str (conv_text c t) st"
  by (simp add: strftime_conv_def conv_text_def append_u32_def append_str_def)

lemma append_str_append: "append_str v (append_str u st) = append_str (u @ v) st"
  by (simp add: append_str_def)

lemma strftime_loop_text:
  "strftime_loop p t st = map_option (\<lambda>u. append_str u st) (format_text p t)"
proof (induction p t st rule: strftime_loop.induct)
  case (3 c d p t st)
  show ?case
  proof (cases "c = CHR ''%''")
    case True
    then have "strftime_loop (c # d # p) t st = strftime_loop p t (append_str (conv_text d t) st)"
      by (simp add: strftime_conv_text)
    also have "\<dots> = map_option (\<lambda>u. append_str u (append_str (conv_text d t) st)) (format_text p t)"
      using 3(2) True by (simp add: strftime_conv_text)
    finally show ?thesis using True by (simp add: append_str_append option.map_comp o_def)
  next
    case False
    then have "strftime_loop (c # d # p) t st = strftime_loop (d # p) t (append_ch c st)" by simp
    also have "\<dots> = map_option (\<lambda>u. append_str u (append_ch c st)) (format_text (d # p) t)"
      using 3(1) False by simp
    finally show ?thesis using False by (simp add: append_str_def option.map_comp o_def)
  qed
qed (simp_all add: append_str_def)

lemma strftime_text:
  assumes "0 < length s" "format_text p t = Some u"
  shows "\<exists>s'. strftime s p t = Some (if length u < length s then length u else 0, s') \<and> length s' = length s \<and>
    take (min (length u) (length s - 1)) s' = take (length s - 1) u \<and>
    s' ! min (length u) (length s - 1) = CHR 0x00"
proof -
  obtain out pos where st: "append_str u (s, 0) = (out, pos)" by fastforce
  have "wrote (length s) ([] @ u) (append_str u (s, 0))"
    by (rule wrote_append_str) (simp add: wrote_def)
  then have w: "length out = length s" "pos = length u"
    "take (min (length u) (length s - 1)) out = take (length s - 1) u"
    by (simp_all add: wrote_def st)
  have loop: "strftime_loop p t (s, 0) = Some (out, pos)" by (simp add: strftime_loop_text assms(2) st)
  show ?thesis
  proof (cases "length u < length s")
    case True
    then have "strftime s p t = Some (length u, out[length u := CHR 0x00])"
      using assms(1) loop w by (simp add: strftime_def)
    moreover have "min (length u) (length s - 1) = length u" using True by simp
    ultimately show ?thesis using True w by simp
  next
    case False
    then have "strftime s p t = Some (0, out[length s - 1 := CHR 0x00])"
      using assms(1) loop w by (simp add: strftime_def)
    moreover have "min (length u) (length s - 1) = length s - 1" using False by simp
    ultimately show ?thesis using False w assms(1) by simp
  qed
qed

section \<open>Digits\<close>

lemma of_digit_char: "d < 10 \<Longrightarrow> of_char (digit_char d) = (48 + d :: nat)"
  by (simp add: digit_char_def)

lemma is_digit_digit_char [simp]: "d < 10 \<Longrightarrow> is_digit (digit_char d)"
  by (simp add: is_digit_def of_digit_char)

lemma digit_of_digit_char [simp]: "d < 10 \<Longrightarrow> digit_of (digit_char d) = int d"
proof -
  assume "d < 10"
  have "(of_char (digit_char d) :: int) = int (of_char (digit_char d))"
    by (simp only: of_nat_of_char)
  also have "\<dots> = 48 + int d" using of_digit_char [OF \<open>d < 10\<close>] by simp
  finally show ?thesis by (simp add: digit_of_def)
qed

lemma digit_char_0: "digit_char 0 = CHR ''0''"
  by (simp add: digit_char_def char_of_def bit_iff_odd)

lemma u32_string_2: "v < 100 \<Longrightarrow> u32_string (of_nat v) 2 = [digit_char (v div 10), digit_char (v mod 10)]"
proof -
  assume v: "v < 100"
  then have u: "unat (of_nat v :: u32) = v" by (simp add: unat_of_nat_u32)
  show ?thesis
  proof (cases "v < 10")
    case True
    then have "u32_digits v 0 = [digit_char v]" by (subst u32_digits.simps) simp
    then show ?thesis using True u by (simp add: u32_string_def digit_char_0 numeral_2_eq_2)
  next
    case False
    then have "u32_digits v 0 = [digit_char (v mod 10), digit_char (v div 10)]"
      using v by (subst u32_digits.simps, subst u32_digits.simps) simp
    then show ?thesis using u by (simp add: u32_string_def)
  qed
qed

lemma u32_string_4:
  assumes "1000 \<le> v" "v < 10000"
  shows "u32_string (of_nat v) 4 = [digit_char (v div 1000), digit_char (v div 100 mod 10),
    digit_char (v div 10 mod 10), digit_char (v mod 10)]"
proof -
  have u: "unat (of_nat v :: u32) = v" using assms by (simp add: unat_of_nat_u32)
  have d: "v div 100 = v div 10 div 10" "v div 1000 = v div 10 div 10 div 10"
    by (simp_all add: div_mult2_eq [symmetric])
  have pos: "0 < v div 10" "0 < v div 10 div 10" "0 < v div 10 div 10 div 10" "v div 10 div 10 div 10 < 10"
    using assms by (simp_all add: div_mult2_eq [symmetric] div_less_iff_less_mult less_eq_div_iff_mult_less_eq Suc_le_eq [symmetric])
  have "u32_digits v 0 = [digit_char (v mod 10), digit_char (v div 10 mod 10),
      digit_char (v div 10 div 10 mod 10), digit_char (v div 10 div 10 div 10)]"
    using pos by (subst u32_digits.simps, subst u32_digits.simps, subst u32_digits.simps, subst u32_digits.simps) simp
  then show ?thesis using u d by (simp add: u32_string_def)
qed

text \<open>The date of a header line, as text.\<close>

definition http_format :: string where
  "http_format = ''%a, %d %b %Y %H:%M:%S GMT''"

definition two_digits :: "nat \<Rightarrow> string" where
  "two_digits v = [digit_char (v div 10), digit_char (v mod 10)]"

definition http_date :: "nat \<Rightarrow> nat \<Rightarrow> nat \<Rightarrow> nat \<Rightarrow> nat \<Rightarrow> nat \<Rightarrow> nat \<Rightarrow> string" where
  "http_date wday mday mon year hour mn sec =
     s_weekdays ! wday @ '', '' @ two_digits mday @ '' '' @ s_months ! mon @ '' '' @
     [digit_char (year div 1000), digit_char (year div 100 mod 10), digit_char (year div 10 mod 10),
      digit_char (year mod 10)] @ '' '' @ two_digits hour @ '':'' @ two_digits mn @ '':'' @
     two_digits sec @ '' GMT''"

lemma format_http:
  assumes "wday < 7" "mday < 100" "mon < 12" "1000 \<le> year" "year < 10000" "hour < 100" "mn < 100" "sec < 100"
    and "tm_wday t = int wday" "tm_mday t = int mday" "tm_mon t = int mon" "tm_year t + 1900 = int year"
    "tm_hour t = int hour" "tm_min t = int mn" "tm_sec t = int sec"
  shows "format_text http_format t = Some (http_date wday mday mon year hour mn sec)"
  using assms u32_string_4 [OF assms(4,5)] u32_string_2 [OF assms(2)] u32_string_2 [OF assms(6)]
    u32_string_2 [OF assms(7)] u32_string_2 [OF assms(8)]
  by (simp add: http_format_def conv_text_def http_date_def two_digits_def)

section \<open>Parsing what was printed\<close>

lemma parse_name_nth:
  assumes "distinct names" "\<forall>n \<in> set names. length n = 3" "i < length names"
  shows "parse_name (names ! i @ p) names k = Some (p, k + int i)"
  using assms
proof (induction names arbitrary: i k)
  case (Cons name names)
  have eq: "str_eq_n (n @ p) name 3 \<longleftrightarrow> n = name" if "length n = 3" for n
    using that Cons.prems(2) by (simp add: str_eq_n_def)
  show ?case
  proof (cases i)
    case 0
    then show ?thesis using Cons.prems(2) eq [of name] by simp
  next
    case (Suc j)
    then have "names ! j \<in> set names" using Cons.prems(3) by simp
    then show ?thesis using Suc Cons.IH [of j "k + 1"] Cons.prems eq [of "names ! j"] by auto
  qed
qed simp

lemma s_names_length:
  "length s_weekdays = 7" "length s_months = 12"
  "\<forall>n \<in> set s_weekdays. length n = 3" "\<forall>n \<in> set s_months. length n = 3"
  by (simp_all add: s_weekdays_def s_months_def)

lemma parse_weekday: "w < 7 \<Longrightarrow> parse_name (s_weekdays ! w @ p) s_weekdays 0 = Some (p, int w)"
  using parse_name_nth [of s_weekdays w p 0] by (simp add: s_weekdays_def)

lemma parse_month: "m < 12 \<Longrightarrow> parse_name (s_months ! m @ p) s_months 0 = Some (p, int m)"
  using parse_name_nth [of s_months m p 0] by (simp add: s_months_def)

lemma int_div_mod_10: "int (v div 10) * 10 + int (v mod 10) = int v"
  using arg_cong [OF div_mult_mod_eq [of v 10], of int] by (simp only: of_nat_add of_nat_mult of_nat_numeral)

lemma parse_two_digits:
  "v < 100 \<Longrightarrow> \<not> is_digit c \<Longrightarrow> parse_u2 (two_digits v @ c # p) = Some (c # p, int v)"
  by (simp add: parse_u2_def two_digits_def int_div_mod_10 del: of_nat_div of_nat_mod)

lemma parse_four_digits:
  assumes "year < 10000"
  shows "parse_u4 ([digit_char (year div 1000), digit_char (year div 100 mod 10),
      digit_char (year div 10 mod 10), digit_char (year mod 10)] @ p) = Some (p, int year)"
proof -
  have "year div 1000 < 10" using assms by simp
  moreover have "((int (year div 1000) * 10 + int (year div 100 mod 10)) * 10 + int (year div 10 mod 10)) * 10 +
      int (year mod 10) = int year"
    using int_div_mod_10 [of "year div 100"] int_div_mod_10 [of "year div 10"] int_div_mod_10 [of year]
    by (simp add: div_mult2_eq [symmetric] del: of_nat_div of_nat_mod)
  ultimately show ?thesis by (simp add: parse_u4_def del: of_nat_div of_nat_mod)
qed

lemma parse_chars_match: "parse_chars (c # cs) (c # p) t = parse_chars cs p t" "parse_chars [] p t = Inr (p, t)"
  by (simp_all add: parse_chars_def parse_then_def parse_char_def expect_def)

lemma str_eq_refl [simp]: "str_eq s s"
  by (induction s) simp_all

lemma strptime_http_date:
  assumes "wday < 7" "mday < 100" "mon < 12" "year < 10000" "hour < 100" "mn < 100" "sec < 100"
  shows "strptime (http_date wday mday mon year hour mn sec @ p) http_format t =
    (Some p, t\<lparr>tm_wday := int wday, tm_mday := int mday, tm_mon := int mon, tm_year := int year - 1900,
       tm_hour := int hour, tm_min := int mn, tm_sec := int sec\<rparr>)"
proof -
  have nd: "\<not> is_digit (CHR '' '')" "\<not> is_digit (CHR '':'')" by (simp_all add: is_digit_def)
  note parse = parse_weekday [OF assms(1)] parse_month [OF assms(3)]
    parse_two_digits [OF assms(2) nd(1)] parse_four_digits [OF assms(4), simplified]
    parse_two_digits [OF assms(5) nd(2)] parse_two_digits [OF assms(6) nd(2)]
    parse_two_digits [OF assms(7) nd(1)]
  show ?thesis
    unfolding strptime_def http_date_def
    by (simp add: parse parse_then_def parse_late_field_def parse_field_def parse_chars_match
        str_eq_n_def flip: http_format_def)
qed

lemma timegm_cong:
  "tm_year t = tm_year t' \<Longrightarrow> tm_mon t = tm_mon t' \<Longrightarrow> tm_mday t = tm_mday t' \<Longrightarrow>
   tm_hour t = tm_hour t' \<Longrightarrow> tm_min t = tm_min t' \<Longrightarrow> tm_sec t = tm_sec t' \<Longrightarrow> timegm t = timegm t'"
  by (simp only: timegm_def)

lemma gmtime_r_bounds:
  obtains wday mday mon year hour mn sec where "wday < 7" "mday < 100" "mon < 12" "1970 \<le> year" "year < 10000"
    "hour < 24" "mn < 60" "sec < 60"
    "tm_wday (gmtime_r v) = int wday" "tm_mday (gmtime_r v) = int mday" "tm_mon (gmtime_r v) = int mon"
    "tm_year (gmtime_r v) + 1900 = int year" "tm_hour (gmtime_r v) = int hour"
    "tm_min (gmtime_r v) = int mn" "tm_sec (gmtime_r v) = int sec"
proof (rule gmtime_r_date [of v])
  fix year mon day
  assume gm: "gmtime_r v =
      \<lparr>tm_sec = int (unat v mod 86400 mod 60), tm_min = int (unat v mod 86400 div 60 mod 60),
       tm_hour = int (unat v mod 86400 div 3600), tm_mday = int day + 1, tm_mon = int mon,
       tm_year = year - 1900, tm_wday = int ((unat v div 86400 + 4) mod 7),
       tm_yday = int (sum_list (map (month_len year) [0..<mon]) + day), tm_isdst = 0\<rparr>"
    and y: "1970 \<le> year" and mon: "mon < 12" and day: "day < month_len year mon"
    and days: "unat v div 86400 = sum_list (map year_days [1970..year - 1]) +
      sum_list (map (month_len year) [0..<mon]) + day"
  have ml: "month_len year mon \<le> 31"
  proof -
    have "mon \<in> set [0..<12]" using mon by simp
    then show ?thesis by (auto simp: month_len_def month_days_def upt_conv_Cons)
  qed
  have "365 * length ys \<le> sum_list (map year_days ys)" for ys
    by (induction ys) (auto simp: year_days_def)
  from this [of "[1970..year - 1]"] have "365 * nat (year - 1970) \<le> unat v div 86400"
    using days by simp
  moreover have "unat v div 86400 \<le> 4294967296 div 86400"
    by (intro div_le_mono less_imp_le unat_u32_bound)
  ultimately have yr: "year < 10000" by simp
  have hr: "unat v mod 86400 div 3600 < 24" by (simp add: div_less_iff_less_mult)
  show ?thesis
    by (rule that [of "(unat v div 86400 + 4) mod 7" "day + 1" mon "nat year" "unat v mod 86400 div 3600"
          "unat v mod 86400 div 60 mod 60" "unat v mod 86400 mod 60"])
      (use mon y yr day ml hr in \<open>simp_all add: gm del: of_nat_mod of_nat_div\<close>)
qed

section \<open>Properties\<close>

text \<open>
  C32: \<^verbatim>\<open>timegm\<close> inverts \<^verbatim>\<open>gmtime_r\<close>: breaking any 32-bit time into calendar fields and
  converting them back gives the time, leap years included.
\<close>

theorem timegm_inverts_gmtime: "timegm (gmtime_r v) = v"
  by (rule timegm_gmtime)

text \<open>
  dates survive the header format. Printing the fields of any 32-bit time with
  \<^verbatim>\<open>strftime\<close> in the format \<^verbatim>\<open>strptime\<close> knows takes 29 characters, and parsing them consumes
  the whole text and gives fields that \<^verbatim>\<open>timegm\<close> converts back to the time.
\<close>

theorem http_date_roundtrip:
  assumes "30 \<le> length s"
  shows "\<exists>s' t'. strftime s http_format (gmtime_r v) = Some (29, s') \<and> s' ! 29 = CHR 0x00 \<and>
    strptime (take 29 s') http_format t = (Some [], t') \<and> timegm t' = v"
proof (rule gmtime_r_bounds [of v])
  fix wday mday mon year hour mn sec
  assume b: "wday < 7" "mday < 100" "mon < 12" "1970 \<le> year" "year < 10000" "hour < 24" "mn < 60" "sec < 60"
    and f: "tm_wday (gmtime_r v) = int wday" "tm_mday (gmtime_r v) = int mday" "tm_mon (gmtime_r v) = int mon"
    "tm_year (gmtime_r v) + 1900 = int year" "tm_hour (gmtime_r v) = int hour"
    "tm_min (gmtime_r v) = int mn" "tm_sec (gmtime_r v) = int sec"
  let ?u = "http_date wday mday mon year hour mn sec"
  let ?t = "t\<lparr>tm_wday := int wday, tm_mday := int mday, tm_mon := int mon, tm_year := int year - 1900,
       tm_hour := int hour, tm_min := int mn, tm_sec := int sec\<rparr>"
  have fmt: "format_text http_format (gmtime_r v) = Some ?u"
    using b f by (intro format_http) simp_all
  have "length (s_weekdays ! wday) = 3" "length (s_months ! mon) = 3"
    using b s_names_length nth_mem by metis+
  then have len: "length ?u = 29" by (simp add: http_date_def two_digits_def)
  obtain s' where s': "strftime s http_format (gmtime_r v) = Some (29, s')" "take 29 s' = ?u" "s' ! 29 = CHR 0x00"
  proof -
    have "0 < length s" "min 29 (length s - 1) = 29" "29 < length s" "take (length s - 1) ?u = ?u"
      using assms len by auto
    with strftime_text [OF _ fmt, of s] that show ?thesis by (auto simp: len)
  qed
  moreover have "strptime ?u http_format t = (Some [], ?t)"
    using strptime_http_date [of wday mday mon year hour mn sec "[]" t] b by simp
  moreover have "timegm ?t = timegm (gmtime_r v)" by (rule timegm_cong) (use f in simp_all)
  ultimately show ?thesis by (auto simp: timegm_gmtime)
qed

theorem http_date_roundtrip_witness:
  "\<exists>s' t'. strftime (replicate 64 CHR ''x'') http_format (gmtime_r 1700000000) = Some (29, s') \<and>
     strptime (take 29 s') http_format (gmtime_r 0) = (Some [], t') \<and> timegm t' = 1700000000"
  using http_date_roundtrip [of "replicate 64 CHR ''x''" 1700000000 "gmtime_r 0"] by auto



end
