(* ===== verification/Bytes.thy ===== *)
theory Bytes
  imports Prelude
begin

text \<open>
  Big-endian fields of packets. Each network file has its own copy of the accessors: those of
  \<^verbatim>\<open>src/drivers/arp.c\<close> and \<^verbatim>\<open>src/drivers/ipv4.c\<close> are written out here, and the packet proofs
  use only the contract they share, a locale that both copies are shown to meet. A buffer is a
  list of bytes; the offsets, which the code keeps in 32-bit variables and which stay below the
  frame size, are natural numbers.
\<close>

section \<open>The accessors\<close>

definition arp_write_u16_be :: "u8 list \<Rightarrow> nat \<Rightarrow> u16 \<Rightarrow> u8 list" where
  "arp_write_u16_be buf off v = buf[off := ucast (drop_bit 8 v), off + 1 := ucast (v AND 0xFF)]"

definition arp_write_u32_be :: "u8 list \<Rightarrow> nat \<Rightarrow> u32 \<Rightarrow> u8 list" where
  "arp_write_u32_be buf off v =
     buf[off := ucast (drop_bit 24 v AND 0xFF), off + 1 := ucast (drop_bit 16 v AND 0xFF),
         off + 2 := ucast (drop_bit 8 v AND 0xFF), off + 3 := ucast (v AND 0xFF)]"

definition arp_read_u16_be :: "u8 list \<Rightarrow> nat \<Rightarrow> u16" where
  "arp_read_u16_be buf off = push_bit 8 (ucast (buf ! off)) OR ucast (buf ! (off + 1))"

definition arp_read_u32_be :: "u8 list \<Rightarrow> nat \<Rightarrow> u32" where
  "arp_read_u32_be buf off =
     push_bit 24 (ucast (buf ! off)) OR push_bit 16 (ucast (buf ! (off + 1))) OR
     push_bit 8 (ucast (buf ! (off + 2))) OR ucast (buf ! (off + 3))"

definition ipv4_write_u16_be :: "u8 list \<Rightarrow> nat \<Rightarrow> u16 \<Rightarrow> u8 list" where
  "ipv4_write_u16_be buf off v = buf[off := ucast (drop_bit 8 v), off + 1 := ucast (v AND 0xFF)]"

definition ipv4_write_u32_be :: "u8 list \<Rightarrow> nat \<Rightarrow> u32 \<Rightarrow> u8 list" where
  "ipv4_write_u32_be buf off v =
     buf[off := ucast (drop_bit 24 v AND 0xFF), off + 1 := ucast (drop_bit 16 v AND 0xFF),
         off + 2 := ucast (drop_bit 8 v AND 0xFF), off + 3 := ucast (v AND 0xFF)]"

definition ipv4_read_u16_be :: "u8 list \<Rightarrow> nat \<Rightarrow> u16" where
  "ipv4_read_u16_be buf off = push_bit 8 (ucast (buf ! off)) OR ucast (buf ! (off + 1))"

definition ipv4_read_u32_be :: "u8 list \<Rightarrow> nat \<Rightarrow> u32" where
  "ipv4_read_u32_be buf off =
     push_bit 24 (ucast (buf ! off)) OR push_bit 16 (ucast (buf ! (off + 1))) OR
     push_bit 8 (ucast (buf ! (off + 2))) OR ucast (buf ! (off + 3))"

definition net_read_u16_be :: "u8 list \<Rightarrow> nat \<Rightarrow> u16" where
  "net_read_u16_be buf off = push_bit 8 (ucast (buf ! off)) OR ucast (buf ! (off + 1))"

definition net_read_u32_be :: "u8 list \<Rightarrow> nat \<Rightarrow> u32" where
  "net_read_u32_be buf off =
     push_bit 24 (ucast (buf ! off)) OR push_bit 16 (ucast (buf ! (off + 1))) OR
     push_bit 8 (ucast (buf ! (off + 2))) OR ucast (buf ! (off + 3))"

text \<open>\<^verbatim>\<open>k_memcpy\<close> of a list of bytes, and the loops that copy an address byte by byte.\<close>

definition put_bytes :: "u8 list \<Rightarrow> nat \<Rightarrow> u8 list \<Rightarrow> u8 list" where
  "put_bytes buf off bs = fold (\<lambda>i buf. buf[off + i := bs ! i]) [0..<length bs] buf"

lemma length_put_loop [simp]: "length (fold (\<lambda>i buf. buf[off + i := bs ! i]) is buf) = length buf"
  by (induction "is" arbitrary: buf) simp_all

lemma length_put_bytes [simp]: "length (put_bytes buf off bs) = length buf"
  by (simp add: put_bytes_def)

lemma nth_put_bytes:
  assumes "off + length bs \<le> length buf"
  shows "put_bytes buf off bs ! i =
    (if off \<le> i \<and> i < off + length bs then bs ! (i - off) else buf ! i)"
proof -
  have "fold (\<lambda>i buf. buf[off + i := bs ! i]) [0..<k] buf ! i =
      (if off \<le> i \<and> i < off + k then bs ! (i - off) else buf ! i)" if "k \<le> length bs" for k
    using that
  proof (induction k)
    case (Suc k)
    then show ?case using assms by (auto simp: nth_list_update less_Suc_eq)
  qed auto
  from this [of "length bs"] show ?thesis by (simp add: put_bytes_def)
qed

section \<open>The contract\<close>

text \<open>
  A field that was written is read back; a write of \<open>n\<close> bytes keeps the length and every byte
  outside its range; a read depends on the bytes of its range only.
\<close>

locale be_codec =
  fixes write16 :: "u8 list \<Rightarrow> nat \<Rightarrow> u16 \<Rightarrow> u8 list"
    and write32 :: "u8 list \<Rightarrow> nat \<Rightarrow> u32 \<Rightarrow> u8 list"
    and read16 :: "u8 list \<Rightarrow> nat \<Rightarrow> u16"
    and read32 :: "u8 list \<Rightarrow> nat \<Rightarrow> u32"
  assumes length_write16: "length (write16 buf off v) = length buf"
    and length_write32: "length (write32 buf off w) = length buf"
    and nth_write16: "i < off \<or> off + 2 \<le> i \<Longrightarrow> write16 buf off v ! i = buf ! i"
    and nth_write32: "i < off \<or> off + 4 \<le> i \<Longrightarrow> write32 buf off w ! i = buf ! i"
    and read16_write16: "off + 2 \<le> length buf \<Longrightarrow> read16 (write16 buf off v) off = v"
    and read32_write32: "off + 4 \<le> length buf \<Longrightarrow> read32 (write32 buf off w) off = w"
    and read16_cong: "buf ! off = buf' ! off \<Longrightarrow> buf ! (off + 1) = buf' ! (off + 1) \<Longrightarrow>
      read16 buf off = read16 buf' off"
    and read32_cong: "buf ! off = buf' ! off \<Longrightarrow> buf ! (off + 1) = buf' ! (off + 1) \<Longrightarrow>
      buf ! (off + 2) = buf' ! (off + 2) \<Longrightarrow> buf ! (off + 3) = buf' ! (off + 3) \<Longrightarrow>
      read32 buf off = read32 buf' off"
begin

lemma read16_write16_other:
  "o' + 2 \<le> off \<or> off + 2 \<le> o' \<Longrightarrow> read16 (write16 buf off v) o' = read16 buf o'"
  by (rule read16_cong) (auto intro!: nth_write16)

lemma read16_write32_other:
  "o' + 2 \<le> off \<or> off + 4 \<le> o' \<Longrightarrow> read16 (write32 buf off v) o' = read16 buf o'"
  by (rule read16_cong) (auto intro!: nth_write32)

lemma read32_write16_other:
  "o' + 4 \<le> off \<or> off + 2 \<le> o' \<Longrightarrow> read32 (write16 buf off v) o' = read32 buf o'"
  by (rule read32_cong) (auto intro!: nth_write16)

lemma read32_write32_other:
  "o' + 4 \<le> off \<or> off + 4 \<le> o' \<Longrightarrow> read32 (write32 buf off v) o' = read32 buf o'"
  by (rule read32_cong) (auto intro!: nth_write32)

lemma read16_update_other: "i < off \<or> off + 2 \<le> i \<Longrightarrow> read16 (buf[i := b]) off = read16 buf off"
  by (rule read16_cong) auto

lemma read32_update_other: "i < off \<or> off + 4 \<le> i \<Longrightarrow> read32 (buf[i := b]) off = read32 buf off"
  by (rule read32_cong) auto

lemma read16_put_other:
  assumes "off + length bs \<le> length buf" "o' + 2 \<le> off \<or> off + length bs \<le> o'"
  shows "read16 (put_bytes buf off bs) o' = read16 buf o'"
  using assms(2) by (intro read16_cong) (auto simp: nth_put_bytes [OF assms(1)])

lemma read32_put_other:
  assumes "off + length bs \<le> length buf" "o' + 4 \<le> off \<or> off + length bs \<le> o'"
  shows "read32 (put_bytes buf off bs) o' = read32 buf o'"
  using assms(2) by (intro read32_cong) (auto simp: nth_put_bytes [OF assms(1)])

lemmas codec = length_write16 length_write32 nth_write16 nth_write32 read16_write16 read32_write32
  read16_write16_other read16_write32_other read32_write16_other read32_write32_other
  read16_update_other read32_update_other read16_put_other read32_put_other

end

lemma byte_mask: "(0xFF :: u16) = mask 8" "(0xFF :: u32) = mask 8"
  by (simp_all add: mask_eq_exp_minus_1)

lemma join_u16:
  "push_bit 8 (ucast (ucast (drop_bit 8 v) :: u8)) OR ucast (ucast (v AND 0xFF) :: u8) = (v :: u16)"
  unfolding byte_mask by (rule bit_word_eqI) (auto simp: bit_simps)

lemma join_u32:
  "push_bit 24 (ucast (ucast (drop_bit 24 v AND 0xFF) :: u8)) OR
   push_bit 16 (ucast (ucast (drop_bit 16 v AND 0xFF) :: u8)) OR
   push_bit 8 (ucast (ucast (drop_bit 8 v AND 0xFF) :: u8)) OR ucast (ucast (v AND 0xFF) :: u8) = (v :: u32)"
proof (unfold byte_mask, rule bit_word_eqI)
  fix n assume "n < LENGTH(32)"
  then consider "n < 8" | "8 \<le> n" "n < 16" | "16 \<le> n" "n < 24" | "24 \<le> n" "n < 32" by fastforce
  then show "bit (push_bit 24 (ucast (ucast (drop_bit 24 v AND mask 8) :: u8)) OR
      push_bit 16 (ucast (ucast (drop_bit 16 v AND mask 8) :: u8)) OR
      push_bit 8 (ucast (ucast (drop_bit 8 v AND mask 8) :: u8)) OR ucast (ucast (v AND mask 8) :: u8) :: u32) n = bit v n"
    by cases (auto simp: bit_simps)
qed

interpretation arp_be: be_codec arp_write_u16_be arp_write_u32_be arp_read_u16_be arp_read_u32_be
  by unfold_locales
    (auto simp: arp_write_u16_be_def arp_write_u32_be_def arp_read_u16_be_def arp_read_u32_be_def
      nth_list_update join_u16 join_u32)

interpretation ipv4_be: be_codec ipv4_write_u16_be ipv4_write_u32_be ipv4_read_u16_be ipv4_read_u32_be
  by unfold_locales
    (auto simp: ipv4_write_u16_be_def ipv4_write_u32_be_def ipv4_read_u16_be_def ipv4_read_u32_be_def
      nth_list_update join_u16 join_u32)

text \<open>The three copies of the readers agree, so a frame built with one is read with another.\<close>

lemma read_copies:
  "arp_read_u16_be = ipv4_read_u16_be" "arp_read_u32_be = ipv4_read_u32_be"
  "net_read_u16_be = ipv4_read_u16_be" "net_read_u32_be = ipv4_read_u32_be"
  by (simp_all add: fun_eq_iff arp_read_u16_be_def ipv4_read_u16_be_def net_read_u16_be_def
      arp_read_u32_be_def ipv4_read_u32_be_def net_read_u32_be_def)

text \<open>A read as a number.\<close>

lemma unat_ucast_u8_u16 [simp]: "unat (ucast (b :: u8) :: u16) = unat b"
  using unsigned_less [where 'a = nat, of b] by (simp add: unsigned_ucast_eq take_bit_nat_eq_self_iff)

lemma unat_read_u16: "unat (ipv4_read_u16_be buf off) = 256 * unat (buf ! off) + unat (buf ! (off + 1))"
proof -
  have "unat b < 256" for b :: u8 using unsigned_less [where 'a = nat, of b] by simp
  then show ?thesis
    unfolding ipv4_read_u16_be_def
    by (subst unat_shift_or) (simp_all add: mult.commute)
qed

end
