(* ===== verification/Ipv4.thy ===== *)
theory Ipv4
  imports Bytes
begin

text \<open>
  IPv4 and ICMP echo, \<^verbatim>\<open>src/drivers/ipv4.c\<close>: the Internet checksum, address parsing, the
  construction of packets and the recognition of an echo reply. Packets are lists of bytes. The
  checksum reads memory behind its pointer: it is \<^const>\<open>None\<close> when that leaves the buffer. What
  the network card and ARP contribute (addresses, the clock, whether sending worked) is passed in.
\<close>

section \<open>Checksum\<close>

fun csum_words :: "u8 list \<Rightarrow> u32 \<Rightarrow> u32" where
  "csum_words (a # b # data) s = csum_words data (s + ucast (push_bit 8 (ucast a) OR ucast b :: u16))"
| "csum_words [a] s = s + ucast (push_bit 8 (ucast a) :: u16)"
| "csum_words [] s = s"

lemma unat_high_half: "unat (drop_bit 16 (s :: u32)) = unat s div 65536"
  by (simp only: unat_drop_bit_eq) (simp add: drop_bit_eq_div)

lemma csum_fold_less:
  assumes "drop_bit 16 s \<noteq> (0 :: u32)"
  shows "unat ((s AND 0xFFFF) + drop_bit 16 s) = unat s mod 65536 + unat s div 65536"
    and "unat s mod 65536 + unat s div 65536 < unat s" "65536 \<le> unat s"
proof -
  note hi = unat_high_half [of s]
  have lo: "unat (s AND 0xFFFF) = unat s mod 65536"
    using unat_and_mask [of s 16] by (simp add: mask_eq_exp_minus_1)
  show ge: "65536 \<le> unat s"
  proof (rule ccontr)
    assume "\<not> 65536 \<le> unat s"
    then have "unat (drop_bit 16 s) = 0" using hi by simp
    with assms show False by (simp add: unat_eq_0)
  qed
  have lt: "unat s < 4294967296" by (rule unat_u32_bound)
  have eq: "unat s div 65536 * 65536 + unat s mod 65536 = unat s" by (rule div_mult_mod_eq)
  show "unat s mod 65536 + unat s div 65536 < unat s" using ge eq by linarith
  have "unat s div 65536 < 65536" using lt by (simp add: div_less_iff_less_mult)
  moreover have "unat s mod 65536 < 65536" by simp
  ultimately show "unat ((s AND 0xFFFF) + drop_bit 16 s) = unat s mod 65536 + unat s div 65536"
    by (subst unat_add_u32) (simp_all add: hi lo)
qed

function csum_fold :: "u32 \<Rightarrow> u32" where
  "csum_fold s = (if drop_bit 16 s \<noteq> 0 then csum_fold ((s AND 0xFFFF) + drop_bit 16 s) else s)"
  by pat_completeness auto
termination
  by (relation "measure unat") (auto simp: csum_fold_less)

declare csum_fold.simps [simp del]

definition ipv4_checksum16 :: "u8 list \<Rightarrow> u32 \<Rightarrow> u16 option" where
  "ipv4_checksum16 data len =
     (if unat len \<le> length data
      then Some (ucast (NOT (csum_fold (csum_words (take (unat len) data) 0)))) else None)"

section \<open>Addresses\<close>

text \<open>
  The loop of \<^verbatim>\<open>ipv4_parse_ip\<close>: parts read so far, value and flag of the part being read. The
  end of the list is the terminator.
\<close>

definition ipv4_end_part :: "u32 list \<Rightarrow> u32 \<Rightarrow> bool \<Rightarrow> u32 list option" where
  "ipv4_end_part parts v saw_digit =
     (if \<not> saw_digit \<or> length parts \<ge> 4 then None else Some (parts @ [v]))"

fun ipv4_parse_loop :: "string \<Rightarrow> u32 list \<Rightarrow> u32 \<Rightarrow> bool \<Rightarrow> u32 list option" where
  "ipv4_parse_loop [] parts v saw_digit = ipv4_end_part parts v saw_digit"
| "ipv4_parse_loop (c # p) parts v saw_digit =
     (if 48 \<le> (of_char c :: nat) \<and> (of_char c :: nat) \<le> 57 then
        let v = v * 10 + (of_char c - 48) in
        if v > 255 then None else ipv4_parse_loop p parts v True
      else if c = CHR ''.'' then
        (case ipv4_end_part parts v saw_digit of
           None \<Rightarrow> None
         | Some parts \<Rightarrow> ipv4_parse_loop p parts 0 False)
      else None)"

declare ipv4_parse_loop.simps(2) [simp del]

definition ipv4_parse_ip :: "string \<Rightarrow> u32 option" where
  "ipv4_parse_ip text =
     (case ipv4_parse_loop text [] 0 False of
        None \<Rightarrow> None
      | Some parts \<Rightarrow>
          if length parts \<noteq> 4 then None
          else Some (push_bit 24 (parts ! 0) OR push_bit 16 (parts ! 1) OR push_bit 8 (parts ! 2) OR
                     parts ! 3))"

text \<open>
  \<^verbatim>\<open>terminal_put_uint\<close> of \<^verbatim>\<open>src/drivers/terminal.c\<close> and \<^verbatim>\<open>arp_print_ip\<close> of
  \<^verbatim>\<open>src/drivers/arp.c\<close>, as the characters printed.
\<close>

function put_uint_loop :: "u32 \<Rightarrow> nat \<Rightarrow> string \<Rightarrow> string" where
  "put_uint_loop v pos buf =
     (if v > 0 \<and> pos > 0
      then put_uint_loop (v div 10) (pos - 1) (char_of (48 + unat (v mod 10)) # buf) else buf)"
  by pat_completeness auto
termination
  by (relation "measure (\<lambda>(v, pos, buf). pos)") auto

declare put_uint_loop.simps [simp del]

definition terminal_put_uint :: "u32 \<Rightarrow> string" where
  "terminal_put_uint v = (if v = 0 then ''0'' else put_uint_loop v 11 [])"

definition arp_print_ip :: "u32 \<Rightarrow> string" where
  "arp_print_ip ip =
     terminal_put_uint (drop_bit 24 ip AND 0xFF) @ ''.'' @
     terminal_put_uint (drop_bit 16 ip AND 0xFF) @ ''.'' @
     terminal_put_uint (drop_bit 8 ip AND 0xFF) @ ''.'' @
     terminal_put_uint (ip AND 0xFF)"

section \<open>Packets\<close>

definition IPV4_ETHERTYPE :: u16 where "IPV4_ETHERTYPE = 0x0800"
definition IPV4_VERSION_IHL :: u8 where "IPV4_VERSION_IHL = 0x45"
definition IPV4_TTL :: u8 where "IPV4_TTL = 64"
definition IPV4_PROTO_ICMP :: u8 where "IPV4_PROTO_ICMP = 1"
definition IPV4_ECHO_REQUEST :: u8 where "IPV4_ECHO_REQUEST = 8"
definition IPV4_ECHO_REPLY :: u8 where "IPV4_ECHO_REPLY = 0"
definition IPV4_PACKET_SIZE :: u32 where "IPV4_PACKET_SIZE = 60"

text \<open>The steps the two builders share: addresses, type and the header with its checksum.\<close>

definition ipv4_put_header ::
    "u8 list \<Rightarrow> u16 \<Rightarrow> u16 \<Rightarrow> u8 \<Rightarrow> u32 \<Rightarrow> u32 \<Rightarrow> u8 list option" where
  "ipv4_put_header frame total_len ident protocol sender_ip target_ip =
     (let frame = ipv4_write_u16_be frame 12 IPV4_ETHERTYPE;
          frame = frame[14 := IPV4_VERSION_IHL];
          frame = frame[15 := 0];
          frame = ipv4_write_u16_be frame 16 total_len;
          frame = ipv4_write_u16_be frame 18 ident;
          frame = ipv4_write_u16_be frame 20 0x4000;
          frame = frame[22 := IPV4_TTL];
          frame = frame[23 := protocol];
          frame = ipv4_write_u16_be frame 24 0;
          frame = ipv4_write_u32_be frame 26 sender_ip;
          frame = ipv4_write_u32_be frame 30 target_ip
      in map_option (ipv4_write_u16_be frame 24) (ipv4_checksum16 (drop 14 frame) 20))"

definition ping_payload :: "u8 list" where
  "ping_payload = map of_char ''SmallOS ping''"

definition ipv4_build_echo_request ::
    "u8 list \<Rightarrow> u8 list \<Rightarrow> u32 \<Rightarrow> u32 \<Rightarrow> u16 \<Rightarrow> u16 \<Rightarrow> u8 list option" where
  "ipv4_build_echo_request src_mac dst_mac sender_ip target_ip ident sq =
     (let total_len = 20 + 8 + 12;
          icmp_len = 8 + 12;
          frame = replicate (unat IPV4_PACKET_SIZE) 0;
          frame = put_bytes frame 0 dst_mac;
          frame = put_bytes frame 6 src_mac
      in case ipv4_put_header frame total_len ident IPV4_PROTO_ICMP sender_ip target_ip of
           None \<Rightarrow> None
         | Some frame \<Rightarrow>
             (let frame = frame[34 := IPV4_ECHO_REQUEST];
                  frame = frame[35 := 0];
                  frame = ipv4_write_u16_be frame 36 0;
                  frame = ipv4_write_u16_be frame 38 ident;
                  frame = ipv4_write_u16_be frame 40 sq;
                  frame = put_bytes frame 42 ping_payload
              in map_option (ipv4_write_u16_be frame 36) (ipv4_checksum16 (drop 34 frame) icmp_len)))"


section \<open>Echo replies\<close>

text \<open>\<open>frame\<close> is the receive buffer, of which the first \<open>len\<close> bytes are the packet.\<close>

definition ipv4_parse_echo_reply ::
    "u8 list \<Rightarrow> u32 \<Rightarrow> u32 \<Rightarrow> u32 \<Rightarrow> u16 \<Rightarrow> u16 \<Rightarrow> bool option" where
  "ipv4_parse_echo_reply frame len sender_ip target_ip ident sq =
     (if len < 42 then Some False
      else if ipv4_read_u16_be frame 12 \<noteq> IPV4_ETHERTYPE then Some False
      else
        let ihl = frame ! 14 AND 0x0F;
            header_len = ucast ihl * 4 :: u32;
            hl = unat header_len
        in if ihl < 5 \<or> len < 14 + header_len + 8 then Some False
           else
             let total_len = ipv4_read_u16_be frame 16;
                 total_len = (if ucast total_len + 14 > len then ucast (len - 14) else total_len)
             in if frame ! 23 \<noteq> IPV4_PROTO_ICMP then Some False
                else if ipv4_read_u32_be frame 26 \<noteq> target_ip then Some False
                else if ipv4_read_u32_be frame 30 \<noteq> sender_ip then Some False
                else if frame ! (14 + hl) \<noteq> IPV4_ECHO_REPLY then Some False
                else case ipv4_checksum16 (drop 14 frame) header_len of
                  None \<Rightarrow> None
                | Some header_sum \<Rightarrow>
                    if header_sum \<noteq> 0 then Some False
                    else case ipv4_checksum16 (drop (14 + hl) frame) (ucast total_len - header_len) of
                      None \<Rightarrow> None
                    | Some icmp_sum \<Rightarrow>
                        if icmp_sum \<noteq> 0 then Some False
                        else if ipv4_read_u16_be frame (14 + hl + 4) \<noteq> ident then Some False
                        else if ipv4_read_u16_be frame (14 + hl + 6) \<noteq> sq then Some False
                        else Some True)"

record ping_state =
  s_ping_waiting :: bool
  s_ping_got_reply :: bool
  s_ping_sender_ip :: u32
  s_ping_target_ip :: u32
  s_ping_ident :: u16
  s_ping_seq :: u16

definition ipv4_handle_frame :: "ping_state \<Rightarrow> u8 list \<Rightarrow> u32 \<Rightarrow> (bool \<times> ping_state) option" where
  "ipv4_handle_frame st frame len =
     (if \<not> s_ping_waiting st then Some (False, st)
      else case ipv4_parse_echo_reply frame len (s_ping_sender_ip st) (s_ping_target_ip st)
                  (s_ping_ident st) (s_ping_seq st) of
        None \<Rightarrow> None
      | Some False \<Rightarrow> Some (False, st)
      | Some True \<Rightarrow> Some (True, st\<lparr>s_ping_got_reply := True\<rparr>))"

section \<open>The checksum as arithmetic\<close>

fun word_sum :: "u8 list \<Rightarrow> nat" where
  "word_sum (a # b # data) = 256 * unat a + unat b + word_sum data"
| "word_sum [a] = 256 * unat a"
| "word_sum [] = 0"

lemma unat_u8_bound: "unat (b :: u8) < 256"
  using unsigned_less [where 'a = nat, of b] by simp

lemma unat_ucast_u16_u32 [simp]: "unat (ucast (w :: u16) :: u32) = unat w"
  using unsigned_less [where 'a = nat, of w] by (simp add: unsigned_ucast_eq take_bit_nat_eq_self_iff)

lemma unat_be_pair: "unat (push_bit 8 (ucast (a :: u8)) OR ucast (b :: u8) :: u16) = 256 * unat a + unat b"
  using unat_u8_bound [of a] unat_u8_bound [of b] by (subst unat_shift_or) simp_all

lemma unat_be_single: "unat (push_bit 8 (ucast (a :: u8)) :: u16) = 256 * unat a"
  using unat_be_pair [of a 0] by simp

lemma word_sum_bound: "word_sum bs \<le> 65535 * ((length bs + 1) div 2)"
proof (induction bs rule: word_sum.induct)
  case (1 a b data)
  then show ?case using unat_u8_bound [of a] unat_u8_bound [of b] by simp
next
  case (2 a)
  then show ?case using unat_u8_bound [of a] by simp
qed simp

lemma unat_csum_words:
  "unat s + word_sum bs < 4294967296 \<Longrightarrow> unat (csum_words bs s) = unat s + word_sum bs"
proof (induction bs s rule: csum_words.induct)
  case (1 a b data s)
  have "unat (s + ucast (push_bit 8 (ucast a) OR ucast b :: u16)) = unat s + (256 * unat a + unat b)"
    using 1(2) by (subst unat_add_u32) (simp_all add: unat_be_pair)
  then show ?case using 1 by simp
next
  case (2 a s)
  then show ?case by (simp add: unat_add_u32 unat_be_single)
qed simp

lemma csum_fold_result:
  "unat (csum_fold s) < 65536 \<and> unat (csum_fold s) mod 65535 = unat s mod 65535 \<and>
    (unat (csum_fold s) = 0 \<longleftrightarrow> unat s = 0)"
proof (induction s rule: csum_fold.induct)
  case (1 s)
  show ?case
  proof (cases "drop_bit 16 s = 0")
    case True
    then have "unat s div 65536 = 0" using unat_high_half [of s] by (simp only: unat_0)
    then have "unat s < 65536" by (simp add: div_eq_0_iff)
    then show ?thesis using True by (simp add: csum_fold.simps [of s])
  next
    case False
    let ?t = "(s AND 0xFFFF) + drop_bit 16 s"
    note t = csum_fold_less [OF False]
    have "unat s = unat s div 65536 * 65535 + (unat s mod 65536 + unat s div 65536)"
      using div_mult_mod_eq [of "unat s" 65536] by linarith
    then have "unat s mod 65535 = unat ?t mod 65535" unfolding t(1) by (metis mod_mult_self3)
    moreover have "unat ?t \<noteq> 0" using t(1,3) by (simp add: div_eq_0_iff)
    ultimately show ?thesis using 1 False t(3) by (simp add: csum_fold.simps [of s])
  qed
qed

lemma unat_not_low_half:
  assumes "unat (s :: u32) < 65536"
  shows "unat (ucast (NOT s) :: u16) = 65535 - unat s"
proof -
  have "NOT s = 0xFFFFFFFF - s" by (simp add: not_eq_complement)
  moreover have "s \<le> 0xFFFFFFFF" using unat_u32_bound [of s] by (simp add: word_le_nat_alt)
  ultimately have n: "unat (NOT s) = 4294967295 - unat s" by (simp add: unat_sub_u32)
  have "unat (ucast (NOT s) :: u16) = unat (NOT s) mod 65536"
    by (simp add: unsigned_ucast_eq take_bit_eq_mod)
  also have "\<dots> = (65535 * 65536 + (65535 - unat s)) mod 65536"
    using assms by (simp add: n) 
  also have "\<dots> = 65535 - unat s" using assms by (simp only: mod_mult_self3) simp
  finally show ?thesis .
qed

lemma mod_65535_max: "n < 65536 \<Longrightarrow> n mod 65535 = 0 \<Longrightarrow> n \<noteq> 0 \<Longrightarrow> n = (65535 :: nat)"
  by (cases "n < 65535") auto

text \<open>
  The checksum of a packet whose words sum to a number other than 0 is 0 exactly when that number
  is a multiple of 65535.
\<close>

lemma checksum_zero_iff:
  assumes "unat len \<le> length data" "word_sum (take (unat len) data) < 4294967296"
  shows "ipv4_checksum16 data len = Some 0 \<longleftrightarrow>
    word_sum (take (unat len) data) \<noteq> 0 \<and> word_sum (take (unat len) data) mod 65535 = 0"
proof -
  let ?s = "csum_words (take (unat len) data) 0"
  have s: "unat ?s = word_sum (take (unat len) data)" using unat_csum_words [of 0] assms(2) by simp
  note r = csum_fold_result [of ?s]
  have "ipv4_checksum16 data len = Some 0 \<longleftrightarrow> unat (ucast (NOT (csum_fold ?s)) :: u16) = 0"
    using assms(1) by (simp add: ipv4_checksum16_def unat_eq_0)
  also have "\<dots> \<longleftrightarrow> unat (csum_fold ?s) = 65535" using r unat_not_low_half [of "csum_fold ?s"] by auto
  also have "\<dots> \<longleftrightarrow> unat ?s \<noteq> 0 \<and> unat ?s mod 65535 = 0"
    using r mod_65535_max [of "unat (csum_fold ?s)"] by auto
  finally show ?thesis unfolding s .
qed

lemma word_sum_write16:
  assumes "even off" "off + 2 \<le> length bs"
  shows "word_sum (ipv4_write_u16_be bs off v) + unat (ipv4_read_u16_be bs off) = word_sum bs + unat v"
  using assms
proof (induction bs arbitrary: off rule: word_sum.induct)
  case (1 a b data)
  show ?case
  proof (cases "off = 0")
    case True
    have "unat (ipv4_read_u16_be (ipv4_write_u16_be (a # b # data) 0 v) 0) = unat v"
      by (subst ipv4_be.read16_write16) simp_all
    then show ?thesis unfolding unat_read_u16 True by (simp add: ipv4_write_u16_be_def)
  next
    case False
    then obtain k where k: "off = Suc (Suc k)" "even k"
      using 1(2) that [of "off - 2"] by (cases off rule: nat.exhaust) (auto elim!: evenE simp: Suc_diff_Suc)
    have "ipv4_write_u16_be (a # b # data) off v = a # b # ipv4_write_u16_be data k v"
      by (simp add: ipv4_write_u16_be_def k)
    moreover have "ipv4_read_u16_be (a # b # data) off = ipv4_read_u16_be data k"
      by (simp add: ipv4_read_u16_be_def k)
    ultimately show ?thesis using 1 k by simp
  qed
qed auto

text \<open>
  Storing the checksum of a packet with a zero field in that field makes the packet check:
  its own checksum is then 0.
\<close>

lemma checksum_verifies:
  assumes "even off" "off + 2 \<le> unat len" "unat len \<le> length data" "unat len \<le> 65535"
    and zero: "ipv4_read_u16_be data off = 0" and nz: "word_sum (take (unat len) data) \<noteq> 0"
    and c: "ipv4_checksum16 data len = Some c"
  shows "ipv4_checksum16 (ipv4_write_u16_be data off c) len = Some 0"
proof -
  let ?n = "unat len" and ?d = "take (unat len) data"
  have bound: "word_sum bs < 4294967296" if "length bs = ?n" for bs
  proof -
    have "(?n + 1) div 2 \<le> 32768" using assms(4) by linarith
    then show ?thesis using word_sum_bound [of bs] that by linarith
  qed
  have len: "length ?d = ?n" using assms(3) by simp
  have t: "take ?n (ipv4_write_u16_be data off c) = ipv4_write_u16_be ?d off c"
    by (simp add: ipv4_write_u16_be_def take_update_swap)
  have z: "ipv4_read_u16_be ?d off = 0"
    using zero assms(2) by (simp add: ipv4_read_u16_be_def)
  have sum: "word_sum (ipv4_write_u16_be ?d off c) = word_sum ?d + unat c"
    using word_sum_write16 [of off ?d c] assms(1,2) len z by simp
  let ?s = "csum_words ?d 0"
  have s: "unat ?s = word_sum ?d" using unat_csum_words [of 0 ?d] bound [OF len] by simp
  note r = csum_fold_result [of ?s]
  have uc: "unat c = 65535 - unat (csum_fold ?s)"
    using c assms(3) unat_not_low_half [of "csum_fold ?s"] r by (auto simp: ipv4_checksum16_def)
  have "(word_sum ?d + unat c) mod 65535 = (unat (csum_fold ?s) + unat c) mod 65535"
    by (rule mod_add_cong) (use r s in simp_all)
  also have "\<dots> = 0" using uc r by simp
  finally have "(word_sum ?d + unat c) mod 65535 = 0" .
  moreover have "word_sum (take ?n (ipv4_write_u16_be data off c)) < 4294967296"
    unfolding t by (rule bound) (simp only: ipv4_be.length_write16 len)
  ultimately show ?thesis
    using checksum_zero_iff [of len "ipv4_write_u16_be data off c"] assms(3) nz sum
    by (simp add: t ipv4_be.length_write16)
qed

section \<open>Built packets check\<close>

lemma word_sum_0: "word_sum bs = 0 \<Longrightarrow> b \<in> set bs \<Longrightarrow> b = 0"
  by (induction bs rule: word_sum.induct) (auto simp: unat_eq_0)

lemma drop_write16: "k \<le> off \<Longrightarrow> drop k (ipv4_write_u16_be buf off v) = ipv4_write_u16_be (drop k buf) (off - k) v"
  by (simp add: ipv4_write_u16_be_def drop_update_swap Suc_diff_le)

lemma read16_drop: "k + off + 2 \<le> length buf \<Longrightarrow> ipv4_read_u16_be (drop k buf) off = ipv4_read_u16_be buf (k + off)"
  by (simp add: ipv4_read_u16_be_def add.assoc)

lemma checksum_defined:
  assumes "unat len \<le> length data"
  obtains c where "ipv4_checksum16 data len = Some c"
  using assms by (simp add: ipv4_checksum16_def)

text \<open>Filling in the checksum of a header whose checksum field is zero makes the header verify.\<close>

lemma header_checksum:
  assumes len: "34 \<le> length f" and ver: "f ! 14 \<noteq> 0" and zero: "ipv4_read_u16_be f 24 = 0"
  obtains c where "ipv4_checksum16 (drop 14 f) 20 = Some c"
    "ipv4_checksum16 (drop 14 (ipv4_write_u16_be f 24 c)) 20 = Some 0"
proof -
  have "unat (20 :: u32) \<le> length (drop 14 f)" using len by simp
  then obtain c where c: "ipv4_checksum16 (drop 14 f) 20 = Some c" by (rule checksum_defined)
  have "f ! 14 \<in> set (take 20 (drop 14 f))"
    using len by (auto simp: in_set_conv_nth intro!: exI [of _ 0])
  then have nz: "word_sum (take (unat (20 :: u32)) (drop 14 f)) \<noteq> 0"
    using word_sum_0 [of "take 20 (drop 14 f)" "f ! 14"] ver by auto
  have "ipv4_checksum16 (ipv4_write_u16_be (drop 14 f) 10 c) 20 = Some 0"
    by (rule checksum_verifies [OF _ _ _ _ _ nz c]) (use len zero in \<open>simp_all add: read16_drop\<close>)
  then show ?thesis using c by (intro that) (simp_all add: drop_write16)
qed

lemma ipv4_put_header_spec:
  assumes len: "34 \<le> length frame"
  shows "\<exists>f. ipv4_put_header frame total_len ident protocol sender_ip target_ip = Some f \<and>
    length f = length frame \<and> ipv4_checksum16 (drop 14 f) 20 = Some 0 \<and>
    ipv4_read_u16_be f 12 = IPV4_ETHERTYPE \<and> f ! 14 = IPV4_VERSION_IHL \<and>
    ipv4_read_u16_be f 16 = total_len \<and> f ! 23 = protocol \<and>
    ipv4_read_u32_be f 26 = sender_ip \<and> ipv4_read_u32_be f 30 = target_ip \<and>
    (\<forall>i. i < 12 \<or> 34 \<le> i \<longrightarrow> f ! i = frame ! i)"
proof -
  let ?f1 = "ipv4_write_u16_be frame 12 IPV4_ETHERTYPE"
  let ?f2 = "(?f1[14 := IPV4_VERSION_IHL])[15 := 0]"
  let ?f3 = "ipv4_write_u16_be (ipv4_write_u16_be (ipv4_write_u16_be ?f2 16 total_len) 18 ident) 20 0x4000"
  let ?f4 = "(?f3[22 := IPV4_TTL])[23 := protocol]"
  define f where "f = ipv4_write_u32_be (ipv4_write_u32_be (ipv4_write_u16_be ?f4 24 0) 26 sender_ip) 30 target_ip"
  note be = ipv4_be.codec
  have lf: "length f = length frame" by (simp add: f_def be)
  have ver: "f ! 14 = IPV4_VERSION_IHL" using len by (simp add: f_def be)
  have zero: "ipv4_read_u16_be f 24 = 0" using len by (simp add: f_def be)
  obtain c where c: "ipv4_checksum16 (drop 14 f) 20 = Some c"
    and ok: "ipv4_checksum16 (drop 14 (ipv4_write_u16_be f 24 c)) 20 = Some 0"
    by (rule header_checksum [of f]) (use len lf ver zero in \<open>simp_all add: IPV4_VERSION_IHL_def\<close>)
  have "ipv4_put_header frame total_len ident protocol sender_ip target_ip = Some (ipv4_write_u16_be f 24 c)"
    using c by (simp add: ipv4_put_header_def Let_def f_def)
  moreover have "ipv4_read_u16_be f 12 = IPV4_ETHERTYPE" "ipv4_read_u16_be f 16 = total_len" "f ! 23 = protocol"
    "ipv4_read_u32_be f 26 = sender_ip" "ipv4_read_u32_be f 30 = target_ip"
    using len by (simp_all add: f_def be)
  moreover have "f ! i = frame ! i" if "i < 12 \<or> 34 \<le> i" for i
    using that by (auto simp: f_def be)
  ultimately show ?thesis using ok ver lf by (auto simp: be)
qed

section \<open>Addresses as text\<close>

lemma parse_digit:
  assumes "d < 10" "v * 10 + d \<le> 255"
  shows "ipv4_parse_loop (char_of (48 + d) # p) parts (of_nat v) saw =
    ipv4_parse_loop p parts (of_nat (v * 10 + d)) True"
proof -
  have n: "(of_char (char_of (48 + d) :: char) :: nat) = 48 + d" using assms(1) by simp
  have w: "(of_char (char_of (48 + d) :: char) :: u32) = of_nat (48 + d)"
    using arg_cong [OF n, of "of_nat :: nat \<Rightarrow> u32"] by (simp only: of_nat_of_char)
  have v: "(of_nat v * 10 + (of_char (char_of (48 + d) :: char) - 48) :: u32) = of_nat (v * 10 + d)"
    unfolding w by simp
  have "\<not> (of_nat (v * 10 + d) :: u32) > 255"
    using assms(2) by (simp only: word_less_nat_alt) (simp add: unat_of_nat_u32 del: of_nat_add of_nat_mult)
  then show ?thesis by (simp only: ipv4_parse_loop.simps n v Let_def) (use assms(1) in simp)
qed

lemma put_uint_text:
  assumes "n < 256"
  shows "terminal_put_uint (of_nat n) =
    (if n < 10 then [char_of (48 + n)]
     else if n < 100 then [char_of (48 + n div 10), char_of (48 + n mod 10)]
     else [char_of (48 + n div 100), char_of (48 + n div 10 mod 10), char_of (48 + n mod 10)])"
proof (cases "n = 0")
  case True
  then show ?thesis by (simp add: terminal_put_uint_def char_of_def bit_iff_odd)
next
  case False
  have u: "unat (of_nat k :: u32) = k" if "k \<le> n" for k using that assms by (simp add: unat_of_nat_u32)
  have pos: "(of_nat k :: u32) > 0 \<longleftrightarrow> 0 < k" if "k \<le> n" for k
    using u [OF that] by (metis gr0I unat_gt_0 word_gt_0_no word_neq_0_conv unat_eq_0)
  have dv: "(of_nat k :: u32) div 10 = of_nat (k div 10)" "unat ((of_nat k :: u32) mod 10) = k mod 10"
    if "k \<le> n" for k
    using u [OF that] u [of "k div 10"] that
    by (auto intro!: unsigned_word_eqI [where 'a = nat] simp: unat_div unat_mod)
  have step: "put_uint_loop (of_nat k) m buf =
      put_uint_loop (of_nat (k div 10)) (m - 1) (char_of (48 + k mod 10) # buf)"
    if "k \<le> n" "0 < k" "0 < m" for k m buf
    using dv [OF that(1)] pos [OF that(1)] that by (simp add: put_uint_loop.simps [of "of_nat k"])
  have le: "n div 10 \<le> n" "n div 10 div 10 \<le> n" "n div 10 div 10 div 10 \<le> n" by simp_all
  have z: "put_uint_loop 0 m buf = buf" for m buf by (simp add: put_uint_loop.simps [of 0])
  have d2: "n div 100 = n div 10 div 10" by (simp add: div_mult2_eq [symmetric])
  have nz: "(of_nat n :: u32) \<noteq> 0" using u [of n] False by auto
  have t: "n div 10 div 10 < 10" using assms by (simp add: div_mult2_eq [symmetric])
  have e1: "terminal_put_uint (of_nat n) = put_uint_loop (of_nat (n div 10)) 10 [char_of (48 + n mod 10)]"
    using False nz step [of n 11 "[]"] by (simp add: terminal_put_uint_def)
  consider "n < 10" | "10 \<le> n" "n < 100" | "100 \<le> n" by linarith
  then show ?thesis
  proof cases
    case 1
    then show ?thesis using e1 z by simp
  next
    case 2
    then have "n div 10 \<noteq> 0" "n div 10 div 10 = 0" "n div 10 < 10" by auto
    then show ?thesis using 2 e1 z step [OF le(1), of 10] by simp
  next
    case 3
    then have "n div 10 \<noteq> 0" "n div 10 div 10 \<noteq> 0" "n div 10 div 10 div 10 = 0"
      using t by (auto simp: div_mult2_eq [symmetric] div_eq_0_iff)
    then show ?thesis using 3 e1 z step [OF le(1), of 10] step [OF le(2), of 9] t by (simp add: d2)
  qed
qed

lemma parse_put_uint:
  assumes "unat b < 256"
  shows "ipv4_parse_loop (terminal_put_uint b @ p) parts 0 False = ipv4_parse_loop p parts b True"
proof -
  define n where "n = unat b"
  have b: "b = of_nat n" and n: "n < 256" using assms by (simp_all add: n_def)
  have z: "(0 :: u32) = of_nat 0" by simp
  have d1: "n div 10 * 10 + n mod 10 = n" "n div 100 * 10 + n div 10 mod 10 = n div 10"
    using div_mult_mod_eq [of n 10] div_mult_mod_eq [of "n div 10" 10] by (simp_all add: div_mult2_eq [symmetric])
  note digit = parse_digit [of _ 0, simplified]
  consider "n < 10" | "10 \<le> n" "n < 100" | "100 \<le> n" by linarith
  then show ?thesis
  proof cases
    case 1
    then show ?thesis using digit [of n p parts False] by (simp add: b put_uint_text [OF n])
  next
    case 2
    then have "ipv4_parse_loop (terminal_put_uint b @ p) parts 0 False =
        ipv4_parse_loop (char_of (48 + n mod 10) # p) parts (of_nat (n div 10)) True"
      using digit [of "n div 10"] by (simp add: b put_uint_text [OF n])
    also have "\<dots> = ipv4_parse_loop p parts (of_nat (n div 10 * 10 + n mod 10)) True"
      using n d1 by (intro parse_digit) simp_all
    finally show ?thesis by (simp only: d1 b)
  next
    case 3
    have t: "n div 100 < 10" using n by simp
    have "ipv4_parse_loop (terminal_put_uint b @ p) parts 0 False =
        ipv4_parse_loop (char_of (48 + n div 10 mod 10) # char_of (48 + n mod 10) # p) parts (of_nat (n div 100)) True"
      using digit [of "n div 100"] 3 t by (simp add: b put_uint_text [OF n])
    also have "\<dots> = ipv4_parse_loop (char_of (48 + n mod 10) # p) parts
        (of_nat (n div 100 * 10 + n div 10 mod 10)) True"
      using n d1(2) by (intro parse_digit) simp_all
    also have "\<dots> = ipv4_parse_loop p parts (of_nat (n div 10 * 10 + n mod 10)) True"
      unfolding d1(2) using n d1 by (intro parse_digit) simp_all
    finally show ?thesis by (simp only: d1 b)
  qed
qed

lemma join_octets:
  "push_bit 24 (drop_bit 24 v AND 0xFF) OR push_bit 16 (drop_bit 16 v AND 0xFF) OR
   push_bit 8 (drop_bit 8 v AND 0xFF) OR (v AND 0xFF) = (v :: u32)"
proof (unfold byte_mask, rule bit_word_eqI)
  fix n assume "n < LENGTH(32)"
  then consider "n < 8" | "8 \<le> n" "n < 16" | "16 \<le> n" "n < 24" | "24 \<le> n" "n < 32" by fastforce
  then show "bit (push_bit 24 (drop_bit 24 v AND mask 8) OR push_bit 16 (drop_bit 16 v AND mask 8) OR
      push_bit 8 (drop_bit 8 v AND mask 8) OR (v AND mask 8) :: u32) n = bit v n"
    by cases (auto simp: bit_simps)
qed

lemma unat_octet: "unat ((w :: u32) AND 0xFF) < 256"
  using unat_and_mask [of w 8] by (simp add: mask_eq_exp_minus_1)

section \<open>Complete packets\<close>

lemma checksum_cong:
  "take (unat len) data = take (unat len) data' \<Longrightarrow> unat len \<le> length data \<Longrightarrow> unat len \<le> length data' \<Longrightarrow>
    ipv4_checksum16 data len = ipv4_checksum16 data' len"
  by (simp add: ipv4_checksum16_def)



lemma take_drop_nth_eq:
  "(\<And>i. k \<le> i \<Longrightarrow> i < k + m \<Longrightarrow> f ! i = g ! i) \<Longrightarrow> length f = length g \<Longrightarrow> take m (drop k f) = take m (drop k g)"
  by (rule nth_equalityI) auto


lemma ipv4_build_echo_request_spec:
  assumes mac: "length dst_mac = 6" "length src_mac = 6"
  shows "\<exists>f. ipv4_build_echo_request src_mac dst_mac sender_ip target_ip ident sq = Some f \<and> length f = 60 \<and>
    ipv4_checksum16 (drop 14 f) 20 = Some 0 \<and> ipv4_checksum16 (drop 34 f) 20 = Some 0 \<and>
    ipv4_read_u16_be f 16 = 40 \<and> f ! 23 = IPV4_PROTO_ICMP \<and> ipv4_read_u32_be f 26 = sender_ip \<and>
    ipv4_read_u32_be f 30 = target_ip \<and> f ! 34 = IPV4_ECHO_REQUEST \<and>
    ipv4_read_u16_be f 38 = ident \<and> ipv4_read_u16_be f 40 = sq"
proof -
  let ?blank = "put_bytes (put_bytes (replicate 60 0) 0 dst_mac) 6 src_mac"
  obtain h where h: "ipv4_put_header ?blank 40 ident IPV4_PROTO_ICMP sender_ip target_ip = Some h"
    "length h = 60" "ipv4_checksum16 (drop 14 h) 20 = Some 0"
    "ipv4_read_u16_be h 16 = 40" "h ! 23 = IPV4_PROTO_ICMP" "ipv4_read_u32_be h 26 = sender_ip"
    "ipv4_read_u32_be h 30 = target_ip"
    using ipv4_put_header_spec [of ?blank 40 ident IPV4_PROTO_ICMP sender_ip target_ip] by auto
  define g where "g = put_bytes (ipv4_write_u16_be (ipv4_write_u16_be (ipv4_write_u16_be
    ((h[34 := IPV4_ECHO_REQUEST])[35 := 0]) 36 0) 38 ident) 40 sq) 42 ping_payload"
  have pl: "length ping_payload = 12" by (simp add: ping_payload_def)
  note be = ipv4_be.codec
  have lg: "length g = 60" using h(2) by (simp add: g_def be)
  have gp: "g ! i = ipv4_write_u16_be (ipv4_write_u16_be (ipv4_write_u16_be
    ((h[34 := IPV4_ECHO_REQUEST])[35 := 0]) 36 0) 38 ident) 40 sq ! i" if "i < 42" for i
    using that h(2) pl by (simp add: g_def nth_put_bytes be)
  have low: "g ! i = h ! i" if "i < 34" for i using that gp [of i] by (simp add: be)
  have t: "g ! 34 = IPV4_ECHO_REQUEST" using gp [of 34] h(2) by (simp add: be)
  have "ipv4_read_u16_be g k = ipv4_read_u16_be (ipv4_write_u16_be (ipv4_write_u16_be (ipv4_write_u16_be
    ((h[34 := IPV4_ECHO_REQUEST])[35 := 0]) 36 0) 38 ident) 40 sq) k" if "k < 41" for k
    by (rule ipv4_be.read16_cong) (use gp that in simp_all)
  then have fld: "ipv4_read_u16_be g 36 = 0" "ipv4_read_u16_be g 38 = ident" "ipv4_read_u16_be g 40 = sq"
    using h(2) by (simp_all add: be)
  have "unat (20 :: u32) \<le> length (drop 34 g)" using lg by simp
  then obtain c where c: "ipv4_checksum16 (drop 34 g) 20 = Some c" by (rule checksum_defined)
  have "g ! 34 \<in> set (take 20 (drop 34 g))"
    using lg by (auto simp: in_set_conv_nth intro!: exI [of _ 0])
  then have nz: "word_sum (take (unat (20 :: u32)) (drop 34 g)) \<noteq> 0"
    using word_sum_0 [of "take 20 (drop 34 g)" "g ! 34"] t by (auto simp: IPV4_ECHO_REQUEST_def)
  have "ipv4_checksum16 (ipv4_write_u16_be (drop 34 g) 2 c) 20 = Some 0"
    by (rule checksum_verifies [OF _ _ _ _ _ nz c]) (use lg fld in \<open>simp_all add: read16_drop\<close>)
  then have icmp: "ipv4_checksum16 (drop 34 (ipv4_write_u16_be g 36 c)) 20 = Some 0"
    by (simp add: drop_write16)
  have "ipv4_build_echo_request src_mac dst_mac sender_ip target_ip ident sq = Some (ipv4_write_u16_be g 36 c)"
    using h(1) c by (simp add: ipv4_build_echo_request_def Let_def IPV4_PACKET_SIZE_def g_def)
  moreover have "ipv4_checksum16 (drop 14 (ipv4_write_u16_be g 36 c)) 20 = ipv4_checksum16 (drop 14 h) 20"
    by (rule checksum_cong) (use lg h(2) low in \<open>auto intro!: take_drop_nth_eq simp: be\<close>)
  moreover have "ipv4_read_u16_be g 16 = 40" "ipv4_read_u32_be g 26 = sender_ip" "ipv4_read_u32_be g 30 = target_ip"
    unfolding h(4,6,7) [symmetric] by (rule ipv4_be.read16_cong ipv4_be.read32_cong; simp add: low)+
  ultimately show ?thesis using icmp t fld h(3,5) lg low [of 23] by (auto simp: be)
qed

section \<open>Properties\<close>

text \<open>
  \<^verbatim>\<open>ipv4_parse_ip\<close> inverts \<^verbatim>\<open>arp_print_ip\<close>: the printed form of every address parses back to
  the address.
\<close>

theorem ipv4_parse_print: "ipv4_parse_ip (arp_print_ip ip) = Some ip"
proof -
  have dot: "ipv4_parse_loop (CHR ''.'' # p) parts v True = ipv4_parse_loop p (parts @ [v]) 0 False"
    if "length parts < 4" for p parts v
    using that by (simp add: ipv4_end_part_def ipv4_parse_loop.simps(2))
  have "ipv4_parse_loop (arp_print_ip ip) [] 0 False = Some [drop_bit 24 ip AND 0xFF, drop_bit 16 ip AND 0xFF,
      drop_bit 8 ip AND 0xFF, ip AND 0xFF]"
    unfolding arp_print_ip_def
    by (simp add: parse_put_uint [OF unat_octet] dot ipv4_end_part_def
        parse_put_uint [OF unat_octet, where p = "[]", simplified])
  then show ?thesis using join_octets [of ip] by (simp add: ipv4_parse_ip_def numeral_eq_Suc)
qed



text \<open>
  an echo request is a valid ICMP packet: the IPv4 header and the ICMP message both check, and
  the type, identifier, sequence number, addresses and length are the ones asked for.
\<close>

theorem ipv4_echo_request_checks:
  assumes "length dst_mac = 6" "length src_mac = 6"
  shows "\<exists>f. ipv4_build_echo_request src_mac dst_mac sender_ip target_ip ident sq = Some f \<and> length f = 60 \<and>
    ipv4_checksum16 (drop 14 f) 20 = Some 0 \<and> ipv4_checksum16 (drop 34 f) 20 = Some 0 \<and>
    ipv4_read_u16_be f 16 = 40 \<and> f ! 23 = IPV4_PROTO_ICMP \<and> ipv4_read_u32_be f 26 = sender_ip \<and>
    ipv4_read_u32_be f 30 = target_ip \<and> f ! 34 = IPV4_ECHO_REQUEST \<and>
    ipv4_read_u16_be f 38 = ident \<and> ipv4_read_u16_be f 40 = sq"
  using assms by (rule ipv4_build_echo_request_spec)

theorem ipv4_echo_request_checks_witness:
  "\<exists>f. ipv4_build_echo_request [1, 2, 3, 4, 5, 6] [7, 8, 9, 10, 11, 12] 0x0A00020F 0x0A000202 0x4A50 1 = Some f \<and>
    ipv4_checksum16 (drop 34 f) 20 = Some 0"
  using ipv4_echo_request_checks [of "[7, 8, 9, 10, 11, 12]" "[1, 2, 3, 4, 5, 6]" "0x0A00020F" "0x0A000202" "0x4A50" 1]
  by auto

definition ping_of_death :: "u8 list" where
  "ping_of_death =
     [0, 0, 0, 0, 0, 0, 0, 0, 0, 0, 0, 0, 0x08, 0x00, 0x45, 0, 0, 0, 0, 0, 0, 0, 0, 1, 0xA2, 0xED, 10, 0, 2, 2, 10, 0, 2, 15] @
     replicate 1566 0"

lemma echo_header_len: "unat (ucast ((b :: u8) AND 0x0F) * 4 :: u32) = 4 * (unat b mod 16)"
proof -
  have m: "unat (b AND 0x0F) = unat b mod 16" using unat_and_mask [of b 4] by (simp add: mask_eq_exp_minus_1)
  have lt: "unat b mod 16 < 16" by simp
  have "unat (ucast (b AND 0x0F) :: u32) = unat b mod 16"
    using m lt by (simp only: unsigned_ucast_eq) (simp add: take_bit_nat_eq_self_iff)
  then show ?thesis using lt by (subst unat_mult_u32) simp_all
qed

lemma echo_checksums_defined:
  fixes frame :: "u8 list"
  defines "hl \<equiv> ucast (frame ! 14 AND 0x0F) * 4 :: u32"
  assumes len: "unat len \<le> length frame" "unat len \<le> 1600" "42 \<le> unat len"
    and tot: "4 * (unat (frame ! 14) mod 16) \<le> unat (tlen :: u16)"
    and guard: "\<not> len < 14 + hl + 8"
  shows "unat hl \<le> length (drop 14 frame)"
    and "unat (ucast (if ucast tlen + 14 > len then ucast (len - 14) else tlen) - hl)
      \<le> length (drop (14 + unat hl) frame)"
proof -
  have h: "unat hl = 4 * (unat (frame ! 14) mod 16)" by (simp add: hl_def echo_header_len)
  have "unat (frame ! 14) mod 16 < 16" by simp
  then have "unat hl < 64" using h by linarith
  then have "unat (14 + hl + 8) = unat hl + 22" by (simp add: unat_add_u32)
  then have g: "unat hl + 22 \<le> unat len" using guard by (simp add: word_less_nat_alt)
  then show "unat hl \<le> length (drop 14 frame)" using len by simp
  define t where "t = (if ucast tlen + 14 > len then ucast (len - 14) else tlen :: u16)"
  have l14: "unat (len - 14) = unat len - 14" using len(3) by (simp add: unat_sub_u32 word_le_nat_alt)
  then have "unat (ucast (len - 14) :: u16) = unat len - 14"
    using len(2) by (simp add: unsigned_ucast_eq take_bit_nat_eq_self_iff)
  moreover have "unat tlen < 65536" using unsigned_less [where 'a = nat, of tlen] by simp
  then have "unat (ucast tlen + 14 :: u32) = unat tlen + 14" by (simp add: unat_add_u32)
  ultimately have t: "unat hl \<le> unat t" "unat t \<le> unat len - 14"
    using tot h g by (auto simp: t_def word_less_nat_alt not_less)
  then have "unat (ucast t - hl) = unat t - unat hl" by (simp add: unat_sub_u32 word_le_nat_alt)
  then show "unat (ucast (if ucast tlen + 14 > len then ucast (len - 14) else tlen) - hl)
      \<le> length (drop (14 + unat hl) frame)"
    using t len(1) unfolding t_def by simp
qed

lemma unless_defined: "(\<not> b \<Longrightarrow> x \<noteq> None) \<Longrightarrow> (if b then Some r else x) \<noteq> None"
  by simp

lemma echo_reply_defined:
  assumes *: "unat len \<le> length frame \<and> unat len \<le> 1600 \<and> 4 * (unat (frame ! 14) mod 16) \<le> unat (ipv4_read_u16_be frame 16)"
  shows "ipv4_parse_echo_reply frame len sender_ip target_ip ident sq \<noteq> None"
proof -
  let ?hl = "ucast (frame ! 14 AND 0x0F) * 4 :: u32"
  let ?tl = "if ucast (ipv4_read_u16_be frame 16) + 14 > len then ucast (len - 14) else ipv4_read_u16_be frame 16"
  show "ipv4_parse_echo_reply frame len sender_ip target_ip ident sq \<noteq> None"
  proof (cases "len < 42 \<or> len < 14 + ?hl + 8")
    case True
    then show ?thesis unfolding ipv4_parse_echo_reply_def Let_def by (intro unless_defined) blast
  next
    case False
    then have "42 \<le> unat len" by (simp add: word_less_nat_alt)
    note d = echo_checksums_defined [OF conjunct1 [OF *] conjunct1 [OF conjunct2 [OF *]] this
        conjunct2 [OF conjunct2 [OF *]]]
    have g: "\<not> len < 14 + ?hl + 8" using False by blast
    obtain c1 where c1: "ipv4_checksum16 (drop 14 frame) ?hl = Some c1" by (rule checksum_defined [OF d(1) [OF g]])
    obtain c2 where c2: "ipv4_checksum16 (drop (14 + unat ?hl) frame) (ucast ?tl - ?hl) = Some c2"
      by (rule checksum_defined [OF d(2) [OF g]])
    show ?thesis unfolding ipv4_parse_echo_reply_def Let_def c1 c2 option.case
      by (intro unless_defined option.distinct(2))
  qed
qed

lemma ping_of_death_fields:
  "ping_of_death ! 14 = 0x45" "ping_of_death ! 23 = 1" "ping_of_death ! 34 = 0"
  "ipv4_read_u16_be ping_of_death 12 = 0x0800" "ipv4_read_u16_be ping_of_death 16 = 0"
  "ipv4_read_u32_be ping_of_death 26 = 0x0A000202" "ipv4_read_u32_be ping_of_death 30 = 0x0A00020F"
  "length ping_of_death = 1600"
  by (simp_all add: ping_of_death_def ipv4_read_u16_be_def ipv4_read_u32_be_def nth_append)

lemma ping_of_death_header: "ipv4_checksum16 (drop 14 ping_of_death) 20 = Some 0"
  by (simp add: ping_of_death_def ipv4_checksum16_def csum_fold.simps)

lemma echo_reply_overrun: "ipv4_parse_echo_reply ping_of_death 42 0x0A00020F 0x0A000202 ident sq = None"
  by (simp add: ipv4_parse_echo_reply_def ping_of_death_fields ping_of_death_header
      ipv4_checksum16_def [of "drop 34 ping_of_death"] IPV4_ECHO_REPLY_def IPV4_PROTO_ICMP_def IPV4_ETHERTYPE_def)

text \<open>
  C35: recognising an echo reply stays inside the receive buffer for a packet whose total length
  covers its header, but not in general: a 42-byte packet with a valid header that claims a total
  length of 0 makes the length of the ICMP checksum wrap around, and the sum runs out of the
  1600-byte buffer.
\<close>

theorem ipv4_echo_reply_bounds:
  "(unat len \<le> length frame \<and> unat len \<le> 1600 \<and> 4 * (unat (frame ! 14) mod 16) \<le> unat (ipv4_read_u16_be frame 16) \<longrightarrow>
      ipv4_parse_echo_reply frame len sender_ip target_ip ident sq \<noteq> None) \<and>
   ipv4_parse_echo_reply ping_of_death 42 0x0A00020F 0x0A000202 ident sq = None"
  using echo_reply_defined echo_reply_overrun by blast

theorem ipv4_echo_reply_bounds_witness:
  "ipv4_parse_echo_reply (replicate 14 0 @ [0x45, 0, 0, 28] @ replicate 24 0) 42 0x0A00020F 0x0A000202 7 1 \<noteq> None"
  using ipv4_echo_reply_bounds [of 42 "replicate 14 0 @ [0x45, 0, 0, 28] @ replicate 24 0" "0x0A00020F" "0x0A000202" 7 1]
  by (simp add: ipv4_read_u16_be_def nth_append)

end
