(* ===== verification/Arp.thy ===== *)
theory Arp
  imports Ipv4 "HOL-Library.Monad_Syntax"
begin

text \<open>
  The network card behind its driver table (\<^verbatim>\<open>src/drivers/nic.c\<close>), the IPv4 configuration
  (\<^verbatim>\<open>src/drivers/net.c\<close>) and the address resolution protocol (\<^verbatim>\<open>src/drivers/arp.c\<close>).
  The driver is a table of functions over a device state that the model does not look into, as
  the C code calls it through function pointers. \<open>None\<close> is a dereference of the null pointer
  that \<^verbatim>\<open>nic_mac\<close> returns while no driver is bound.
\<close>

section \<open>The network card\<close>

record 'd nic_driver =
  drv_name :: string
  drv_link_up :: "'d \<Rightarrow> bool"
  drv_mac :: "'d \<Rightarrow> u8 list"
  drv_send :: "'d \<Rightarrow> u8 list \<Rightarrow> bool \<times> 'd"
  drv_recv :: "'d \<Rightarrow> u8 list \<Rightarrow> (u8 list \<times> u32) option \<times> 'd"

record 'd nic =
  s_driver :: "'d nic_driver option"
  device :: 'd

definition nic_link_up :: "'d nic \<Rightarrow> bool" where
  "nic_link_up n = (case s_driver n of None \<Rightarrow> False | Some drv \<Rightarrow> drv_link_up drv (device n))"

definition nic_driver_name :: "'d nic \<Rightarrow> string" where
  "nic_driver_name n = (case s_driver n of None \<Rightarrow> ''none'' | Some drv \<Rightarrow> drv_name drv)"

definition nic_mac :: "'d nic \<Rightarrow> u8 list option" where
  "nic_mac n = map_option (\<lambda>drv. drv_mac drv (device n)) (s_driver n)"

definition nic_send :: "'d nic \<Rightarrow> u8 list \<Rightarrow> bool \<times> 'd nic" where
  "nic_send n data =
     (case s_driver n of
        None \<Rightarrow> (False, n)
      | Some drv \<Rightarrow> (case drv_send drv (device n) data of (ok, d) \<Rightarrow> (ok, n\<lparr>device := d\<rparr>)))"

text \<open>The driver writes into the buffer it is given and returns the length of the frame.\<close>

definition nic_recv :: "'d nic \<Rightarrow> u8 list \<Rightarrow> (u8 list \<times> u32) option \<times> 'd nic" where
  "nic_recv n out =
     (case s_driver n of
        None \<Rightarrow> (None, n)
      | Some drv \<Rightarrow> (case drv_recv drv (device n) out of (r, d) \<Rightarrow> (r, n\<lparr>device := d\<rparr>)))"

section \<open>The IPv4 configuration\<close>

record net_ipv4_config =
  configured :: bool
  ip :: u32
  netmask :: u32
  gateway :: u32
  dns :: u32
  dhcp_server :: u32
  lease_seconds :: u32

definition net_ipv4_clear_config :: net_ipv4_config where
  "net_ipv4_clear_config =
     \<lparr>configured = False, ip = 0, netmask = 0, gateway = 0, dns = 0, dhcp_server = 0, lease_seconds = 0\<rparr>"

definition net_ipv4_configure :: "u32 \<Rightarrow> u32 \<Rightarrow> u32 \<Rightarrow> u32 \<Rightarrow> u32 \<Rightarrow> u32 \<Rightarrow> net_ipv4_config" where
  "net_ipv4_configure i m g d s l =
     \<lparr>configured = (i \<noteq> 0), ip = i, netmask = m, gateway = g, dns = d, dhcp_server = s, lease_seconds = l\<rparr>"

definition net_ipv4_is_configured :: "net_ipv4_config \<Rightarrow> bool" where
  "net_ipv4_is_configured c = configured c"

definition net_ipv4_local_ip :: "net_ipv4_config \<Rightarrow> u32" where
  "net_ipv4_local_ip c = ip c"

definition net_ipv4_gateway :: "net_ipv4_config \<Rightarrow> u32" where
  "net_ipv4_gateway c = gateway c"

section \<open>ARP\<close>

definition ARP_ETHERTYPE :: u16 where "ARP_ETHERTYPE = 0x0806"
definition ARP_HTYPE_ETHERNET :: u16 where "ARP_HTYPE_ETHERNET = 0x0001"
definition ARP_PTYPE_IPV4 :: u16 where "ARP_PTYPE_IPV4 = 0x0800"
definition ARP_OP_REQUEST :: u16 where "ARP_OP_REQUEST = 0x0001"
definition ARP_OP_REPLY :: u16 where "ARP_OP_REPLY = 0x0002"
definition ARP_FRAME_SIZE :: u32 where "ARP_FRAME_SIZE = 42"
definition ARP_MAX_POLL_COUNT :: nat where "ARP_MAX_POLL_COUNT = 200"

lemmas arp_consts = ARP_ETHERTYPE_def ARP_HTYPE_ETHERNET_def ARP_PTYPE_IPV4_def ARP_OP_REQUEST_def
  ARP_OP_REPLY_def ARP_FRAME_SIZE_def

text \<open>
  The cache holds one entry. \<open>net_log\<close> lists the lines handed to the file system for
  \<^verbatim>\<open>/var/log/net.log\<close>, and \<open>log_read_only\<close> is the answer of \<^verbatim>\<open>ext2_is_read_only\<close>.
\<close>

record arp =
  s_arp_cache_valid :: bool
  s_arp_cache_sender_ip :: u32
  s_arp_cache_target_ip :: u32
  s_arp_cache_mac :: "u8 list"
  log_read_only :: bool
  net_log :: "string list"

text \<open>The loops that copy six bytes of one frame into another.\<close>

definition copy6 :: "u8 list \<Rightarrow> nat \<Rightarrow> u8 list" where
  "copy6 buf off = map (\<lambda>i. buf ! (off + i)) [0..<6]"

definition arp_reply :: "net_ipv4_config \<Rightarrow> 'd nic \<Rightarrow> u8 list \<Rightarrow> 'd nic option" where
  "arp_reply cfg n frame =
     do {
       src_mac \<leftarrow> nic_mac n;
       let local_ip = net_ipv4_local_ip cfg;
       let reply = replicate (unat ARP_FRAME_SIZE) 0;
       let reply = put_bytes reply 0 (copy6 frame 6);
       let reply = put_bytes reply 6 (copy6 src_mac 0);
       let reply = arp_write_u16_be reply 12 ARP_ETHERTYPE;
       let reply = arp_write_u16_be reply 14 ARP_HTYPE_ETHERNET;
       let reply = arp_write_u16_be reply 16 ARP_PTYPE_IPV4;
       let reply = reply[18 := 6];
       let reply = reply[19 := 4];
       let reply = arp_write_u16_be reply 20 ARP_OP_REPLY;
       let reply = put_bytes reply 22 (copy6 src_mac 0);
       let reply = arp_write_u32_be reply 28 local_ip;
       let reply = put_bytes reply 32 (copy6 frame 22);
       let reply = arp_write_u32_be reply 38 (arp_read_u32_be frame 28);
       Some (snd (nic_send n reply))
     }"

definition hex_digits :: string where "hex_digits = ''0123456789ABCDEF''"

definition arp_print_mac :: "u8 list \<Rightarrow> string" where
  "arp_print_mac mac =
     concat (map (\<lambda>i. [hex_digits ! unat (drop_bit 4 (mac ! i)), hex_digits ! unat (mac ! i AND 0xF)] @
       (if i \<noteq> 5 then '':'' else [])) [0..<6])"

text \<open>The log line: the characters before the terminating zero, at most \<open>cap - 1\<close> of them.\<close>

definition arp_log_append_char :: "nat \<Rightarrow> string \<Rightarrow> char \<Rightarrow> string" where
  "arp_log_append_char cap buf ch = (if length buf + 1 \<ge> cap then buf else buf @ [ch])"

definition arp_log_append_str :: "nat \<Rightarrow> string \<Rightarrow> string \<Rightarrow> string" where
  "arp_log_append_str cap buf s = fold (\<lambda>ch buf. arp_log_append_char cap buf ch) s buf"

fun arp_log_digits :: "u32 \<Rightarrow> nat \<Rightarrow> string \<Rightarrow> string" where
  "arp_log_digits v 0 digits = digits"
| "arp_log_digits v (Suc n) digits =
     (if v > 0 then arp_log_digits (v div 10) n (char_of (48 + unat (v mod 10)) # digits) else digits)"

definition arp_log_append_uint :: "nat \<Rightarrow> string \<Rightarrow> u32 \<Rightarrow> string" where
  "arp_log_append_uint cap buf v =
     (if v = 0 then arp_log_append_char cap buf (CHR ''0'')
      else arp_log_append_str cap buf (arp_log_digits v 10 []))"

definition arp_log_append_ip :: "nat \<Rightarrow> string \<Rightarrow> u32 \<Rightarrow> string" where
  "arp_log_append_ip cap buf a =
     (let buf = arp_log_append_uint cap buf (drop_bit 24 a AND 0xFF);
          buf = arp_log_append_char cap buf (CHR ''.'');
          buf = arp_log_append_uint cap buf (drop_bit 16 a AND 0xFF);
          buf = arp_log_append_char cap buf (CHR ''.'');
          buf = arp_log_append_uint cap buf (drop_bit 8 a AND 0xFF);
          buf = arp_log_append_char cap buf (CHR ''.'')
      in arp_log_append_uint cap buf (a AND 0xFF))"

definition arp_log_reply :: "arp \<Rightarrow> u32 \<Rightarrow> arp" where
  "arp_log_reply st remote_ip =
     (if log_read_only st then st
      else
        let line = arp_log_append_str 48 [] ''arp: reply to '';
            line = arp_log_append_ip 48 line remote_ip;
            line = arp_log_append_char 48 line (CHR 0x0A)
        in st\<lparr>net_log := net_log st @ [line]\<rparr>)"

definition arp_lookup :: "arp \<Rightarrow> u32 \<Rightarrow> u32 \<Rightarrow> u8 list option" where
  "arp_lookup st sender_ip target_ip =
     (if \<not> s_arp_cache_valid st then None
      else if s_arp_cache_sender_ip st \<noteq> sender_ip \<or> s_arp_cache_target_ip st \<noteq> target_ip then None
      else Some (copy6 (s_arp_cache_mac st) 0))"

definition arp_cache_get :: "arp \<Rightarrow> (u32 \<times> u32 \<times> u8 list) option" where
  "arp_cache_get st =
     (if \<not> s_arp_cache_valid st then None
      else Some (s_arp_cache_sender_ip st, s_arp_cache_target_ip st, copy6 (s_arp_cache_mac st) 0))"

definition arp_send_request :: "'d nic \<Rightarrow> u32 \<Rightarrow> u32 \<Rightarrow> (bool \<times> 'd nic) option" where
  "arp_send_request n sender_ip target_ip =
     do {
       src_mac \<leftarrow> nic_mac n;
       let frame = replicate (unat ARP_FRAME_SIZE) 0;
       let frame = put_bytes frame 0 (replicate 6 0xFF);
       let frame = put_bytes frame 6 (copy6 src_mac 0);
       let frame = arp_write_u16_be frame 12 ARP_ETHERTYPE;
       let frame = arp_write_u16_be frame 14 ARP_HTYPE_ETHERNET;
       let frame = arp_write_u16_be frame 16 ARP_PTYPE_IPV4;
       let frame = frame[18 := 6];
       let frame = frame[19 := 4];
       let frame = arp_write_u16_be frame 20 ARP_OP_REQUEST;
       let frame = put_bytes frame 22 (copy6 src_mac 0);
       let frame = arp_write_u32_be frame 28 sender_ip;
       let frame = arp_write_u32_be frame 38 target_ip;
       Some (nic_send n frame)
     }"

definition arp_handle_frame ::
    "net_ipv4_config \<Rightarrow> 'd nic \<Rightarrow> arp \<Rightarrow> u8 list \<Rightarrow> u32 \<Rightarrow> (bool \<times> 'd nic \<times> arp) option" where
  "arp_handle_frame cfg n st frame len =
     (if len < ARP_FRAME_SIZE then Some (False, n, st)
      else if arp_read_u16_be frame 12 \<noteq> ARP_ETHERTYPE then Some (False, n, st)
      else if arp_read_u16_be frame 14 \<noteq> ARP_HTYPE_ETHERNET then Some (False, n, st)
      else if arp_read_u16_be frame 16 \<noteq> ARP_PTYPE_IPV4 then Some (False, n, st)
      else if frame ! 18 \<noteq> 6 \<or> frame ! 19 \<noteq> 4 then Some (False, n, st)
      else if arp_read_u16_be frame 20 = ARP_OP_REPLY then
        Some (True, n, st\<lparr>s_arp_cache_sender_ip := arp_read_u32_be frame 38,
                        s_arp_cache_target_ip := arp_read_u32_be frame 28,
                        s_arp_cache_mac := copy6 frame 22,
                        s_arp_cache_valid := True\<rparr>)
      else if arp_read_u16_be frame 20 \<noteq> ARP_OP_REQUEST then Some (False, n, st)
      else if \<not> net_ipv4_is_configured cfg \<or> arp_read_u32_be frame 38 \<noteq> net_ipv4_local_ip cfg then
        Some (False, n, st)
      else
        do {
          n \<leftarrow> arp_reply cfg n frame;
          Some (True, n, arp_log_reply st (arp_read_u32_be frame 28))
        })"

section \<open>The frames sent\<close>

lemma length_copy6 [simp]: "length (copy6 buf off) = 6"
  by (simp add: copy6_def)

lemma nth_copy6: "i < 6 \<Longrightarrow> copy6 buf off ! i = buf ! (off + i)"
  by (simp add: copy6_def)

lemma copy6_id: "length mac = 6 \<Longrightarrow> copy6 mac 0 = mac"
  by (rule nth_equalityI) (simp_all add: nth_copy6)

lemma copy6_cong: "(\<And>i. i < 6 \<Longrightarrow> f ! (off + i) = g ! (off' + i)) \<Longrightarrow> copy6 f off = copy6 g off'"
  by (simp add: copy6_def)

lemma copy6_put_same: "off + 6 \<le> length buf \<Longrightarrow> length bs = 6 \<Longrightarrow> copy6 (put_bytes buf off bs) off = bs"
  by (rule nth_equalityI) (simp_all add: nth_copy6 nth_put_bytes)

lemma copy6_other:
  "off + length bs \<le> length buf \<Longrightarrow> o' + 6 \<le> off \<or> off + length bs \<le> o' \<Longrightarrow>
    copy6 (put_bytes buf off bs) o' = copy6 buf o'"
  by (rule copy6_cong) (auto simp: nth_put_bytes)

lemma copy6_write32_other:
  "o' + 6 \<le> off \<or> off + 4 \<le> o' \<Longrightarrow> copy6 (arp_write_u32_be buf off w) o' = copy6 buf o'"
  by (rule copy6_cong) (auto intro!: arp_be.nth_write32)

lemmas frame_simps = arp_be.codec nth_put_bytes copy6_put_same copy6_other copy6_write32_other

lemma arp_send_request_spec:
  assumes "nic_mac n = Some mac"
  obtains f where "arp_send_request n sender_ip target_ip = Some (nic_send n f)" "length f = 42"
    "arp_read_u16_be f 12 = ARP_ETHERTYPE" "arp_read_u16_be f 14 = ARP_HTYPE_ETHERNET"
    "arp_read_u16_be f 16 = ARP_PTYPE_IPV4" "f ! 18 = 6" "f ! 19 = 4"
    "arp_read_u16_be f 20 = ARP_OP_REQUEST" "copy6 f 22 = copy6 mac 0"
    "arp_read_u32_be f 28 = sender_ip" "arp_read_u32_be f 38 = target_ip"
proof -
  have len: "unat ARP_FRAME_SIZE = 42" by (simp add: ARP_FRAME_SIZE_def)
  show ?thesis
    by (rule that, simp add: arp_send_request_def assms len Let_def)
      (simp_all add: frame_simps len)
qed

lemma arp_reply_spec:
  assumes "nic_mac n = Some mac"
  obtains f where "arp_reply cfg n frame = Some (snd (nic_send n f))" "length f = 42"
    "arp_read_u16_be f 12 = ARP_ETHERTYPE" "arp_read_u16_be f 14 = ARP_HTYPE_ETHERNET"
    "arp_read_u16_be f 16 = ARP_PTYPE_IPV4" "f ! 18 = 6" "f ! 19 = 4"
    "arp_read_u16_be f 20 = ARP_OP_REPLY" "copy6 f 22 = copy6 mac 0" "copy6 f 32 = copy6 frame 22"
    "arp_read_u32_be f 28 = net_ipv4_local_ip cfg" "arp_read_u32_be f 38 = arp_read_u32_be frame 28"
proof -
  have len: "unat ARP_FRAME_SIZE = 42" by (simp add: ARP_FRAME_SIZE_def)
  show ?thesis
    by (rule that, simp add: arp_reply_def assms len Let_def) (simp_all add: frame_simps len)
qed

section \<open>Received frames\<close>

text \<open>
  Two buffers that agree on the bytes of a received frame are handled alike: a handler does not
  look at what an earlier, longer frame left behind it.
\<close>

definition agree :: "nat \<Rightarrow> u8 list \<Rightarrow> u8 list \<Rightarrow> bool" where
  "agree n f g \<longleftrightarrow> (\<forall>i < n. f ! i = g ! i)"

lemma agree_nth: "agree n f g \<Longrightarrow> i < n \<Longrightarrow> f ! i = g ! i"
  by (simp add: agree_def)

lemma agree_read16: "agree n f g \<Longrightarrow> off + 2 \<le> n \<Longrightarrow> arp_read_u16_be f off = arp_read_u16_be g off"
  by (rule arp_be.read16_cong) (auto intro: agree_nth)

lemma agree_read32: "agree n f g \<Longrightarrow> off + 4 \<le> n \<Longrightarrow> arp_read_u32_be f off = arp_read_u32_be g off"
  by (rule arp_be.read32_cong) (auto intro: agree_nth)

lemma agree_copy6: "agree n f g \<Longrightarrow> off + 6 \<le> n \<Longrightarrow> copy6 f off = copy6 g off"
  by (rule copy6_cong) (auto intro: agree_nth)

lemma arp_handle_frame_agree:
  assumes "agree (unat len) f g"
  shows "arp_handle_frame cfg n st f len = arp_handle_frame cfg n st g len"
proof (cases "len < ARP_FRAME_SIZE")
  case True
  then show ?thesis by (simp add: arp_handle_frame_def)
next
  case False
  then have l: "42 \<le> unat len" by (simp add: ARP_FRAME_SIZE_def word_less_nat_alt)
  have r16: "arp_read_u16_be f off = arp_read_u16_be g off" if "off + 2 \<le> 42" for off
    using agree_read16 [OF assms] that l by simp
  have r32: "arp_read_u32_be f off = arp_read_u32_be g off" if "off + 4 \<le> 42" for off
    using agree_read32 [OF assms] that l by simp
  have c6: "copy6 f off = copy6 g off" if "off + 6 \<le> 42" for off
    using agree_copy6 [OF assms] that l by simp
  have b: "f ! i = g ! i" if "i < 42" for i using agree_nth [OF assms] that l by simp
  have rep: "arp_reply cfg n f = arp_reply cfg n g" by (simp add: arp_reply_def r32 c6)
  show ?thesis by (simp add: arp_handle_frame_def r16 r32 c6 b rep)
qed

lemma agree_append: "length f = n \<Longrightarrow> agree n (f @ rest) f"
  by (simp add: agree_def nth_append)

lemma arp_request_answered:
  assumes f: "arp_read_u16_be f 12 = ARP_ETHERTYPE" "arp_read_u16_be f 14 = ARP_HTYPE_ETHERNET"
      "arp_read_u16_be f 16 = ARP_PTYPE_IPV4" "f ! 18 = 6" "f ! 19 = 4" "arp_read_u16_be f 20 = ARP_OP_REQUEST"
      "arp_read_u32_be f 28 = sender_ip" "arp_read_u32_be f 38 = net_ipv4_local_ip cfg"
    and "net_ipv4_is_configured cfg" "arp_reply cfg n f = Some n'"
  shows "arp_handle_frame cfg n st f 42 = Some (True, n', arp_log_reply st sender_ip)"
  using assms by (simp add: arp_handle_frame_def ARP_FRAME_SIZE_def ARP_OP_REQUEST_def ARP_OP_REPLY_def)

lemma arp_reply_cached:
  assumes f: "arp_read_u16_be f 12 = ARP_ETHERTYPE" "arp_read_u16_be f 14 = ARP_HTYPE_ETHERNET"
      "arp_read_u16_be f 16 = ARP_PTYPE_IPV4" "f ! 18 = 6" "f ! 19 = 4" "arp_read_u16_be f 20 = ARP_OP_REPLY"
      "copy6 f 22 = mac" "arp_read_u32_be f 28 = target_ip" "arp_read_u32_be f 38 = sender_ip"
  obtains st' where "arp_handle_frame cfg n st f 42 = Some (True, n, st')" "arp_lookup st' sender_ip target_ip = Some mac"
proof -
  have "length mac = 6" using f(7) length_copy6 by blast
  with f that show ?thesis by (simp add: arp_handle_frame_def ARP_FRAME_SIZE_def arp_lookup_def copy6_id)
qed

text \<open>
  C36: address resolution works end to end. The request a host sends is answered by the
  configured owner of the address, and the answer, handled by any host, leaves the owner's
  hardware address in the cache where the requester looks it up, whatever an earlier frame left
  in either receive buffer.
\<close>

theorem arp_resolution:
  assumes "nic_mac a = Some mac_a" "nic_mac b = Some mac_b" "length mac_b = 6"
    and "net_ipv4_is_configured cfg" "net_ipv4_local_ip cfg = target_ip"
  shows "\<exists>request reply.
    arp_send_request a sender_ip target_ip = Some (nic_send a request) \<and> length request = 42 \<and>
    arp_handle_frame cfg b st (request @ stale) 42 = Some (True, snd (nic_send b reply), arp_log_reply st sender_ip) \<and>
    length reply = 42 \<and>
    (\<exists>st'. arp_handle_frame cfg' a st2 (reply @ stale') 42 = Some (True, a, st') \<and>
       arp_lookup st' sender_ip target_ip = Some mac_b)"
proof -
  obtain q where q: "arp_send_request a sender_ip target_ip = Some (nic_send a q)" "length q = 42"
    "arp_read_u16_be q 12 = ARP_ETHERTYPE" "arp_read_u16_be q 14 = ARP_HTYPE_ETHERNET"
    "arp_read_u16_be q 16 = ARP_PTYPE_IPV4" "q ! 18 = 6" "q ! 19 = 4" "arp_read_u16_be q 20 = ARP_OP_REQUEST"
    "arp_read_u32_be q 28 = sender_ip" "arp_read_u32_be q 38 = target_ip"
    by (rule arp_send_request_spec [OF assms(1)])
  obtain r where r: "arp_reply cfg b q = Some (snd (nic_send b r))" "length r = 42"
    "arp_read_u16_be r 12 = ARP_ETHERTYPE" "arp_read_u16_be r 14 = ARP_HTYPE_ETHERNET"
    "arp_read_u16_be r 16 = ARP_PTYPE_IPV4" "r ! 18 = 6" "r ! 19 = 4" "arp_read_u16_be r 20 = ARP_OP_REPLY"
    "copy6 r 22 = copy6 mac_b 0" "copy6 r 32 = copy6 q 22"
    "arp_read_u32_be r 28 = net_ipv4_local_ip cfg" "arp_read_u32_be r 38 = arp_read_u32_be q 28"
    by (rule arp_reply_spec [OF assms(2)])
  have "arp_handle_frame cfg b st q 42 = Some (True, snd (nic_send b r), arp_log_reply st sender_ip)"
    using q assms by (intro arp_request_answered [OF _ _ _ _ _ _ _ _ _ r(1)]) simp_all
  moreover obtain st' where "arp_handle_frame cfg' a st2 r 42 = Some (True, a, st')"
      "arp_lookup st' sender_ip target_ip = Some mac_b"
    by (rule arp_reply_cached [of r mac_b target_ip sender_ip cfg' a st2]) (use q r assms in \<open>simp_all add: copy6_id\<close>)
  ultimately show ?thesis
    using q(1,2) r(2) by (intro exI [of _ q] exI [of _ r])
      (simp add: arp_handle_frame_agree [OF agree_append [where n = "unat (42 :: u32)"]])
qed

text \<open>A card that records the frames it sends and receives nothing.\<close>

definition recorder :: "u8 list \<Rightarrow> u8 list list nic" where
  "recorder mac =
     \<lparr>s_driver = Some \<lparr>drv_name = ''recorder'', drv_link_up = (\<lambda>_. True), drv_mac = (\<lambda>_. mac),
        drv_send = (\<lambda>d data. (True, d @ [data])), drv_recv = (\<lambda>d out. (None, d))\<rparr>,
      device = []\<rparr>"

lemma nic_mac_recorder [simp]: "nic_mac (recorder mac) = Some mac"
  by (simp add: nic_mac_def recorder_def)

definition arp_empty :: arp where
  "arp_empty = \<lparr>s_arp_cache_valid = False, s_arp_cache_sender_ip = 0, s_arp_cache_target_ip = 0,
     s_arp_cache_mac = replicate 6 0, log_read_only = False, net_log = []\<rparr>"

theorem arp_resolution_witness:
  "\<exists>request reply.
    arp_send_request (recorder [1, 2, 3, 4, 5, 6]) 0x0A000002 0x0A000001 =
      Some (nic_send (recorder [1, 2, 3, 4, 5, 6]) request) \<and> length request = 42 \<and>
    arp_handle_frame (net_ipv4_configure 0x0A000001 0 0 0 0 0) (recorder [7, 8, 9, 10, 11, 12]) arp_empty (request @ [9]) 42 =
      Some (True, snd (nic_send (recorder [7, 8, 9, 10, 11, 12]) reply), arp_log_reply arp_empty 0x0A000002) \<and>
    length reply = 42 \<and>
    (\<exists>st'. arp_handle_frame net_ipv4_clear_config (recorder [1, 2, 3, 4, 5, 6]) arp_empty (reply @ []) 42 =
        Some (True, recorder [1, 2, 3, 4, 5, 6], st') \<and>
       arp_lookup st' 0x0A000002 0x0A000001 = Some [7, 8, 9, 10, 11, 12])"
  by (rule arp_resolution)
    (simp_all add: net_ipv4_configure_def net_ipv4_is_configured_def net_ipv4_local_ip_def)

section \<open>The log line\<close>

lemma append_char_room: "length buf + 1 < cap \<Longrightarrow> arp_log_append_char cap buf ch = buf @ [ch]"
  by (simp add: arp_log_append_char_def)

lemma append_str_room: "length buf + length s < cap \<Longrightarrow> arp_log_append_str cap buf s = buf @ s"
  unfolding arp_log_append_str_def
proof (induction s arbitrary: buf)
  case (Cons ch s)
  then show ?case by (simp add: append_char_room)
qed simp

lemma arp_log_digits_eq: "arp_log_digits v n d = put_uint_loop v n d"
  by (induction n arbitrary: v d) (simp_all add: put_uint_loop.simps [of v for v])

lemma put_uint_loop_enough: "unat v < 10 ^ m \<Longrightarrow> put_uint_loop v (m + k) d = put_uint_loop v m d"
proof (induction m arbitrary: v d)
  case 0
  then show ?case by (simp add: put_uint_loop.simps unat_eq_0)
next
  case (Suc m)
  then have "unat (v div 10) < 10 ^ m" by (simp add: unat_div less_mult_imp_div_less mult.commute)
  then show ?case by (simp add: put_uint_loop.simps [of v] Suc.IH)
qed

lemma arp_log_append_uint_room:
  assumes "length buf + length (terminal_put_uint v) < cap"
  shows "arp_log_append_uint cap buf v = buf @ terminal_put_uint v"
proof (cases "v = 0")
  case True
  with assms show ?thesis by (simp add: arp_log_append_uint_def terminal_put_uint_def append_char_room)
next
  case False
  have "unat v < 10 ^ 10" using unat_u32_bound [of v] by simp
  then have "put_uint_loop v 11 [] = arp_log_digits v 10 []"
    using put_uint_loop_enough [of v 10 1 "[]"] by (simp add: arp_log_digits_eq)
  with False assms show ?thesis by (simp add: arp_log_append_uint_def terminal_put_uint_def append_str_room)
qed

lemma length_put_octet: "length (terminal_put_uint (w AND 0xFF)) \<le> 3"
  using put_uint_text [OF unat_octet, of w] by simp

lemma arp_log_append_ip_room:
  assumes "length buf + 16 \<le> cap"
  shows "arp_log_append_ip cap buf a = buf @ arp_print_ip a"
proof -
  note l = length_put_octet [of "drop_bit 24 a"] length_put_octet [of "drop_bit 16 a"]
    length_put_octet [of "drop_bit 8 a"] length_put_octet [of a]
  show ?thesis
    using assms l
    by (simp add: arp_log_append_ip_def arp_print_ip_def arp_log_append_uint_room append_char_room)
qed

lemma length_print_ip: "length (arp_print_ip a) \<le> 15"
  using length_put_octet [of "drop_bit 24 a"] length_put_octet [of "drop_bit 16 a"]
    length_put_octet [of "drop_bit 8 a"] length_put_octet [of a]
  by (simp add: arp_print_ip_def)

text \<open>
  The line written to the network log is never cut short by its 48-byte buffer and holds
  the address exactly as the console prints it, so reading the text back gives the address.
\<close>

theorem arp_log_line:
  "net_log (arp_log_reply st a) =
     net_log st @ (if log_read_only st then [] else [''arp: reply to '' @ arp_print_ip a @ [CHR 0x0A]])"
proof -
  have "arp_log_append_str 48 [] ''arp: reply to '' = ''arp: reply to ''"
    using append_str_room [of "[]" "''arp: reply to ''" 48] by simp
  moreover have "arp_log_append_ip 48 ''arp: reply to '' a = ''arp: reply to '' @ arp_print_ip a"
    by (rule arp_log_append_ip_room) simp
  moreover have "arp_log_append_char 48 (''arp: reply to '' @ arp_print_ip a) c = ''arp: reply to '' @ arp_print_ip a @ [c]" for c
    using length_print_ip [of a] append_char_room [of "''arp: reply to '' @ arp_print_ip a" 48 c] by simp
  ultimately show ?thesis by (simp only: arp_log_reply_def Let_def) simp
qed

end
