(* ===== verification/Dhcp.thy ===== *)
theory Dhcp
  imports Arp
begin

text \<open>
  The DHCP client, \<^verbatim>\<open>src/drivers/dhcp.c\<close>: the discover and request messages it builds and its
  handler for received replies. The exchange itself, which polls the card, is in \<open>Net\<close>. Offsets
  into a frame, which stay far below the width of the variables that hold them, are natural
  numbers; addresses and the other fields keep their width. Console output is left out.
\<close>

definition DHCP_ETHERTYPE_IPV4 :: u16 where "DHCP_ETHERTYPE_IPV4 = 0x0800"
definition DHCP_IPV4_VERSION_IHL :: u8 where "DHCP_IPV4_VERSION_IHL = 0x45"
definition DHCP_IPV4_TTL :: u8 where "DHCP_IPV4_TTL = 64"
definition DHCP_IPV4_PROTO_UDP :: u8 where "DHCP_IPV4_PROTO_UDP = 17"
definition DHCP_CLIENT_PORT :: u16 where "DHCP_CLIENT_PORT = 68"
definition DHCP_SERVER_PORT :: u16 where "DHCP_SERVER_PORT = 67"
definition DHCP_BOOTREQUEST :: u8 where "DHCP_BOOTREQUEST = 1"
definition DHCP_BOOTREPLY :: u8 where "DHCP_BOOTREPLY = 2"
definition DHCP_HTYPE_ETHERNET :: u8 where "DHCP_HTYPE_ETHERNET = 1"
definition DHCP_HLEN_ETHERNET :: u8 where "DHCP_HLEN_ETHERNET = 6"
definition DHCP_MAGIC_COOKIE :: u32 where "DHCP_MAGIC_COOKIE = 0x63825363"
definition DHCP_OPTION_PAD :: u8 where "DHCP_OPTION_PAD = 0"
definition DHCP_OPTION_SUBNET_MASK :: u8 where "DHCP_OPTION_SUBNET_MASK = 1"
definition DHCP_OPTION_ROUTER :: u8 where "DHCP_OPTION_ROUTER = 3"
definition DHCP_OPTION_DNS :: u8 where "DHCP_OPTION_DNS = 6"
definition DHCP_OPTION_REQUESTED_IP :: u8 where "DHCP_OPTION_REQUESTED_IP = 50"
definition DHCP_OPTION_LEASE_TIME :: u8 where "DHCP_OPTION_LEASE_TIME = 51"
definition DHCP_OPTION_MESSAGE_TYPE :: u8 where "DHCP_OPTION_MESSAGE_TYPE = 53"
definition DHCP_OPTION_SERVER_ID :: u8 where "DHCP_OPTION_SERVER_ID = 54"
definition DHCP_OPTION_PARAM_REQUEST :: u8 where "DHCP_OPTION_PARAM_REQUEST = 55"
definition DHCP_OPTION_END :: u8 where "DHCP_OPTION_END = 255"
definition DHCPDISCOVER :: u8 where "DHCPDISCOVER = 1"
definition DHCPOFFER :: u8 where "DHCPOFFER = 2"
definition DHCPREQUEST :: u8 where "DHCPREQUEST = 3"
definition DHCPACK :: u8 where "DHCPACK = 5"
definition DHCP_BASE_LEN :: nat where "DHCP_BASE_LEN = 240"
definition DHCP_DISCOVER_LEN :: nat where "DHCP_DISCOVER_LEN = 286"
definition DHCP_REQUEST_LEN :: nat where "DHCP_REQUEST_LEN = 298"
definition DHCP_FRAME_MAX :: nat where "DHCP_FRAME_MAX = 590"
definition DHCP_ATTEMPTS :: nat where "DHCP_ATTEMPTS = 8"

lemmas dhcp_option_codes = DHCP_OPTION_PAD_def DHCP_OPTION_SUBNET_MASK_def DHCP_OPTION_ROUTER_def
  DHCP_OPTION_DNS_def DHCP_OPTION_REQUESTED_IP_def DHCP_OPTION_LEASE_TIME_def
  DHCP_OPTION_MESSAGE_TYPE_def DHCP_OPTION_SERVER_ID_def DHCP_OPTION_PARAM_REQUEST_def
  DHCP_OPTION_END_def DHCPDISCOVER_def DHCPOFFER_def DHCPREQUEST_def DHCPACK_def

lemmas dhcp_sizes = DHCP_BASE_LEN_def DHCP_DISCOVER_LEN_def DHCP_REQUEST_LEN_def DHCP_FRAME_MAX_def

record dhcp =
  dhcp_waiting :: bool
  dhcp_xid :: u32
  dhcp_offered_ip :: u32
  dhcp_server_ip :: u32
  dhcp_ack_ip :: u32
  dhcp_netmask :: u32
  dhcp_gateway :: u32
  dhcp_dns :: u32
  dhcp_lease_seconds :: u32
  dhcp_message_type :: u8

section \<open>Building messages\<close>

definition dhcp_write_u16_be :: "u8 list \<Rightarrow> nat \<Rightarrow> u16 \<Rightarrow> u8 list" where
  "dhcp_write_u16_be buf off v = buf[off := ucast (drop_bit 8 v), off + 1 := ucast (v AND 0xFF)]"

definition dhcp_write_u32_be :: "u8 list \<Rightarrow> nat \<Rightarrow> u32 \<Rightarrow> u8 list" where
  "dhcp_write_u32_be buf off v =
     buf[off := ucast (drop_bit 24 v AND 0xFF), off + 1 := ucast (drop_bit 16 v AND 0xFF),
         off + 2 := ucast (drop_bit 8 v AND 0xFF), off + 3 := ucast (v AND 0xFF)]"

definition dhcp_read_u16_be :: "u8 list \<Rightarrow> nat \<Rightarrow> u16" where
  "dhcp_read_u16_be buf off = push_bit 8 (ucast (buf ! off)) OR ucast (buf ! (off + 1))"

definition dhcp_read_u32_be :: "u8 list \<Rightarrow> nat \<Rightarrow> u32" where
  "dhcp_read_u32_be buf off =
     push_bit 24 (ucast (buf ! off)) OR push_bit 16 (ucast (buf ! (off + 1))) OR
     push_bit 8 (ucast (buf ! (off + 2))) OR ucast (buf ! (off + 3))"

definition dhcp_checksum16 :: "u8 list \<Rightarrow> u32 \<Rightarrow> u16 option" where
  "dhcp_checksum16 data len =
     (if unat len \<le> length data
      then Some (ucast (NOT (csum_fold (csum_words (take (unat len) data) 0)))) else None)"

definition build_ipv4_udp_header :: "u8 list \<Rightarrow> u32 \<Rightarrow> nat \<Rightarrow> u16 \<Rightarrow> u8 list option" where
  "build_ipv4_udp_header frame src_ip udp_len ip_id =
     do {
       let total_len = (of_nat (20 + udp_len) :: u16);
       let frame = dhcp_write_u16_be frame 12 DHCP_ETHERTYPE_IPV4;
       let frame = frame[14 := DHCP_IPV4_VERSION_IHL];
       let frame = frame[15 := 0];
       let frame = dhcp_write_u16_be frame 16 total_len;
       let frame = dhcp_write_u16_be frame 18 ip_id;
       let frame = dhcp_write_u16_be frame 20 0;
       let frame = frame[22 := DHCP_IPV4_TTL];
       let frame = frame[23 := DHCP_IPV4_PROTO_UDP];
       let frame = dhcp_write_u16_be frame 24 0;
       let frame = dhcp_write_u32_be frame 26 src_ip;
       let frame = dhcp_write_u32_be frame 30 0xFFFFFFFF;
       c \<leftarrow> dhcp_checksum16 (drop 14 frame) 20;
       let frame = dhcp_write_u16_be frame 24 c;
       let frame = dhcp_write_u16_be frame 34 DHCP_CLIENT_PORT;
       let frame = dhcp_write_u16_be frame 36 DHCP_SERVER_PORT;
       let frame = dhcp_write_u16_be frame 38 (of_nat udp_len);
       Some (dhcp_write_u16_be frame 40 0)
     }"

definition build_bootp_base :: "u8 list \<Rightarrow> u8 list \<Rightarrow> u32 \<Rightarrow> u32 \<Rightarrow> u8 list" where
  "build_bootp_base mac frame xid requested_ip =
     (let frame = put_bytes frame 0 (replicate 6 0xFF);
          frame = put_bytes frame 6 (copy6 mac 0);
          frame = frame[42 := DHCP_BOOTREQUEST];
          frame = frame[43 := DHCP_HTYPE_ETHERNET];
          frame = frame[44 := DHCP_HLEN_ETHERNET];
          frame = frame[45 := 0];
          frame = dhcp_write_u32_be frame 46 xid;
          frame = dhcp_write_u16_be frame 50 0;
          frame = dhcp_write_u16_be frame 52 0x8000;
          frame = dhcp_write_u32_be frame 54 0;
          frame = dhcp_write_u32_be frame 58 requested_ip;
          frame = dhcp_write_u32_be frame 62 0;
          frame = dhcp_write_u32_be frame 66 0;
          frame = put_bytes frame 70 (copy6 mac 0)
      in dhcp_write_u32_be frame 278 DHCP_MAGIC_COOKIE)"

definition add_option_u8 :: "u8 list \<times> nat \<Rightarrow> u8 \<Rightarrow> u8 \<Rightarrow> u8 list \<times> nat" where
  "add_option_u8 = (\<lambda>(frame, off) code v. (frame[off := code, off + 1 := 1, off + 2 := v], off + 3))"

definition add_option_u32 :: "u8 list \<times> nat \<Rightarrow> u8 \<Rightarrow> u32 \<Rightarrow> u8 list \<times> nat" where
  "add_option_u32 = (\<lambda>(frame, off) code v. (dhcp_write_u32_be (frame[off := code, off + 1 := 4]) (off + 2) v, off + 6))"

definition add_param_request :: "u8 list \<times> nat \<Rightarrow> u8 list \<times> nat" where
  "add_param_request = (\<lambda>(frame, off).
     (frame[off := DHCP_OPTION_PARAM_REQUEST, off + 1 := 4, off + 2 := DHCP_OPTION_SUBNET_MASK,
            off + 3 := DHCP_OPTION_ROUTER, off + 4 := DHCP_OPTION_DNS, off + 5 := DHCP_OPTION_LEASE_TIME], off + 6))"

text \<open>The builders return the frame and its length; \<open>mac\<close> is \<^verbatim>\<open>nic_mac()\<close>.\<close>

definition build_discover :: "u8 list \<Rightarrow> u32 \<Rightarrow> (u8 list \<times> nat) option" where
  "build_discover mac xid =
     do {
       let udp_len = 8 + DHCP_DISCOVER_LEN;
       let off = 14 + 20 + 8 + DHCP_BASE_LEN;
       let frame = replicate DHCP_FRAME_MAX 0;
       let frame = build_bootp_base mac frame xid 0;
       frame \<leftarrow> build_ipv4_udp_header frame 0 udp_len 0x4448;
       let (frame, off) = add_option_u8 (frame, off) DHCP_OPTION_MESSAGE_TYPE DHCPDISCOVER;
       let (frame, off) = add_param_request (frame, off);
       let frame = frame[off := DHCP_OPTION_END];
       Some (frame, 14 + 20 + udp_len)
     }"

definition build_request :: "u8 list \<Rightarrow> u32 \<Rightarrow> u32 \<Rightarrow> u32 \<Rightarrow> (u8 list \<times> nat) option" where
  "build_request mac xid requested_ip server_ip =
     do {
       let udp_len = 8 + DHCP_REQUEST_LEN;
       let off = 14 + 20 + 8 + DHCP_BASE_LEN;
       let frame = replicate DHCP_FRAME_MAX 0;
       let frame = build_bootp_base mac frame xid requested_ip;
       frame \<leftarrow> build_ipv4_udp_header frame 0 udp_len 0x4452;
       let (frame, off) = add_option_u8 (frame, off) DHCP_OPTION_MESSAGE_TYPE DHCPREQUEST;
       let (frame, off) = add_option_u32 (frame, off) DHCP_OPTION_REQUESTED_IP requested_ip;
       let (frame, off) = add_option_u32 (frame, off) DHCP_OPTION_SERVER_ID server_ip;
       let (frame, off) = add_param_request (frame, off);
       let frame = frame[off := DHCP_OPTION_END];
       Some (frame, 14 + 20 + udp_len)
     }"

section \<open>Replies\<close>

definition reset_reply_state :: "dhcp \<Rightarrow> dhcp" where
  "reset_reply_state st =
     st\<lparr>dhcp_message_type := 0, dhcp_offered_ip := 0, dhcp_ack_ip := 0, dhcp_server_ip := 0,
        dhcp_netmask := 0, dhcp_gateway := 0, dhcp_dns := 0, dhcp_lease_seconds := 0\<rparr>"

text \<open>The local variables that the option loop fills in.\<close>

record dhcp_options =
  opt_msg_type :: u8
  opt_server_ip :: u32
  opt_netmask :: u32
  opt_gateway :: u32
  opt_dns :: u32
  opt_lease :: u32

definition dhcp_store_option :: "u8 list \<Rightarrow> u8 \<Rightarrow> nat \<Rightarrow> nat \<Rightarrow> dhcp_options \<Rightarrow> dhcp_options" where
  "dhcp_store_option frame code options_off opt_len opts =
     (if code = DHCP_OPTION_MESSAGE_TYPE \<and> opt_len \<ge> 1 then opts\<lparr>opt_msg_type := frame ! options_off\<rparr>
      else if code = DHCP_OPTION_SERVER_ID \<and> opt_len \<ge> 4 then opts\<lparr>opt_server_ip := dhcp_read_u32_be frame options_off\<rparr>
      else if code = DHCP_OPTION_SUBNET_MASK \<and> opt_len \<ge> 4 then opts\<lparr>opt_netmask := dhcp_read_u32_be frame options_off\<rparr>
      else if code = DHCP_OPTION_ROUTER \<and> opt_len \<ge> 4 then opts\<lparr>opt_gateway := dhcp_read_u32_be frame options_off\<rparr>
      else if code = DHCP_OPTION_DNS \<and> opt_len \<ge> 4 then opts\<lparr>opt_dns := dhcp_read_u32_be frame options_off\<rparr>
      else if code = DHCP_OPTION_LEASE_TIME \<and> opt_len \<ge> 4 then opts\<lparr>opt_lease := dhcp_read_u32_be frame options_off\<rparr>
      else opts)"

function dhcp_parse_options :: "u8 list \<Rightarrow> nat \<Rightarrow> nat \<Rightarrow> dhcp_options \<Rightarrow> dhcp_options" where
  "dhcp_parse_options frame options_off options_end opts =
     (if options_off < options_end then
        let code = frame ! options_off in
        if code = DHCP_OPTION_PAD then dhcp_parse_options frame (options_off + 1) options_end opts
        else if code = DHCP_OPTION_END then opts
        else if options_off + 1 \<ge> options_end then opts
        else
          let opt_len = unat (frame ! (options_off + 1)) in
          if options_off + 2 + opt_len > options_end then opts
          else dhcp_parse_options frame (options_off + 2 + opt_len) options_end
                 (dhcp_store_option frame code (options_off + 2) opt_len opts)
      else opts)"
  by pat_completeness auto
termination
  by (relation "measure (\<lambda>(frame, options_off, options_end, opts). options_end - options_off)") auto

declare dhcp_parse_options.simps [simp del]

definition dhcp_handle_ipv4_frame :: "dhcp \<Rightarrow> u8 list \<Rightarrow> u32 \<Rightarrow> bool \<times> dhcp" where
  "dhcp_handle_ipv4_frame st frame len =
     (let flen = unat len in
      if \<not> dhcp_waiting st \<or> flen < 14 + 20 + 8 + DHCP_BASE_LEN then (False, st)
      else if dhcp_read_u16_be frame 12 \<noteq> DHCP_ETHERTYPE_IPV4 then (False, st)
      else if drop_bit 4 (frame ! 14) \<noteq> 4 \<or> frame ! 14 AND 0x0F < 5 then (False, st)
      else
        let header_len = unat (frame ! 14 AND 0x0F) * 4 in
        if flen < 14 + header_len + 8 + DHCP_BASE_LEN then (False, st)
        else if frame ! 23 \<noteq> DHCP_IPV4_PROTO_UDP then (False, st)
        else
          let udp_off = 14 + header_len in
          if dhcp_read_u16_be frame udp_off \<noteq> DHCP_SERVER_PORT then (False, st)
          else if dhcp_read_u16_be frame (udp_off + 2) \<noteq> DHCP_CLIENT_PORT then (False, st)
          else
            let udp_len = unat (dhcp_read_u16_be frame (udp_off + 4)) in
            if udp_len < 8 + DHCP_BASE_LEN \<or> flen < udp_off + udp_len then (False, st)
            else
              let bootp_off = udp_off + 8 in
              if frame ! bootp_off \<noteq> DHCP_BOOTREPLY then (False, st)
              else if frame ! (bootp_off + 1) \<noteq> DHCP_HTYPE_ETHERNET then (False, st)
              else if frame ! (bootp_off + 2) \<noteq> DHCP_HLEN_ETHERNET then (False, st)
              else if dhcp_read_u32_be frame (bootp_off + 4) \<noteq> dhcp_xid st then (False, st)
              else if dhcp_read_u32_be frame (bootp_off + 236) \<noteq> DHCP_MAGIC_COOKIE then (False, st)
              else
                let offered_ip = dhcp_read_u32_be frame (bootp_off + 16);
                    options_off = bootp_off + DHCP_BASE_LEN;
                    options_end = udp_off + udp_len;
                    opts = dhcp_parse_options frame options_off options_end
                      \<lparr>opt_msg_type = 0, opt_server_ip = 0, opt_netmask = 0, opt_gateway = 0, opt_dns = 0, opt_lease = 0\<rparr>
                in
                if opt_msg_type opts \<noteq> DHCPOFFER \<and> opt_msg_type opts \<noteq> DHCPACK then (False, st)
                else if offered_ip = 0 then (False, st)
                else
                  let st = st\<lparr>dhcp_message_type := opt_msg_type opts\<rparr>;
                      st = (if opt_msg_type opts = DHCPOFFER then st\<lparr>dhcp_offered_ip := offered_ip\<rparr>
                            else st\<lparr>dhcp_ack_ip := offered_ip\<rparr>)
                  in (True, st\<lparr>dhcp_server_ip := opt_server_ip opts,
                       dhcp_netmask := (if opt_netmask opts \<noteq> 0 then opt_netmask opts else 0xFFFFFF00),
                       dhcp_gateway := opt_gateway opts, dhcp_dns := opt_dns opts,
                       dhcp_lease_seconds := opt_lease opts\<rparr>))"

section \<open>Bounds of the handler\<close>

lemma dhcp_copies:
  "dhcp_write_u16_be = ipv4_write_u16_be" "dhcp_write_u32_be = ipv4_write_u32_be"
  "dhcp_read_u16_be = ipv4_read_u16_be" "dhcp_read_u32_be = ipv4_read_u32_be"
  "dhcp_checksum16 = ipv4_checksum16"
  by (simp_all add: fun_eq_iff dhcp_write_u16_be_def ipv4_write_u16_be_def dhcp_write_u32_be_def
      ipv4_write_u32_be_def dhcp_read_u16_be_def ipv4_read_u16_be_def dhcp_read_u32_be_def
      ipv4_read_u32_be_def dhcp_checksum16_def ipv4_checksum16_def)

lemma dhcp_agree_read:
  "agree n f g \<Longrightarrow> off + 2 \<le> n \<Longrightarrow> dhcp_read_u16_be f off = dhcp_read_u16_be g off"
  "agree n f g \<Longrightarrow> off + 4 \<le> n \<Longrightarrow> dhcp_read_u32_be f off = dhcp_read_u32_be g off"
  using agree_read16 [of n f g off] agree_read32 [of n f g off] by (simp_all add: dhcp_copies read_copies)

lemma dhcp_store_option_agree:
  "agree n f g \<Longrightarrow> off + opt_len \<le> n \<Longrightarrow> dhcp_store_option f code off opt_len o' = dhcp_store_option g code off opt_len o'"
  by (simp add: dhcp_store_option_def dhcp_agree_read [of n f g] agree_nth [of n f g] cong: if_cong)

lemma dhcp_parse_options_agree:
  assumes "agree n f g" "e \<le> n"
  shows "dhcp_parse_options f off e opts = dhcp_parse_options g off e opts"
  using assms
proof (induction f off e opts rule: dhcp_parse_options.induct)
  case (1 f off e opts)
  note rd = agree_nth [OF "1.prems"(1)]
  show ?case
  proof (cases "off < e")
    case True
    have b0: "f ! off = g ! off" using rd True "1.prems"(2) by simp
    have b1: "f ! (off + 1) = g ! (off + 1)" if "off + 1 < e" using rd that "1.prems"(2) by simp
    have s: "dhcp_store_option f c (off + 2) k opts = dhcp_store_option g c (off + 2) k opts"
      if "off + 2 + k \<le> e" for c k
      using dhcp_store_option_agree [OF "1.prems"(1), of "off + 2" k] that "1.prems"(2) by simp
    show ?thesis
      using "1.IH" True "1.prems" b0 b1 s
      by (auto simp: dhcp_parse_options.simps [of f off] dhcp_parse_options.simps [of g off] Let_def)
  qed (simp add: dhcp_parse_options.simps)
qed

lemma dhcp_handle_frame_agree:
  assumes "agree (unat len) f g"
  shows "dhcp_handle_ipv4_frame st f len = dhcp_handle_ipv4_frame st g len"
  unfolding dhcp_handle_ipv4_frame_def Let_def
  by (simp add: dhcp_agree_read [OF assms] agree_nth [OF assms] DHCP_BASE_LEN_def
      dhcp_parse_options_agree [OF assms] cong: if_cong)

lemma dhcp_accepted:
  assumes "dhcp_handle_ipv4_frame st frame len = (True, st')"
  defines "boot \<equiv> 14 + 4 * unat (frame ! 14 AND 0x0F) + 8"
  shows "dhcp_waiting st" "dhcp_read_u32_be frame (boot + 4) = dhcp_xid st"
    and "dhcp_waiting st'" "dhcp_xid st' = dhcp_xid st"
    and "dhcp_message_type st' \<in> {DHCPOFFER, DHCPACK}" "dhcp_read_u32_be frame (boot + 16) \<noteq> 0"
    and "dhcp_offered_ip st' = (if dhcp_message_type st' = DHCPOFFER then dhcp_read_u32_be frame (boot + 16) else dhcp_offered_ip st)"
    and "dhcp_ack_ip st' = (if dhcp_message_type st' = DHCPACK then dhcp_read_u32_be frame (boot + 16) else dhcp_ack_ip st)"
    and "boot + 240 \<le> unat len"
  using assms(1)
  by (auto simp: dhcp_handle_ipv4_frame_def Let_def DHCP_BASE_LEN_def dhcp_option_codes boot_def mult.commute
      split: if_splits)

lemma dhcp_rejected:
  assumes "dhcp_handle_ipv4_frame st frame len = (False, st')"
  shows "st' = st"
  using assms by (auto simp: dhcp_handle_ipv4_frame_def Let_def split: if_splits)

section \<open>The option list\<close>

lemma dhcp_parse_step:
  assumes "frame ! off = code" "code \<noteq> DHCP_OPTION_PAD" "code \<noteq> DHCP_OPTION_END"
    and "unat (frame ! (off + 1)) = n" "off + 2 + n \<le> e"
  shows "dhcp_parse_options frame off e opts =
    dhcp_parse_options frame (off + 2 + n) e (dhcp_store_option frame code (off + 2) n opts)"
  using assms by (simp add: dhcp_parse_options.simps [of frame off])

lemma dhcp_parse_pad:
  "frame ! off = DHCP_OPTION_PAD \<Longrightarrow> off < e \<Longrightarrow>
    dhcp_parse_options frame off e opts = dhcp_parse_options frame (off + 1) e opts"
  by (simp add: dhcp_parse_options.simps [of frame off])

lemma dhcp_parse_end: "frame ! off = DHCP_OPTION_END \<Longrightarrow> dhcp_parse_options frame off e opts = opts"
  by (simp add: dhcp_parse_options.simps [of frame off] dhcp_option_codes)

abbreviation no_options :: dhcp_options where
  "no_options \<equiv> \<lparr>opt_msg_type = 0, opt_server_ip = 0, opt_netmask = 0, opt_gateway = 0, opt_dns = 0, opt_lease = 0\<rparr>"

text \<open>
  C37: the handler of received frames reads nothing beyond the received bytes, changes nothing
  unless it accepts the frame, and accepts only an offer or acknowledgement with a non-zero
  address that carries the transaction number of a request still outstanding.
\<close>

theorem dhcp_handler_safe:
  assumes "agree (unat len) frame frame'" "dhcp_handle_ipv4_frame st frame len = (ok, st')"
  shows "dhcp_handle_ipv4_frame st frame' len = (ok, st') \<and>
    (if ok then
       dhcp_waiting st \<and>
       dhcp_read_u32_be frame (14 + 4 * unat (frame ! 14 AND 0x0F) + 8 + 4) = dhcp_xid st \<and>
       (dhcp_message_type st' = DHCPOFFER \<and> dhcp_offered_ip st' \<noteq> 0 \<and> dhcp_ack_ip st' = dhcp_ack_ip st \<or>
        dhcp_message_type st' = DHCPACK \<and> dhcp_ack_ip st' \<noteq> 0 \<and> dhcp_offered_ip st' = dhcp_offered_ip st)
     else st' = st)"
proof (cases ok)
  case True
  with assms(2) have "dhcp_handle_ipv4_frame st frame len = (True, st')" by simp
  note acc = dhcp_accepted [OF this]
  have "DHCPOFFER \<noteq> DHCPACK" by (simp add: DHCPOFFER_def DHCPACK_def)
  then show ?thesis using True assms acc dhcp_handle_frame_agree [OF assms(1)] by auto
next
  case False
  then show ?thesis using assms dhcp_rejected dhcp_handle_frame_agree [OF assms(1)] by simp
qed

definition dhcp_idle :: dhcp where
  "dhcp_idle = \<lparr>dhcp_waiting = True, dhcp_xid = 7, dhcp_offered_ip = 0, dhcp_server_ip = 0, dhcp_ack_ip = 0,
     dhcp_netmask = 0, dhcp_gateway = 0, dhcp_dns = 0, dhcp_lease_seconds = 0, dhcp_message_type = 0\<rparr>"

text \<open>An offer of 10.0.2.15 by 10.0.2.2 for transaction 7.\<close>

definition sample_offer :: "u8 list" where
  "sample_offer = replicate 12 0 @ [8, 0, 0x45] @ replicate 8 0 @ [17] @ replicate 10 0 @
     [0, 67, 0, 68, 1, 8, 0, 0] @
     [2, 1, 6, 0, 0, 0, 0, 7] @ replicate 8 0 @ [10, 0, 2, 15] @ replicate 216 0 @ [0x63, 0x82, 0x53, 0x63] @
     [0, 53, 1, 2, 54, 4, 10, 0, 2, 2, 255, 0, 0, 0, 0, 0]"

lemma sample_offer_fields:
  "length sample_offer = 298" "sample_offer ! 14 = 0x45" "sample_offer ! 23 = 17"
  "dhcp_read_u16_be sample_offer 12 = 0x0800" "dhcp_read_u16_be sample_offer 34 = 67"
  "dhcp_read_u16_be sample_offer 36 = 68" "dhcp_read_u16_be sample_offer 38 = 264"
  "sample_offer ! 42 = 2" "sample_offer ! 43 = 1" "sample_offer ! 44 = 6"
  "dhcp_read_u32_be sample_offer 46 = 7" "dhcp_read_u32_be sample_offer 58 = 0x0A00020F"
  "dhcp_read_u32_be sample_offer 278 = 0x63825363"
  by (simp_all add: sample_offer_def dhcp_read_u16_be_def dhcp_read_u32_be_def nth_append)

lemma sample_offer_options:
  "dhcp_parse_options sample_offer 282 298 no_options = no_options\<lparr>opt_msg_type := DHCPOFFER, opt_server_ip := 0x0A000202\<rparr>"
proof -
  have b: "sample_offer ! 282 = 0" "sample_offer ! 283 = 53" "sample_offer ! 284 = 1" "sample_offer ! 285 = 2"
    "sample_offer ! 286 = 54" "sample_offer ! 287 = 4" "dhcp_read_u32_be sample_offer 288 = 0x0A000202"
    "sample_offer ! 292 = 255"
    by (simp_all add: sample_offer_def dhcp_read_u32_be_def nth_append)
  note parse = dhcp_parse_pad [of sample_offer 282] dhcp_parse_step [of sample_offer 283 53 1]
    dhcp_parse_step [of sample_offer 286 54 4] dhcp_parse_end [of sample_offer 292]
  show ?thesis using b by (simp add: parse dhcp_store_option_def dhcp_option_codes)
qed

lemma sample_offer_accepted:
  "dhcp_handle_ipv4_frame dhcp_idle sample_offer 298 =
     (True, dhcp_idle\<lparr>dhcp_message_type := DHCPOFFER, dhcp_offered_ip := 0x0A00020F, dhcp_server_ip := 0x0A000202,
        dhcp_netmask := 0xFFFFFF00\<rparr>)"
  unfolding dhcp_handle_ipv4_frame_def
  by (simp add: sample_offer_fields sample_offer_options dhcp_idle_def DHCP_BASE_LEN_def DHCP_ETHERTYPE_IPV4_def
      DHCP_IPV4_PROTO_UDP_def DHCP_SERVER_PORT_def DHCP_CLIENT_PORT_def DHCP_BOOTREPLY_def DHCP_HTYPE_ETHERNET_def
      DHCP_HLEN_ETHERNET_def DHCP_MAGIC_COOKIE_def)

theorem dhcp_handler_safe_witness:
  "dhcp_handle_ipv4_frame dhcp_idle (sample_offer @ [1, 2, 3]) 298 =
     (True, dhcp_idle\<lparr>dhcp_message_type := DHCPOFFER, dhcp_offered_ip := 0x0A00020F, dhcp_server_ip := 0x0A000202,
        dhcp_netmask := 0xFFFFFF00\<rparr>) \<and> dhcp_waiting dhcp_idle"
proof -
  have "agree (unat (298 :: u32)) sample_offer (sample_offer @ [1, 2, 3])"
    by (simp add: agree_def nth_append sample_offer_fields(1))
  from dhcp_handler_safe [OF this sample_offer_accepted] show ?thesis by simp
qed

section \<open>The messages sent\<close>

lemma build_ipv4_udp_header_spec:
  assumes len: "42 \<le> length frame"
  obtains f where "build_ipv4_udp_header frame src udp_len ident = Some f" "length f = length frame"
    "ipv4_checksum16 (drop 14 f) 20 = Some 0" "ipv4_read_u16_be f 16 = of_nat (20 + udp_len)"
    "ipv4_read_u16_be f 34 = DHCP_CLIENT_PORT" "ipv4_read_u16_be f 36 = DHCP_SERVER_PORT"
    "ipv4_read_u16_be f 38 = of_nat udp_len" "\<And>i. 42 \<le> i \<Longrightarrow> f ! i = frame ! i"
proof -
  note be = ipv4_be.codec
  let ?f1 = "(ipv4_write_u16_be frame 12 DHCP_ETHERTYPE_IPV4)[14 := DHCP_IPV4_VERSION_IHL, 15 := 0]"
  let ?f2 = "ipv4_write_u16_be (ipv4_write_u16_be (ipv4_write_u16_be ?f1 16 (of_nat (20 + udp_len))) 18 ident) 20 0"
  let ?f3 = "ipv4_write_u16_be (?f2[22 := DHCP_IPV4_TTL, 23 := DHCP_IPV4_PROTO_UDP]) 24 0"
  define h where "h = ipv4_write_u32_be (ipv4_write_u32_be ?f3 26 src) 30 0xFFFFFFFF"
  have lh: "length h = length frame" by (simp add: h_def be)
  have h: "h ! 14 \<noteq> 0" "ipv4_read_u16_be h 24 = 0"
    using len by (simp_all add: h_def be DHCP_IPV4_VERSION_IHL_def)
  obtain c where c: "ipv4_checksum16 (drop 14 h) 20 = Some c"
    and ok: "ipv4_checksum16 (drop 14 (ipv4_write_u16_be h 24 c)) 20 = Some 0"
    by (rule header_checksum [OF _ h]) (use lh len in simp_all)
  define f where "f = ipv4_write_u16_be (ipv4_write_u16_be (ipv4_write_u16_be (ipv4_write_u16_be
      (ipv4_write_u16_be h 24 c) 34 DHCP_CLIENT_PORT) 36 DHCP_SERVER_PORT) 38 (of_nat udp_len)) 40 0"
  have "build_ipv4_udp_header frame src udp_len ident = Some f"
    using c by (simp add: build_ipv4_udp_header_def dhcp_copies Let_def h_def f_def)
  moreover have "ipv4_checksum16 (drop 14 f) 20 = ipv4_checksum16 (drop 14 (ipv4_write_u16_be h 24 c)) 20"
    using len lh by (intro checksum_cong nth_equalityI) (auto simp: f_def be)
  moreover have "ipv4_read_u16_be f 16 = of_nat (20 + udp_len)" using len by (simp add: f_def h_def be)
  moreover have "f ! i = frame ! i" if "42 \<le> i" for i using that by (simp add: f_def h_def be)
  ultimately show ?thesis using len lh ok by (intro that [of f]) (simp_all add: f_def be)
qed

lemma build_bootp_base_spec:
  assumes len: "282 \<le> length frame"
  shows "length (build_bootp_base mac frame xid a) = length frame"
    "ipv4_read_u32_be (build_bootp_base mac frame xid a) 46 = xid"
    "ipv4_read_u32_be (build_bootp_base mac frame xid a) 58 = a"
    "copy6 (build_bootp_base mac frame xid a) 70 = copy6 mac 0"
    "ipv4_read_u32_be (build_bootp_base mac frame xid a) 278 = DHCP_MAGIC_COOKIE"
proof -
  have w: "copy6 (ipv4_write_u32_be buf off w) o' = copy6 buf o'" if "o' + 6 \<le> off \<or> off + 4 \<le> o'" for buf off w o'
    using that by (intro copy6_cong) (auto intro!: ipv4_be.nth_write32)
  note def = build_bootp_base_def Let_def dhcp_copies
  show "length (build_bootp_base mac frame xid a) = length frame"
    "ipv4_read_u32_be (build_bootp_base mac frame xid a) 46 = xid"
    "ipv4_read_u32_be (build_bootp_base mac frame xid a) 58 = a"
    "ipv4_read_u32_be (build_bootp_base mac frame xid a) 278 = DHCP_MAGIC_COOKIE"
    using len by (simp_all add: def ipv4_be.codec)
  show "copy6 (build_bootp_base mac frame xid a) 70 = copy6 mac 0"
    using len by (simp add: def w copy6_put_same ipv4_be.codec)
qed

lemma build_defined:
  "\<exists>f n. build_discover mac xid = Some (f, n)" "\<exists>f n. build_request mac xid rip sip = Some (f, n)"
proof -
  have *: "\<exists>h. build_ipv4_udp_header (build_bootp_base mac (replicate 590 0) xid a) src len ident = Some h" for a src len ident
    by (rule build_ipv4_udp_header_spec [of "build_bootp_base mac (replicate 590 0) xid a" src len ident])
      (simp_all add: build_bootp_base_spec)
  show "\<exists>f n. build_discover mac xid = Some (f, n)"
    using * [of 0 0 294 "0x4448"] by (auto simp: build_discover_def dhcp_sizes split: prod.split)
  show "\<exists>f n. build_request mac xid rip sip = Some (f, n)"
    using * [of rip 0 306 "0x4452"] by (auto simp: build_request_def dhcp_sizes split: prod.split)
qed

definition put_request_options :: "u8 list \<Rightarrow> u32 \<Rightarrow> u32 \<Rightarrow> u8 list" where
  "put_request_options h rip sip =
     (ipv4_write_u32_be ((ipv4_write_u32_be (h[282 := DHCP_OPTION_MESSAGE_TYPE, 283 := 1, 284 := DHCPREQUEST,
      285 := DHCP_OPTION_REQUESTED_IP, 286 := 4]) 287 rip)[291 := DHCP_OPTION_SERVER_ID, 292 := 4]) 293 sip)
      [297 := DHCP_OPTION_PARAM_REQUEST, 298 := 4, 299 := DHCP_OPTION_SUBNET_MASK, 300 := DHCP_OPTION_ROUTER,
       301 := DHCP_OPTION_DNS, 302 := DHCP_OPTION_LEASE_TIME, 303 := DHCP_OPTION_END]"

lemma request_options:
  fixes rip sip :: u32
  assumes len: "length h = 590"
  defines "g \<equiv> put_request_options h rip sip"
  shows "length g = 590" "i < 282 \<Longrightarrow> g ! i = h ! i" "g ! 285 = DHCP_OPTION_REQUESTED_IP"
    "ipv4_read_u32_be g 287 = rip"
    "dhcp_parse_options g 282 340 no_options = no_options\<lparr>opt_msg_type := DHCPREQUEST, opt_server_ip := sip\<rparr>"
proof -
  note be = ipv4_be.codec
  show l: "length g = 590" by (simp add: g_def put_request_options_def len be)
  show "i < 282 \<Longrightarrow> g ! i = h ! i" by (simp add: g_def put_request_options_def be)
  show rip: "g ! 285 = DHCP_OPTION_REQUESTED_IP" "ipv4_read_u32_be g 287 = rip" by (simp_all add: g_def put_request_options_def be len)
  have b: "g ! 282 = DHCP_OPTION_MESSAGE_TYPE" "g ! 283 = 1" "g ! 284 = DHCPREQUEST" "g ! 286 = 4"
    "g ! 291 = DHCP_OPTION_SERVER_ID" "g ! 292 = 4" "ipv4_read_u32_be g 293 = sip"
    "g ! 297 = DHCP_OPTION_PARAM_REQUEST" "g ! 298 = 4" "g ! 303 = DHCP_OPTION_END"
    by (simp_all add: g_def put_request_options_def be len)
  note parse = dhcp_parse_step [of g 282 DHCP_OPTION_MESSAGE_TYPE 1] dhcp_parse_step [of g 285 DHCP_OPTION_REQUESTED_IP 4]
    dhcp_parse_step [of g 291 DHCP_OPTION_SERVER_ID 4] dhcp_parse_step [of g 297 DHCP_OPTION_PARAM_REQUEST 4]
    dhcp_parse_end [of g 303]
  show "dhcp_parse_options g 282 340 no_options = no_options\<lparr>opt_msg_type := DHCPREQUEST, opt_server_ip := sip\<rparr>"
    using b rip by (simp add: parse dhcp_store_option_def dhcp_copies dhcp_option_codes)
qed

text \<open>
  the request the client sends is a well-formed message. Its IPv4 header verifies, the
  lengths of the IP and UDP headers cover the frame, it carries the transaction number, the
  card's address, the cookie and the address requested, and the client's own option parser
  reads back the message type and the chosen server.
\<close>

theorem dhcp_request_wellformed:
  assumes "length mac = 6"
  shows "\<exists>f. build_request mac xid rip sip = Some (f, 340) \<and> length f = 590 \<and>
    dhcp_checksum16 (drop 14 f) 20 = Some 0 \<and> dhcp_read_u16_be f 16 = 326 \<and> dhcp_read_u16_be f 38 = 306 \<and>
    dhcp_read_u32_be f 46 = xid \<and> copy6 f 70 = mac \<and> dhcp_read_u32_be f 278 = DHCP_MAGIC_COOKIE \<and>
    f ! 285 = DHCP_OPTION_REQUESTED_IP \<and> dhcp_read_u32_be f 287 = rip \<and>
    dhcp_parse_options f 282 340 no_options = no_options\<lparr>opt_msg_type := DHCPREQUEST, opt_server_ip := sip\<rparr>"
proof -
  let ?b = "build_bootp_base mac (replicate 590 0) xid rip"
  have lb: "length ?b = 590" by (simp add: build_bootp_base_spec)
  obtain h where h: "build_ipv4_udp_header ?b 0 306 0x4452 = Some h" "length h = length ?b"
    "ipv4_checksum16 (drop 14 h) 20 = Some 0" "ipv4_read_u16_be h 16 = of_nat (20 + 306)"
    "ipv4_read_u16_be h 38 = of_nat 306" "\<And>i. 42 \<le> i \<Longrightarrow> h ! i = ?b ! i"
    by (rule build_ipv4_udp_header_spec [of ?b 0 306 "0x4452"]) (use lb in simp_all)
  have lh: "length h = 590" using h(2) lb by simp
  note opts = request_options [OF lh, where rip = rip and sip = sip]
  define g where "g = put_request_options h rip sip"
  note opts = opts [folded g_def]
  have built: "build_request mac xid rip sip = Some (g, 340)"
    using h(1) by (simp add: build_request_def dhcp_sizes add_option_u8_def add_option_u32_def
        add_param_request_def dhcp_copies g_def put_request_options_def)
  have ag: "agree 282 g h" using opts(2) by (simp add: agree_def)
  have r: "ipv4_read_u16_be g 16 = 326" "ipv4_read_u16_be g 38 = 306"
    using h(4,5) agree_read16 [OF ag] by (simp_all add: read_copies)
  have hb: "ipv4_read_u32_be h off = ipv4_read_u32_be ?b off" "copy6 h off = copy6 ?b off" if "42 \<le> off" for off
    using that h(6) by (auto intro!: ipv4_be.read32_cong copy6_cong)
  have f: "ipv4_read_u32_be g 46 = xid" "ipv4_read_u32_be g 278 = DHCP_MAGIC_COOKIE" "copy6 g 70 = mac"
    using agree_read32 [OF ag] agree_copy6 [OF ag] hb assms
    by (simp_all add: read_copies build_bootp_base_spec copy6_id)
  have "ipv4_checksum16 (drop 14 g) 20 = ipv4_checksum16 (drop 14 h) 20"
    using opts(1,2) lh by (intro checksum_cong nth_equalityI) auto
  then show ?thesis using built opts r f h(3) by (simp add: dhcp_copies)
qed

theorem dhcp_request_wellformed_witness:
  "\<exists>f. build_request [1, 2, 3, 4, 5, 6] 0x534D0001 0x0A00020F 0x0A000202 = Some (f, 340) \<and> length f = 590 \<and>
    dhcp_checksum16 (drop 14 f) 20 = Some 0 \<and>
    dhcp_parse_options f 282 340 no_options = no_options\<lparr>opt_msg_type := DHCPREQUEST, opt_server_ip := 0x0A000202\<rparr>"
  using dhcp_request_wellformed [of "[1, 2, 3, 4, 5, 6]" "0x534D0001" "0x0A00020F" "0x0A000202"] by auto

end
