(* ===== verification/Ntp.thy ===== *)
theory Ntp
  imports Arp
begin

text \<open>
  The NTP client, \<^verbatim>\<open>src/drivers/ntp.c\<close>: the request it builds and its handler for received
  replies. The exchange, which polls the card, is in \<open>Net\<close>. Offsets into a frame are natural
  numbers, fields keep their width.
\<close>

definition NTP_ETHERTYPE_IPV4 :: u16 where "NTP_ETHERTYPE_IPV4 = 0x0800"
definition NTP_IPV4_VERSION_IHL :: u8 where "NTP_IPV4_VERSION_IHL = 0x45"
definition NTP_IPV4_TTL :: u8 where "NTP_IPV4_TTL = 64"
definition NTP_IPV4_PROTO_UDP :: u8 where "NTP_IPV4_PROTO_UDP = 17"
definition NTP_LOCAL_PORT :: u16 where "NTP_LOCAL_PORT = 49123"
definition NTP_SERVER_PORT :: u16 where "NTP_SERVER_PORT = 123"
definition NTP_PACKET_LEN :: nat where "NTP_PACKET_LEN = 48"
definition NTP_UNIX_EPOCH_DELTA :: u32 where "NTP_UNIX_EPOCH_DELTA = 2208988800"

lemmas ntp_consts = NTP_ETHERTYPE_IPV4_def NTP_IPV4_VERSION_IHL_def NTP_IPV4_TTL_def
  NTP_IPV4_PROTO_UDP_def NTP_LOCAL_PORT_def NTP_SERVER_PORT_def NTP_PACKET_LEN_def NTP_UNIX_EPOCH_DELTA_def

record ntp =
  ntp_waiting :: bool
  ntp_got_reply :: bool
  ntp_server_ip :: u32
  ntp_unix_time :: u32

definition ntp_write_u16_be :: "u8 list \<Rightarrow> nat \<Rightarrow> u16 \<Rightarrow> u8 list" where
  "ntp_write_u16_be buf off v = buf[off := ucast (drop_bit 8 v), off + 1 := ucast (v AND 0xFF)]"

definition ntp_write_u32_be :: "u8 list \<Rightarrow> nat \<Rightarrow> u32 \<Rightarrow> u8 list" where
  "ntp_write_u32_be buf off v =
     buf[off := ucast (drop_bit 24 v AND 0xFF), off + 1 := ucast (drop_bit 16 v AND 0xFF),
         off + 2 := ucast (drop_bit 8 v AND 0xFF), off + 3 := ucast (v AND 0xFF)]"

definition ntp_read_u16_be :: "u8 list \<Rightarrow> nat \<Rightarrow> u16" where
  "ntp_read_u16_be buf off = push_bit 8 (ucast (buf ! off)) OR ucast (buf ! (off + 1))"

definition ntp_read_u32_be :: "u8 list \<Rightarrow> nat \<Rightarrow> u32" where
  "ntp_read_u32_be buf off =
     push_bit 24 (ucast (buf ! off)) OR push_bit 16 (ucast (buf ! (off + 1))) OR
     push_bit 8 (ucast (buf ! (off + 2))) OR ucast (buf ! (off + 3))"

definition ntp_checksum16 :: "u8 list \<Rightarrow> u32 \<Rightarrow> u16 option" where
  "ntp_checksum16 data len =
     (if unat len \<le> length data
      then Some (ucast (NOT (csum_fold (csum_words (take (unat len) data) 0)))) else None)"

text \<open>\<open>src_mac\<close> is \<^verbatim>\<open>nic_mac()\<close> and \<open>local_ip\<close> is \<^verbatim>\<open>net_ipv4_local_ip()\<close>.\<close>

definition ntp_build_request :: "u8 list \<Rightarrow> u8 list \<Rightarrow> u32 \<Rightarrow> u32 \<Rightarrow> u8 list option" where
  "ntp_build_request src_mac dst_mac local_ip server_ip =
     do {
       let total_len = (of_nat (20 + 8 + NTP_PACKET_LEN) :: u16);
       let frame = replicate (14 + 20 + 8 + NTP_PACKET_LEN) 0;
       let frame = put_bytes frame 0 (copy6 dst_mac 0);
       let frame = put_bytes frame 6 (copy6 src_mac 0);
       let frame = ntp_write_u16_be frame 12 NTP_ETHERTYPE_IPV4;
       let frame = frame[14 := NTP_IPV4_VERSION_IHL];
       let frame = ntp_write_u16_be frame 16 total_len;
       let frame = ntp_write_u16_be frame 18 0x4E54;
       let frame = ntp_write_u16_be frame 20 0x4000;
       let frame = frame[22 := NTP_IPV4_TTL];
       let frame = frame[23 := NTP_IPV4_PROTO_UDP];
       let frame = ntp_write_u32_be frame 26 local_ip;
       let frame = ntp_write_u32_be frame 30 server_ip;
       c \<leftarrow> ntp_checksum16 (drop 14 frame) 20;
       let frame = ntp_write_u16_be frame 24 c;
       let frame = ntp_write_u16_be frame 34 NTP_LOCAL_PORT;
       let frame = ntp_write_u16_be frame 36 NTP_SERVER_PORT;
       let frame = ntp_write_u16_be frame 38 (of_nat (8 + NTP_PACKET_LEN));
       let frame = ntp_write_u16_be frame 40 0;
       Some (frame[42 := 0x1B])
     }"

definition ntp_handle_ipv4_frame :: "net_ipv4_config \<Rightarrow> ntp \<Rightarrow> u8 list \<Rightarrow> u32 \<Rightarrow> bool \<times> ntp" where
  "ntp_handle_ipv4_frame cfg st frame len =
     (let flen = unat len in
      if \<not> ntp_waiting st \<or> flen < 14 + 20 + 8 + NTP_PACKET_LEN then (False, st)
      else if ntp_read_u16_be frame 12 \<noteq> NTP_ETHERTYPE_IPV4 then (False, st)
      else if drop_bit 4 (frame ! 14) \<noteq> 4 \<or> frame ! 14 AND 0x0F < 5 then (False, st)
      else
        let header_len = unat (frame ! 14 AND 0x0F) * 4 in
        if flen < 14 + header_len + 8 + NTP_PACKET_LEN then (False, st)
        else if frame ! 23 \<noteq> NTP_IPV4_PROTO_UDP then (False, st)
        else if ntp_read_u32_be frame 26 \<noteq> ntp_server_ip st then (False, st)
        else if ntp_read_u32_be frame 30 \<noteq> net_ipv4_local_ip cfg then (False, st)
        else
          let udp_off = 14 + header_len in
          if ntp_read_u16_be frame udp_off \<noteq> NTP_SERVER_PORT then (False, st)
          else if ntp_read_u16_be frame (udp_off + 2) \<noteq> NTP_LOCAL_PORT then (False, st)
          else
            let udp_len = unat (ntp_read_u16_be frame (udp_off + 4)) in
            if udp_len < 8 + NTP_PACKET_LEN \<or> flen < udp_off + udp_len then (False, st)
            else
              let ntp_seconds = ntp_read_u32_be frame (udp_off + 8 + 40) in
              if ntp_seconds < NTP_UNIX_EPOCH_DELTA then (False, st)
              else (True, st\<lparr>ntp_unix_time := ntp_seconds - NTP_UNIX_EPOCH_DELTA, ntp_got_reply := True\<rparr>))"

section \<open>Bounds and meaning\<close>

lemma ntp_copies:
  "ntp_write_u16_be = ipv4_write_u16_be" "ntp_write_u32_be = ipv4_write_u32_be"
  "ntp_read_u16_be = ipv4_read_u16_be" "ntp_read_u32_be = ipv4_read_u32_be"
  "ntp_checksum16 = ipv4_checksum16"
  by (simp_all add: fun_eq_iff ntp_write_u16_be_def ipv4_write_u16_be_def ntp_write_u32_be_def
      ipv4_write_u32_be_def ntp_read_u16_be_def ipv4_read_u16_be_def ntp_read_u32_be_def
      ipv4_read_u32_be_def ntp_checksum16_def ipv4_checksum16_def)

lemma ntp_agree_read:
  "agree n f g \<Longrightarrow> off + 2 \<le> n \<Longrightarrow> ntp_read_u16_be f off = ntp_read_u16_be g off"
  "agree n f g \<Longrightarrow> off + 4 \<le> n \<Longrightarrow> ntp_read_u32_be f off = ntp_read_u32_be g off"
  using agree_read16 [of n f g off] agree_read32 [of n f g off] by (simp_all add: ntp_copies read_copies)

lemma ntp_handle_frame_agree:
  assumes "agree (unat len) f g"
  shows "ntp_handle_ipv4_frame cfg st f len = ntp_handle_ipv4_frame cfg st g len"
  unfolding ntp_handle_ipv4_frame_def Let_def
  by (simp add: ntp_agree_read [OF assms] agree_nth [OF assms] NTP_PACKET_LEN_def cong: if_cong)

lemma ntp_accepted:
  assumes "ntp_handle_ipv4_frame cfg st frame len = (True, st')"
  defines "ntp_off \<equiv> 14 + 4 * unat (frame ! 14 AND 0x0F) + 8"
  shows "ntp_waiting st" "ntp_read_u32_be frame 26 = ntp_server_ip st" "ntp_off + 48 \<le> unat len"
    and "ntp_read_u32_be frame (ntp_off + 40) \<ge> NTP_UNIX_EPOCH_DELTA"
    and "st' = st\<lparr>ntp_unix_time := ntp_read_u32_be frame (ntp_off + 40) - NTP_UNIX_EPOCH_DELTA, ntp_got_reply := True\<rparr>"
  using assms(1)
  by (auto simp: ntp_handle_ipv4_frame_def Let_def NTP_PACKET_LEN_def ntp_off_def mult.commute split: if_splits)

lemma ntp_rejected: "ntp_handle_ipv4_frame cfg st frame len = (False, st') \<Longrightarrow> st' = st"
  by (auto simp: ntp_handle_ipv4_frame_def Let_def split: if_splits)

lemma ntp_request_defined: "ntp_build_request src_mac dst_mac local_ip server_ip \<noteq> None"
  by (simp add: ntp_build_request_def ntp_copies ipv4_checksum16_def NTP_PACKET_LEN_def ipv4_be.codec Let_def)

text \<open>
  C38: a time that the client takes over is the transmit time of a packet received in full from
  the server it asked, converted without wrap-around from the NTP epoch to the Unix epoch; any
  other packet, and any byte after the received ones, changes nothing.
\<close>

theorem ntp_time_correct:
  assumes "agree (unat len) frame frame'" "ntp_handle_ipv4_frame cfg st frame len = (ok, st')"
  shows "ntp_handle_ipv4_frame cfg st frame' len = (ok, st') \<and>
    (if ok then
       ntp_waiting st \<and> ntp_read_u32_be frame 26 = ntp_server_ip st \<and> ntp_got_reply st' \<and>
       unat (ntp_unix_time st') + 2208988800 = unat (ntp_read_u32_be frame (14 + 4 * unat (frame ! 14 AND 0x0F) + 8 + 40)) \<and>
       14 + 4 * unat (frame ! 14 AND 0x0F) + 8 + 48 \<le> unat len
     else st' = st)"
proof (cases ok)
  case True
  with assms(2) have "ntp_handle_ipv4_frame cfg st frame len = (True, st')" by simp
  note acc = ntp_accepted [OF this]
  then show ?thesis using True assms ntp_handle_frame_agree [OF assms(1)] acc(4)
    by (auto simp: unat_sub_u32 NTP_UNIX_EPOCH_DELTA_def word_le_nat_alt)
next
  case False
  then show ?thesis using assms ntp_rejected ntp_handle_frame_agree [OF assms(1)] by simp
qed

definition sample_time :: "u8 list" where
  "sample_time = replicate 12 0 @ [8, 0, 0x45] @ replicate 8 0 @ [17, 0, 0, 10, 0, 0, 1, 10, 0, 0, 2] @
     [0, 123, 0xBF, 0xE3, 0, 56, 0, 0] @ replicate 40 0 @ [0x83, 0xAA, 0x7E, 0x81] @ replicate 4 0"

definition ntp_asked :: ntp where
  "ntp_asked = \<lparr>ntp_waiting = True, ntp_got_reply = False, ntp_server_ip = 0x0A000001, ntp_unix_time = 0\<rparr>"

lemma sample_time_accepted:
  "ntp_handle_ipv4_frame (net_ipv4_configure 0x0A000002 0 0 0 0 0) ntp_asked sample_time 90 =
     (True, ntp_asked\<lparr>ntp_unix_time := 1, ntp_got_reply := True\<rparr>)"
  by (simp add: ntp_handle_ipv4_frame_def sample_time_def ntp_asked_def ntp_read_u16_be_def ntp_read_u32_be_def
      nth_append ntp_consts net_ipv4_local_ip_def net_ipv4_configure_def)

theorem ntp_time_correct_witness:
  "ntp_handle_ipv4_frame (net_ipv4_configure 0x0A000002 0 0 0 0 0) ntp_asked (sample_time @ [5]) 90 =
     (True, ntp_asked\<lparr>ntp_unix_time := 1, ntp_got_reply := True\<rparr>)"
proof -
  have "length sample_time = 90" by (simp add: sample_time_def)
  then have "agree (unat (90 :: u32)) sample_time (sample_time @ [5])" by (simp add: agree_def nth_append)
  from ntp_time_correct [OF this sample_time_accepted] show ?thesis by simp
qed

end
