(* ===== verification/Timer.thy ===== *)
theory Timer
  imports Prelude
begin

text \<open>
  The tick counter (\<^verbatim>\<open>src/kernel/timer.c\<close>, \<^verbatim>\<open>uapi_time.h\<close>): seconds since start, the wall clock set by NTP, and the
  conversion of milliseconds to ticks. The statics are the record \<open>timer\<close>; programming the interval
  timer is the pair of bytes written to its port.
\<close>

definition SMALLOS_TIMER_HZ :: u32 where "SMALLOS_TIMER_HZ = 300"
definition SMALLOS_MS_PER_SECOND :: u32 where "SMALLOS_MS_PER_SECOND = 1000"

record timer =
  timer_ticks :: u32
  timer_hz :: u32
  realtime_base_seconds :: u32

definition timer_init :: "u32 \<Rightarrow> timer \<Rightarrow> timer \<times> u8 list" where
  "timer_init frequency t =
     (let frequency = (if frequency = 0 then SMALLOS_TIMER_HZ else frequency);
          divisor = 1193180 div frequency
      in (t\<lparr>timer_hz := frequency\<rparr>, [0x36, ucast (divisor AND 0xFF), ucast (drop_bit 8 divisor AND 0xFF)]))"

definition timer_handle_irq :: "timer \<Rightarrow> timer" where
  "timer_handle_irq t = t\<lparr>timer_ticks := timer_ticks t + 1\<rparr>"

definition timer_get_seconds :: "timer \<Rightarrow> u32" where
  "timer_get_seconds t = (if timer_hz t = 0 then 0 else timer_ticks t div timer_hz t)"

definition timer_get_realtime_seconds :: "timer \<Rightarrow> u32" where
  "timer_get_realtime_seconds t = realtime_base_seconds t + timer_get_seconds t"

definition timer_set_realtime_seconds :: "u32 \<Rightarrow> timer \<Rightarrow> timer" where
  "timer_set_realtime_seconds seconds t = t\<lparr>realtime_base_seconds := seconds - timer_get_seconds t\<rparr>"

definition timer_ms_to_ticks_round_up :: "u32 \<Rightarrow> timer \<Rightarrow> u32" where
  "timer_ms_to_ticks_round_up ms t =
     (if ms = 0 then 0
      else if timer_hz t = 0 then 0
      else
        let whole_seconds = ms div SMALLOS_MS_PER_SECOND;
            rem_ms = ms mod SMALLOS_MS_PER_SECOND;
            ticks = whole_seconds * timer_hz t
        in ticks + (rem_ms * timer_hz t + (SMALLOS_MS_PER_SECOND - 1)) div SMALLOS_MS_PER_SECOND)"

lemma timer_realtime_roundtrip: "timer_get_realtime_seconds (timer_set_realtime_seconds s t) = s"
  by (simp add: timer_get_realtime_seconds_def timer_set_realtime_seconds_def timer_get_seconds_def)

text \<open>
  At any tick rate up to one kilohertz the conversion is the exact ceiling, so a sleep is never shorter than
  asked and longer by less than one tick; nothing wraps around on the way.
\<close>

lemma timer_ms_to_ticks_ceiling:
  assumes "0 < timer_hz t" "timer_hz t \<le> 1000"
  shows "unat (timer_ms_to_ticks_round_up ms t) = (unat ms * unat (timer_hz t) + 999) div 1000"
proof (cases "ms = 0")
  case False
  define m h where "m = unat ms" and "h = unat (timer_hz t)"
  have h: "h \<le> 1000" using assms(2) by (simp add: h_def word_le_nat_alt)
  have m: "m < 4294967296" using unat_u32_bound [of ms] by (simp add: m_def)
  have w: "m div 1000 * h \<le> 4294967 * 1000" using m h by (intro mult_mono) (simp_all add: less_mult_imp_div_less)
  have r: "m mod 1000 * h \<le> 999 * 1000" using h by (intro mult_mono) simp_all
  have "m div 1000 * h + (m mod 1000 * h + 999) div 1000 = (m div 1000 * h * 1000 + (m mod 1000 * h + 999)) div 1000"
    by simp
  also have "m div 1000 * h * 1000 + (m mod 1000 * h + 999) = m * h + 999"
  proof -
    have "m * h = (m div 1000 * 1000 + m mod 1000) * h" by simp
    also have "\<dots> = m div 1000 * h * 1000 + m mod 1000 * h" by (simp only: algebra_simps)
    finally show ?thesis by simp
  qed
  finally have total: "m div 1000 * h + (m mod 1000 * h + 999) div 1000 = (m * h + 999) div 1000" .
  have "(m * h + 999) div 1000 \<le> (m * 1000 + 999) div 1000" using h by (intro div_le_mono) simp
  then have bound: "m div 1000 * h + (m mod 1000 * h + 999) div 1000 < 4294967296"
    unfolding total using m by simp
  have u: "unat (ms div 1000 * timer_hz t) = m div 1000 * h"
    using w by (simp add: unat_mult_u32 unat_div m_def h_def)
  have v: "unat (ms mod 1000 * timer_hz t) = m mod 1000 * h"
    using r by (simp add: unat_mult_u32 unat_mod m_def h_def)
  have v': "unat ((ms mod 1000 * timer_hz t + 999) div 1000) = (m mod 1000 * h + 999) div 1000"
    using r v by (simp add: unat_div unat_add_u32)
  have nz: "timer_hz t \<noteq> 0" using assms(1) by auto
  have "unat (timer_ms_to_ticks_round_up ms t) =
      unat (ms div 1000 * timer_hz t + (ms mod 1000 * timer_hz t + 999) div 1000)"
    using False nz by (simp add: timer_ms_to_ticks_round_up_def SMALLOS_MS_PER_SECOND_def Let_def)
  also have "\<dots> = m div 1000 * h + (m mod 1000 * h + 999) div 1000"
    using bound u v' by (subst unat_add_u32) simp_all
  finally show ?thesis unfolding total by (simp add: m_def h_def)
qed (simp add: timer_ms_to_ticks_round_up_def)

end
