(* ===== verification/Net.thy ===== *)
theory Net
  imports Dhcp Ntp Timer
begin

text \<open>
  The network loop, \<^verbatim>\<open>src/drivers/net.c\<close>, and the exchanges that drive it: address resolution
  (\<^verbatim>\<open>arp_resolve\<close>), ping (\<^verbatim>\<open>ipv4.c\<close>), DHCP and NTP. The static variables of these files are one
  record. Sockets and TCP are parameters of the model: functions on a state of their own, which
  see the bytes they are handed. The tick counter advances between any two of its readings, so it
  is a parameter too, the value of the n-th reading. \<open>None\<close> means that the code leaves a buffer
  or dereferences a null pointer; a loop that waits for the clock and waits forever is \<open>None\<close> as well.
\<close>

section \<open>State\<close>

record ('d, 's) net =
  net_nic :: "'d nic"
  s_net_frame :: "u8 list"
  s_net_poll_locked :: bool
  s_ipv4_config :: net_ipv4_config
  net_arp :: arp
  net_ping :: ping_state
  net_dhcp :: dhcp
  net_ntp :: ntp
  net_upper :: 's
  readings :: nat

record ('d, 's) net_env =
  env_timer :: "nat \<Rightarrow> u32"
  socket_raw_icmp_deliver :: "'s \<Rightarrow> u8 list \<Rightarrow> u32 \<Rightarrow> 's"
  socket_udp_deliver :: "'s \<Rightarrow> u32 \<Rightarrow> u16 \<Rightarrow> u32 \<Rightarrow> u16 \<Rightarrow> u8 list \<Rightarrow> bool \<times> 's"
  tcp_handle_ipv4_frame :: "'s \<Rightarrow> net_ipv4_config \<Rightarrow> 'd nic \<Rightarrow> u8 list \<Rightarrow> u32 \<Rightarrow> 's \<times> 'd nic"

definition NET_ETHERTYPE_ARP :: u16 where "NET_ETHERTYPE_ARP = 0x0806"
definition NET_ETHERTYPE_IPV4 :: u16 where "NET_ETHERTYPE_IPV4 = 0x0800"
definition NET_IPV4_PROTO_ICMP :: u8 where "NET_IPV4_PROTO_ICMP = 1"
definition NET_IPV4_PROTO_TCP :: u8 where "NET_IPV4_PROTO_TCP = 6"
definition NET_IPV4_PROTO_UDP :: u8 where "NET_IPV4_PROTO_UDP = 17"
definition NET_MAX_FRAME :: nat where "NET_MAX_FRAME = 1600"

definition timer_get_ticks :: "('d, 's) net_env \<Rightarrow> ('d, 's) net \<Rightarrow> u32 \<times> ('d, 's) net" where
  "timer_get_ticks e st = (env_timer e (readings st), st\<lparr>readings := Suc (readings st)\<rparr>)"

section \<open>One received frame\<close>

text \<open>A pointer into the frame buffer and a length, handed to another component.\<close>

definition net_slice :: "u8 list \<Rightarrow> nat \<Rightarrow> nat \<Rightarrow> u8 list option" where
  "net_slice frame off n = (if off + n \<le> length frame then Some (take n (drop off frame)) else None)"

definition net_handle_icmp :: "('d, 's) net_env \<Rightarrow> ('d, 's) net \<Rightarrow> u32 \<Rightarrow> ('d, 's) net option" where
  "net_handle_icmp e st len =
     do {
       let frame = s_net_frame st;
       let ihl = unat (frame ! 14 AND 0x0F) * 4;
       let total_len = unat (net_read_u16_be frame 16);
       st \<leftarrow> (if ihl \<ge> 20 \<and> total_len \<ge> ihl + 8 \<and> 14 + total_len \<le> unat len then
               do {
                 payload \<leftarrow> net_slice frame 14 total_len;
                 Some (st\<lparr>net_upper := socket_raw_icmp_deliver e (net_upper st) payload (net_read_u32_be frame 26)\<rparr>)
               }
             else Some st);
       (_, p) \<leftarrow> ipv4_handle_frame (net_ping st) frame len;
       Some (st\<lparr>net_ping := p\<rparr>)
     }"

definition net_handle_udp :: "('d, 's) net_env \<Rightarrow> ('d, 's) net \<Rightarrow> u32 \<Rightarrow> ('d, 's) net option" where
  "net_handle_udp e st len =
     do {
       let frame = s_net_frame st;
       let ihl = unat (frame ! 14 AND 0x0F) * 4;
       let total_len = unat (net_read_u16_be frame 16);
       (delivered, st) \<leftarrow>
         (if ihl \<ge> 20 \<and> total_len \<ge> ihl + 8 \<and> 14 + total_len \<le> unat len then
            let udp_off = 14 + ihl;
                src_port = net_read_u16_be frame udp_off;
                dst_port = net_read_u16_be frame (udp_off + 2);
                udp_len = unat (net_read_u16_be frame (udp_off + 4))
            in if udp_len \<ge> 8 \<and> udp_off + udp_len \<le> unat len then
                 do {
                   payload \<leftarrow> net_slice frame (udp_off + 8) (udp_len - 8);
                   let (ok, s) = socket_udp_deliver e (net_upper st) (net_read_u32_be frame 26) src_port
                                   (net_read_u32_be frame 30) dst_port payload;
                   Some (ok, st\<lparr>net_upper := s\<rparr>)
                 }
               else Some (False, st)
          else Some (False, st));
       if delivered then Some st
       else
         do {
           let (handled, d) = dhcp_handle_ipv4_frame (net_dhcp st) frame len;
           let st = st\<lparr>net_dhcp := d\<rparr>;
           if handled then Some st
           else Some (st\<lparr>net_ntp := snd (ntp_handle_ipv4_frame (s_ipv4_config st) (net_ntp st) frame len)\<rparr>)
         }
     }"

definition net_dispatch :: "('d, 's) net_env \<Rightarrow> ('d, 's) net \<Rightarrow> u32 \<Rightarrow> ('d, 's) net option" where
  "net_dispatch e st len =
     (let frame = s_net_frame st;
          ether_type = net_read_u16_be frame 12
      in if ether_type = NET_ETHERTYPE_ARP then
           do {
             (_, n, a) \<leftarrow> arp_handle_frame (s_ipv4_config st) (net_nic st) (net_arp st) frame len;
             Some (st\<lparr>net_nic := n, net_arp := a\<rparr>)
           }
         else if ether_type = NET_ETHERTYPE_IPV4 \<and> len \<ge> 34 then
           if frame ! 23 = NET_IPV4_PROTO_ICMP then net_handle_icmp e st len
           else if frame ! 23 = NET_IPV4_PROTO_TCP then
             let (s, n) = tcp_handle_ipv4_frame e (net_upper st) (s_ipv4_config st) (net_nic st) frame len
             in Some (st\<lparr>net_nic := n, net_upper := s\<rparr>)
           else if frame ! 23 = NET_IPV4_PROTO_UDP then net_handle_udp e st len
           else Some st
         else Some st)"

definition net_poll_once :: "('d, 's) net_env \<Rightarrow> ('d, 's) net \<Rightarrow> (bool \<times> ('d, 's) net) option" where
  "net_poll_once e st =
     (if s_net_poll_locked st then Some (False, st)
      else
        let st = st\<lparr>s_net_poll_locked := True\<rparr> in
        case nic_recv (net_nic st) (s_net_frame st) of
          (None, n) \<Rightarrow> Some (False, st\<lparr>net_nic := n, s_net_poll_locked := False\<rparr>)
        | (Some (frame, len), n) \<Rightarrow>
            let st = st\<lparr>net_nic := n, s_net_frame := frame\<rparr> in
            if len < 14 then Some (True, st\<lparr>s_net_poll_locked := False\<rparr>)
            else
              do {
                st \<leftarrow> net_dispatch e st len;
                Some (True, st\<lparr>s_net_poll_locked := False\<rparr>)
              })"

text \<open>The loop runs at most \<open>max_frames\<close> times: recursion on the frames left.\<close>

fun net_poll_drain_budget :: "('d, 's) net_env \<Rightarrow> nat \<Rightarrow> ('d, 's) net \<Rightarrow> (nat \<times> ('d, 's) net) option" where
  "net_poll_drain_budget e 0 st = Some (0, st)"
| "net_poll_drain_budget e (Suc left) st =
     do {
       (polled, st) \<leftarrow> net_poll_once e st;
       if polled then
         do {
           (frames, st) \<leftarrow> net_poll_drain_budget e left st;
           Some (frames + 1, st)
         }
       else Some (0, st)
     }"

partial_function (option) net_poll_drain :: "('d, 's) net_env \<Rightarrow> ('d, 's) net \<Rightarrow> ('d, 's) net option" where
  "net_poll_drain e st =
     do {
       (frames, st) \<leftarrow> net_poll_drain_budget e 32 st;
       if frames = 32 then net_poll_drain e st else Some st
     }"

section \<open>Address resolution\<close>

fun arp_poll :: "('d, 's) net_env \<Rightarrow> nat \<Rightarrow> u32 \<Rightarrow> u32 \<Rightarrow> ('d, 's) net \<Rightarrow> (u8 list option \<times> ('d, 's) net) option" where
  "arp_poll e 0 sender_ip target_ip st = Some (None, st)"
| "arp_poll e (Suc left) sender_ip target_ip st =
     (case arp_lookup (net_arp st) sender_ip target_ip of
        Some mac \<Rightarrow> Some (Some mac, st)
      | None \<Rightarrow>
          do {
            (polled, st) \<leftarrow> net_poll_once e st;
            if \<not> polled then arp_poll e left sender_ip target_ip st
            else
              case arp_lookup (net_arp st) sender_ip target_ip of
                Some mac \<Rightarrow> Some (Some mac, st)
              | None \<Rightarrow> arp_poll e left sender_ip target_ip st
          })"

definition arp_resolve :: "('d, 's) net_env \<Rightarrow> u32 \<Rightarrow> u32 \<Rightarrow> ('d, 's) net \<Rightarrow> (u8 list option \<times> ('d, 's) net) option" where
  "arp_resolve e sender_ip target_ip st =
     (case arp_lookup (net_arp st) sender_ip target_ip of
        Some mac \<Rightarrow> Some (Some mac, st)
      | None \<Rightarrow>
          do {
            (sent, n) \<leftarrow> arp_send_request (net_nic st) sender_ip target_ip;
            let st = st\<lparr>net_nic := n\<rparr>;
            if \<not> sent then Some (None, st)
            else arp_poll e ARP_MAX_POLL_COUNT sender_ip target_ip st
          })"

section \<open>Ping\<close>

definition IPV4_PING_ATTEMPTS :: nat where "IPV4_PING_ATTEMPTS = 3"
definition IPV4_PING_WAIT_TICKS :: u32 where "IPV4_PING_WAIT_TICKS = 2 * SMALLOS_TIMER_HZ"

partial_function (option) ping_wait :: "('d, 's) net_env \<Rightarrow> u32 \<Rightarrow> ('d, 's) net \<Rightarrow> (bool \<times> ('d, 's) net) option" where
  "ping_wait e deadline st =
     (case timer_get_ticks e st of (now, st) \<Rightarrow>
        if sint (now - deadline) < 0 then
          if s_ping_got_reply (net_ping st) then Some (True, st)
          else
            do {
              (polled, st) \<leftarrow> net_poll_once e st;
              if \<not> polled then ping_wait e deadline st
              else if s_ping_got_reply (net_ping st) then Some (True, st)
              else ping_wait e deadline st
            }
        else Some (False, st))"

fun ping_attempts :: "('d, 's) net_env \<Rightarrow> nat \<Rightarrow> u8 list \<Rightarrow> u32 \<Rightarrow> u32 \<Rightarrow> u16 \<Rightarrow> u16 \<Rightarrow> ('d, 's) net \<Rightarrow> (bool \<times> ('d, 's) net) option" where
  "ping_attempts e 0 target_mac sender_ip target_ip ident sq st = Some (False, st)"
| "ping_attempts e (Suc left) target_mac sender_ip target_ip ident sq st =
     do {
       let (now, st) = timer_get_ticks e st;
       let deadline = now + IPV4_PING_WAIT_TICKS;
       mac \<leftarrow> nic_mac (net_nic st);
       frame \<leftarrow> ipv4_build_echo_request mac target_mac sender_ip target_ip ident sq;
       let st = st\<lparr>net_ping := \<lparr>s_ping_waiting = True, s_ping_got_reply = False, s_ping_sender_ip = sender_ip,
                   s_ping_target_ip = target_ip, s_ping_ident = ident, s_ping_seq = sq\<rparr>\<rparr>;
       let (sent, n) = nic_send (net_nic st) frame;
       let st = st\<lparr>net_nic := n\<rparr>;
       if \<not> sent then Some (False, st\<lparr>net_ping := (net_ping st)\<lparr>s_ping_waiting := False\<rparr>\<rparr>)
       else
         do {
           (got, st) \<leftarrow> ping_wait e deadline st;
           let st = st\<lparr>net_ping := (net_ping st)\<lparr>s_ping_waiting := False\<rparr>\<rparr>;
           if got then Some (True, st)
           else ping_attempts e left target_mac sender_ip target_ip ident sq st
         }
     }"

definition ipv4_ping_via_gateway :: "('d, 's) net_env \<Rightarrow> u32 \<Rightarrow> u32 \<Rightarrow> u32 \<Rightarrow> ('d, 's) net \<Rightarrow> (bool \<times> ('d, 's) net) option" where
  "ipv4_ping_via_gateway e sender_ip target_ip gateway_ip st =
     do {
       (target_mac, st) \<leftarrow> arp_resolve e sender_ip gateway_ip st;
       case target_mac of
         None \<Rightarrow> Some (False, st)
       | Some mac \<Rightarrow> ping_attempts e IPV4_PING_ATTEMPTS mac sender_ip target_ip 0x4A50 1 st
     }"

definition ipv4_ping :: "('d, 's) net_env \<Rightarrow> u32 \<Rightarrow> u32 \<Rightarrow> ('d, 's) net \<Rightarrow> (bool \<times> ('d, 's) net) option" where
  "ipv4_ping e sender_ip target_ip st = ipv4_ping_via_gateway e sender_ip target_ip target_ip st"

section \<open>DHCP\<close>

definition DHCP_TIMEOUT_TICKS :: u32 where "DHCP_TIMEOUT_TICKS = 4 * SMALLOS_TIMER_HZ"

partial_function (option) wait_loop :: "('d, 's) net_env \<Rightarrow> u32 \<Rightarrow> u8 \<Rightarrow> ('d, 's) net \<Rightarrow> (bool \<times> ('d, 's) net) option" where
  "wait_loop e deadline message_type st =
     (case timer_get_ticks e st of (now, st) \<Rightarrow>
        if sint (now - deadline) < 0 then
          if dhcp_message_type (net_dhcp st) = message_type then Some (True, st)
          else
            do {
              (polled, st) \<leftarrow> net_poll_once e st;
              wait_loop e deadline message_type st
            }
        else Some (False, st))"

definition wait_for_message :: "('d, 's) net_env \<Rightarrow> u8 \<Rightarrow> ('d, 's) net \<Rightarrow> (bool \<times> ('d, 's) net) option" where
  "wait_for_message e message_type st =
     (case timer_get_ticks e st of (now, st) \<Rightarrow> wait_loop e (now + DHCP_TIMEOUT_TICKS) message_type st)"

abbreviation stop_waiting :: "('d, 's) net \<Rightarrow> ('d, 's) net" where
  "stop_waiting st \<equiv> st\<lparr>net_dhcp := (net_dhcp st)\<lparr>dhcp_waiting := False\<rparr>\<rparr>"

fun dhcp_attempts :: "('d, 's) net_env \<Rightarrow> nat \<Rightarrow> ('d, 's) net \<Rightarrow> (bool \<times> ('d, 's) net) option" where
  "dhcp_attempts e 0 st = Some (False, stop_waiting st)"
| "dhcp_attempts e (Suc left) st =
     do {
       let st = st\<lparr>net_dhcp := (reset_reply_state (net_dhcp st))\<lparr>dhcp_waiting := True\<rparr>\<rparr>;
       mac \<leftarrow> nic_mac (net_nic st);
       (frame, frame_len) \<leftarrow> build_discover mac (dhcp_xid (net_dhcp st));
       let (sent, n) = nic_send (net_nic st) (take frame_len frame);
       let st = st\<lparr>net_nic := n\<rparr>;
       if \<not> sent then Some (False, stop_waiting st)
       else
         do {
           (offer, st) \<leftarrow> wait_for_message e DHCPOFFER st;
           if \<not> offer \<or> dhcp_offered_ip (net_dhcp st) = 0 \<or> dhcp_server_ip (net_dhcp st) = 0
           then dhcp_attempts e left (stop_waiting st)
           else
             do {
               let st = st\<lparr>net_dhcp := (net_dhcp st)\<lparr>dhcp_message_type := 0\<rparr>\<rparr>;
               mac \<leftarrow> nic_mac (net_nic st);
               (frame, frame_len) \<leftarrow> build_request mac (dhcp_xid (net_dhcp st))
                 (dhcp_offered_ip (net_dhcp st)) (dhcp_server_ip (net_dhcp st));
               let (sent, n) = nic_send (net_nic st) (take frame_len frame);
               let st = st\<lparr>net_nic := n\<rparr>;
               if \<not> sent then Some (False, stop_waiting st)
               else
                 do {
                   (ack, st) \<leftarrow> wait_for_message e DHCPACK st;
                   if \<not> ack \<or> dhcp_ack_ip (net_dhcp st) = 0 then dhcp_attempts e left (stop_waiting st)
                   else
                     let st = stop_waiting st; d = net_dhcp st
                     in Some (True, st\<lparr>s_ipv4_config := net_ipv4_configure (dhcp_ack_ip d) (dhcp_netmask d)
                          (dhcp_gateway d) (dhcp_dns d) (dhcp_server_ip d) (dhcp_lease_seconds d)\<rparr>)
                 }
             }
         }
     }"

definition dhcp_configure :: "('d, 's) net_env \<Rightarrow> ('d, 's) net \<Rightarrow> (bool \<times> ('d, 's) net) option" where
  "dhcp_configure e st =
     (let st = st\<lparr>s_ipv4_config := net_ipv4_clear_config\<rparr> in
      case timer_get_ticks e st of (now, st) \<Rightarrow>
        dhcp_attempts e DHCP_ATTEMPTS (st\<lparr>net_dhcp := (net_dhcp st)\<lparr>dhcp_xid := 0x534D0000 XOR now\<rparr>\<rparr>))"

section \<open>NTP\<close>

definition NTP_TIMEOUT_TICKS :: u32 where "NTP_TIMEOUT_TICKS = 5 * SMALLOS_TIMER_HZ"

partial_function (option) ntp_wait :: "('d, 's) net_env \<Rightarrow> u32 \<Rightarrow> ('d, 's) net \<Rightarrow> (u32 option \<times> ('d, 's) net) option" where
  "ntp_wait e deadline st =
     (case timer_get_ticks e st of (now, st) \<Rightarrow>
        if sint (now - deadline) < 0 then
          if ntp_got_reply (net_ntp st) then
            Some (Some (ntp_unix_time (net_ntp st)), st\<lparr>net_ntp := (net_ntp st)\<lparr>ntp_waiting := False\<rparr>\<rparr>)
          else
            do {
              (polled, st) \<leftarrow> net_poll_once e st;
              ntp_wait e deadline st
            }
        else Some (None, st\<lparr>net_ntp := (net_ntp st)\<lparr>ntp_waiting := False\<rparr>\<rparr>))"

definition ntp_sync :: "('d, 's) net_env \<Rightarrow> u32 \<Rightarrow> ('d, 's) net \<Rightarrow> (u32 option \<times> ('d, 's) net) option" where
  "ntp_sync e server_ip st =
     (let cfg = s_ipv4_config st in
      if server_ip = 0 then Some (None, st)
      else if \<not> net_ipv4_is_configured cfg \<or> net_ipv4_gateway cfg = 0 then Some (None, st)
      else
        do {
          (gateway_mac, st) \<leftarrow> arp_resolve e (net_ipv4_local_ip cfg) (net_ipv4_gateway cfg) st;
          case gateway_mac of
            None \<Rightarrow> Some (None, st)
          | Some gmac \<Rightarrow>
              do {
                mac \<leftarrow> nic_mac (net_nic st);
                frame \<leftarrow> ntp_build_request mac gmac (net_ipv4_local_ip (s_ipv4_config st)) server_ip;
                let st = st\<lparr>net_ntp := \<lparr>ntp_waiting = True, ntp_got_reply = False, ntp_server_ip = server_ip,
                            ntp_unix_time = 0\<rparr>\<rparr>;
                let (sent, n) = nic_send (net_nic st) frame;
                let st = st\<lparr>net_nic := n\<rparr>;
                if \<not> sent then Some (None, st\<lparr>net_ntp := (net_ntp st)\<lparr>ntp_waiting := False\<rparr>\<rparr>)
                else
                  case timer_get_ticks e st of (now, st) \<Rightarrow> ntp_wait e (now + NTP_TIMEOUT_TICKS) st
              }
        })"

section \<open>Polling is safe\<close>

text \<open>
  What the network loop relies on: a driver fills at most the buffer it is given and reports no
  more bytes than fit, as \<^verbatim>\<open>e1000_recv\<close> and \<^verbatim>\<open>rtl8139_recv\<close> do by cutting the length to the
  buffer size; TCP sends through the card but does not bind another driver.
\<close>

definition recv_contract :: "'d nic_driver \<Rightarrow> bool" where
  "recv_contract drv \<longleftrightarrow>
     (\<forall>d out frame len d'. drv_recv drv d out = (Some (frame, len), d') \<longrightarrow>
        length frame = length out \<and> unat len \<le> length out)"

definition tcp_contract :: "('d, 's) net_env \<Rightarrow> bool" where
  "tcp_contract e \<longleftrightarrow> (\<forall>s cfg n frame len. s_driver (snd (tcp_handle_ipv4_frame e s cfg n frame len)) = s_driver n)"

definition net_ok :: "'d nic_driver \<Rightarrow> ('d, 's) net \<Rightarrow> bool" where
  "net_ok drv st \<longleftrightarrow>
     s_driver (net_nic st) = Some drv \<and> length (s_net_frame st) = NET_MAX_FRAME \<and> \<not> s_net_poll_locked st"

lemma nic_send_driver [simp]: "s_driver (snd (nic_send n data)) = s_driver n"
  by (simp add: nic_send_def split: option.split prod.split)

lemma arp_handle_frame_driver:
  assumes "s_driver n = Some drv"
  shows "\<exists>ok n' st'. arp_handle_frame cfg n st frame len = Some (ok, n', st') \<and> s_driver n' = Some drv"
proof -
  have m: "nic_mac n = Some (drv_mac drv (device n))" using assms by (simp add: nic_mac_def)
  obtain f where f: "arp_reply cfg n frame = Some (snd (nic_send n f))" by (rule arp_reply_spec [OF m])
  then show ?thesis unfolding arp_handle_frame_def using assms by (simp add: ex_bool_eq)
qed

lemma net_slice_defined: "off + n \<le> length frame \<Longrightarrow> net_slice frame off n = Some (take n (drop off frame))"
  by (simp add: net_slice_def)

lemma net_handle_icmp_quiet:
  assumes "\<not> s_ping_waiting (net_ping st)" "unat len \<le> length (s_net_frame st)"
  shows "\<exists>s. net_handle_icmp e st len = Some (st\<lparr>net_upper := s\<rparr>)"
proof -
  let ?frame = "s_net_frame st" and ?n = "unat (net_read_u16_be (s_net_frame st) 16)"
  have p: "ipv4_handle_frame (net_ping st) frame len = Some (False, net_ping st)" for frame
    using assms(1) by (simp add: ipv4_handle_frame_def)
  have "14 + ?n \<le> unat len \<Longrightarrow> net_slice ?frame 14 ?n = Some (take ?n (drop 14 ?frame))"
    using assms(2) by (intro net_slice_defined) simp
  then show ?thesis
    by (cases "unat (?frame ! 14 AND 0x0F) * 4 \<ge> 20 \<and> ?n \<ge> unat (?frame ! 14 AND 0x0F) * 4 + 8 \<and> 14 + ?n \<le> unat len")
      (auto simp: net_handle_icmp_def Let_def p intro: exI [of _ "net_upper st"])
qed

lemma net_udp_delivery_quiet:
  assumes "unat len \<le> length frame" "off + k \<le> unat len"
  shows "\<exists>ok s. do {
       payload \<leftarrow> net_slice frame off k;
       let (ok, s) = socket_udp_deliver e u a b c d payload;
       Some (ok, st\<lparr>net_upper := s\<rparr>) } = Some (ok, st\<lparr>net_upper := s\<rparr>)"
  using assms by (simp add: net_slice_defined split: prod.split) blast

lemma net_handle_udp_quiet:
  assumes "unat len \<le> length (s_net_frame st)"
  shows "\<exists>s d n. net_handle_udp e st len = Some (st\<lparr>net_upper := s, net_dhcp := d, net_ntp := n\<rparr>) \<and>
    (d = net_dhcp st \<or> (\<exists>ok. dhcp_handle_ipv4_frame (net_dhcp st) (s_net_frame st) len = (ok, d)))"
proof -
  let ?frame = "s_net_frame st"
  let ?off = "14 + unat (?frame ! 14 AND 0x0F) * 4"
  define deliver where "deliver =
    (if unat (?frame ! 14 AND 0x0F) * 4 \<ge> 20 \<and>
        unat (net_read_u16_be ?frame 16) \<ge> unat (?frame ! 14 AND 0x0F) * 4 + 8 \<and>
        14 + unat (net_read_u16_be ?frame 16) \<le> unat len
     then let udp_off = ?off; src_port = net_read_u16_be ?frame udp_off; dst_port = net_read_u16_be ?frame (udp_off + 2);
              udp_len = unat (net_read_u16_be ?frame (udp_off + 4))
          in if udp_len \<ge> 8 \<and> udp_off + udp_len \<le> unat len
             then do { payload \<leftarrow> net_slice ?frame (udp_off + 8) (udp_len - 8);
                       let (ok, s) = socket_udp_deliver e (net_upper st) (net_read_u32_be ?frame 26) src_port
                                   (net_read_u32_be ?frame 30) dst_port payload;
                       Some (ok, st\<lparr>net_upper := s\<rparr>) }
             else Some (False, st)
     else Some (False, st))"
  have idle: "\<exists>ok s. Some (False, st) = Some (ok, st\<lparr>net_upper := s\<rparr>)" by (intro exI [of _ False] exI [of _ "net_upper st"]) simp
  have "\<exists>ok s. deliver = Some (ok, st\<lparr>net_upper := s\<rparr>)"
    unfolding deliver_def Let_def
    using idle by (auto intro!: net_udp_delivery_quiet [unfolded Let_def] assms)
  then obtain ok s where d: "deliver = Some (ok, st\<lparr>net_upper := s\<rparr>)" by blast
  obtain h dh where hd: "dhcp_handle_ipv4_frame (net_dhcp st) ?frame len = (h, dh)" by fastforce
  have eq: "net_handle_udp e st len = (if ok then Some (st\<lparr>net_upper := s\<rparr>)
      else if h then Some (st\<lparr>net_upper := s, net_dhcp := dh\<rparr>)
      else Some (st\<lparr>net_upper := s, net_dhcp := dh,
             net_ntp := snd (ntp_handle_ipv4_frame (s_ipv4_config st) (net_ntp st) ?frame len)\<rparr>))"
    using d hd unfolding deliver_def net_handle_udp_def by (simp add: Let_def)
  show ?thesis
  proof (cases ok)
    case True
    then show ?thesis unfolding eq by (intro exI [of _ s] exI [of _ "net_dhcp st"] exI [of _ "net_ntp st"]) simp
  next
    case False
    then show ?thesis unfolding eq hd
      by (intro exI [of _ s] exI [of _ dh] exI [of _ "if h then net_ntp st else
          snd (ntp_handle_ipv4_frame (s_ipv4_config st) (net_ntp st) ?frame len)"]) simp
  qed
qed

lemma net_dispatch_quiet:
  assumes "s_driver (net_nic st) = Some drv" "tcp_contract e" "\<not> s_ping_waiting (net_ping st)"
    and "unat len \<le> length (s_net_frame st)"
  shows "\<exists>n a s d p. net_dispatch e st len = Some (st\<lparr>net_nic := n, net_arp := a, net_upper := s, net_dhcp := d, net_ntp := p\<rparr>) \<and>
    s_driver n = Some drv \<and>
    (d = net_dhcp st \<or> (\<exists>ok. dhcp_handle_ipv4_frame (net_dhcp st) (s_net_frame st) len = (ok, d)))"
proof -
  define Q where "Q x \<longleftrightarrow> (\<exists>n a s d p.
      x = Some (st\<lparr>net_nic := n, net_arp := a, net_upper := s, net_dhcp := d, net_ntp := p\<rparr>) \<and> s_driver n = Some drv \<and>
      (d = net_dhcp st \<or> (\<exists>ok. dhcp_handle_ipv4_frame (net_dhcp st) (s_net_frame st) len = (ok, d))))" for x
  have QI: "Q (Some (st\<lparr>net_nic := n, net_arp := a, net_upper := s\<rparr>))" if "s_driver n = Some drv" for n a s
    unfolding Q_def using that
    by (intro exI [of _ n] exI [of _ a] exI [of _ s] exI [of _ "net_dhcp st"] exI [of _ "net_ntp st"]) simp
  obtain ok n a where "arp_handle_frame (s_ipv4_config st) (net_nic st) (net_arp st) (s_net_frame st) len = Some (ok, n, a)"
    "s_driver n = Some drv" using arp_handle_frame_driver [OF assms(1)] by metis
  then have arp: "Q (do { (_, n, a) \<leftarrow> arp_handle_frame (s_ipv4_config st) (net_nic st) (net_arp st) (s_net_frame st) len;
      Some (st\<lparr>net_nic := n, net_arp := a\<rparr>) })" using QI [where n = n and a = a and s = "net_upper st"] by simp
  obtain s where "net_handle_icmp e st len = Some (st\<lparr>net_upper := s\<rparr>)"
    using net_handle_icmp_quiet [OF assms(3,4)] by blast
  then have icmp: "Q (net_handle_icmp e st len)" using QI [OF assms(1), where a = "net_arp st" and s = s] by simp
  obtain s n where t: "tcp_handle_ipv4_frame e (net_upper st) (s_ipv4_config st) (net_nic st) (s_net_frame st) len = (s, n)"
    by fastforce
  then have "s_driver n = Some drv" using assms(1,2) unfolding tcp_contract_def by (metis snd_conv)
  then have tcp: "Q (case tcp_handle_ipv4_frame e (net_upper st) (s_ipv4_config st) (net_nic st) (s_net_frame st) len of
      (s, n) \<Rightarrow> Some (st\<lparr>net_nic := n, net_upper := s\<rparr>))" using QI [where n = n and a = "net_arp st" and s = s] t by simp
  have udp: "Q (net_handle_udp e st len)"
    using net_handle_udp_quiet [OF assms(4), of e] assms(1) unfolding Q_def
    by (elim exE conjE) (intro exI [of _ "net_nic st"] exI [of _ "net_arp st"] exI conjI; simp)
  have "Q (Some st)" using QI [OF assms(1), where a = "net_arp st" and s = "net_upper st"] by simp
  then have "Q (net_dispatch e st len)" unfolding net_dispatch_def Let_def using arp icmp tcp udp by (simp split: if_split)
  then show ?thesis by (simp only: Q_def)
qed

text \<open>A poll with no ping outstanding: the state keeps its shape, and only a DHCP reply changes the DHCP state.\<close>

definition poll_step :: "('d, 's) net \<Rightarrow> ('d, 's) net \<Rightarrow> bool" where
  "poll_step st st' \<longleftrightarrow> s_ipv4_config st' = s_ipv4_config st \<and> net_ping st' = net_ping st \<and> readings st' = readings st \<and>
     (net_dhcp st' = net_dhcp st \<or> (\<exists>frame len. dhcp_handle_ipv4_frame (net_dhcp st) frame len = (True, net_dhcp st')))"

lemma net_poll_once_quiet:
  assumes ok: "net_ok drv st" and recv: "recv_contract drv" and tcp: "tcp_contract e"
    and quiet: "\<not> s_ping_waiting (net_ping st)"
  shows "\<exists>polled st'. net_poll_once e st = Some (polled, st') \<and> net_ok drv st' \<and> poll_step st st'"
proof -
  let ?st = "st\<lparr>s_net_poll_locked := True\<rparr>"
  obtain r d where r: "drv_recv drv (device (net_nic st)) (s_net_frame st) = (r, d)" by fastforce
  have nr: "nic_recv (net_nic st) (s_net_frame st) = (r, (net_nic st)\<lparr>device := d\<rparr>)"
    using ok r by (simp add: nic_recv_def net_ok_def)
  let ?n = "(net_nic st)\<lparr>device := d\<rparr>"
  have drv: "s_driver ?n = Some drv" using ok by (simp add: net_ok_def)
  show ?thesis
  proof (cases r)
    case None
    then show ?thesis using ok nr drv by (simp add: net_poll_once_def net_ok_def poll_step_def ex_bool_eq)
  next
    case (Some fl)
    obtain frame len where fl: "fl = (frame, len)" by fastforce
    with Some r recv ok have len: "length frame = NET_MAX_FRAME" "unat len \<le> NET_MAX_FRAME"
      unfolding recv_contract_def net_ok_def by metis+
    let ?s = "?st\<lparr>net_nic := ?n, s_net_frame := frame\<rparr>"
    show ?thesis
    proof (cases "len < 14")
      case True
      then show ?thesis using ok nr drv Some fl len by (simp add: net_poll_once_def net_ok_def poll_step_def Let_def ex_bool_eq)
    next
      case False
      have s: "s_driver (net_nic ?s) = Some drv" "tcp_contract e" "\<not> s_ping_waiting (net_ping ?s)"
        "unat len \<le> length (s_net_frame ?s)" using drv tcp quiet len by simp_all
      obtain n a s dh p where disp: "net_dispatch e ?s len =
          Some (?s\<lparr>net_nic := n, net_arp := a, net_upper := s, net_dhcp := dh, net_ntp := p\<rparr>)" and n: "s_driver n = Some drv"
        and dh: "dh = net_dhcp ?s \<or> (\<exists>ok. dhcp_handle_ipv4_frame (net_dhcp ?s) (s_net_frame ?s) len = (ok, dh))"
        using net_dispatch_quiet [of ?s drv e len, OF s] by blast
      have "dh = net_dhcp st \<or> (\<exists>frame len. dhcp_handle_ipv4_frame (net_dhcp st) frame len = (True, dh))"
        using dh dhcp_rejected [of "net_dhcp st" frame len dh] by (auto simp: all_bool_eq ex_bool_eq)
      with False show ?thesis using ok nr Some fl len n disp
        by (simp add: net_poll_once_def net_ok_def poll_step_def Let_def ex_bool_eq)
    qed
  qed
qed


text \<open>A host with the recording card, no sockets and no TCP, whose clock counts its readings.\<close>

definition recorder_driver :: "u8 list list nic_driver" where
  "recorder_driver = the (s_driver (recorder [2, 0, 0, 0, 0, 1]))"

definition example_env :: "(u8 list list, unit) net_env" where
  "example_env = \<lparr>env_timer = of_nat, socket_raw_icmp_deliver = (\<lambda>s _ _. s),
     socket_udp_deliver = (\<lambda>s _ _ _ _ _. (False, s)), tcp_handle_ipv4_frame = (\<lambda>s _ n _ _. (s, n))\<rparr>"

definition example_net :: "(u8 list list, unit) net" where
  "example_net = \<lparr>net_nic = recorder [2, 0, 0, 0, 0, 1], s_net_frame = replicate 1600 0, s_net_poll_locked = False,
     s_ipv4_config = net_ipv4_clear_config, net_arp = arp_empty,
     net_ping = \<lparr>s_ping_waiting = False, s_ping_got_reply = False, s_ping_sender_ip = 0, s_ping_target_ip = 0,
       s_ping_ident = 0, s_ping_seq = 0\<rparr>,
     net_dhcp = dhcp_idle, net_ntp = ntp_asked, net_upper = (), readings = 0\<rparr>"

lemma example_contracts:
  "recv_contract recorder_driver" "tcp_contract example_env" "net_ok recorder_driver example_net"
  "\<not> s_ping_waiting (net_ping example_net)"
  by (simp_all add: recv_contract_def recorder_driver_def recorder_def tcp_contract_def example_env_def
      net_ok_def example_net_def NET_MAX_FRAME_def)


section \<open>DHCP finishes\<close>

text \<open>The clock goes on: after any reading there is one that is not before a given deadline.\<close>

definition clock_passes :: "(nat \<Rightarrow> u32) \<Rightarrow> bool" where
  "clock_passes t \<longleftrightarrow> (\<forall>deadline k. \<exists>m \<ge> k. \<not> sint (t m - deadline) < 0)"

text \<open>What every step of the exchange keeps.\<close>

definition exchange :: "'d nic_driver \<Rightarrow> ('d, 's) net \<Rightarrow> ('d, 's) net \<Rightarrow> bool" where
  "exchange drv st st' \<longleftrightarrow> net_ok drv st' \<and> \<not> s_ping_waiting (net_ping st') \<and> s_ipv4_config st' = s_ipv4_config st"

lemma exchange_trans: "exchange drv st st' \<Longrightarrow> exchange drv st' st'' \<Longrightarrow> exchange drv st st''"
  by (simp add: exchange_def)

lemma wait_loop_returns:
  assumes "recv_contract drv" "tcp_contract e" and pass: "m \<ge> readings st" "\<not> sint (env_timer e m - deadline) < 0"
    and "exchange drv st0 st"
  shows "\<exists>got st'. wait_loop e deadline mt st = Some (got, st') \<and> exchange drv st0 st'"
  using pass assms(5)
proof (induction "m - readings st" arbitrary: st)
  case 0
  then have "m = readings st" by simp
  with 0 show ?case
    by (subst wait_loop.simps) (simp add: timer_get_ticks_def exchange_def net_ok_def ex_bool_eq)
next
  case (Suc k)
  let ?st = "st\<lparr>readings := Suc (readings st)\<rparr>"
  have ex: "exchange drv st0 ?st" using Suc.prems by (simp add: exchange_def net_ok_def)
  then have "net_ok drv ?st" "\<not> s_ping_waiting (net_ping ?st)" by (simp_all add: exchange_def)
  then obtain polled st' where poll: "net_poll_once e ?st = Some (polled, st')" "net_ok drv st'" "poll_step ?st st'"
    using net_poll_once_quiet assms(1,2) by metis
  then have st': "exchange drv st0 st'" "readings st' = Suc (readings st)"
    using ex by (auto simp: exchange_def poll_step_def)
  then have "\<exists>got st''. wait_loop e deadline mt st' = Some (got, st'') \<and> exchange drv st0 st''"
    using Suc.hyps(1) [of st'] Suc.hyps(2) Suc.prems by simp
  then show ?case using ex poll(1)
    by (subst wait_loop.simps) (simp add: timer_get_ticks_def ex_bool_eq)
qed

lemma wait_for_message_returns:
  assumes "recv_contract drv" "tcp_contract e" "clock_passes (env_timer e)" "exchange drv st0 st"
  shows "\<exists>got st'. wait_for_message e mt st = Some (got, st') \<and> exchange drv st0 st'"
proof -
  let ?deadline = "env_timer e (readings st) + DHCP_TIMEOUT_TICKS" and ?st = "st\<lparr>readings := Suc (readings st)\<rparr>"
  obtain m where "m \<ge> readings ?st" "\<not> sint (env_timer e m - ?deadline) < 0"
    using assms(3) unfolding clock_passes_def by blast
  moreover have "exchange drv st0 ?st" using assms(4) by (simp add: exchange_def net_ok_def)
  ultimately show ?thesis
    using wait_loop_returns [OF assms(1,2), of ?st m ?deadline] by (simp add: wait_for_message_def timer_get_ticks_def)
qed

lemma exchange_send:
  assumes "exchange drv st0 st" "nic_send (net_nic st) data = (sent, n)"
  shows "exchange drv st0 (st\<lparr>net_nic := n\<rparr>)"
  using assms nic_send_driver [of "net_nic st" data] by (simp add: exchange_def net_ok_def)

lemma exchange_dhcp [simp]: "exchange drv st0 (st\<lparr>net_dhcp := d\<rparr>) = exchange drv st0 st"
  by (simp add: exchange_def net_ok_def)

lemma exchange_mac: "exchange drv st0 st \<Longrightarrow> nic_mac (net_nic st) = Some (drv_mac drv (device (net_nic st)))"
  by (simp add: exchange_def net_ok_def nic_mac_def)

definition dhcp_done :: "'d nic_driver \<Rightarrow> ('d, 's) net \<Rightarrow> bool \<Rightarrow> ('d, 's) net \<Rightarrow> bool" where
  "dhcp_done drv st0 bound st \<longleftrightarrow> net_ok drv st \<and> \<not> dhcp_waiting (net_dhcp st) \<and>
     (if bound then configured (s_ipv4_config st) \<and> ip (s_ipv4_config st) = dhcp_ack_ip (net_dhcp st) \<and>
          dhcp_ack_ip (net_dhcp st) \<noteq> 0
      else s_ipv4_config st = s_ipv4_config st0)"

lemma dhcp_done_failed: "exchange drv st0 st \<Longrightarrow> dhcp_done drv st0 False (stop_waiting st)"
  by (simp add: dhcp_done_def exchange_def net_ok_def)

lemma dhcp_done_bound:
  assumes "exchange drv st0 st" "dhcp_ack_ip (net_dhcp st) \<noteq> 0"
  shows "dhcp_done drv st0 True (let st = stop_waiting st; d = net_dhcp st
    in st\<lparr>s_ipv4_config := net_ipv4_configure (dhcp_ack_ip d) (dhcp_netmask d)
                          (dhcp_gateway d) (dhcp_dns d) (dhcp_server_ip d) (dhcp_lease_seconds d)\<rparr>)"
  using assms by (simp add: dhcp_done_def exchange_def net_ok_def net_ipv4_configure_def Let_def)

lemma dhcp_attempts_return:
  assumes c: "recv_contract drv" "tcp_contract e" "clock_passes (env_timer e)" and "exchange drv st0 st"
  shows "\<exists>bound st'. dhcp_attempts e n st = Some (bound, st') \<and> dhcp_done drv st0 bound st'"
  using assms(4)
proof (induction n arbitrary: st)
  case 0
  then show ?case using dhcp_done_failed by auto
next
  case (Suc n)
  let ?s1 = "st\<lparr>net_dhcp := (reset_reply_state (net_dhcp st))\<lparr>dhcp_waiting := True\<rparr>\<rparr>"
  have e1: "exchange drv st0 ?s1" using Suc.prems by simp
  obtain f1 l1 where b1: "build_discover (drv_mac drv (device (net_nic ?s1))) (dhcp_xid (net_dhcp ?s1)) = Some (f1, l1)"
    using build_defined(1) by blast
  obtain ok1 n1 where s1: "nic_send (net_nic ?s1) (take l1 f1) = (ok1, n1)" by fastforce
  let ?s2 = "?s1\<lparr>net_nic := n1\<rparr>"
  have e2: "exchange drv st0 ?s2" by (rule exchange_send [OF e1 s1])
  obtain got1 s3 where w1: "wait_for_message e DHCPOFFER ?s2 = Some (got1, s3)" and e3: "exchange drv st0 s3"
    using wait_for_message_returns [OF c e2] by blast
  let ?s4 = "s3\<lparr>net_dhcp := (net_dhcp s3)\<lparr>dhcp_message_type := 0\<rparr>\<rparr>"
  have e4: "exchange drv st0 ?s4" using e3 by simp
  obtain f2 l2 where b2: "build_request (drv_mac drv (device (net_nic ?s4))) (dhcp_xid (net_dhcp ?s4))
      (dhcp_offered_ip (net_dhcp ?s4)) (dhcp_server_ip (net_dhcp ?s4)) = Some (f2, l2)"
    using build_defined(2) by blast
  obtain ok2 n2 where s2: "nic_send (net_nic ?s4) (take l2 f2) = (ok2, n2)" by fastforce
  let ?s5 = "?s4\<lparr>net_nic := n2\<rparr>"
  have e5: "exchange drv st0 ?s5" by (rule exchange_send [OF e4 s2])
  obtain got2 s6 where w2: "wait_for_message e DHCPACK ?s5 = Some (got2, s6)" and e6: "exchange drv st0 s6"
    using wait_for_message_returns [OF c e5] by blast
  have retry: "\<exists>bound st'. dhcp_attempts e n (stop_waiting s) = Some (bound, st') \<and> dhcp_done drv st0 bound st'"
    if "exchange drv st0 s" for s using Suc.IH [of "stop_waiting s"] that by simp
  have fin: "\<exists>bound st'. Some (b, s) = Some (bound, st') \<and> dhcp_done drv st0 bound st'" if "dhcp_done drv st0 b s" for b s
    using that by simp
  note steps = exchange_mac [OF e1] exchange_mac [OF e4] b1 s1 w1 b2 s2 w2
  show ?case
    unfolding dhcp_attempts.simps
    using retry [OF e3] retry [OF e6] fin [OF dhcp_done_failed [OF e2]] fin [OF dhcp_done_failed [OF e5]]
      fin [OF dhcp_done_bound [OF e6]]
    by (simp only: steps Let_def bind.bind_lunit prod.case split: if_split) simp
qed

text \<open>
  C40: asking for an address always comes to an end. With a clock that advances, a driver that
  keeps to its buffer and any traffic whatsoever, \<^verbatim>\<open>dhcp_configure\<close> returns; when it reports
  success the interface is configured with the non-zero address of the acknowledgement, otherwise
  the interface is left unconfigured, and in both cases no reply is waited for any more.
\<close>

theorem dhcp_configure_returns:
  assumes "recv_contract drv" "tcp_contract e" "clock_passes (env_timer e)"
    and "net_ok drv st" "\<not> s_ping_waiting (net_ping st)"
  shows "\<exists>bound st'. dhcp_configure e st = Some (bound, st') \<and> net_ok drv st' \<and> \<not> dhcp_waiting (net_dhcp st') \<and>
    (if bound then net_ipv4_is_configured (s_ipv4_config st') \<and>
         net_ipv4_local_ip (s_ipv4_config st') = dhcp_ack_ip (net_dhcp st') \<and> dhcp_ack_ip (net_dhcp st') \<noteq> 0
     else s_ipv4_config st' = net_ipv4_clear_config)"
proof -
  let ?s = "st\<lparr>s_ipv4_config := net_ipv4_clear_config\<rparr>"
  let ?s1 = "?s\<lparr>readings := Suc (readings st)\<rparr>"
  let ?s2 = "?s1\<lparr>net_dhcp := (net_dhcp st)\<lparr>dhcp_xid := 0x534D0000 XOR env_timer e (readings st)\<rparr>\<rparr>"
  have "exchange drv ?s ?s2" using assms(4,5) by (simp add: exchange_def net_ok_def)
  from dhcp_attempts_return [OF assms(1-3) this, of DHCP_ATTEMPTS]
  obtain bound st' where "dhcp_attempts e DHCP_ATTEMPTS ?s2 = Some (bound, st')" "dhcp_done drv ?s bound st'" by blast
  then show ?thesis
    by (intro exI [of _ bound] exI [of _ st'])
      (simp add: dhcp_configure_def timer_get_ticks_def Let_def dhcp_done_def net_ipv4_is_configured_def net_ipv4_local_ip_def split: if_splits)
qed

lemma example_clock: "clock_passes (env_timer example_env)"
  unfolding clock_passes_def
proof (intro allI)
  fix deadline :: u32 and k :: nat
  have "(of_nat (unat deadline + k * 2 ^ LENGTH(32)) :: u32) = deadline"
    by (rule unsigned_word_eqI [where 'a = nat]) (simp only: unat_of_nat, simp add: unat_u32_bound)
  then show "\<exists>m \<ge> k. \<not> sint (env_timer example_env m - deadline) < 0"
    by (intro exI [of _ "unat deadline + k * 2 ^ LENGTH(32)"]) (simp add: example_env_def)
qed

theorem dhcp_configure_returns_witness:
  "\<exists>bound st'. dhcp_configure example_env example_net = Some (bound, st') \<and> net_ok recorder_driver st' \<and>
     \<not> dhcp_waiting (net_dhcp st')"
  using dhcp_configure_returns [OF example_contracts(1,2) example_clock example_contracts(3,4)] by blast

end
