(* ===== verification/Proc.thy ===== *)
theory Proc
  imports Prelude
begin

text \<open>
  Processes as the waiting and scheduling code sees them (\<^verbatim>\<open>src/kernel/process.h\<close>): the state and
  the fields it reads and writes. The process table is a store from process pointers to these
  records, which the components that wake or run processes share.
\<close>

datatype process_state =
    PROCESS_STATE_UNUSED
  | PROCESS_STATE_RUNNING
  | PROCESS_STATE_EXITED
  | PROCESS_STATE_ZOMBIE
  | PROCESS_STATE_WAITING
  | PROCESS_STATE_SLEEPING
  | PROCESS_STATE_STOPPED

record proc =
  pid :: u32
  parent_pid :: u32
  state :: process_state
  stop_reported :: bool
  reaper_claimed :: bool
  sleep_until :: u32
  sched_esp :: u32
  cpu_ticks :: u32
  pgid :: u32
  pd :: u32
  kernel_stack_frame :: u32
  kernel_stack_frames :: u32

definition no_proc :: proc where
  "no_proc = \<lparr>pid = 0, parent_pid = 0, state = PROCESS_STATE_UNUSED, stop_reported = False,
     reaper_claimed = False, sleep_until = 0, sched_esp = 0, cpu_ticks = 0, pgid = 0, pd = 0,
     kernel_stack_frame = 0, kernel_stack_frames = 0\<rparr>"

type_synonym proc_ptr = nat
type_synonym procs = "proc_ptr \<Rightarrow> proc"

text \<open>Waking a process, as the input queue and the wait queues both do it.\<close>

definition wake_proc :: "proc \<Rightarrow> proc" where
  "wake_proc p =
     (if state p = PROCESS_STATE_WAITING \<or> state p = PROCESS_STATE_SLEEPING
      then p\<lparr>state := PROCESS_STATE_RUNNING, sleep_until := 0\<rparr> else p)"

lemma wake_proc_awake [simp]:
  "state (wake_proc p) \<noteq> PROCESS_STATE_WAITING" "state (wake_proc p) \<noteq> PROCESS_STATE_SLEEPING"
  by (simp_all add: wake_proc_def)

lemma wake_proc_idem [simp]: "wake_proc (wake_proc p) = wake_proc p"
  by (simp add: wake_proc_def)

end
