(* ===== verification/Ring.thy ===== *)
theory Ring
  imports Prelude
begin

text \<open>
  Ring buffers. The input queue, pipes and pseudo terminals keep their contents in an array of
  fixed size between a read and a write position that wrap around; here is the list such a ring
  holds, the contract that all of them meet, and the loops that fill and drain them.
\<close>

section \<open>The contents of a ring\<close>

definition ring_list :: "nat \<Rightarrow> 'a list \<Rightarrow> nat \<Rightarrow> nat \<Rightarrow> 'a list" where
  "ring_list n buf pos cnt = map (\<lambda>i. buf ! ((pos + i) mod n)) [0..<cnt]"

lemma length_ring_list [simp]: "length (ring_list n buf pos cnt) = cnt"
  by (simp add: ring_list_def)

lemma ring_list_empty [simp]: "ring_list n buf pos 0 = []"
  by (simp add: ring_list_def)

lemma ring_slot_neq:
  assumes "i < j" "j < n"
  shows "(pos + i) mod n \<noteq> (pos + j) mod (n :: nat)"
proof
  assume "(pos + i) mod n = (pos + j) mod n"
  then have "(pos + j) mod n = (pos + i) mod n" ..
  then have "n dvd (pos + j) - (pos + i)" using assms by (subst mod_eq_dvd_iff_nat [symmetric]) simp_all
  then show False using assms by (simp add: nat_dvd_not_less)
qed

lemma ring_list_put:
  assumes "length buf = n" "cnt < n"
  shows "ring_list n (buf[(pos + cnt) mod n := x]) pos (Suc cnt) = ring_list n buf pos cnt @ [x]"
proof -
  have "(pos + cnt) mod n \<noteq> (pos + i) mod n" if "i < cnt" for i
    using ring_slot_neq [OF that assms(2), of pos] by (rule not_sym)
  then show ?thesis using assms by (auto simp: ring_list_def nth_list_update)
qed

lemma ring_list_get:
  "ring_list n buf pos (Suc cnt) = buf ! (pos mod n) # ring_list n buf ((pos + 1) mod n) cnt"
  by (simp add: ring_list_def mod_add_left_eq del: upt_Suc add: upt_conv_Cons map_Suc_upt [symmetric] o_def)

lemma ring_list_last:
  assumes "length buf = n" "0 < cnt" "cnt \<le> n"
  shows "last (ring_list n buf pos cnt) = buf ! ((pos + (cnt - 1)) mod n)"
    "ring_list n (buf[(pos + (cnt - 1)) mod n := x]) pos cnt = butlast (ring_list n buf pos cnt) @ [x]"
proof -
  obtain k where k: "cnt = Suc k" using assms(2) by (cases cnt) auto
  have snoc: "ring_list n b pos (Suc k) = ring_list n b pos k @ [b ! ((pos + k) mod n)]" for b
    by (simp add: ring_list_def)
  show "last (ring_list n buf pos cnt) = buf ! ((pos + (cnt - 1)) mod n)" by (simp add: k snoc)
  show "ring_list n (buf[(pos + (cnt - 1)) mod n := x]) pos cnt = butlast (ring_list n buf pos cnt) @ [x]"
    using ring_list_put [of buf n k pos x] assms by (simp add: k snoc)
qed

text \<open>The write position is where the contents end.\<close>

lemma ring_head_step: "((pos + cnt) mod n + 1) mod n = (pos + Suc cnt) mod (n :: nat)"
  by (simp add: mod_Suc_eq)

lemma ring_tail_step: "0 < cnt \<Longrightarrow> ((pos + 1) mod n + (cnt - 1)) mod n = (pos + cnt) mod (n :: nat)"
  using mod_add_left_eq [of "pos + 1" n "cnt - 1"] by simp

section \<open>The loops\<close>

text \<open>
  \<^verbatim>\<open>while (done < len && count != 0) buf[done++] = get();\<close> and
  \<^verbatim>\<open>while (done < len && count < size) put(buf[done++]);\<close> The result of the second is the number of
  bytes taken.
\<close>

fun ring_drain :: "('s \<Rightarrow> 'a option \<times> 's) \<Rightarrow> nat \<Rightarrow> 's \<Rightarrow> 'a list \<times> 's" where
  "ring_drain get 0 s = ([], s)"
| "ring_drain get (Suc n) s =
     (case get s of
        (None, s') \<Rightarrow> ([], s')
      | (Some x, s') \<Rightarrow> (case ring_drain get n s' of (xs, s'') \<Rightarrow> (x # xs, s'')))"

fun ring_fill :: "('s \<Rightarrow> bool) \<Rightarrow> ('s \<Rightarrow> 'a \<Rightarrow> 's) \<Rightarrow> 'a list \<Rightarrow> 's \<Rightarrow> nat \<times> 's" where
  "ring_fill full put [] s = (0, s)"
| "ring_fill full put (x # xs) s =
     (if full s then (0, s) else case ring_fill full put xs (put s x) of (n, s') \<Rightarrow> (Suc n, s'))"

section \<open>The contract\<close>

locale bounded_queue =
  fixes invar :: "'s \<Rightarrow> bool"
    and items :: "'s \<Rightarrow> 'a list"
    and cap :: nat
    and put :: "'s \<Rightarrow> 'a \<Rightarrow> 's"
    and get :: "'s \<Rightarrow> 'a option \<times> 's"
  assumes items_cap: "invar s \<Longrightarrow> length (items s) \<le> cap"
    and put_invar: "invar s \<Longrightarrow> length (items s) < cap \<Longrightarrow> invar (put s x)"
    and items_put: "invar s \<Longrightarrow> length (items s) < cap \<Longrightarrow> items (put s x) = items s @ [x]"
    and get_empty: "invar s \<Longrightarrow> items s = [] \<Longrightarrow> get s = (None, s)"
    and get_hd: "invar s \<Longrightarrow> items s \<noteq> [] \<Longrightarrow> fst (get s) = Some (hd (items s))"
    and get_tl: "invar s \<Longrightarrow> items s \<noteq> [] \<Longrightarrow> items (snd (get s)) = tl (items s)"
    and get_invar: "invar s \<Longrightarrow> invar (snd (get s))"
begin

lemma get_Cons:
  assumes "invar s" "items s = x # xs"
  obtains s' where "get s = (Some x, s')" "items s' = xs" "invar s'"
  using assms get_hd [of s] get_tl [of s] get_invar [of s] by (cases "get s") auto

text \<open>Draining yields the oldest elements in order and leaves the rest.\<close>

lemma drain_spec:
  assumes "invar s" "ring_drain get n s = (xs, s')"
  shows "xs = take n (items s) \<and> items s' = drop n (items s) \<and> invar s'"
  using assms
proof (induction n arbitrary: s xs)
  case (Suc n)
  show ?case
  proof (cases "items s")
    case Nil
    then show ?thesis using Suc.prems get_empty by auto
  next
    case (Cons y ys)
    obtain s1 where s1: "get s = (Some y, s1)" "items s1 = ys" "invar s1" using get_Cons [OF Suc.prems(1) Cons] .
    then obtain zs where "xs = y # zs" "ring_drain get n s1 = (zs, s')" using Suc.prems(2) by (auto split: prod.splits)
    with Suc.IH [OF s1(3)] s1 Cons show ?thesis by auto
  qed
qed simp

text \<open>Filling appends as many elements as there is room for.\<close>

lemma fill_spec:
  assumes "invar s" "\<And>s. invar s \<Longrightarrow> full s \<longleftrightarrow> length (items s) = cap" "ring_fill full put xs s = (n, s')"
  shows "n = min (length xs) (cap - length (items s)) \<and> items s' = items s @ take n xs \<and> invar s'"
  using assms(1,3)
proof (induction xs arbitrary: s n)
  case (Cons x xs)
  show ?case
  proof (cases "full s")
    case True
    then show ?thesis using Cons.prems assms(2) by auto
  next
    case False
    then have room: "length (items s) < cap" using assms(2) items_cap Cons.prems(1) by (metis le_neq_implies_less)
    obtain m where m: "n = Suc m" "ring_fill full put xs (put s x) = (m, s')"
      using Cons.prems(2) False by (auto split: prod.splits)
    from Cons.IH [OF put_invar [OF Cons.prems(1) room] m(2)] room m(1) show ?thesis
      by (auto simp: items_put [OF Cons.prems(1) room])
  qed
qed simp

end

end
