(* ===== verification/Input.thy ===== *)
theory Input
  imports Proc Ring
begin

text \<open>
  The input event queue, \<^verbatim>\<open>src/kernel/input.c\<close>: a ring of 256 events in which consecutive mouse
  movements are merged and the oldest event gives way when the ring is full. Signed fields are
  32-bit words, whose addition wraps as the compiled code does. The process woken by an event is
  a pointer into the process store, which the state carries.
\<close>

definition INPUT_QUEUE_SIZE :: nat where "INPUT_QUEUE_SIZE = 256"
definition SYS_INPUT_TYPE_KEY :: u32 where "SYS_INPUT_TYPE_KEY = 1"
definition SYS_INPUT_TYPE_MOUSE :: u32 where "SYS_INPUT_TYPE_MOUSE = 2"
definition SYS_INPUT_KEY_PRESSED :: u32 where "SYS_INPUT_KEY_PRESSED = 0x0001"
definition SYS_INPUT_KEY_SHIFT :: u32 where "SYS_INPUT_KEY_SHIFT = 0x0002"
definition SYS_INPUT_KEY_CTRL :: u32 where "SYS_INPUT_KEY_CTRL = 0x0004"
definition SYS_INPUT_KEY_ALT :: u32 where "SYS_INPUT_KEY_ALT = 0x0008"
definition SYS_INPUT_KEY_CAPS_LOCK :: u32 where "SYS_INPUT_KEY_CAPS_LOCK = 0x0010"
definition SYS_INPUT_KEY_NUM_LOCK :: u32 where "SYS_INPUT_KEY_NUM_LOCK = 0x0020"
definition SYS_INPUT_KEY_SCROLL_LOCK :: u32 where "SYS_INPUT_KEY_SCROLL_LOCK = 0x0040"
definition SYS_INPUT_MOUSE_ABSOLUTE :: u32 where "SYS_INPUT_MOUSE_ABSOLUTE = 0x00010000"

record sys_input_event =
  ev_type :: u32
  ev_flags :: u32
  ev_ticks :: u32
  ev_sequence :: u32
  ev_key :: u32
  ev_ascii :: u32
  ev_dx :: u32
  ev_dy :: u32
  ev_wheel :: u32
  ev_abs_x :: u32
  ev_abs_y :: u32
  ev_buttons :: u32
  ev_button_changes :: u32

definition no_event :: sys_input_event where
  "no_event = \<lparr>ev_type = 0, ev_flags = 0, ev_ticks = 0, ev_sequence = 0, ev_key = 0, ev_ascii = 0, ev_dx = 0,
     ev_dy = 0, ev_wheel = 0, ev_abs_x = 0, ev_abs_y = 0, ev_buttons = 0, ev_button_changes = 0\<rparr>"

record key_event =
  key :: u32
  ascii :: u8
  pressed :: bool
  shift :: bool
  ctrl :: bool
  alt :: bool
  caps_lock :: bool
  num_lock :: bool
  scroll_lock :: bool

record input =
  s_queue :: "sys_input_event list"
  s_head :: nat
  s_tail :: nat
  s_count :: nat
  s_sequence :: u32
  s_waiting_proc :: "proc_ptr option"
  in_procs :: procs

definition input_wake_waiter :: "input \<Rightarrow> input" where
  "input_wake_waiter st =
     (case s_waiting_proc st of
        None \<Rightarrow> st
      | Some p \<Rightarrow> st\<lparr>in_procs := (in_procs st)(p := wake_proc (in_procs st p)), s_waiting_proc := None\<rparr>)"

definition input_is_mergeable_mouse_motion :: "sys_input_event \<Rightarrow> bool" where
  "input_is_mergeable_mouse_motion ev = (ev_type ev = SYS_INPUT_TYPE_MOUSE \<and> ev_button_changes ev = 0)"

definition input_merged :: "sys_input_event \<Rightarrow> sys_input_event \<Rightarrow> sys_input_event" where
  "input_merged lst ev =
     lst\<lparr>ev_ticks := ev_ticks ev, ev_sequence := ev_sequence ev, ev_dx := ev_dx lst + ev_dx ev,
         ev_dy := ev_dy lst + ev_dy ev, ev_wheel := ev_wheel lst + ev_wheel ev,
         ev_abs_x := ev_abs_x ev, ev_abs_y := ev_abs_y ev, ev_buttons := ev_buttons ev\<rparr>"

definition input_can_merge :: "sys_input_event \<Rightarrow> sys_input_event \<Rightarrow> bool" where
  "input_can_merge lst ev \<longleftrightarrow>
     input_is_mergeable_mouse_motion lst \<and> ev_buttons lst = ev_buttons ev \<and>
     (ev_flags lst XOR ev_flags ev) AND SYS_INPUT_MOUSE_ABSOLUTE = 0"

definition input_try_merge_mouse_motion :: "input \<Rightarrow> sys_input_event \<Rightarrow> input option" where
  "input_try_merge_mouse_motion st ev =
     (if \<not> input_is_mergeable_mouse_motion ev \<or> s_count st = 0 then None
      else
        let prev = (s_head st + INPUT_QUEUE_SIZE - 1) mod INPUT_QUEUE_SIZE;
            lst = s_queue st ! prev
        in if \<not> input_can_merge lst ev then None
           else Some (input_wake_waiter (st\<lparr>s_queue := (s_queue st)[prev := input_merged lst ev]\<rparr>)))"

definition input_drop_oldest :: "input \<Rightarrow> input" where
  "input_drop_oldest st = st\<lparr>s_tail := (s_tail st + 1) mod INPUT_QUEUE_SIZE, s_count := s_count st - 1\<rparr>"

definition input_store_event :: "input \<Rightarrow> sys_input_event \<Rightarrow> input" where
  "input_store_event st ev =
     st\<lparr>s_queue := (s_queue st)[s_head st := ev], s_head := (s_head st + 1) mod INPUT_QUEUE_SIZE,
        s_count := s_count st + 1\<rparr>"

definition input_push_event :: "input \<Rightarrow> sys_input_event \<Rightarrow> input" where
  "input_push_event st ev =
     (case input_try_merge_mouse_motion st ev of
        Some st' \<Rightarrow> st'
      | None \<Rightarrow>
          let st = (if s_count st \<ge> INPUT_QUEUE_SIZE then input_drop_oldest st else st)
          in input_wake_waiter (input_store_event st ev))"

definition input_init :: "procs \<Rightarrow> input" where
  "input_init ps =
     \<lparr>s_queue = replicate INPUT_QUEUE_SIZE no_event, s_head = 0, s_tail = 0, s_count = 0, s_sequence = 0,
      s_waiting_proc = None, in_procs = ps\<rparr>"

definition input_clear_events :: "input \<Rightarrow> input" where
  "input_clear_events st = st\<lparr>s_head := 0, s_tail := 0, s_count := 0\<rparr>"

definition flag_if :: "bool \<Rightarrow> u32 \<Rightarrow> u32 \<Rightarrow> u32" where
  "flag_if b f flags = (if b then flags OR f else flags)"

text \<open>\<open>ticks\<close> is \<^verbatim>\<open>timer_get_ticks()\<close>; \<^verbatim>\<open>KEY_NONE\<close> is 0.\<close>

definition input_push_key_event :: "input \<Rightarrow> u32 \<Rightarrow> key_event \<Rightarrow> input" where
  "input_push_key_event st ticks ev =
     (if key ev = 0 then st
      else
        let st = st\<lparr>s_sequence := s_sequence st + 1\<rparr>;
            out = no_event\<lparr>ev_type := SYS_INPUT_TYPE_KEY, ev_ticks := ticks, ev_sequence := s_sequence st,
              ev_key := key ev, ev_ascii := ucast (ascii ev)\<rparr>;
            flags = flag_if (pressed ev) SYS_INPUT_KEY_PRESSED (ev_flags out);
            flags = flag_if (shift ev) SYS_INPUT_KEY_SHIFT flags;
            flags = flag_if (ctrl ev) SYS_INPUT_KEY_CTRL flags;
            flags = flag_if (alt ev) SYS_INPUT_KEY_ALT flags;
            flags = flag_if (caps_lock ev) SYS_INPUT_KEY_CAPS_LOCK flags;
            flags = flag_if (num_lock ev) SYS_INPUT_KEY_NUM_LOCK flags;
            flags = flag_if (scroll_lock ev) SYS_INPUT_KEY_SCROLL_LOCK flags
        in input_push_event st (out\<lparr>ev_flags := flags\<rparr>))"

definition input_push_mouse_abs_event ::
    "input \<Rightarrow> u32 \<Rightarrow> u32 \<Rightarrow> u32 \<Rightarrow> u32 \<Rightarrow> u32 \<Rightarrow> u32 \<Rightarrow> u32 \<Rightarrow> u32 \<Rightarrow> input" where
  "input_push_mouse_abs_event st ticks dx dy wheel abs_x abs_y buttons button_changes =
     (if dx = 0 \<and> dy = 0 \<and> wheel = 0 \<and> button_changes = 0 then st
      else
        let st = st\<lparr>s_sequence := s_sequence st + 1\<rparr>
        in input_push_event st
             (no_event\<lparr>ev_type := SYS_INPUT_TYPE_MOUSE, ev_flags := SYS_INPUT_MOUSE_ABSOLUTE, ev_ticks := ticks,
               ev_sequence := s_sequence st, ev_dx := dx, ev_dy := dy, ev_wheel := wheel, ev_abs_x := abs_x,
               ev_abs_y := abs_y, ev_buttons := buttons, ev_button_changes := button_changes\<rparr>))"

definition input_push_mouse_event ::
    "input \<Rightarrow> u32 \<Rightarrow> u32 \<Rightarrow> u32 \<Rightarrow> u32 \<Rightarrow> u32 \<Rightarrow> u32 \<Rightarrow> input" where
  "input_push_mouse_event st ticks dx dy wheel buttons button_changes =
     (if dx = 0 \<and> dy = 0 \<and> wheel = 0 \<and> button_changes = 0 then st
      else
        let st = st\<lparr>s_sequence := s_sequence st + 1\<rparr>
        in input_push_event st
             (no_event\<lparr>ev_type := SYS_INPUT_TYPE_MOUSE, ev_ticks := ticks, ev_sequence := s_sequence st,
               ev_dx := dx, ev_dy := dy, ev_wheel := wheel, ev_buttons := buttons,
               ev_button_changes := button_changes\<rparr>))"

definition input_available :: "input \<Rightarrow> nat" where
  "input_available st = s_count st"

definition input_pop_event :: "input \<Rightarrow> sys_input_event option \<times> input" where
  "input_pop_event st =
     (if s_count st = 0 then (None, st)
      else (Some (s_queue st ! s_tail st),
            st\<lparr>s_tail := (s_tail st + 1) mod INPUT_QUEUE_SIZE, s_count := s_count st - 1\<rparr>))"

definition input_set_waiting_process :: "input \<Rightarrow> proc_ptr option \<Rightarrow> input" where
  "input_set_waiting_process st p = st\<lparr>s_waiting_proc := p\<rparr>"

definition input_forget_waiting_process :: "input \<Rightarrow> proc_ptr option \<Rightarrow> input" where
  "input_forget_waiting_process st p = (if s_waiting_proc st = p then st\<lparr>s_waiting_proc := None\<rparr> else st)"

section \<open>The ring as a list\<close>

definition input_ok :: "input \<Rightarrow> bool" where
  "input_ok st \<longleftrightarrow> length (s_queue st) = INPUT_QUEUE_SIZE \<and> s_count st \<le> INPUT_QUEUE_SIZE \<and>
     s_tail st < INPUT_QUEUE_SIZE \<and> s_head st = (s_tail st + s_count st) mod INPUT_QUEUE_SIZE"

definition input_events :: "input \<Rightarrow> sys_input_event list" where
  "input_events st = ring_list INPUT_QUEUE_SIZE (s_queue st) (s_tail st) (s_count st)"

lemma length_input_events [simp]: "length (input_events st) = s_count st"
  by (simp add: input_events_def)

lemma input_size_pos [simp]: "0 < INPUT_QUEUE_SIZE"
  by (simp add: INPUT_QUEUE_SIZE_def)

lemma input_wake_waiter_ring [simp]:
  "s_queue (input_wake_waiter st) = s_queue st" "s_head (input_wake_waiter st) = s_head st"
  "s_tail (input_wake_waiter st) = s_tail st" "s_count (input_wake_waiter st) = s_count st"
  "s_waiting_proc (input_wake_waiter st) = None"
  by (simp_all add: input_wake_waiter_def split: option.split)

lemma input_wake_waiter_events [simp]:
  "input_events (input_wake_waiter st) = input_events st" "input_ok (input_wake_waiter st) = input_ok st"
  by (simp_all add: input_events_def input_ok_def)

lemma input_store_spec:
  assumes "input_ok st" "s_count st < INPUT_QUEUE_SIZE"
  shows "input_ok (input_store_event st ev)" "input_events (input_store_event st ev) = input_events st @ [ev]"
  using assms ring_list_put [of "s_queue st" INPUT_QUEUE_SIZE "s_count st" "s_tail st" ev]
  by (simp_all add: input_ok_def input_events_def input_store_event_def ring_head_step [of _ _ INPUT_QUEUE_SIZE, simplified])

lemma input_pop_spec:
  assumes "input_ok st" "0 < s_count st"
  shows "fst (input_pop_event st) = Some (hd (input_events st))"
    "input_events (snd (input_pop_event st)) = tl (input_events st)" "input_ok (snd (input_pop_event st))"
proof -
  obtain k where k: "s_count st = Suc k" using assms(2) by (cases "s_count st") auto
  have t: "s_tail st mod INPUT_QUEUE_SIZE = s_tail st" using assms(1) by (simp add: input_ok_def)
  show "fst (input_pop_event st) = Some (hd (input_events st))"
    "input_events (snd (input_pop_event st)) = tl (input_events st)"
    using t by (simp_all add: input_pop_event_def input_events_def k ring_list_get)
  show "input_ok (snd (input_pop_event st))"
    using assms ring_tail_step [of "s_count st" "s_tail st" INPUT_QUEUE_SIZE]
    by (auto simp: input_ok_def input_pop_event_def)
qed

interpretation input_queue: bounded_queue input_ok input_events INPUT_QUEUE_SIZE input_store_event input_pop_event
proof unfold_locales
  fix s x
  assume inv: "input_ok s"
  show "length (input_events s) \<le> INPUT_QUEUE_SIZE" using inv by (simp add: input_ok_def)
  show "input_ok (snd (input_pop_event s))"
    using inv input_pop_spec(3) [of s] by (cases "s_count s = 0") (simp_all add: input_pop_event_def)
  {
    assume "length (input_events s) < INPUT_QUEUE_SIZE"
    then show "input_ok (input_store_event s x)" "input_events (input_store_event s x) = input_events s @ [x]"
      using inv input_store_spec by simp_all
  next
    assume "input_events s = []"
    then have "s_count s = 0" by (metis length_input_events list.size(3))
    then show "input_pop_event s = (None, s)" by (simp add: input_pop_event_def)
  next
    assume "input_events s \<noteq> []"
    then have "0 < s_count s" by (metis length_greater_0_conv length_input_events)
    then show "fst (input_pop_event s) = Some (hd (input_events s))"
      "input_events (snd (input_pop_event s)) = tl (input_events s)"
      using inv input_pop_spec by simp_all
  }
qed

section \<open>What pushing an event means\<close>

definition queue_push :: "sys_input_event list \<Rightarrow> sys_input_event \<Rightarrow> sys_input_event list" where
  "queue_push q ev =
     (if q \<noteq> [] \<and> input_is_mergeable_mouse_motion ev \<and> input_can_merge (last q) ev
      then butlast q @ [input_merged (last q) ev]
      else (if length q = INPUT_QUEUE_SIZE then tl q else q) @ [ev])"

lemma input_drop_is_pop: "0 < s_count st \<Longrightarrow> input_drop_oldest st = snd (input_pop_event st)"
  by (simp add: input_drop_oldest_def input_pop_event_def)

lemma input_prev_slot:
  assumes "input_ok st" "0 < s_count st"
  shows "(s_head st + INPUT_QUEUE_SIZE - 1) mod INPUT_QUEUE_SIZE = (s_tail st + (s_count st - 1)) mod INPUT_QUEUE_SIZE"
proof -
  have "(s_head st + (INPUT_QUEUE_SIZE - 1)) mod INPUT_QUEUE_SIZE =
      (s_tail st + s_count st + (INPUT_QUEUE_SIZE - 1)) mod INPUT_QUEUE_SIZE"
    using assms(1) mod_add_left_eq [of "s_tail st + s_count st" INPUT_QUEUE_SIZE "INPUT_QUEUE_SIZE - 1"]
    by (simp add: input_ok_def)
  also have "s_tail st + s_count st + (INPUT_QUEUE_SIZE - 1) = s_tail st + (s_count st - 1) + INPUT_QUEUE_SIZE"
    using assms(2) by (simp add: INPUT_QUEUE_SIZE_def)
  finally show ?thesis by (simp add: INPUT_QUEUE_SIZE_def add.commute)
qed

lemma input_merge_spec:
  assumes "input_ok st" "input_try_merge_mouse_motion st ev = Some st'"
  shows "input_ok st'" "input_events st' = queue_push (input_events st) ev"
proof -
  have c: "0 < s_count st" "input_is_mergeable_mouse_motion ev"
    using assms(2) by (auto simp: input_try_merge_mouse_motion_def split: if_splits)
  let ?p = "(s_tail st + (s_count st - 1)) mod INPUT_QUEUE_SIZE"
  note slot = input_prev_slot [OF assms(1) c(1), unfolded One_nat_def]
  have l: "last (input_events st) = s_queue st ! ?p"
    "ring_list INPUT_QUEUE_SIZE ((s_queue st)[?p := x]) (s_tail st) (s_count st) = butlast (input_events st) @ [x]" for x
    unfolding input_events_def using assms(1) c(1)
      ring_list_last [of "s_queue st" INPUT_QUEUE_SIZE "s_count st" "s_tail st"] by (simp_all add: input_ok_def)
  have m: "input_can_merge (last (input_events st)) ev"
    "st' = input_wake_waiter (st\<lparr>s_queue := (s_queue st)[?p := input_merged (last (input_events st)) ev]\<rparr>)"
    using assms(2) c l(1) by (auto simp: input_try_merge_mouse_motion_def slot Let_def split: if_splits)
  have "input_events st \<noteq> []" using c(1) by (metis length_input_events list.size(3) less_irrefl)
  then show "input_events st' = queue_push (input_events st) ev"
    using m c l(2) by (simp add: queue_push_def) (simp add: input_events_def)
  show "input_ok st'" using assms(1) by (simp add: m(2)) (simp add: input_ok_def)
qed

lemma input_no_merge:
  assumes "input_ok st" "input_try_merge_mouse_motion st ev = None"
  shows "input_events st = [] \<or> \<not> input_is_mergeable_mouse_motion ev \<or> \<not> input_can_merge (last (input_events st)) ev"
proof (cases "s_count st = 0")
  case True
  then show ?thesis by (simp add: input_events_def)
next
  case False
  then have c: "0 < s_count st" by simp
  have "last (input_events st) = s_queue st ! ((s_tail st + (s_count st - 1)) mod INPUT_QUEUE_SIZE)"
    unfolding input_events_def using assms(1) c by (intro ring_list_last) (auto simp: input_ok_def)
  then show ?thesis
    using assms(2) False by (auto simp: input_try_merge_mouse_motion_def input_prev_slot [OF assms(1) c, unfolded One_nat_def] Let_def split: if_splits)
qed

lemma input_push_spec:
  assumes "input_ok st"
  shows "input_ok (input_push_event st ev) \<and> input_events (input_push_event st ev) = queue_push (input_events st) ev"
proof (cases "input_try_merge_mouse_motion st ev")
  case (Some st')
  then show ?thesis using input_merge_spec [OF assms] by (simp add: input_push_event_def)
next
  case None
  note nm = input_no_merge [OF assms None]
  define st1 where "st1 = (if s_count st \<ge> INPUT_QUEUE_SIZE then input_drop_oldest st else st)"
  have le: "s_count st \<le> INPUT_QUEUE_SIZE" using assms by (simp add: input_ok_def)
  have full: "s_count st = INPUT_QUEUE_SIZE \<Longrightarrow> 0 < s_count st" by simp
  have st1: "input_ok st1" "input_events st1 = (if s_count st = INPUT_QUEUE_SIZE then tl (input_events st) else input_events st)"
    "s_count st1 < INPUT_QUEUE_SIZE"
    using le assms input_pop_spec [OF assms full] full
    by (auto simp: st1_def input_drop_is_pop) (auto simp: input_pop_event_def)
  have "input_push_event st ev = input_wake_waiter (input_store_event st1 ev)"
    using None by (simp add: input_push_event_def st1_def Let_def)
  then show ?thesis using input_store_spec [OF st1(1,3)] st1(2) nm by (auto simp: queue_push_def)
qed

section \<open>Sequences of operations\<close>

datatype input_op = Push_Event sys_input_event | Pop_Event

text \<open>The events popped, in order, by a sequence of operations on the ring and on a plain list.\<close>

fun input_run :: "input \<Rightarrow> input_op list \<Rightarrow> sys_input_event list \<times> input" where
  "input_run st [] = ([], st)"
| "input_run st (Push_Event ev # ops) = input_run (input_push_event st ev) ops"
| "input_run st (Pop_Event # ops) =
     (case input_pop_event st of
        (None, st') \<Rightarrow> input_run st' ops
      | (Some ev, st') \<Rightarrow> (case input_run st' ops of (evs, st'') \<Rightarrow> (ev # evs, st'')))"

fun queue_run :: "sys_input_event list \<Rightarrow> input_op list \<Rightarrow> sys_input_event list \<times> sys_input_event list" where
  "queue_run q [] = ([], q)"
| "queue_run q (Push_Event ev # ops) = queue_run (queue_push q ev) ops"
| "queue_run [] (Pop_Event # ops) = queue_run [] ops"
| "queue_run (ev # q) (Pop_Event # ops) = (case queue_run q ops of (evs, q') \<Rightarrow> (ev # evs, q'))"

lemma input_run_refines:
  "input_ok st \<Longrightarrow> input_run st ops = (evs, st') \<Longrightarrow> queue_run (input_events st) ops = (evs, input_events st') \<and> input_ok st'"
proof (induction ops arbitrary: st evs)
  case Nil
  then show ?case by simp
next
  case (Cons op ops)
  show ?case
  proof (cases op)
    case (Push_Event ev)
    then show ?thesis using Cons.IH [of "input_push_event st ev"] Cons.prems input_push_spec [OF Cons.prems(1), of ev] by simp
  next
    case Pop_Event
    show ?thesis
    proof (cases "input_events st")
      case Nil
      then show ?thesis using Pop_Event Cons.IH [OF Cons.prems(1)] Cons.prems input_queue.get_empty [OF Cons.prems(1)] by simp
    next
      case (Cons x xs)
      obtain st1 where st1: "input_pop_event st = (Some x, st1)" "input_events st1 = xs" "input_ok st1"
        using input_queue.get_Cons [OF Cons.prems(1) Cons] .
      obtain zs where "evs = x # zs" "input_run st1 ops = (zs, st')"
        using Cons.prems(2) Pop_Event st1(1) by (auto split: prod.splits)
      with Cons.IH [OF st1(3)] show ?thesis using Pop_Event st1 Cons by simp
    qed
  qed
qed

text \<open>
  over any sequence of events pushed and popped, the wrapping ring with its merging and
  overwriting behaves as a plain list: a movement is merged into a preceding movement with the
  same buttons, otherwise the event is appended and the oldest of 256 gives way, and events are
  popped oldest first.
\<close>

theorem input_queue_refines:
  assumes "input_ok st" "input_run st ops = (evs, st')"
  shows "queue_run (input_events st) ops = (evs, input_events st') \<and> input_ok st'"
  by (rule input_run_refines [OF assms])

definition sample_motion :: "u32 \<Rightarrow> sys_input_event" where
  "sample_motion dx = no_event\<lparr>ev_type := SYS_INPUT_TYPE_MOUSE, ev_dx := dx\<rparr>"

lemma input_init_ok: "input_ok (input_init ps)" "input_events (input_init ps) = []"
  by (simp_all add: input_init_def input_ok_def input_events_def)

theorem input_queue_refines_witness:
  "fst (queue_run [] [Push_Event (sample_motion 3), Push_Event (sample_motion 4), Pop_Event]) =
   fst (input_run (input_init (\<lambda>_. no_proc)) [Push_Event (sample_motion 3), Push_Event (sample_motion 4), Pop_Event])"
proof -
  obtain evs st' where r: "input_run (input_init (\<lambda>_. no_proc)) [Push_Event (sample_motion 3), Push_Event (sample_motion 4), Pop_Event] = (evs, st')"
    by fastforce
  from input_queue_refines [OF input_init_ok(1) r] show ?thesis unfolding r by (simp add: input_init_ok)
qed

section \<open>No movement is lost\<close>

definition pushed :: "input_op list \<Rightarrow> sys_input_event list" where
  "pushed ops = concat (map (\<lambda>op. case op of Push_Event ev \<Rightarrow> [ev] | Pop_Event \<Rightarrow> []) ops)"

lemma pushed_simps [simp]:
  "pushed [] = []" "pushed (Push_Event ev # ops) = ev # pushed ops" "pushed (Pop_Event # ops) = pushed ops"
  by (simp_all add: pushed_def)

definition motion :: "sys_input_event list \<Rightarrow> u32 \<times> u32 \<times> u32" where
  "motion evs = (sum_list (map ev_dx evs), sum_list (map ev_dy evs), sum_list (map ev_wheel evs))"

definition plus3 :: "u32 \<times> u32 \<times> u32 \<Rightarrow> u32 \<times> u32 \<times> u32 \<Rightarrow> u32 \<times> u32 \<times> u32" where
  "plus3 a b = (fst a + fst b, fst (snd a) + fst (snd b), snd (snd a) + snd (snd b))"

lemma motion_Cons: "motion (ev # evs) = plus3 (motion [ev]) (motion evs)"
  by (simp add: motion_def plus3_def)

lemma plus3_ac: "plus3 (plus3 a b) c = plus3 a (plus3 b c)" "plus3 a b = plus3 b a" "plus3 a (plus3 b c) = plus3 b (plus3 a c)"
  by (simp_all add: plus3_def algebra_simps)

lemma plus3_0: "plus3 (motion []) a = a" "plus3 a (motion []) = a"
  by (simp_all add: plus3_def motion_def)

lemma motion_append: "motion (xs @ ys) = plus3 (motion xs) (motion ys)"
  by (simp add: motion_def plus3_def)

lemma motion_push:
  assumes "length q < INPUT_QUEUE_SIZE"
  shows "motion (queue_push q ev) = plus3 (motion q) (motion [ev])" "length (queue_push q ev) \<le> length q + 1"
proof -
  have m: "motion [input_merged l ev] = plus3 (motion [l]) (motion [ev])" for l
    by (simp add: motion_def plus3_def input_merged_def)
  show "motion (queue_push q ev) = plus3 (motion q) (motion [ev])"
  proof (cases "q \<noteq> [] \<and> input_is_mergeable_mouse_motion ev \<and> input_can_merge (last q) ev")
    case True
    then have "motion q = plus3 (motion (butlast q)) (motion [last q])"
      using motion_append [of "butlast q" "[last q]"] by simp
    with True show ?thesis by (simp add: queue_push_def motion_append m plus3_ac)
  next
    case False
    then show ?thesis using assms by (auto simp: queue_push_def motion_append)
  qed
  show "length (queue_push q ev) \<le> length q + 1" using assms by (auto simp: queue_push_def)
qed

lemma queue_run_motion:
  assumes "length q + length (pushed ops) \<le> INPUT_QUEUE_SIZE" "queue_run q ops = (evs, q')"
  shows "plus3 (motion evs) (motion q') = plus3 (motion q) (motion (pushed ops))"
  using assms
proof (induction q ops arbitrary: evs rule: queue_run.induct)
  case (1 q)
  then show ?case by (simp add: plus3_ac(2))
next
  case (2 q ev ops)
  then show ?case using motion_push [of q ev] by (simp add: motion_Cons [of ev "pushed ops"] plus3_ac(1))
next
  case (3 ops)
  then show ?case by simp
next
  case (4 ev q ops)
  then obtain zs where "evs = ev # zs" "queue_run q ops = (zs, q')" by (auto split: prod.splits)
  with 4 show ?case by (simp add: motion_Cons [of ev zs] motion_Cons [of ev q] plus3_ac(1))
qed

text \<open>
  C23: merging loses no movement. As long as the ring cannot overflow, the horizontal, vertical
  and wheel movement of the events popped and of those still queued adds up to that of the
  events there at the start and those pushed.
\<close>

theorem input_motion_conserved:
  assumes "input_ok st" "input_available st + length (pushed ops) \<le> INPUT_QUEUE_SIZE" "input_run st ops = (evs, st')"
  shows "plus3 (motion evs) (motion (input_events st')) = plus3 (motion (input_events st)) (motion (pushed ops))"
  using queue_run_motion [of "input_events st" ops evs "input_events st'"] assms input_run_refines [OF assms(1,3)]
  by (simp add: input_available_def)

theorem input_motion_conserved_witness:
  "\<exists>evs st'. input_run (input_init (\<lambda>_. no_proc)) [Push_Event (sample_motion 3), Pop_Event, Push_Event (sample_motion 4)] = (evs, st') \<and>
     plus3 (motion evs) (motion (input_events st')) = (7, 0, 0)"
proof -
  let ?ops = "[Push_Event (sample_motion 3), Pop_Event, Push_Event (sample_motion 4)]"
  obtain evs st' where r: "input_run (input_init (\<lambda>_. no_proc)) ?ops = (evs, st')" by fastforce
  have "input_available (input_init (\<lambda>_. no_proc)) + length (pushed ?ops) \<le> INPUT_QUEUE_SIZE"
    by (simp add: input_available_def input_init_def INPUT_QUEUE_SIZE_def)
  from input_motion_conserved [OF input_init_ok(1) this r] r show ?thesis
    by (auto simp: input_init_ok motion_def plus3_def sample_motion_def no_event_def)
qed

end
