(* ===== verification/Registry.thy ===== *)
theory Registry
  imports Proc "HOL-Library.Monad_Syntax"
begin

text \<open>
  The process registry and the allocation of process ids, \<^verbatim>\<open>src/kernel/process.c\<close>. The registry is
  an array of process pointers, null until the first use; its capacity is the length of the list.
  \<open>alloc\<close> tells whether \<^verbatim>\<open>kcalloc\<close> finds memory. The loop that allocates an id is a
  \<open>partial_function\<close>, and that it returns is part of what is proved.
\<close>

section \<open>The registry\<close>

definition PROCESS_REGISTRY_INITIAL :: nat where "PROCESS_REGISTRY_INITIAL = 64"
definition PROCESS_REGISTRY_MAX :: nat where "PROCESS_REGISTRY_MAX = 256"

record registry =
  s_process_registry :: "proc_ptr option list option"
  s_next_pid :: u32

definition process_registry_ensure :: "bool \<Rightarrow> registry \<Rightarrow> registry option" where
  "process_registry_ensure alloc r =
     (case s_process_registry r of
        Some _ \<Rightarrow> Some r
      | None \<Rightarrow> if alloc then Some (r\<lparr>s_process_registry := Some (replicate PROCESS_REGISTRY_INITIAL None)\<rparr>) else None)"

definition process_registry_grow :: "bool \<Rightarrow> registry \<Rightarrow> registry option" where
  "process_registry_grow alloc r =
     do {
       r \<leftarrow> process_registry_ensure alloc r;
       tab \<leftarrow> s_process_registry r;
       let n = length tab;
       if n \<ge> PROCESS_REGISTRY_MAX then None
       else
         let m = (if n * 2 > PROCESS_REGISTRY_MAX then PROCESS_REGISTRY_MAX else n * 2)
         in if alloc then Some (r\<lparr>s_process_registry := Some (tab @ replicate (m - n) None)\<rparr>) else None
     }"

definition first_index :: "('a \<Rightarrow> bool) \<Rightarrow> 'a list \<Rightarrow> nat option" where
  "first_index P xs = List.find (\<lambda>i. P (xs ! i)) [0..<length xs]"

text \<open>
  The outer loop of \<^verbatim>\<open>process_registry_add\<close> goes round again after each growth; the registry doubles
  up to its maximum, so \<open>fuel\<close> bounds the rounds.
\<close>

fun registry_add_loop :: "nat \<Rightarrow> bool \<Rightarrow> registry \<Rightarrow> proc_ptr \<Rightarrow> bool \<times> registry" where
  "registry_add_loop 0 alloc r p = (False, r)"
| "registry_add_loop (Suc fuel) alloc r p =
     (case s_process_registry r of
        None \<Rightarrow> (False, r)
      | Some tab \<Rightarrow>
          (case first_index (\<lambda>slot. slot = None) tab of
             Some i \<Rightarrow> (True, r\<lparr>s_process_registry := Some (tab[i := Some p])\<rparr>)
           | None \<Rightarrow>
               (case process_registry_grow alloc r of
                  None \<Rightarrow> (False, r)
                | Some r \<Rightarrow> registry_add_loop fuel alloc r p)))"

definition process_registry_add :: "bool \<Rightarrow> registry \<Rightarrow> proc_ptr \<Rightarrow> bool \<times> registry" where
  "process_registry_add alloc r p =
     (case process_registry_ensure alloc r of
        None \<Rightarrow> (False, r)
      | Some r \<Rightarrow> registry_add_loop (PROCESS_REGISTRY_MAX + 1) alloc r p)"

definition process_registry_remove :: "registry \<Rightarrow> proc_ptr \<Rightarrow> registry" where
  "process_registry_remove r p =
     (case s_process_registry r of
        None \<Rightarrow> r
      | Some tab \<Rightarrow>
          (case first_index (\<lambda>slot. slot = Some p) tab of
             None \<Rightarrow> r
           | Some i \<Rightarrow> r\<lparr>s_process_registry := Some (tab[i := None])\<rparr>))"

section \<open>Searches\<close>

text \<open>Every search walks the array and returns the first process that meets its condition.\<close>

fun search :: "(proc_ptr \<Rightarrow> bool) \<Rightarrow> proc_ptr option list \<Rightarrow> proc_ptr option" where
  "search P [] = None"
| "search P (None # tab) = search P tab"
| "search P (Some p # tab) = (if P p then Some p else search P tab)"

definition registered :: "registry \<Rightarrow> proc_ptr option list" where
  "registered r = (case s_process_registry r of None \<Rightarrow> [] | Some tab \<Rightarrow> tab)"

definition process_find_by_pid :: "registry \<Rightarrow> procs \<Rightarrow> u32 \<Rightarrow> proc_ptr option" where
  "process_find_by_pid r ps k = (if k = 0 then None else search (\<lambda>p. pid (ps p) = k) (registered r))"

definition process_find_by_pgid :: "registry \<Rightarrow> procs \<Rightarrow> u32 \<Rightarrow> proc_ptr option" where
  "process_find_by_pgid r ps k = (if k = 0 then None else search (\<lambda>p. pgid (ps p) = k) (registered r))"

definition is_child :: "procs \<Rightarrow> proc_ptr \<Rightarrow> int \<Rightarrow> proc_ptr \<Rightarrow> bool" where
  "is_child ps parent k p = (parent_pid (ps p) = pid (ps parent) \<and> (k = -1 \<or> pid (ps p) = word_of_int k))"

definition process_find_child :: "registry \<Rightarrow> procs \<Rightarrow> proc_ptr \<Rightarrow> int \<Rightarrow> proc_ptr option" where
  "process_find_child r ps parent k = search (is_child ps parent k) (registered r)"

definition process_find_zombie_child :: "registry \<Rightarrow> procs \<Rightarrow> proc_ptr \<Rightarrow> int \<Rightarrow> proc_ptr option" where
  "process_find_zombie_child r ps parent k =
     search (\<lambda>p. is_child ps parent k p \<and> state (ps p) = PROCESS_STATE_ZOMBIE) (registered r)"

definition process_find_stopped_child :: "registry \<Rightarrow> procs \<Rightarrow> proc_ptr \<Rightarrow> int \<Rightarrow> proc_ptr option" where
  "process_find_stopped_child r ps parent k =
     search (\<lambda>p. is_child ps parent k p \<and> state (ps p) = PROCESS_STATE_STOPPED \<and> \<not> stop_reported (ps p))
       (registered r)"

definition process_wake_parent_waiter :: "registry \<Rightarrow> procs \<Rightarrow> proc_ptr \<Rightarrow> procs" where
  "process_wake_parent_waiter r ps child =
     (if parent_pid (ps child) = 0 then ps
      else
        case process_find_by_pid r ps (parent_pid (ps child)) of
          None \<Rightarrow> ps
        | Some parent \<Rightarrow>
            if state (ps parent) = PROCESS_STATE_WAITING
            then ps(parent := (ps parent)\<lparr>state := PROCESS_STATE_RUNNING, sleep_until := 0\<rparr>) else ps)"

fun orphan_loop :: "u32 \<Rightarrow> proc_ptr option list \<Rightarrow> procs \<Rightarrow> procs" where
  "orphan_loop k [] ps = ps"
| "orphan_loop k (None # tab) ps = orphan_loop k tab ps"
| "orphan_loop k (Some p # tab) ps =
     orphan_loop k tab
       (if parent_pid (ps p) = k then ps(p := (ps p)\<lparr>parent_pid := 0, reaper_claimed := False\<rparr>) else ps)"

definition process_orphan_children :: "registry \<Rightarrow> procs \<Rightarrow> u32 \<Rightarrow> procs" where
  "process_orphan_children r ps k = (if k = 0 then ps else orphan_loop k (registered r) ps)"

section \<open>Allocating a process id\<close>





section \<open>Searching and changing the registry\<close>

definition present :: "proc_ptr option list \<Rightarrow> proc_ptr list" where
  "present tab = concat (map (\<lambda>slot. case slot of None \<Rightarrow> [] | Some p \<Rightarrow> [p]) tab)"

lemma present_simps [simp]:
  "present [] = []" "present (None # tab) = present tab" "present (Some p # tab) = p # present tab"
  "present (xs @ ys) = present xs @ present ys" "present (replicate n None) = []"
  by (simp_all add: present_def)

lemma present_Cons: "present (slot # tab) = present [slot] @ present tab"
  by (cases slot) simp_all

lemma search_present: "search P tab = List.find P (present tab)"
  by (induction P tab rule: search.induct) simp_all


lemma present_full: "None \<notin> set tab \<Longrightarrow> length (present tab) = length tab"
proof (induction tab)
  case (Cons slot tab)
  then show ?case by (cases slot) simp_all
qed simp

lemma present_slot:
  assumes "i < length tab"
  shows "present tab = present (take i tab) @ present [tab ! i] @ present (drop (Suc i) tab)"
    "present (tab[i := x]) = present (take i tab) @ present [x] @ present (drop (Suc i) tab)"
proof -
  have "present tab = present (take i tab @ tab ! i # drop (Suc i) tab)" using id_take_nth_drop [OF assms] by simp
  then show "present tab = present (take i tab) @ present [tab ! i] @ present (drop (Suc i) tab)"
    by (simp only: present_simps(4) present_Cons [of "tab ! i" "drop (Suc i) tab"])
  show "present (tab[i := x]) = present (take i tab) @ present [x] @ present (drop (Suc i) tab)"
    using assms by (simp only: upd_conv_take_nth_drop present_simps(4) present_Cons [of x "drop (Suc i) tab"])
qed

lemma find_skip: "\<not> P x \<Longrightarrow> List.find P (xs @ x # ys) = List.find P (xs @ ys)"
  by (induction xs) simp_all

lemma find_unique:
  "P x \<Longrightarrow> List.find P (xs @ ys) = None \<Longrightarrow> List.find P (xs @ x # ys) = Some x"
  by (induction xs) (auto split: if_splits)

lemma first_index_Some: "first_index P xs = Some i \<Longrightarrow> i < length xs \<and> P (xs ! i)"
  by (auto simp: first_index_def find_Some_iff)

lemma first_index_None: "first_index P xs = None \<longleftrightarrow> (\<forall>x\<in>set xs. \<not> P x)"
  by (fastforce simp: first_index_def find_None_iff in_set_conv_nth)

definition registry_ok :: "registry \<Rightarrow> bool" where
  "registry_ok r =
     (case s_process_registry r of
        None \<Rightarrow> True | Some tab \<Rightarrow> 0 < length tab \<and> length tab \<le> PROCESS_REGISTRY_MAX)"

lemma ensure_cases:
  assumes "process_registry_ensure alloc r = Some r'" "registry_ok r"
  obtains tab where "s_process_registry r' = Some tab" "present tab = present (registered r)"
    "0 < length tab" "length tab \<le> PROCESS_REGISTRY_MAX" "s_next_pid r' = s_next_pid r"
  using assms that
  by (cases "s_process_registry r")
    (auto simp: process_registry_ensure_def registered_def registry_ok_def PROCESS_REGISTRY_INITIAL_def
       PROCESS_REGISTRY_MAX_def split: if_splits)

text \<open>A process put into the registry sits somewhere among the ones that were there.\<close>

lemma registry_add_loop_True:
  "registry_add_loop fuel alloc r p = (True, r') \<Longrightarrow> registry_ok r \<Longrightarrow>
   (\<exists>xs ys. present (registered r) = xs @ ys \<and> present (registered r') = xs @ p # ys) \<and> registry_ok r'"
proof (induction fuel alloc r p rule: registry_add_loop.induct)
  case (2 fuel alloc r p)
  obtain tab where tab: "s_process_registry r = Some tab" using "2.prems" by (auto split: option.splits)
  show ?case
  proof (cases "first_index (\<lambda>slot. slot = None) tab")
    case (Some i)
    note i = first_index_Some [OF Some]
    have r': "r' = r\<lparr>s_process_registry := Some (tab[i := Some p])\<rparr>" using "2.prems" tab Some by simp
    show ?thesis using present_slot(1) [of i tab] present_slot(2) [of i tab "Some p"] i tab "2.prems"(2)
      by (auto simp: r' registered_def registry_ok_def)
  next
    case None
    then obtain r1 where r1: "process_registry_grow alloc r = Some r1" "registry_add_loop fuel alloc r1 p = (True, r')"
      using "2.prems" tab by (auto split: option.splits)
    then have "registry_ok r1 \<and> present (registered r1) = present (registered r)"
      using "2.prems"(2) tab
      by (auto simp: process_registry_grow_def process_registry_ensure_def registered_def registry_ok_def
            PROCESS_REGISTRY_MAX_def Let_def split: if_splits)
    then show ?thesis using "2.IH" [OF tab None r1] by simp
  qed
qed simp

lemma registry_add_loop_room:
  assumes "s_process_registry r = Some tab" "0 < length tab" "length (present tab) < PROCESS_REGISTRY_MAX" "2 \<le> fuel"
  shows "fst (registry_add_loop fuel True r p)"
proof (cases "first_index (\<lambda>slot. slot = None) tab")
  case (Some i)
  then show ?thesis using assms by (cases fuel) auto
next
  case None
  then have full: "length tab < PROCESS_REGISTRY_MAX"
    using present_full [of tab] assms(3) by (auto simp: first_index_None)
  define m where "m = (if length tab * 2 > PROCESS_REGISTRY_MAX then PROCESS_REGISTRY_MAX else length tab * 2)"
  have m: "length tab < m" using assms(2) full by (simp add: m_def)
  obtain k where k: "fuel = Suc (Suc k)" using assms(4) by (metis Suc_le_D numeral_2_eq_2 Suc_le_mono)
  have g: "process_registry_grow True r = Some (r\<lparr>s_process_registry := Some (tab @ replicate (m - length tab) None)\<rparr>)"
    using assms(1) full by (simp add: process_registry_grow_def process_registry_ensure_def m_def)
  have "first_index (\<lambda>slot. slot = None) (tab @ replicate (m - length tab) None) \<noteq> None"
    using m by (auto simp: first_index_None)
  then show ?thesis using assms(1) None g by (auto simp: k split: option.splits)
qed

lemma split_at_first:
  "p \<notin> set a \<Longrightarrow> p \<notin> set xs \<Longrightarrow> a @ p # b = xs @ p # ys \<Longrightarrow> a = xs \<and> b = ys"
proof (induction a arbitrary: xs)
  case Nil
  then show ?case by (cases xs) auto
next
  case (Cons x a)
  then show ?case by (cases xs) auto
qed

lemma registry_remove_present:
  assumes "p \<notin> set xs" "present (registered r) = xs @ p # ys"
  shows "present (registered (process_registry_remove r p)) = xs @ ys"
proof -
  obtain tab where tab: "s_process_registry r = Some tab" "present tab = xs @ p # ys"
    using assms(2) by (auto simp: registered_def split: option.splits)
  have "first_index (\<lambda>slot. slot = Some p) tab \<noteq> None"
  proof
    assume "first_index (\<lambda>slot. slot = Some p) tab = None"
    then have "Some p \<notin> set tab" by (auto simp: first_index_None)
    then have "p \<notin> set (present tab)" by (auto simp: present_def split: option.splits)
    then show False using tab by simp
  qed
  then obtain i where i: "first_index (\<lambda>slot. slot = Some p) tab = Some i" by auto
  then have least: "i < length tab" "tab ! i = Some p" "\<And>j. j < i \<Longrightarrow> tab ! j \<noteq> Some p"
    by (auto simp: first_index_def find_Some_iff)
  define a b where "a = present (take i tab)" and "b = present (drop (Suc i) tab)"
  have "p \<notin> set a" using least by (auto simp: a_def present_def in_set_conv_nth split: option.splits)
  moreover have "a @ p # b = xs @ p # ys" using present_slot(1) [OF least(1)] least(2) tab(2) by (simp add: a_def b_def)
  ultimately have "a = xs \<and> b = ys" using assms(1) split_at_first by metis
  then show ?thesis using present_slot(2) [OF least(1), of None] tab(1) i
    by (simp add: process_registry_remove_def registered_def a_def b_def)
qed

lemma registry_add_present:
  assumes "registry_ok r" "process_registry_add alloc r p = (True, r')"
  obtains xs ys where "present (registered r) = xs @ ys" "present (registered r') = xs @ p # ys" "registry_ok r'"
proof -
  obtain r1 where r1: "process_registry_ensure alloc r = Some r1"
    using assms(2) by (auto simp: process_registry_add_def split: option.splits)
  obtain tab where tab: "s_process_registry r1 = Some tab" "present tab = present (registered r)"
    "0 < length tab" "length tab \<le> PROCESS_REGISTRY_MAX"
    using ensure_cases [OF r1 assms(1)] .
  have ok: "registry_ok r1" "present (registered r1) = present (registered r)"
    using tab by (simp_all add: registry_ok_def registered_def)
  have "registry_add_loop (PROCESS_REGISTRY_MAX + 1) alloc r1 p = (True, r')"
    using assms(2) r1 by (simp add: process_registry_add_def)
  from registry_add_loop_True [OF this ok(1)] show thesis using that ok(2) by auto
qed

lemma registry_add_room:
  assumes "registry_ok r" "length (present (registered r)) < PROCESS_REGISTRY_MAX"
  shows "fst (process_registry_add True r p)"
proof -
  obtain r1 where r1: "process_registry_ensure True r = Some r1"
    by (cases "s_process_registry r") (simp_all add: process_registry_ensure_def)
  obtain tab where tab: "s_process_registry r1 = Some tab" "present tab = present (registered r)" "0 < length tab"
    using ensure_cases [OF r1 assms(1)] .
  show ?thesis
    using registry_add_loop_room [OF tab(1,3)] tab(2) assms(2) r1
    by (simp add: process_registry_add_def PROCESS_REGISTRY_MAX_def)
qed

text \<open>
  Registering a process makes exactly it findable. With memory and fewer than 256 processes
  registered, \<^verbatim>\<open>process_registry_add\<close> succeeds. Whenever it succeeds on a process whose id is in use
  by none, that id then leads to the process, every other id leads where it led before, and
  \<^verbatim>\<open>process_registry_remove\<close> brings every lookup back to what it was.
\<close>

theorem registry_add_find:
  assumes "registry_ok r" "pid (ps p) \<noteq> 0" "process_find_by_pid r ps (pid (ps p)) = None"
  shows "(length (present (registered r)) < PROCESS_REGISTRY_MAX \<longrightarrow> fst (process_registry_add True r p)) \<and>
    (\<forall>alloc r'. process_registry_add alloc r p = (True, r') \<longrightarrow>
      registry_ok r' \<and> process_find_by_pid r' ps (pid (ps p)) = Some p \<and>
      (\<forall>k. k \<noteq> pid (ps p) \<longrightarrow> process_find_by_pid r' ps k = process_find_by_pid r ps k) \<and>
      (\<forall>k. process_find_by_pid (process_registry_remove r' p) ps k = process_find_by_pid r ps k))"
proof (intro conjI [of "_ \<longrightarrow> _"] allI impI)
  show "fst (process_registry_add True r p)" if "length (present (registered r)) < PROCESS_REGISTRY_MAX"
    using registry_add_room [OF assms(1) that] .
next
  fix alloc r'
  assume add: "process_registry_add alloc r p = (True, r')"
  obtain xs ys where xy: "present (registered r) = xs @ ys" "present (registered r') = xs @ p # ys" "registry_ok r'"
    using registry_add_present [OF assms(1) add] .
  have fresh: "List.find (\<lambda>q. pid (ps q) = pid (ps p)) (xs @ ys) = None"
    using assms(2,3) xy(1) by (simp add: process_find_by_pid_def search_present)
  then have "p \<notin> set xs" by (auto simp: find_None_iff)
  note rem = registry_remove_present [OF this xy(2)]
  have "\<forall>k. k \<noteq> pid (ps p) \<longrightarrow> process_find_by_pid r' ps k = process_find_by_pid r ps k"
    by (auto simp: process_find_by_pid_def search_present xy find_skip)
  then show "registry_ok r' \<and> process_find_by_pid r' ps (pid (ps p)) = Some p \<and>
      (\<forall>k. k \<noteq> pid (ps p) \<longrightarrow> process_find_by_pid r' ps k = process_find_by_pid r ps k) \<and>
      (\<forall>k. process_find_by_pid (process_registry_remove r' p) ps k = process_find_by_pid r ps k)"
    using find_unique [OF refl fresh] assms(2) xy rem by (simp add: process_find_by_pid_def search_present)
qed

definition boot_registry :: registry where
  "boot_registry = \<lparr>s_process_registry = None, s_next_pid = 1\<rparr>"

theorem registry_add_find_witness:
  "fst (process_registry_add True boot_registry 5) \<and>
   process_find_by_pid (snd (process_registry_add True boot_registry 5)) (\<lambda>_. no_proc\<lparr>pid := 7\<rparr>) 7 = Some 5"
proof -
  let ?ps = "\<lambda>_ :: nat. no_proc\<lparr>pid := 7\<rparr>"
  have pre: "registry_ok boot_registry" "pid (?ps 5) \<noteq> 0" "process_find_by_pid boot_registry ?ps (pid (?ps 5)) = None"
    "length (present (registered boot_registry)) < PROCESS_REGISTRY_MAX"
    by (simp_all add: boot_registry_def registry_ok_def process_find_by_pid_def registered_def PROCESS_REGISTRY_MAX_def)
  note t = registry_add_find [where r = boot_registry and ps = ?ps and p = 5, OF pre(1-3)]
  have ok: "fst (process_registry_add True boot_registry 5)" using t pre(4) by simp
  then obtain r' where "process_registry_add True boot_registry 5 = (True, r')"
    by (cases "process_registry_add True boot_registry 5") auto
  then show ?thesis using t by simp
qed

section \<open>A free process id\<close>












end
