(* ===== verification/Scheduler.thy ===== *)
theory Scheduler
  imports Registry Memory "HOL-Library.Monad_Syntax"
begin

text \<open>
  The round-robin scheduler, \<^verbatim>\<open>src/kernel/scheduler.c\<close>. The table holds pointers to processes, whose
  records are in the store \<open>sched_procs\<close>; \<open>cpu\<close> is what the last \<^verbatim>\<open>sched_switch\<close> loaded (stack
  pointer, page directory, kernel stack). \<open>None\<close> is a null pointer dereference or one of the
  endless halts of the code. What the handles of a process do to other processes, when they are
  closed on exit and when a timer fires, and the mapping of frames into kernel space, are
  parameters. Process pointers passed in are not null. The save slots that nothing reads again
  (\<^verbatim>\<open>s_boot_esp\<close> and the throwaway locals) are left out.
\<close>

definition SCHED_MAX_PROCS :: nat where "SCHED_MAX_PROCS = 128"
definition SCHED_INITIAL_PROCS :: nat where "SCHED_INITIAL_PROCS = 32"
definition SCHED_TICKS_PER_QUANTUM :: u32 where "SCHED_TICKS_PER_QUANTUM = (300 * 20 + (1000 - 1)) div 1000"

record sched_env =
  kernel_pd :: u32
  phys_to_kernel_virt :: "u32 \<Rightarrow> u32"
  process_wake_timerfds :: "procs \<Rightarrow> proc_ptr \<Rightarrow> u32 \<Rightarrow> procs"
  close_all_fds :: "procs \<Rightarrow> proc_ptr \<Rightarrow> procs"
  process_registry :: registry

record sched =
  s_table :: "proc_ptr option list"
  s_nprocs :: nat
  s_capacity :: nat
  s_current_idx :: int
  s_tick_count :: u32
  sched_procs :: procs
  cpu :: "u32 \<times> u32 \<times> u32"

definition sched_proc_cr3 :: "sched_env \<Rightarrow> proc \<Rightarrow> u32" where
  "sched_proc_cr3 e p = (if pd p = 0 then kernel_pd e else pd p)"

definition sched_proc_esp0 :: "sched_env \<Rightarrow> proc \<Rightarrow> u32" where
  "sched_proc_esp0 e p =
     (if kernel_stack_frame p = 0 then KERNEL_BOOT_STACK_TOP
      else phys_to_kernel_virt e (kernel_stack_frame p) + kernel_stack_frames p * PAGE_SIZE)"

definition sched_runnable :: "sched \<Rightarrow> nat \<Rightarrow> bool" where
  "sched_runnable st i =
     (case s_table st ! i of
        None \<Rightarrow> False
      | Some p \<Rightarrow> state (sched_procs st p) = PROCESS_STATE_RUNNING \<and> sched_esp (sched_procs st p) \<noteq> 0)"

fun find_runnable_loop :: "sched \<Rightarrow> nat \<Rightarrow> nat \<Rightarrow> nat option" where
  "find_runnable_loop st 0 nxt = None"
| "find_runnable_loop st (Suc tries) nxt =
     (let nxt = (if nxt \<ge> s_nprocs st then 0 else nxt)
      in if sched_runnable st nxt then Some nxt else find_runnable_loop st tries (nxt + 1))"

definition sched_find_next_runnable_from :: "sched \<Rightarrow> nat \<Rightarrow> nat option" where
  "sched_find_next_runnable_from st start_idx = find_runnable_loop st (s_nprocs st) start_idx"

definition sched_load :: "sched_env \<Rightarrow> sched \<Rightarrow> nat \<Rightarrow> sched option" where
  "sched_load e st nxt =
     (case s_table st ! nxt of
        None \<Rightarrow> None
      | Some p \<Rightarrow>
          let q = sched_procs st p
          in Some (st\<lparr>s_current_idx := int nxt, cpu := (sched_esp q, sched_proc_cr3 e q, sched_proc_esp0 e q)\<rparr>))"

definition save_esp :: "sched \<Rightarrow> proc_ptr \<Rightarrow> u32 \<Rightarrow> sched" where
  "save_esp st p esp = st\<lparr>sched_procs := (sched_procs st)(p := (sched_procs st p)\<lparr>sched_esp := esp\<rparr>)\<rparr>"

definition sched_do_switch :: "sched_env \<Rightarrow> sched \<Rightarrow> u32 \<Rightarrow> sched option" where
  "sched_do_switch e st esp =
     (if s_current_idx st < 0 \<or> s_current_idx st \<ge> int (s_nprocs st) then Some st
      else
        do {
          let cur = nat (s_current_idx st);
          p \<leftarrow> s_table st ! cur;
          let st = save_esp st p esp;
          if s_nprocs st \<le> 1 then Some st
          else
            case sched_find_next_runnable_from st ((cur + 1) mod s_nprocs st) of
              None \<Rightarrow> Some st
            | Some nxt \<Rightarrow> if nxt = cur then Some st else sched_load e st nxt
        })"

fun wake_sleepers_loop :: "sched_env \<Rightarrow> u32 \<Rightarrow> proc_ptr option list \<Rightarrow> procs \<Rightarrow> procs" where
  "wake_sleepers_loop e now [] ps = ps"
| "wake_sleepers_loop e now (None # tab) ps = wake_sleepers_loop e now tab ps"
| "wake_sleepers_loop e now (Some p # tab) ps =
     (let ps = process_wake_timerfds e ps p now;
          ps = (if state (ps p) = PROCESS_STATE_SLEEPING \<and> sint (now - sleep_until (ps p)) \<ge> 0
                then ps(p := (ps p)\<lparr>state := PROCESS_STATE_RUNNING, sleep_until := 0\<rparr>) else ps)
      in wake_sleepers_loop e now tab ps)"

definition sched_wake_sleepers :: "sched_env \<Rightarrow> sched \<Rightarrow> u32 \<Rightarrow> sched" where
  "sched_wake_sleepers e st now =
     st\<lparr>sched_procs := wake_sleepers_loop e now (take (s_nprocs st) (s_table st)) (sched_procs st)\<rparr>"

text \<open>\<open>alloc\<close> tells whether \<^verbatim>\<open>kcalloc\<close> returned a table; without one the kernel halts.\<close>

definition sched_init :: "bool \<Rightarrow> sched \<Rightarrow> sched option" where
  "sched_init alloc st =
     (if \<not> alloc then None
      else Some (st\<lparr>s_table := replicate SCHED_INITIAL_PROCS None, s_nprocs := 0, s_capacity := SCHED_INITIAL_PROCS,
                    s_current_idx := -1, s_tick_count := 0\<rparr>))"

definition sched_grow :: "bool \<Rightarrow> sched \<Rightarrow> sched option" where
  "sched_grow alloc st =
     (if s_capacity st \<ge> SCHED_MAX_PROCS then None
      else
        let new_capacity = s_capacity st * 2;
            new_capacity = (if new_capacity < SCHED_INITIAL_PROCS then SCHED_INITIAL_PROCS else new_capacity);
            new_capacity = (if new_capacity > SCHED_MAX_PROCS then SCHED_MAX_PROCS else new_capacity)
        in if \<not> alloc then None
           else Some (st\<lparr>s_table := take (s_nprocs st) (s_table st) @ replicate (new_capacity - s_nprocs st) None,
                         s_capacity := new_capacity\<rparr>))"

definition sched_enqueue :: "bool \<Rightarrow> sched \<Rightarrow> proc_ptr \<Rightarrow> bool \<times> sched" where
  "sched_enqueue alloc st p =
     (let put = (\<lambda>st. (True, st\<lparr>s_table := (s_table st)[s_nprocs st := Some p], s_nprocs := s_nprocs st + 1\<rparr>))
      in if s_nprocs st \<ge> s_capacity st
         then (case sched_grow alloc st of None \<Rightarrow> (False, st) | Some st \<Rightarrow> put st)
         else put st)"

definition shift_down :: "nat \<Rightarrow> nat \<Rightarrow> 'a list \<Rightarrow> 'a list" where
  "shift_down idx n tab = fold (\<lambda>i tab. tab[i := tab ! (i + 1)]) [idx..<n - 1] tab"

definition sched_dequeue :: "sched \<Rightarrow> proc_ptr \<Rightarrow> sched" where
  "sched_dequeue st p =
     (case List.find (\<lambda>i. s_table st ! i = Some p) [0..<s_nprocs st] of
        None \<Rightarrow> st
      | Some idx \<Rightarrow>
          let tab = shift_down idx (s_nprocs st) (s_table st);
              tab = tab[s_nprocs st - 1 := None];
              n = s_nprocs st - 1;
              cur = (if n = 0 then -1
                     else if int idx < s_current_idx st then s_current_idx st - 1
                     else if s_current_idx st \<ge> int n then 0
                     else s_current_idx st)
          in st\<lparr>s_table := tab, s_nprocs := n, s_current_idx := cur, s_tick_count := 0\<rparr>)"

definition sched_start :: "sched_env \<Rightarrow> sched \<Rightarrow> proc_ptr \<Rightarrow> sched option" where
  "sched_start e st first =
     (let st = (case List.find (\<lambda>i. s_table st ! i = Some first) [0..<s_nprocs st] of
                  None \<Rightarrow> st | Some i \<Rightarrow> st\<lparr>s_current_idx := int i\<rparr>)
      in if s_current_idx st < 0 then Some st
         else
           let q = sched_procs st first
           in Some (st\<lparr>cpu := (sched_esp q, sched_proc_cr3 e q, sched_proc_esp0 e q)\<rparr>))"

text \<open>\<open>now\<close> is \<^verbatim>\<open>timer_get_ticks()\<close>.\<close>

definition sched_tick :: "sched_env \<Rightarrow> u32 \<Rightarrow> sched \<Rightarrow> u32 \<Rightarrow> sched option" where
  "sched_tick e now st esp =
     do {
       let st = st\<lparr>s_tick_count := s_tick_count st + 1\<rparr>;
       st \<leftarrow> (if s_current_idx st \<ge> 0 \<and> s_current_idx st < int (s_nprocs st) then
               do {
                 p \<leftarrow> s_table st ! nat (s_current_idx st);
                 let st = save_esp st p esp;
                 Some (st\<lparr>sched_procs := (sched_procs st)(p := (sched_procs st p)\<lparr>cpu_ticks := cpu_ticks (sched_procs st p) + 1\<rparr>)\<rparr>)
               }
             else Some st);
       let st = sched_wake_sleepers e st now;
       if s_current_idx st \<ge> 0 \<and> s_current_idx st < int (s_nprocs st) \<and>
          (case s_table st ! nat (s_current_idx st) of
             None \<Rightarrow> False | Some p \<Rightarrow> state (sched_procs st p) \<noteq> PROCESS_STATE_RUNNING)
       then sched_do_switch e (st\<lparr>s_tick_count := 0\<rparr>) esp
       else if s_tick_count st < SCHED_TICKS_PER_QUANTUM then Some st
       else sched_do_switch e (st\<lparr>s_tick_count := 0\<rparr>) esp
     }"

definition sched_yield_now :: "sched_env \<Rightarrow> sched \<Rightarrow> u32 \<Rightarrow> sched option" where
  "sched_yield_now e st esp = sched_do_switch e (st\<lparr>s_tick_count := 0\<rparr>) esp"

definition sched_current :: "sched \<Rightarrow> proc_ptr option" where
  "sched_current st =
     (if s_current_idx st < 0 \<or> s_current_idx st \<ge> int (s_nprocs st) then None
      else s_table st ! nat (s_current_idx st))"

definition process_release_exit_resources :: "sched_env \<Rightarrow> procs \<Rightarrow> proc_ptr \<Rightarrow> procs" where
  "process_release_exit_resources e ps p =
     (let ps = close_all_fds e ps p
      in if pd (ps p) = 0 then ps else ps(p := (ps p)\<lparr>pd := 0\<rparr>))"

text \<open>The steps by which a task becomes a zombie, shared by exit and kill.\<close>

definition sched_bury :: "sched_env \<Rightarrow> sched \<Rightarrow> proc_ptr \<Rightarrow> sched" where
  "sched_bury e st p =
     (let ps = process_release_exit_resources e (sched_procs st) p;
          ps = ps(p := (ps p)\<lparr>state := PROCESS_STATE_ZOMBIE\<rparr>);
          ps = process_wake_parent_waiter (process_registry e) ps p
      in sched_dequeue (st\<lparr>sched_procs := ps\<rparr>) p)"

definition sched_exit_current :: "sched_env \<Rightarrow> sched \<Rightarrow> u32 \<Rightarrow> sched option" where
  "sched_exit_current e st esp =
     do {
       p \<leftarrow> sched_current st;
       let st = sched_bury e (save_esp st p esp) p;
       if s_nprocs st = 0 \<or> s_current_idx st < 0 then None
       else
         do {
           nxt \<leftarrow> sched_find_next_runnable_from st (nat (s_current_idx st));
           sched_load e st nxt
         }
     }"

definition sched_kill :: "sched_env \<Rightarrow> sched \<Rightarrow> proc_ptr \<Rightarrow> u32 \<Rightarrow> sched option" where
  "sched_kill e st p esp =
     (if sched_current st = Some p then sched_exit_current e st esp else Some (sched_bury e st p))"

definition sched_snapshot_process_group :: "sched \<Rightarrow> u32 \<Rightarrow> nat \<Rightarrow> proc_ptr list" where
  "sched_snapshot_process_group st g max_out =
     (if g = 0 then []
      else take max_out (concat (map (\<lambda>slot. case slot of
             None \<Rightarrow> [] | Some p \<Rightarrow> if pgid (sched_procs st p) = g then [p] else []) (take (s_nprocs st) (s_table st)))))"

definition sched_snapshot_all :: "sched \<Rightarrow> nat \<Rightarrow> proc_ptr list" where
  "sched_snapshot_all st max_out =
     take max_out (concat (map (\<lambda>slot. case slot of None \<Rightarrow> [] | Some p \<Rightarrow> [p]) (take (s_nprocs st) (s_table st))))"

section \<open>The table as a list\<close>

definition sched_ok :: "sched \<Rightarrow> bool" where
  "sched_ok st =
     (length (s_table st) = s_capacity st \<and> s_nprocs st \<le> s_capacity st \<and> s_capacity st \<le> SCHED_MAX_PROCS \<and>
      -1 \<le> s_current_idx st \<and> s_current_idx st < int (s_nprocs st) \<and>
      (\<forall>i < s_nprocs st. s_table st ! i \<noteq> None) \<and>
      (\<forall>i < s_capacity st. s_nprocs st \<le> i \<longrightarrow> s_table st ! i = None) \<and>
      distinct (take (s_nprocs st) (s_table st)))"

definition sched_list :: "sched \<Rightarrow> proc_ptr list" where
  "sched_list st = map (\<lambda>i. the (s_table st ! i)) [0..<s_nprocs st]"

lemma length_sched_list [simp]: "length (sched_list st) = s_nprocs st"
  by (simp add: sched_list_def)

lemma sched_list_nth: "sched_ok st \<Longrightarrow> i < s_nprocs st \<Longrightarrow> s_table st ! i = Some (sched_list st ! i)"
  by (auto simp: sched_ok_def sched_list_def)

lemma sched_list_take: "sched_ok st \<Longrightarrow> take (s_nprocs st) (s_table st) = map Some (sched_list st)"
  by (rule nth_equalityI) (auto simp: sched_list_nth, auto simp: sched_ok_def)

lemma sched_list_distinct:
  assumes "sched_ok st"
  shows "distinct (sched_list st)"
proof -
  have "distinct (take (s_nprocs st) (s_table st))" using assms by (simp add: sched_ok_def)
  then show ?thesis unfolding sched_list_take [OF assms] by (simp add: distinct_map)
qed

lemma sched_ok_bounds:
  assumes "sched_ok st"
  shows "length (s_table st) = s_capacity st" "s_nprocs st \<le> s_capacity st" "s_capacity st \<le> SCHED_MAX_PROCS"
    "-1 \<le> s_current_idx st" "s_current_idx st < int (s_nprocs st)"
  using assms by (simp_all add: sched_ok_def)

lemma sched_current_list:
  assumes "sched_ok st"
  shows "sched_current st = (if s_current_idx st < 0 then None else Some (sched_list st ! nat (s_current_idx st)))"
  using sched_list_nth [OF assms, of "nat (s_current_idx st)"] sched_ok_bounds(5) [OF assms]
  by (simp add: sched_current_def)

lemma sched_okI:
  assumes "length (s_table st) = s_capacity st" "s_capacity st \<le> SCHED_MAX_PROCS" "s_nprocs st = length xs"
    "s_table st = map Some xs @ replicate (s_capacity st - length xs) None" "distinct xs"
    "-1 \<le> s_current_idx st" "s_current_idx st < int (length xs)"
  shows "sched_ok st" "sched_list st = xs"
proof -
  have le: "length xs \<le> s_capacity st" using assms(1,4) by (metis length_append length_map le_add1)
  show "sched_ok st"
    using assms le by (auto simp: sched_ok_def nth_append distinct_map)
  show "sched_list st = xs" using assms le by (auto simp: sched_list_def nth_append intro: nth_equalityI)
qed

lemma sched_ok_table:
  assumes "sched_ok st"
  shows "s_table st = map Some (sched_list st) @ replicate (s_capacity st - s_nprocs st) None"
proof (rule nth_equalityI)
  show "length (s_table st) = length (map Some (sched_list st) @ replicate (s_capacity st - s_nprocs st) None)"
    using sched_ok_bounds [OF assms] by simp
  show "s_table st ! i = (map Some (sched_list st) @ replicate (s_capacity st - s_nprocs st) None) ! i"
    if "i < length (s_table st)" for i
  proof (cases "i < s_nprocs st")
    case True
    then show ?thesis using sched_list_nth [OF assms True] by (simp add: nth_append)
  next
    case False
    then have "s_table st ! i = None" using assms that by (simp add: sched_ok_def)
    then show ?thesis using False that sched_ok_bounds(1) [OF assms] by (simp add: nth_append)
  qed
qed

section \<open>Enqueue and dequeue\<close>

lemma shift_down_nth:
  assumes "idx < n" "n \<le> length tab"
  shows "length (shift_down idx n tab) = length tab \<and>
    (\<forall>i<length tab. shift_down idx n tab ! i = (if idx \<le> i \<and> i < n - 1 then tab ! (i + 1) else tab ! i))"
proof -
  have "length (fold (\<lambda>i tab. tab[i := tab ! (i + 1)]) [idx..<m] tab) = length tab \<and>
    (\<forall>i<length tab. fold (\<lambda>i tab. tab[i := tab ! (i + 1)]) [idx..<m] tab ! i =
       (if idx \<le> i \<and> i < m then tab ! (i + 1) else tab ! i))" if "m < length tab" for m
    using that
  proof (induction m)
    case (Suc m)
    then show ?case by (cases "idx \<le> m") (auto simp: nth_list_update less_Suc_eq)
  qed simp
  then show ?thesis using assms by (simp add: shift_down_def)
qed

lemma shift_down_list:
  assumes "idx < length xs"
  shows "(shift_down idx (length xs) (map Some xs @ ys))[length xs - 1 := None] =
    map Some (take idx xs @ drop (Suc idx) xs) @ None # ys"
proof (rule nth_equalityI)
  note sh = shift_down_nth [of idx "length xs" "map Some xs @ ys"]
  show "length ((shift_down idx (length xs) (map Some xs @ ys))[length xs - 1 := None]) =
    length (map Some (take idx xs @ drop (Suc idx) xs) @ None # ys)" using sh assms by simp
  fix i
  assume "i < length ((shift_down idx (length xs) (map Some xs @ ys))[length xs - 1 := None])"
  then have i: "i < length xs + length ys" using sh assms by simp
  consider "i < idx" | "idx \<le> i" "i < length xs - 1" | "i = length xs - 1" | "length xs \<le> i" using assms by linarith
  then show "(shift_down idx (length xs) (map Some xs @ ys))[length xs - 1 := None] ! i =
    (map Some (take idx xs @ drop (Suc idx) xs) @ None # ys) ! i"
    using sh assms i by cases (auto simp: nth_list_update nth_append nth_Cons' min_def)
qed

lemma remove_nth_remove1:
  "distinct xs \<Longrightarrow> i < length xs \<Longrightarrow> take i xs @ drop (Suc i) xs = remove1 (xs ! i) xs"
proof (induction xs arbitrary: i)
  case (Cons x xs)
  then show ?case by (cases i) auto
qed simp

lemma sched_find_index:
  assumes "sched_ok st"
  shows "List.find (\<lambda>i. s_table st ! i = Some p) [0..<s_nprocs st] = None \<longleftrightarrow> p \<notin> set (sched_list st)"
    "List.find (\<lambda>i. s_table st ! i = Some p) [0..<s_nprocs st] = Some idx \<Longrightarrow>
       idx < s_nprocs st \<and> sched_list st ! idx = p"
proof -
  show "List.find (\<lambda>i. s_table st ! i = Some p) [0..<s_nprocs st] = None \<longleftrightarrow> p \<notin> set (sched_list st)"
    using sched_list_nth [OF assms] by (auto simp: find_None_iff in_set_conv_nth)
  assume "List.find (\<lambda>i. s_table st ! i = Some p) [0..<s_nprocs st] = Some idx"
  then have "idx < s_nprocs st" "s_table st ! idx = Some p" by (auto simp: find_Some_iff)
  then show "idx < s_nprocs st \<and> sched_list st ! idx = p" using sched_list_nth [OF assms] by simp
qed

lemma dequeued_table:
  assumes "sched_ok st" "idx < s_nprocs st"
  shows "(shift_down idx (s_nprocs st) (s_table st))[s_nprocs st - 1 := None] =
    map Some (remove1 (sched_list st ! idx) (sched_list st)) @ replicate (s_capacity st - (s_nprocs st - 1)) None"
proof -
  have "Suc (s_capacity st - s_nprocs st) = s_capacity st - (s_nprocs st - 1)"
    using assms(2) sched_ok_bounds(2) [OF assms(1)] by simp
  then have "None # replicate (s_capacity st - s_nprocs st) None = replicate (s_capacity st - (s_nprocs st - 1)) None"
    by (metis replicate_Suc)
  moreover have "(shift_down idx (s_nprocs st) (s_table st))[s_nprocs st - 1 := None] =
    map Some (remove1 (sched_list st ! idx) (sched_list st)) @ None # replicate (s_capacity st - s_nprocs st) None"
    using shift_down_list [of idx "sched_list st"] assms(2) remove_nth_remove1 [OF sched_list_distinct [OF assms(1)], of idx]
    by (subst sched_ok_table [OF assms(1)]) simp
  ultimately show ?thesis by simp
qed

lemma dequeue_absent:
  "sched_ok st \<Longrightarrow> p \<notin> set (sched_list st) \<Longrightarrow> sched_dequeue st p = st"
  using sched_find_index(1) [of st p] by (simp add: sched_dequeue_def)

lemma dequeue_present:
  assumes "sched_ok st" "p \<in> set (sched_list st)"
  obtains idx where "idx < s_nprocs st" "sched_list st ! idx = p"
    "sched_ok (sched_dequeue st p)" "sched_list (sched_dequeue st p) = remove1 p (sched_list st)"
    "s_current_idx (sched_dequeue st p) =
       (if s_nprocs st = 1 then -1
        else if int idx < s_current_idx st then s_current_idx st - 1
        else if s_current_idx st \<ge> int (s_nprocs st - 1) then 0 else s_current_idx st)"
proof -
  obtain idx where f: "List.find (\<lambda>i. s_table st ! i = Some p) [0..<s_nprocs st] = Some idx"
    using sched_find_index(1) [OF assms(1), of p] assms(2) by auto
  note idx = sched_find_index(2) [OF assms(1) f]
  define st' where "st' = sched_dequeue st p"
  have n: "length (remove1 p (sched_list st)) = s_nprocs st - 1" using assms(2) by (simp add: length_remove1)
  have tab: "s_table st' = map Some (remove1 p (sched_list st)) @ replicate (s_capacity st' - (s_nprocs st - 1)) None"
    using dequeued_table [OF assms(1), of idx] idx by (simp add: st'_def sched_dequeue_def f Let_def)
  have st': "s_nprocs st' = s_nprocs st - 1" "s_capacity st' = s_capacity st"
    and cur: "s_current_idx st' = (if s_nprocs st = 1 then -1
        else if int idx < s_current_idx st then s_current_idx st - 1
        else if s_current_idx st \<ge> int (s_nprocs st - 1) then 0 else s_current_idx st)"
    using idx by (auto simp: st'_def sched_dequeue_def f Let_def)
  note b = sched_ok_bounds [OF assms(1)]
  have "sched_ok st' \<and> sched_list st' = remove1 p (sched_list st)"
    using sched_okI [of st' "remove1 p (sched_list st)"] tab n st' cur b idx sched_list_distinct [OF assms(1)]
    by (simp split: if_splits)
  then show thesis using that [of idx] idx cur by (simp add: st'_def)
qed

lemma grow_keeps:
  assumes "sched_ok st" "sched_grow alloc st = Some st'"
  shows "sched_ok st' \<and> sched_list st' = sched_list st \<and> s_current_idx st' = s_current_idx st \<and>
    s_nprocs st' = s_nprocs st \<and> s_capacity st < s_capacity st' \<and> sched_procs st' = sched_procs st"
proof -
  define m where "m = (let m = s_capacity st * 2; m = (if m < SCHED_INITIAL_PROCS then SCHED_INITIAL_PROCS else m)
    in if m > SCHED_MAX_PROCS then SCHED_MAX_PROCS else m)"
  have m: "s_capacity st < m" "m \<le> SCHED_MAX_PROCS"
    using assms(2) by (auto simp: m_def sched_grow_def Let_def SCHED_INITIAL_PROCS_def SCHED_MAX_PROCS_def split: if_splits)
  have st': "st' = st\<lparr>s_table := take (s_nprocs st) (s_table st) @ replicate (m - s_nprocs st) None, s_capacity := m\<rparr>"
    using assms(2) by (simp add: m_def sched_grow_def Let_def split: if_splits)
  note b = sched_ok_bounds [OF assms(1)]
  have "sched_ok st' \<and> sched_list st' = sched_list st"
    using sched_okI [of st' "sched_list st"] b m sched_list_distinct [OF assms(1)]
    by (simp add: st' sched_list_take [OF assms(1)])
  then show ?thesis using m by (simp add: st')
qed

lemma enqueue_put:
  assumes "sched_ok st" "s_nprocs st < s_capacity st" "p \<notin> set (sched_list st)"
  shows "sched_ok (st\<lparr>s_table := (s_table st)[s_nprocs st := Some p], s_nprocs := s_nprocs st + 1\<rparr>) \<and>
    sched_list (st\<lparr>s_table := (s_table st)[s_nprocs st := Some p], s_nprocs := s_nprocs st + 1\<rparr>) = sched_list st @ [p]"
proof -
  let ?st = "st\<lparr>s_table := (s_table st)[s_nprocs st := Some p], s_nprocs := s_nprocs st + 1\<rparr>"
  have k: "s_capacity st - s_nprocs st = Suc (s_capacity st - Suc (s_nprocs st))" using assms(2) by simp
  have "(s_table st)[s_nprocs st := Some p] =
    map Some (sched_list st @ [p]) @ replicate (s_capacity st - Suc (s_nprocs st)) None"
    by (subst sched_ok_table [OF assms(1)]) (simp add: k list_update_append)
  then show ?thesis
    using sched_okI [of ?st "sched_list st @ [p]"] sched_ok_bounds [OF assms(1)] sched_list_distinct [OF assms(1)] assms(2,3)
    by simp
qed

lemma enqueue_list:
  assumes "sched_ok st" "p \<notin> set (sched_list st)" "sched_enqueue alloc st p = (ok, st')"
  shows "if ok then sched_ok st' \<and> sched_list st' = sched_list st @ [p] \<and> s_current_idx st' = s_current_idx st
    else st' = st \<and> s_nprocs st = s_capacity st \<and> (s_capacity st = SCHED_MAX_PROCS \<or> \<not> alloc)"
proof (cases "s_nprocs st \<ge> s_capacity st")
  case False
  then show ?thesis using enqueue_put [of st p] assms by (auto simp: sched_enqueue_def)
next
  case True
  note b = sched_ok_bounds [OF assms(1)]
  show ?thesis
  proof (cases "sched_grow alloc st")
    case None
    then have "s_capacity st = SCHED_MAX_PROCS \<or> \<not> alloc"
      using b(3) by (auto simp: sched_grow_def Let_def split: if_splits)
    then show ?thesis using True None assms(3) b(2) by (auto simp: sched_enqueue_def)
  next
    case (Some st1)
    note g = grow_keeps [OF assms(1) Some]
    have "s_nprocs st1 < s_capacity st1" using g b(2) by simp
    then show ?thesis using enqueue_put [of st1 p] g True Some assms by (auto simp: sched_enqueue_def)
  qed
qed

lemma dequeue_current:
  assumes "sched_ok st" "p \<in> set (sched_list st)"
  shows "sched_current (sched_dequeue st p) =
    (if sched_current st \<noteq> Some p then sched_current st
     else if s_nprocs st = 1 then None
     else Some (sched_list st ! ((nat (s_current_idx st) + 1) mod s_nprocs st)))"
proof -
  obtain idx where idx: "idx < s_nprocs st" "sched_list st ! idx = p" "sched_ok (sched_dequeue st p)"
    "sched_list (sched_dequeue st p) = remove1 p (sched_list st)"
    and cur: "s_current_idx (sched_dequeue st p) = (if s_nprocs st = 1 then -1
        else if int idx < s_current_idx st then s_current_idx st - 1
        else if s_current_idx st \<ge> int (s_nprocs st - 1) then 0 else s_current_idx st)"
    using dequeue_present [OF assms] .
  note b = sched_ok_bounds [OF assms(1)] and dis = sched_list_distinct [OF assms(1)]
  have rem: "remove1 p (sched_list st) = take idx (sched_list st) @ drop (Suc idx) (sched_list st)"
    using remove_nth_remove1 [OF dis] idx by simp
  have at_idx: "sched_current st = Some p \<longleftrightarrow> s_current_idx st = int idx"
    using idx b nth_eq_iff_index_eq [OF dis, of "nat (s_current_idx st)" idx]
    by (auto simp: sched_current_list [OF assms(1)])
  consider "s_current_idx st = -1" | "0 \<le> s_current_idx st" "s_current_idx st < int idx"
    | "s_current_idx st = int idx" | "int idx < s_current_idx st" using b(4) by linarith
  then show ?thesis
  proof cases
    case 1
    then show ?thesis using at_idx cur idx
      by (simp add: sched_current_list [OF assms(1)] sched_current_list [OF idx(3)])
  next
    case 2
    then show ?thesis using at_idx cur idx
      by (auto simp: sched_current_list [OF assms(1)] sched_current_list [OF idx(3)] rem nth_append)
  next
    case 3
    then show ?thesis using at_idx cur idx
      by (auto simp: sched_current_list [OF idx(3)] rem nth_append mod_Suc nth_Cons' split: if_splits)
  next
    case 4
    then show ?thesis using at_idx cur idx b
      by (auto simp: sched_current_list [OF assms(1)] sched_current_list [OF idx(3)] rem nth_append nat_diff_distrib)
  qed
qed

text \<open>
  C15: The run queue is a list. Enqueuing a process that is not in it keeps the table well formed and
  appends the process, and fails, changing nothing, only when the table is full and cannot grow.
  Dequeuing keeps the table well formed and removes the process; the current task stays current,
  unless it is the one removed, when the task after it in the rotation becomes current.
\<close>

theorem sched_queue_refines:
  assumes "sched_ok st"
  shows "if p \<in> set (sched_list st) then
      sched_ok (sched_dequeue st p) \<and> sched_list (sched_dequeue st p) = remove1 p (sched_list st) \<and>
      sched_current (sched_dequeue st p) =
        (if sched_current st \<noteq> Some p then sched_current st
         else if s_nprocs st = 1 then None
         else Some (sched_list st ! ((nat (s_current_idx st) + 1) mod s_nprocs st)))
    else
      sched_dequeue st p = st \<and>
      (\<exists>ok st'. sched_enqueue alloc st p = (ok, st') \<and>
        (if ok then sched_ok st' \<and> sched_list st' = sched_list st @ [p] \<and> sched_current st' = sched_current st
         else st' = st \<and> s_nprocs st = s_capacity st \<and> (s_capacity st = SCHED_MAX_PROCS \<or> \<not> alloc)))"
proof (cases "p \<in> set (sched_list st)")
  case True
  have "sched_ok (sched_dequeue st p) \<and> sched_list (sched_dequeue st p) = remove1 p (sched_list st)"
    by (rule dequeue_present [OF assms True]) simp
  then show ?thesis using True dequeue_current [OF assms True] by simp
next
  case False
  obtain ok st' where enq: "sched_enqueue alloc st p = (ok, st')" by (cases "sched_enqueue alloc st p")
  note l = enqueue_list [OF assms False enq]
  have "sched_current st' = sched_current st" if ok
    using l that sched_ok_bounds(5) [OF assms] sched_ok_bounds(5) [of st']
    by (auto simp: sched_current_list [OF assms] sched_current_list [of st'] nth_append nat_less_iff)
  then show ?thesis using l enq False dequeue_absent [OF assms False] by auto
qed

text \<open>Three tasks, the second one current.\<close>

definition sample_sched :: sched where
  "sample_sched = \<lparr>s_table = [Some 1, Some 2, Some 3, None], s_nprocs = 3, s_capacity = 4, s_current_idx = 1,
     s_tick_count = 0, sched_procs = (\<lambda>_. no_proc\<lparr>state := PROCESS_STATE_RUNNING, sched_esp := 0x1000\<rparr>), cpu = (0, 0, 0)\<rparr>"

lemma sample_sched_list: "sched_ok sample_sched" "sched_list sample_sched = [1, 2, 3]" "s_nprocs sample_sched = 3"
  "s_current_idx sample_sched = 1"
  using sched_okI [of sample_sched "[1, 2, 3]"] by (simp_all add: sample_sched_def SCHED_MAX_PROCS_def)

theorem sched_queue_refines_witness:
  "sched_list (sched_dequeue sample_sched 2) = [1, 3] \<and> sched_current (sched_dequeue sample_sched 2) = Some 3 \<and>
   sched_dequeue sample_sched 9 = sample_sched"
  using sched_queue_refines [OF sample_sched_list(1), of 2] sched_queue_refines [OF sample_sched_list(1), of 9]
  by (simp add: sched_current_list [OF sample_sched_list(1)] sample_sched_list)

section \<open>The rotation\<close>

lemma Suc_mod_add: "Suc (a mod n + x) mod n = Suc (a + x) mod (n :: nat)"
  by (metis mod_Suc_eq mod_add_left_eq)

lemma find_runnable_loop_spec:
  assumes "0 < s_nprocs st"
  shows "nxt \<le> s_nprocs st \<Longrightarrow>
    find_runnable_loop st t nxt = List.find (sched_runnable st) (map (\<lambda>i. (nxt + i) mod s_nprocs st) [0..<t])"
proof (induction t arbitrary: nxt)
  case (Suc t)
  define m where "m = (if nxt \<ge> s_nprocs st then 0 else nxt)"
  have m: "m = nxt mod s_nprocs st" "m < s_nprocs st" using Suc.prems assms by (auto simp: m_def)
  have "map (\<lambda>i. (nxt + i) mod s_nprocs st) [0..<Suc t] = m # map (\<lambda>i. (Suc m + i) mod s_nprocs st) [0..<t]"
    by (simp add: m(1) upt_conv_Cons map_Suc_upt [symmetric] o_def Suc_mod_add del: upt_Suc)
  then show ?case using Suc.IH [of "Suc m"] m(2) by (simp add: m_def [symmetric] Let_def)
qed simp

lemma find_first:
  assumes "P (f d)" "d < n"
  obtains d' where "d' \<le> d" "P (f d')" "List.find P (map f [0..<n]) = Some (f d')"
proof -
  define d' where "d' = (LEAST i. P (f i))"
  have d': "P (f d')" "d' \<le> d" unfolding d'_def using assms(1) by (rule LeastI, rule Least_le)
  have "\<not> P (f i)" if "i < d'" for i using not_less_Least [of i "\<lambda>i. P (f i)"] that by (simp add: d'_def)
  then have "List.find P (map f [0..<n]) = Some (f d')"
    using d' assms(2) by (auto simp: find_Some_iff intro!: exI [of _ d'])
  then show thesis using that d' by blast
qed

lemma save_esp_keeps [simp]:
  "s_table (save_esp st p esp) = s_table st" "s_nprocs (save_esp st p esp) = s_nprocs st"
  "s_capacity (save_esp st p esp) = s_capacity st" "s_current_idx (save_esp st p esp) = s_current_idx st"
  by (simp_all add: save_esp_def)

lemma sched_runnable_save:
  "esp \<noteq> 0 \<Longrightarrow> sched_runnable st i \<Longrightarrow> sched_runnable (save_esp st p esp) i"
  by (auto simp: sched_runnable_def save_esp_def split: option.splits)

text \<open>
  A switch goes to the first runnable task after the current one, so never past a runnable task
  that is \<open>d\<close> places ahead.
\<close>

lemma sched_do_switch_advances:
  assumes "sched_ok st" "s_current_idx st = int c" "0 < d" "d < s_nprocs st" "esp \<noteq> 0"
    "sched_runnable st ((c + d) mod s_nprocs st)"
  obtains d' st' where "0 < d'" "d' \<le> d" "sched_do_switch e st esp = Some st'"
    "s_current_idx st' = int ((c + d') mod s_nprocs st)" "s_table st' = s_table st" "s_nprocs st' = s_nprocs st"
    "s_capacity st' = s_capacity st" "sched_procs st' = sched_procs (save_esp st (sched_list st ! c) esp)"
    "fst (cpu st') = sched_esp (sched_procs st (sched_list st ! ((c + d') mod s_nprocs st)))"
proof -
  let ?n = "s_nprocs st"
  let ?st = "save_esp st (sched_list st ! c) esp"
  have c: "c < ?n" using sched_ok_bounds(5) [OF assms(1)] assms(2) by simp
  then have tab: "s_table st ! c = Some (sched_list st ! c)" using sched_list_nth [OF assms(1)] by simp
  define f where "f = (\<lambda>i. ((c + 1) mod ?n + i) mod ?n)"
  have f: "f i = (c + Suc i) mod ?n" for i by (simp add: f_def mod_simps)
  have "sched_runnable ?st (f (d - 1))" using sched_runnable_save [OF assms(5,6)] assms(3) by (simp add: f)
  moreover have "d - 1 < ?n" using assms(4) by simp
  ultimately obtain i where i: "i \<le> d - 1" "List.find (sched_runnable ?st) (map f [0..<?n]) = Some (f i)"
    by (rule find_first)
  have found: "sched_find_next_runnable_from ?st ((c + 1) mod ?n) = Some (f i)"
    using find_runnable_loop_spec [of ?st "(c + 1) mod ?n" ?n] i(2) c
    by (simp add: sched_find_next_runnable_from_def f_def)
  have ne: "f i \<noteq> c"
  proof -
    have "Suc i < ?n" using i(1) assms(3,4) by linarith
    then show ?thesis using c mod_less_eq_dividend [of "c + Suc i" ?n]
      by (auto simp: f mod_if le_mod_geq split: if_splits)
  qed
  have fi: "f i < ?n" using c by (simp add: f)
  then have tab': "s_table st ! f i = Some (sched_list st ! f i)" using sched_list_nth [OF assms(1)] by simp
  have "sched_list st ! f i \<noteq> sched_list st ! c"
    using nth_eq_iff_index_eq [OF sched_list_distinct [OF assms(1)], of "f i" c] fi c ne by simp
  then show thesis using that [of "Suc i"] i(1) assms(2,3,4) c tab tab' found ne
    by (simp add: sched_do_switch_def sched_load_def Let_def f save_esp_def)
qed

text \<open>One task after the other gives up the processor, saving the given stack pointers.\<close>

fun sched_yields :: "sched_env \<Rightarrow> sched \<Rightarrow> u32 list \<Rightarrow> sched option" where
  "sched_yields e st [] = Some st"
| "sched_yields e st (esp # esps) = do { st \<leftarrow> sched_yield_now e st esp; sched_yields e st esps }"

lemma sched_ok_same:
  "sched_ok st \<Longrightarrow> s_table st' = s_table st \<Longrightarrow> s_nprocs st' = s_nprocs st \<Longrightarrow> s_capacity st' = s_capacity st \<Longrightarrow>
   -1 \<le> s_current_idx st' \<Longrightarrow> s_current_idx st' < int (s_nprocs st) \<Longrightarrow> sched_ok st'"
  by (simp add: sched_ok_def)

lemma sched_yield_step:
  assumes "sched_ok st" "s_current_idx st = int c" "0 < d" "d < s_nprocs st" "(c + d) mod s_nprocs st = k"
    "sched_runnable st k" "esp \<noteq> 0"
  obtains d' st' where "0 < d'" "d' \<le> d" "sched_yield_now e st esp = Some st'" "sched_ok st'"
    "s_current_idx st' = int ((c + d') mod s_nprocs st)" "s_table st' = s_table st" "s_nprocs st' = s_nprocs st"
    "sched_list st' = sched_list st" "sched_runnable st' k"
    "sched_procs st' (sched_list st ! k) = sched_procs st (sched_list st ! k)"
    "fst (cpu st') = sched_esp (sched_procs st (sched_list st ! ((c + d') mod s_nprocs st)))"
proof -
  let ?n = "s_nprocs st"
  have c: "c < ?n" using sched_ok_bounds(5) [OF assms(1)] assms(2) by simp
  let ?st = "st\<lparr>s_tick_count := 0\<rparr>"
  have st0: "sched_ok ?st" "sched_list ?st = sched_list st" "sched_runnable ?st k"
    using assms(1,6) by (simp_all add: sched_ok_def sched_list_def sched_runnable_def split: option.splits)
  obtain d' st1 where d': "0 < d'" "d' \<le> d" "sched_do_switch e ?st esp = Some st1"
    "s_current_idx st1 = int ((c + d') mod ?n)" "s_table st1 = s_table st" "s_nprocs st1 = ?n"
    "s_capacity st1 = s_capacity st" "sched_procs st1 = sched_procs (save_esp ?st (sched_list st ! c) esp)"
    "fst (cpu st1) = sched_esp (sched_procs st (sched_list st ! ((c + d') mod ?n)))"
    using sched_do_switch_advances [of ?st c d esp e] st0 assms by auto
  have ok1: "sched_ok st1" using sched_ok_same [OF assms(1) d'(5-7)] d'(4) c by simp
  have l1: "sched_list st1 = sched_list st" using d'(5,6) by (simp add: sched_list_def)
  have "k \<noteq> c" using assms(3-5) c by (auto simp: mod_if split: if_splits)
  moreover have kn: "k < ?n" using assms(5) c by auto
  ultimately have "sched_list st ! k \<noteq> sched_list st ! c"
    using nth_eq_iff_index_eq [OF sched_list_distinct [OF assms(1)], of k c] c by simp
  then have same: "sched_procs st1 (sched_list st ! k) = sched_procs st (sched_list st ! k)"
    using d'(8) by (simp add: save_esp_def)
  have "sched_runnable st1 k"
    using assms(6) same d'(5) sched_list_nth [OF assms(1) kn] by (simp add: sched_runnable_def)
  then show thesis using that [of d' st1] d' ok1 l1 same by (simp add: sched_yield_now_def)
qed

lemma sched_yields_reach:
  assumes "sched_ok st" "s_current_idx st = int c" "d < s_nprocs st" "(c + d) mod s_nprocs st = k"
    "sched_runnable st k" "0 \<notin> set esps" "d \<le> length esps"
  shows "\<exists>j\<le>d. \<exists>st'. sched_yields e st (take j esps) = Some st' \<and> sched_ok st' \<and> s_current_idx st' = int k \<and>
    s_table st' = s_table st \<and> (0 < j \<longrightarrow> fst (cpu st') = sched_esp (sched_procs st (sched_list st ! k)))"
  using assms
proof (induction d arbitrary: st c esps rule: less_induct)
  case (less d)
  let ?n = "s_nprocs st"
  show ?case
  proof (cases "d = 0")
    case True
    then have "k = c" using less.prems(2,4) sched_ok_bounds(5) [OF less.prems(1)] by simp
    then show ?thesis using less.prems(1,2) by (intro exI [of _ 0] conjI exI [of _ st]) simp_all
  next
    case False
    then obtain esp es where esps: "esps = esp # es" using less.prems(7) by (cases esps) auto
    then have "0 < d" "esp \<noteq> 0" using False less.prems(6) by auto
    from sched_yield_step [OF less.prems(1,2) this(1) less.prems(3-5) this(2), of e]
    obtain d' st1 where d': "0 < d'" "d' \<le> d" "sched_yield_now e st esp = Some st1" "sched_ok st1"
      "s_current_idx st1 = int ((c + d') mod ?n)" "s_table st1 = s_table st" "s_nprocs st1 = ?n"
      "sched_list st1 = sched_list st" "sched_runnable st1 k"
      "sched_procs st1 (sched_list st ! k) = sched_procs st (sched_list st ! k)"
      "fst (cpu st1) = sched_esp (sched_procs st (sched_list st ! ((c + d') mod ?n)))" .
    have k: "((c + d') mod ?n + (d - d')) mod s_nprocs st1 = k"
      using less.prems(4) d'(2) mod_add_left_eq [of "c + d'" ?n "d - d'"] by (simp add: d'(7))
    have "\<exists>j\<le>d - d'. \<exists>st'. sched_yields e st1 (take j es) = Some st' \<and> sched_ok st' \<and> s_current_idx st' = int k \<and>
      s_table st' = s_table st1 \<and> (0 < j \<longrightarrow> fst (cpu st') = sched_esp (sched_procs st1 (sched_list st1 ! k)))"
      using d' less.prems esps by (intro less.IH [OF _ d'(4,5) _ k d'(9)]) auto
    then obtain j st' where j: "j \<le> d - d'" "sched_yields e st1 (take j es) = Some st'" "sched_ok st'"
      "s_current_idx st' = int k" "s_table st' = s_table st"
      "0 < j \<longrightarrow> fst (cpu st') = sched_esp (sched_procs st (sched_list st ! k))"
      using d'(6,8,10) by auto
    have "fst (cpu st') = sched_esp (sched_procs st (sched_list st ! k))"
    proof (cases "j = 0")
      case True
      then show ?thesis using j(2,4) d'(5,11) by simp
    qed (use j(6) in simp)
    then show ?thesis using j d' esps by (intro exI [of _ "Suc j"] conjI exI [of _ st']) simp_all
  qed
qed

text \<open>
  C14: No runnable task starves. Let every task that gets the processor run and then yield. Whatever
  stack pointers are saved on the way, a task that is runnable gets the processor after fewer
  yields than there are tasks in the table, and what is loaded is the stack pointer it saved.
\<close>

theorem sched_no_starvation:
  assumes "sched_ok st" "sched_current st \<noteq> None" "p \<in> set (sched_list st)"
    "state (sched_procs st p) = PROCESS_STATE_RUNNING" "sched_esp (sched_procs st p) \<noteq> 0"
    "0 \<notin> set esps" "s_nprocs st \<le> length esps"
  shows "\<exists>j < s_nprocs st. \<exists>st'. sched_yields e st (take j esps) = Some st' \<and> sched_current st' = Some p \<and>
    sched_ok st' \<and> (0 < j \<longrightarrow> fst (cpu st') = sched_esp (sched_procs st p))"
proof -
  let ?n = "s_nprocs st"
  note b = sched_ok_bounds [OF assms(1)]
  obtain c where c: "s_current_idx st = int c" "c < ?n"
    using assms(2) b by (auto simp: sched_current_def nat_less_iff intro: that [of "nat (s_current_idx st)"] split: if_splits)
  obtain k where k: "k < ?n" "sched_list st ! k = p" using assms(3) by (auto simp: in_set_conv_nth)
  define d where "d = (if c \<le> k then k - c else k + ?n - c)"
  have d: "d < ?n" "(c + d) mod ?n = k" using c(2) k(1) by (auto simp: d_def)
  have "sched_runnable st k" using assms(4,5) k sched_list_nth [OF assms(1), of k] by (simp add: sched_runnable_def)
  from sched_yields_reach [OF assms(1) c(1) d this assms(6), of e] d(1) assms(7)
  obtain j st' where j: "j \<le> d" "sched_yields e st (take j esps) = Some st'" "sched_ok st'" "s_current_idx st' = int k"
    "s_table st' = s_table st" "0 < j \<longrightarrow> fst (cpu st') = sched_esp (sched_procs st (sched_list st ! k))" by auto
  have "sched_current st' = Some p"
    using j(3-5) k sched_list_nth [OF assms(1), of k] sched_ok_bounds(5) [OF j(3)] by (simp add: sched_current_def)
  then show ?thesis using j d(1) k(2) by (intro exI [of _ j] conjI exI [of _ st']) auto
qed

definition sample_env :: sched_env where
  "sample_env = \<lparr>kernel_pd = 0x100000, phys_to_kernel_virt = (\<lambda>x. x), process_wake_timerfds = (\<lambda>ps p now. ps),
     close_all_fds = (\<lambda>ps p. ps), process_registry = boot_registry\<rparr>"

theorem sched_no_starvation_witness:
  "\<exists>j st'. j < 3 \<and> sched_yields sample_env sample_sched (take j [0x2000, 0x3000, 0x4000]) = Some st' \<and>
     sched_current st' = Some 1"
proof -
  have "sched_current sample_sched \<noteq> None" by (simp add: sched_current_list sample_sched_list)
  moreover have "state (sched_procs sample_sched 1) = PROCESS_STATE_RUNNING" "sched_esp (sched_procs sample_sched 1) \<noteq> 0"
    by (simp_all add: sample_sched_def)
  ultimately show ?thesis
    using sched_no_starvation [OF sample_sched_list(1), of 1 "[0x2000, 0x3000, 0x4000]" sample_env]
    by (auto simp: sample_sched_list)
qed

end
