(* ===== verification/Wait.thy ===== *)
theory Wait
  imports Proc Errno "HOL-Library.Monad_Syntax"
begin

text \<open>
  Wait queues, \<^verbatim>\<open>src/kernel/wait.c\<close>: processes wait in singly linked lists whose nodes come from
  one pool of 128. A pointer to a node is its index in the pool, a pointer to a queue a number,
  and the head of each queue a field of the store \<open>wq_head\<close>. The loops follow the links, so a
  cyclic list would make them run forever: that is \<open>None\<close>.
\<close>

definition WAIT_NODE_MAX :: nat where "WAIT_NODE_MAX = 128"

type_synonym queue_ptr = nat

record wait_node =
  wn_queue :: "queue_ptr option"
  wn_proc :: "proc_ptr option"
  wn_next :: "nat option"

record wait =
  s_wait_nodes :: "wait_node list"
  wq_head :: "queue_ptr \<Rightarrow> nat option"
  wq_procs :: procs

definition wait_queue_init :: "wait \<Rightarrow> queue_ptr \<Rightarrow> wait" where
  "wait_queue_init st q = st\<lparr>wq_head := (wq_head st)(q := None)\<rparr>"

partial_function (option) wait_find_loop :: "wait_node list \<Rightarrow> proc_ptr \<Rightarrow> nat option \<Rightarrow> nat option option" where
  "wait_find_loop nodes p node =
     (case node of
        None \<Rightarrow> Some None
      | Some i \<Rightarrow> if wn_proc (nodes ! i) = Some p then Some (Some i) else wait_find_loop nodes p (wn_next (nodes ! i)))"

definition wait_queue_find :: "wait \<Rightarrow> queue_ptr \<Rightarrow> proc_ptr \<Rightarrow> nat option option" where
  "wait_queue_find st q p = wait_find_loop (s_wait_nodes st) p (wq_head st q)"

text \<open>
  The cursor of \<^verbatim>\<open>wait_queue_remove_node\<close> is the address of a link: the head of the queue
  (\<open>None\<close>) or the \<^verbatim>\<open>next\<close> field of a node.
\<close>

definition get_cursor :: "wait \<Rightarrow> queue_ptr \<Rightarrow> nat option \<Rightarrow> nat option" where
  "get_cursor st q c = (case c of None \<Rightarrow> wq_head st q | Some j \<Rightarrow> wn_next (s_wait_nodes st ! j))"

definition set_cursor :: "wait \<Rightarrow> queue_ptr \<Rightarrow> nat option \<Rightarrow> nat option \<Rightarrow> wait" where
  "set_cursor st q c v =
     (case c of
        None \<Rightarrow> st\<lparr>wq_head := (wq_head st)(q := v)\<rparr>
      | Some j \<Rightarrow> st\<lparr>s_wait_nodes := (s_wait_nodes st)[j := (s_wait_nodes st ! j)\<lparr>wn_next := v\<rparr>]\<rparr>)"

partial_function (option) wait_unlink_loop :: "wait \<Rightarrow> queue_ptr \<Rightarrow> nat \<Rightarrow> nat option \<Rightarrow> wait option" where
  "wait_unlink_loop st q node c =
     (case get_cursor st q c of
        None \<Rightarrow> Some st
      | Some i \<Rightarrow>
          if i = node then Some (set_cursor st q c (wn_next (s_wait_nodes st ! node)))
          else wait_unlink_loop st q node (Some i))"

definition wait_queue_remove_node :: "wait \<Rightarrow> nat \<Rightarrow> wait option" where
  "wait_queue_remove_node st node =
     do {
       st \<leftarrow> (case wn_queue (s_wait_nodes st ! node) of
               None \<Rightarrow> Some st
             | Some q \<Rightarrow> wait_unlink_loop st q node None);
       Some (st\<lparr>s_wait_nodes := (s_wait_nodes st)[node := \<lparr>wn_queue = None, wn_proc = None, wn_next = None\<rparr>]\<rparr>)
     }"

definition wait_queue_add :: "wait \<Rightarrow> queue_ptr \<Rightarrow> proc_ptr \<Rightarrow> (int \<times> wait) option" where
  "wait_queue_add st q p =
     do {
       found \<leftarrow> wait_queue_find st q p;
       if found \<noteq> None then Some (0, st)
       else
         case List.find (\<lambda>i. wn_proc (s_wait_nodes st ! i) = None) [0..<WAIT_NODE_MAX] of
           Some i \<Rightarrow>
             Some (0, st\<lparr>s_wait_nodes := (s_wait_nodes st)[i := \<lparr>wn_queue = Some q, wn_proc = Some p, wn_next = wq_head st q\<rparr>],
                         wq_head := (wq_head st)(q := Some i)\<rparr>)
         | None \<Rightarrow> Some (- ENOMEM, st)
     }"

fun remove_proc_loop :: "nat list \<Rightarrow> wait \<Rightarrow> proc_ptr \<Rightarrow> wait option" where
  "remove_proc_loop [] st p = Some st"
| "remove_proc_loop (i # is) st p =
     do {
       st \<leftarrow> (if wn_proc (s_wait_nodes st ! i) = Some p then wait_queue_remove_node st i else Some st);
       remove_proc_loop is st p
     }"

definition wait_queue_remove_proc :: "wait \<Rightarrow> proc_ptr \<Rightarrow> wait option" where
  "wait_queue_remove_proc st p = remove_proc_loop [0..<WAIT_NODE_MAX] st p"

definition wait_queue_wake_proc :: "wait \<Rightarrow> proc_ptr option \<Rightarrow> wait" where
  "wait_queue_wake_proc st p =
     (case p of
        None \<Rightarrow> st
      | Some p \<Rightarrow> st\<lparr>wq_procs := (wq_procs st)(p := wake_proc (wq_procs st p))\<rparr>)"

text \<open>One waiter, the body that \<^verbatim>\<open>wait_queue_wake_one\<close> and the loop of \<^verbatim>\<open>wait_queue_wake_all\<close> share.\<close>

definition wait_wake_head :: "wait \<Rightarrow> nat \<Rightarrow> wait option" where
  "wait_wake_head st i =
     (let p = wn_proc (s_wait_nodes st ! i); st = wait_queue_wake_proc st p
      in case p of Some p \<Rightarrow> wait_queue_remove_proc st p | None \<Rightarrow> wait_queue_remove_node st i)"

definition wait_queue_wake_one :: "wait \<Rightarrow> queue_ptr \<Rightarrow> wait option" where
  "wait_queue_wake_one st q = (case wq_head st q of None \<Rightarrow> Some st | Some i \<Rightarrow> wait_wake_head st i)"

partial_function (option) wait_queue_wake_all :: "wait \<Rightarrow> queue_ptr \<Rightarrow> wait option" where
  "wait_queue_wake_all st q =
     (case wq_head st q of
        None \<Rightarrow> Some st
      | Some i \<Rightarrow> do { st \<leftarrow> wait_wake_head st i; wait_queue_wake_all st q })"

section \<open>The lists of the pool\<close>

fun linked :: "wait_node list \<Rightarrow> nat option \<Rightarrow> nat list \<Rightarrow> bool" where
  "linked ns h [] \<longleftrightarrow> h = None"
| "linked ns h (i # is) \<longleftrightarrow> h = Some i \<and> i < length ns \<and> linked ns (wn_next (ns ! i)) is"

lemma linked_update: "i \<notin> set is \<Longrightarrow> linked (ns[i := x]) h is = linked ns h is"
  by (induction "is" arbitrary: h) (auto simp: nth_list_update)

lemma linked_cong:
  "length ns' = length ns \<Longrightarrow> (\<And>i. i \<in> set is \<Longrightarrow> ns' ! i = ns ! i) \<Longrightarrow> linked ns' h is = linked ns h is"
  by (induction "is" arbitrary: h) auto

lemma linked_bound: "linked ns h is \<Longrightarrow> i \<in> set is \<Longrightarrow> i < length ns"
  by (induction "is" arbitrary: h) auto

text \<open>What a node says, its links apart.\<close>

definition entry :: "wait \<Rightarrow> nat \<Rightarrow> queue_ptr option \<times> proc_ptr option" where
  "entry st i = (wn_queue (s_wait_nodes st ! i), wn_proc (s_wait_nodes st ! i))"

lemma snd_entry: "wn_proc (s_wait_nodes st ! i) = snd (entry st i)"
  by (simp add: entry_def)

definition members :: "wait \<Rightarrow> queue_ptr \<Rightarrow> nat set" where
  "members st q = {i. i < WAIT_NODE_MAX \<and> wn_queue (s_wait_nodes st ! i) = Some q}"

definition wait_ok :: "wait \<Rightarrow> bool" where
  "wait_ok st \<longleftrightarrow> length (s_wait_nodes st) = WAIT_NODE_MAX \<and>
     (\<forall>q. \<exists>is. linked (s_wait_nodes st) (wq_head st q) is \<and> distinct is \<and> set is = members st q) \<and>
     (\<forall>i < WAIT_NODE_MAX. snd (entry st i) = None \<longleftrightarrow> fst (entry st i) = None)"

lemma members_finite [simp]: "finite (members st q)"
  by (simp add: members_def)

text \<open>Unlinking a node takes it out of the list and touches links of that list only.\<close>

lemma unlink_spec:
  assumes "linked (s_wait_nodes st) (get_cursor st q c) is" "distinct is" "node \<in> set is"
    and "\<forall>j. c = Some j \<longrightarrow> j \<notin> set is \<and> j < length (s_wait_nodes st)"
  shows "\<exists>ns h. wait_unlink_loop st q node c = Some (st\<lparr>s_wait_nodes := ns, wq_head := h\<rparr>) \<and>
    length ns = length (s_wait_nodes st) \<and>
    (\<forall>j. wn_queue (ns ! j) = wn_queue (s_wait_nodes st ! j) \<and> wn_proc (ns ! j) = wn_proc (s_wait_nodes st ! j)) \<and>
    (\<forall>j. Some j \<noteq> c \<and> j \<notin> set is \<longrightarrow> ns ! j = s_wait_nodes st ! j) \<and>
    (\<forall>q'. q' \<noteq> q \<or> c \<noteq> None \<longrightarrow> h q' = wq_head st q') \<and>
    linked ns (get_cursor (st\<lparr>s_wait_nodes := ns, wq_head := h\<rparr>) q c) (remove1 node is)"
  using assms
proof (induction "is" arbitrary: c)
  case (Cons i is')
  have cur: "get_cursor st q c = Some i" "i < length (s_wait_nodes st)" "linked (s_wait_nodes st) (wn_next (s_wait_nodes st ! i)) is'"
    using Cons.prems(1) by auto
  show ?case
  proof (cases "i = node")
    case True
    let ?st = "set_cursor st q c (wn_next (s_wait_nodes st ! node))"
    have run: "wait_unlink_loop st q node c = Some (st\<lparr>s_wait_nodes := s_wait_nodes ?st, wq_head := wq_head ?st\<rparr>)"
      using cur(1) True by (subst wait_unlink_loop.simps) (simp add: set_cursor_def split: option.split)
    have "linked (s_wait_nodes ?st) (wn_next (s_wait_nodes st ! node)) is'"
      using cur(3) Cons.prems(4) True by (auto simp: set_cursor_def linked_update split: option.split)
    then show ?thesis unfolding run
      using True Cons.prems(4)
      by (intro exI [of _ "s_wait_nodes ?st"] exI [of _ "wq_head ?st"])
        (auto simp: set_cursor_def get_cursor_def nth_list_update split: option.split)
  next
    case False
    have prems: "linked (s_wait_nodes st) (get_cursor st q (Some i)) is'" "distinct is'" "node \<in> set is'"
      "\<forall>j. Some i = Some j \<longrightarrow> j \<notin> set is' \<and> j < length (s_wait_nodes st)"
      using cur Cons.prems(2,3) False by (auto simp: get_cursor_def)
    obtain ns h where IH: "wait_unlink_loop st q node (Some i) = Some (st\<lparr>s_wait_nodes := ns, wq_head := h\<rparr>)"
      "length ns = length (s_wait_nodes st)"
      "\<forall>j. wn_queue (ns ! j) = wn_queue (s_wait_nodes st ! j) \<and> wn_proc (ns ! j) = wn_proc (s_wait_nodes st ! j)"
      "\<forall>j. Some j \<noteq> Some i \<and> j \<notin> set is' \<longrightarrow> ns ! j = s_wait_nodes st ! j"
      "\<forall>q'. q' \<noteq> q \<or> Some i \<noteq> None \<longrightarrow> h q' = wq_head st q'"
      "linked ns (get_cursor (st\<lparr>s_wait_nodes := ns, wq_head := h\<rparr>) q (Some i)) (remove1 node is')"
      using Cons.IH [OF prems] by blast
    have "wait_unlink_loop st q node c = Some (st\<lparr>s_wait_nodes := ns, wq_head := h\<rparr>)"
      using cur(1) False IH(1) by (subst wait_unlink_loop.simps) simp
    moreover have "get_cursor (st\<lparr>s_wait_nodes := ns, wq_head := h\<rparr>) q c = Some i"
      using cur(1) IH(4,5) Cons.prems(4) by (auto simp: get_cursor_def split: option.splits)
    moreover have "h = wq_head st" using IH(5) by auto
    ultimately show ?thesis
      using IH(2-4,6) cur(2) False by (intro exI [of _ ns] exI [of _ h]) (auto simp: get_cursor_def)
  qed
qed simp

lemma members_entry: "members st q = {i. i < WAIT_NODE_MAX \<and> fst (entry st i) = Some q}"
  by (simp add: members_def entry_def)

lemma remove_idle_node:
  assumes ok: "wait_ok st" and node: "node < WAIT_NODE_MAX" and None: "wn_queue (s_wait_nodes st ! node) = None"
  shows "\<exists>st'. wait_queue_remove_node st node = Some st' \<and> wait_ok st' \<and> wq_procs st' = wq_procs st \<and>
    (\<forall>j. entry st' j = (if j = node then (None, None) else entry st j))"
proof -
  let ?st = "st\<lparr>s_wait_nodes := (s_wait_nodes st)[node := \<lparr>wn_queue = None, wn_proc = None, wn_next = None\<rparr>]\<rparr>"
  have len: "length (s_wait_nodes st) = WAIT_NODE_MAX" using ok by (simp add: wait_ok_def)
  have e: "entry ?st j = (if j = node then (None, None) else entry st j)" for j
    using len node by (simp add: entry_def nth_list_update)
  have m: "members ?st q = members st q" for q
    using None by (auto simp: members_entry e) (simp add: entry_def)
  have "node \<notin> members st q" for q using None by (simp add: members_def)
  then have "linked (s_wait_nodes ?st) h is = linked (s_wait_nodes st) h is" if "set is = members st q" for h "is" q
    using that linked_update by simp
  then have "\<forall>q. \<exists>is. linked (s_wait_nodes ?st) (wq_head st q) is \<and> distinct is \<and> set is = members st q"
    using ok unfolding wait_ok_def by metis
  moreover have "\<forall>i < WAIT_NODE_MAX. snd (entry ?st i) = None \<longleftrightarrow> fst (entry ?st i) = None"
    using ok unfolding wait_ok_def e by simp
  ultimately have "wait_ok ?st" unfolding wait_ok_def using m len by simp
  then show ?thesis using None e by (simp add: wait_queue_remove_node_def)
qed

lemma remove_queued_node:
  assumes ok: "wait_ok st" and node: "node < WAIT_NODE_MAX" and Some: "wn_queue (s_wait_nodes st ! node) = Some q"
  shows "\<exists>st'. wait_queue_remove_node st node = Some st' \<and> wait_ok st' \<and> wq_procs st' = wq_procs st \<and>
    (\<forall>j. entry st' j = (if j = node then (None, None) else entry st j))"
proof -
  have len: "length (s_wait_nodes st) = WAIT_NODE_MAX" using ok by (simp add: wait_ok_def)
  obtain "is" where "is": "linked (s_wait_nodes st) (wq_head st q) is" "distinct is" "set is = members st q"
    using ok unfolding wait_ok_def by blast
  have mem: "node \<in> set is" using Some node "is"(3) by (simp add: members_def)
  obtain ns h where u: "wait_unlink_loop st q node None = Some (st\<lparr>s_wait_nodes := ns, wq_head := h\<rparr>)"
    "length ns = length (s_wait_nodes st)"
    "\<forall>j. wn_queue (ns ! j) = wn_queue (s_wait_nodes st ! j) \<and> wn_proc (ns ! j) = wn_proc (s_wait_nodes st ! j)"
    "\<forall>j. j \<notin> set is \<longrightarrow> ns ! j = s_wait_nodes st ! j"
    "\<forall>q'. q' \<noteq> q \<longrightarrow> h q' = wq_head st q'" "linked ns (h q) (remove1 node is)"
    using unlink_spec [of st q None "is" node] "is" mem by (auto simp: get_cursor_def)
  let ?ns = "ns[node := \<lparr>wn_queue = None, wn_proc = None, wn_next = None\<rparr>]"
  let ?st = "st\<lparr>s_wait_nodes := ?ns, wq_head := h\<rparr>"
  have run: "wait_queue_remove_node st node = Some ?st" using Some u(1) by (simp add: wait_queue_remove_node_def)
  have e: "entry ?st j = (if j = node then (None, None) else entry st j)" for j
    using u(2,3) len node by (simp add: entry_def nth_list_update)
  have m: "members ?st q' = members st q' - {node}" for q' by (auto simp: members_entry e)
  have "\<exists>is'. linked ?ns (h q') is' \<and> distinct is' \<and> set is' = members ?st q'" for q'
  proof (cases "q' = q")
    case True
    have "node \<notin> set (remove1 node is)" using "is"(2) by simp
    then have "linked ?ns (h q) (remove1 node is)" using u(6) by (simp add: linked_update)
    moreover have "set (remove1 node is) = members ?st q" using "is"(2,3) m by (simp add: set_remove1_eq)
    ultimately show ?thesis using "is"(2) True by (intro exI [of _ "remove1 node is"]) simp
  next
    case False
    obtain is' where is': "linked (s_wait_nodes st) (wq_head st q') is'" "distinct is'" "set is' = members st q'"
      using ok unfolding wait_ok_def by blast
    have disj: "set is \<inter> set is' = {}" using False by (auto simp: "is"(3) is'(3) members_def)
    have "?ns ! i = s_wait_nodes st ! i" if "i \<in> set is'" for i
    proof -
      have "i \<notin> set is" "node \<noteq> i" using that disj mem by auto
      then show ?thesis using u(4) by simp
    qed
    then have "linked ?ns (wq_head st q') is' = linked (s_wait_nodes st) (wq_head st q') is'"
      using u(2) by (intro linked_cong) simp_all
    moreover have "members ?st q' = members st q'" using disj mem is'(3) m by auto
    ultimately show ?thesis using is' u(5) False by (intro exI [of _ is']) simp
  qed
  moreover have "\<forall>i < WAIT_NODE_MAX. snd (entry ?st i) = None \<longleftrightarrow> fst (entry ?st i) = None"
    using ok unfolding wait_ok_def e by simp
  ultimately have "wait_ok ?st" using u(2) len by (simp add: wait_ok_def)
  then show ?thesis using run e by (intro exI [of _ ?st]) simp
qed

lemma remove_node_spec:
  assumes "wait_ok st" "node < WAIT_NODE_MAX"
  shows "\<exists>st'. wait_queue_remove_node st node = Some st' \<and> wait_ok st' \<and> wq_procs st' = wq_procs st \<and>
    (\<forall>j. entry st' j = (if j = node then (None, None) else entry st j))"
  using remove_idle_node [OF assms] remove_queued_node [OF assms] by (cases "wn_queue (s_wait_nodes st ! node)") blast+

lemma remove_proc_loop_spec:
  "wait_ok st \<Longrightarrow> set is \<subseteq> {..<WAIT_NODE_MAX} \<Longrightarrow>
    \<exists>st'. remove_proc_loop is st p = Some st' \<and> wait_ok st' \<and> wq_procs st' = wq_procs st \<and>
      (\<forall>j. entry st' j = (if j \<in> set is \<and> snd (entry st j) = Some p then (None, None) else entry st j))"
proof (induction "is" arbitrary: st)
  case (Cons i is')
  have "\<exists>st1. (if wn_proc (s_wait_nodes st ! i) = Some p then wait_queue_remove_node st i else Some st) = Some st1 \<and>
      wait_ok st1 \<and> wq_procs st1 = wq_procs st \<and>
      (\<forall>j. entry st1 j = (if j = i \<and> snd (entry st j) = Some p then (None, None) else entry st j))"
    using remove_node_spec [OF Cons.prems(1), of i] Cons.prems
    by (cases "snd (entry st i) = Some p") (auto simp: snd_entry)
  then obtain st1 where st1: "(if wn_proc (s_wait_nodes st ! i) = Some p then wait_queue_remove_node st i else Some st) = Some st1"
    "wait_ok st1" "wq_procs st1 = wq_procs st"
    "\<forall>j. entry st1 j = (if j = i \<and> snd (entry st j) = Some p then (None, None) else entry st j)" by blast
  obtain st2 where st2: "remove_proc_loop is' st1 p = Some st2" "wait_ok st2" "wq_procs st2 = wq_procs st1"
    "\<forall>j. entry st2 j = (if j \<in> set is' \<and> snd (entry st1 j) = Some p then (None, None) else entry st1 j)"
    using Cons.IH [OF st1(2)] Cons.prems(2) by auto
  have "\<forall>j. entry st2 j = (if j \<in> set (i # is') \<and> snd (entry st j) = Some p then (None, None) else entry st j)"
    using st1(4) st2(4) by auto
  then show ?case using st1 st2 by (intro exI [of _ st2]) simp
qed simp

lemma remove_proc_spec:
  assumes "wait_ok st"
  obtains st' where "wait_queue_remove_proc st p = Some st'" "wait_ok st'" "wq_procs st' = wq_procs st"
    "\<forall>j < WAIT_NODE_MAX. entry st' j = (if snd (entry st j) = Some p then (None, None) else entry st j)"
  using remove_proc_loop_spec [OF assms, of "[0..<WAIT_NODE_MAX]" p] unfolding wait_queue_remove_proc_def by fastforce

section \<open>Waking\<close>

definition waiters :: "wait \<Rightarrow> queue_ptr \<Rightarrow> proc_ptr set" where
  "waiters st q = {p. \<exists>i < WAIT_NODE_MAX. entry st i = (Some q, Some p)}"

text \<open>The state after the processes of \<open>P\<close> were woken and taken off every queue.\<close>

definition woken :: "proc_ptr set \<Rightarrow> wait \<Rightarrow> wait \<Rightarrow> bool" where
  "woken P st st' \<longleftrightarrow> wait_ok st' \<and>
     wq_procs st' = (\<lambda>p. if p \<in> P then wake_proc (wq_procs st p) else wq_procs st p) \<and>
     (\<forall>j < WAIT_NODE_MAX. entry st' j = (if \<exists>p \<in> P. snd (entry st j) = Some p then (None, None) else entry st j))"

lemma woken_trans: "woken P st st1 \<Longrightarrow> woken P' st1 st2 \<Longrightarrow> woken (P \<union> P') st st2"
  by (auto simp: woken_def fun_eq_iff)

lemma head_member:
  assumes "wait_ok st" "wq_head st q = Some i"
  obtains p where "i < WAIT_NODE_MAX" "entry st i = (Some q, Some p)"
proof -
  obtain "is" where "is": "linked (s_wait_nodes st) (Some i) is" "set is = members st q"
    using assms unfolding wait_ok_def by metis
  then have "i \<in> members st q" by (cases "is") auto
  then have i: "i < WAIT_NODE_MAX" "fst (entry st i) = Some q" by (simp_all add: members_entry)
  with assms(1) have "snd (entry st i) \<noteq> None" by (simp add: wait_ok_def)
  with i that show ?thesis by (cases "entry st i") auto
qed

lemma wake_head_spec:
  assumes ok: "wait_ok st" and i: "i < WAIT_NODE_MAX" "entry st i = (Some q, Some p)"
  shows "\<exists>st'. wait_wake_head st i = Some st' \<and> woken {p} st st'"
proof -
  let ?st = "st\<lparr>wq_procs := (wq_procs st)(p := wake_proc (wq_procs st p))\<rparr>"
  have e: "entry ?st j = entry st j" for j by (simp add: entry_def)
  have "members ?st = members st" by (simp add: fun_eq_iff members_entry e)
  then have "wait_ok ?st" using ok by (simp add: wait_ok_def e)
  then obtain st' where "wait_queue_remove_proc ?st p = Some st'" "wait_ok st'" "wq_procs st' = wq_procs ?st"
    "\<forall>j < WAIT_NODE_MAX. entry st' j = (if snd (entry ?st j) = Some p then (None, None) else entry ?st j)"
    by (rule remove_proc_spec)
  moreover have "wn_proc (s_wait_nodes st ! i) = Some p" using i by (simp add: snd_entry)
  ultimately show ?thesis
    by (intro exI [of _ st']) (auto simp: wait_wake_head_def wait_queue_wake_proc_def woken_def e)
qed

lemma waiters_woken:
  "woken P st st' \<Longrightarrow> waiters st' q = waiters st q - P"
proof -
  assume w: "woken P st st'"
  have "entry st' i = (Some q, Some p) \<longleftrightarrow> entry st i = (Some q, Some p) \<and> p \<notin> P" if "i < WAIT_NODE_MAX" for i p
    using w that by (cases "entry st i") (auto simp: woken_def)
  then show ?thesis by (auto simp: waiters_def)
qed

lemma finite_waiters [simp]: "finite (waiters st q)"
proof (rule finite_subset)
  show "waiters st q \<subseteq> (\<lambda>i. the (snd (entry st i))) ` {..<WAIT_NODE_MAX}" by (force simp: waiters_def)
qed simp

lemma wake_all_spec:
  "wait_ok st \<Longrightarrow> \<exists>st'. wait_queue_wake_all st q = Some st' \<and> woken (waiters st q) st st' \<and> wq_head st' q = None"
proof (induction "card (waiters st q)" arbitrary: st rule: less_induct)
  case less
  show ?case
  proof (cases "wq_head st q")
    case None
    obtain "is" where "linked (s_wait_nodes st) None is" "set is = members st q"
      using less.prems None unfolding wait_ok_def by metis
    then have "members st q = {}" by (cases "is") auto
    then have "waiters st q = {}" by (force simp: waiters_def members_entry)
    then show ?thesis using None less.prems by (subst wait_queue_wake_all.simps) (simp add: woken_def)
  next
    case (Some i)
    obtain p where i: "i < WAIT_NODE_MAX" "entry st i = (Some q, Some p)" by (rule head_member [OF less.prems Some])
    obtain st1 where st1: "wait_wake_head st i = Some st1" "woken {p} st st1" using wake_head_spec [OF less.prems i] by blast
    have p: "p \<in> waiters st q" using i by (auto simp: waiters_def)
    have "card (waiters st1 q) < card (waiters st q)"
      using p waiters_woken [OF st1(2), of q] by (simp only: finite_waiters card_Diff1_less)
    then obtain st2 where st2: "wait_queue_wake_all st1 q = Some st2" "woken (waiters st1 q) st1 st2" "wq_head st2 q = None"
      using less.hyps [of st1] st1(2) by (auto simp: woken_def)
    have "waiters st q = {p} \<union> waiters st1 q" using p waiters_woken [OF st1(2), of q] by auto
    then have "woken (waiters st q) st st2" using woken_trans [OF st1(2) st2(2)] by simp
    then show ?thesis using Some st1(1) st2 by (subst wait_queue_wake_all.simps) simp
  qed
qed

section \<open>Adding a waiter\<close>

lemma find_loop_spec:
  "linked ns h is \<Longrightarrow> wait_find_loop ns p h = Some (List.find (\<lambda>i. wn_proc (ns ! i) = Some p) is)"
proof (induction "is" arbitrary: h)
  case Nil
  then show ?case by (subst wait_find_loop.simps) simp
next
  case (Cons i is')
  then show ?case by (subst wait_find_loop.simps) auto
qed

lemma wait_find_spec:
  assumes "wait_ok st"
  shows "\<exists>r. wait_queue_find st q p = Some r \<and> (r = None \<longleftrightarrow> p \<notin> waiters st q)"
proof -
  obtain "is" where "is": "linked (s_wait_nodes st) (wq_head st q) is" "set is = members st q"
    using assms unfolding wait_ok_def by blast
  have "List.find (\<lambda>i. wn_proc (s_wait_nodes st ! i) = Some p) is = None \<longleftrightarrow> p \<notin> waiters st q"
    by (auto simp: find_None_iff "is"(2) members_entry waiters_def snd_entry prod_eq_iff)
  then show ?thesis using find_loop_spec [OF "is"(1)] by (simp add: wait_queue_find_def)
qed

definition add_node :: "wait \<Rightarrow> queue_ptr \<Rightarrow> proc_ptr \<Rightarrow> nat \<Rightarrow> wait" where
  "add_node st q p i =
     st\<lparr>s_wait_nodes := (s_wait_nodes st)[i := \<lparr>wn_queue = Some q, wn_proc = Some p, wn_next = wq_head st q\<rparr>],
        wq_head := (wq_head st)(q := Some i)\<rparr>"

lemma add_node_spec:
  assumes ok: "wait_ok st" and i: "i < WAIT_NODE_MAX" and free: "snd (entry st i) = None"
  shows "wait_ok (add_node st q p i)" "waiters (add_node st q p i) q' = (if q' = q then insert p (waiters st q) else waiters st q')"
    "wq_procs (add_node st q p i) = wq_procs st"
proof -
  let ?st = "add_node st q p i"
  have len: "length (s_wait_nodes st) = WAIT_NODE_MAX" using ok by (simp add: wait_ok_def)
  have fr: "fst (entry st i) = None" using ok i free by (simp add: wait_ok_def)
  have e: "entry ?st j = (if j = i then (Some q, Some p) else entry st j)" for j
    using len i by (simp add: entry_def add_node_def nth_list_update)
  have m: "members ?st q' = (if q' = q then insert i (members st q) else members st q')" for q'
    using i fr by (auto simp: members_entry e)
  have ni: "i \<notin> members st q'" for q' using fr by (simp add: members_entry)
  have "\<exists>is. linked (s_wait_nodes ?st) (wq_head ?st q') is \<and> distinct is \<and> set is = members ?st q'" for q'
  proof -
    obtain "is" where "is": "linked (s_wait_nodes st) (wq_head st q') is" "distinct is" "set is = members st q'"
      using ok unfolding wait_ok_def by blast
    have keep: "linked (s_wait_nodes ?st) (wq_head st q') is"
      using "is" ni [of q'] by (simp add: add_node_def linked_update)
    show ?thesis
    proof (cases "q' = q")
      case True
      then show ?thesis using "is" keep ni [of q'] i len
        by (intro exI [of _ "i # is"]) (simp add: m, simp add: add_node_def)
    next
      case False
      then show ?thesis using "is" keep by (intro exI [of _ "is"]) (simp add: m, simp add: add_node_def)
    qed
  qed
  then show "wait_ok ?st" using len ok by (simp add: wait_ok_def e) (simp add: add_node_def)
  show "waiters ?st q' = (if q' = q then insert p (waiters st q) else waiters st q')"
  proof -
    have "(\<exists>j < WAIT_NODE_MAX. entry ?st j = y) \<longleftrightarrow> y = (Some q, Some p) \<or> (\<exists>j < WAIT_NODE_MAX. entry st j = y)"
      if "fst y \<noteq> None" for y
      using e fr i that by metis
    then show ?thesis by (auto simp: waiters_def)
  qed
  show "wq_procs ?st = wq_procs st" by (simp add: add_node_def)
qed

lemma wait_add_spec:
  assumes "wait_ok st"
  shows "\<exists>rc st'. wait_queue_add st q p = Some (rc, st') \<and> wait_ok st' \<and> wq_procs st' = wq_procs st \<and>
    (if rc = 0 then \<forall>q'. waiters st' q' = (if q' = q then insert p (waiters st q) else waiters st q')
     else rc = - ENOMEM \<and> st' = st \<and> p \<notin> waiters st q \<and>
       {i. i < WAIT_NODE_MAX \<and> wn_proc (s_wait_nodes st ! i) = None} = {})"
proof -
  obtain r where r: "wait_queue_find st q p = Some r" "r = None \<longleftrightarrow> p \<notin> waiters st q"
    using wait_find_spec [OF assms] by blast
  let ?find = "List.find (\<lambda>i. wn_proc (s_wait_nodes st ! i) = None) [0..<WAIT_NODE_MAX]"
  show ?thesis
  proof (cases "r = None")
    case False
    then show ?thesis using r assms by (intro exI [of _ 0] exI [of _ st]) (auto simp: wait_queue_add_def)
  next
    case True
    show ?thesis
    proof (cases ?find)
      case None
      then have "{i. i < WAIT_NODE_MAX \<and> wn_proc (s_wait_nodes st ! i) = None} = {}" by (auto simp: find_None_iff)
      moreover have "wait_queue_add st q p = Some (- ENOMEM, st)" using r True None by (simp add: wait_queue_add_def)
      ultimately show ?thesis using r True assms by (intro exI [of _ "- ENOMEM"] exI [of _ st]) (simp add: ENOMEM_def)
    next
      case (Some i)
      then have i: "i < WAIT_NODE_MAX" "snd (entry st i) = None" by (auto simp: find_Some_iff snd_entry)
      have "wait_queue_add st q p = Some (0, add_node st q p i)"
        using r True Some by (simp add: wait_queue_add_def add_node_def)
      then show ?thesis using add_node_spec [OF assms i, of q p] by (intro exI [of _ 0] exI [of _ "add_node st q p i"]) simp
    qed
  qed
qed

text \<open>
  adding a process to a queue ends, keeps the pool well formed and records the process as a
  waiter of that queue and no other; it fails, with \<^verbatim>\<open>ENOMEM\<close> and no change, only when all 128
  nodes of the pool are taken.
\<close>

theorem wait_queue_add_correct:
  assumes "wait_ok st"
  shows "\<exists>rc st'. wait_queue_add st q p = Some (rc, st') \<and> wait_ok st' \<and> wq_procs st' = wq_procs st \<and>
    (if rc = 0 then \<forall>q'. waiters st' q' = (if q' = q then insert p (waiters st q) else waiters st q')
     else rc = - ENOMEM \<and> st' = st \<and> p \<notin> waiters st q \<and>
       {i. i < WAIT_NODE_MAX \<and> wn_proc (s_wait_nodes st ! i) = None} = {})"
  by (rule wait_add_spec [OF assms])

definition wait_empty :: wait where
  "wait_empty = \<lparr>s_wait_nodes = replicate WAIT_NODE_MAX \<lparr>wn_queue = None, wn_proc = None, wn_next = None\<rparr>,
     wq_head = (\<lambda>_. None), wq_procs = (\<lambda>_. no_proc\<lparr>state := PROCESS_STATE_WAITING\<rparr>)\<rparr>"

lemma wait_empty_ok: "wait_ok wait_empty" "waiters wait_empty q = {}"
proof -
  have e: "i < WAIT_NODE_MAX \<Longrightarrow> entry wait_empty i = (None, None)" for i by (simp add: entry_def wait_empty_def)
  then have m: "members wait_empty q = {}" for q by (auto simp: members_entry)
  have "\<exists>is. linked (s_wait_nodes wait_empty) (wq_head wait_empty q) is \<and> distinct is \<and> set is = members wait_empty q" for q
    using m by (intro exI [of _ "[]"]) (simp add: wait_empty_def)
  then show "wait_ok wait_empty" using e by (simp add: wait_ok_def) (simp add: wait_empty_def)
  show "waiters wait_empty q = {}" using e by (auto simp: waiters_def)
qed

theorem wait_queue_add_correct_witness:
  "\<exists>rc st'. wait_queue_add wait_empty 1 7 = Some (rc, st') \<and> wait_ok st' \<and> wq_procs st' = wq_procs wait_empty"
  using wait_queue_add_correct [OF wait_empty_ok(1), of 1 7] by blast

text \<open>
  C20: no waiter is forgotten. Waking a queue ends, leaves the queue empty and the pool of nodes
  well formed, and makes exactly the processes that waited in the queue runnable; these leave all
  other queues too, and every other waiter stays where it is.
\<close>

theorem wait_queue_wake_all_correct:
  assumes "wait_ok st"
  shows "\<exists>st'. wait_queue_wake_all st q = Some st' \<and> wait_ok st' \<and> wq_head st' q = None \<and>
    (\<forall>p. wq_procs st' p = (if p \<in> waiters st q then wake_proc (wq_procs st p) else wq_procs st p)) \<and>
    (\<forall>q'. waiters st' q' = waiters st q' - waiters st q)"
proof -
  obtain st' where st': "wait_queue_wake_all st q = Some st'" "woken (waiters st q) st st'" "wq_head st' q = None"
    using wake_all_spec [OF assms] by blast
  then show ?thesis using waiters_woken [OF st'(2)] by (intro exI [of _ st']) (simp add: woken_def)
qed

theorem wait_queue_wake_all_correct_witness:
  "\<exists>st'. wait_queue_wake_all (add_node wait_empty 1 7 0) 1 = Some st' \<and> wq_head st' 1 = None \<and>
     state (wq_procs st' 7) = PROCESS_STATE_RUNNING \<and> state (wq_procs st' 8) = PROCESS_STATE_WAITING"
proof -
  have "snd (entry wait_empty 0) = None" by (simp add: entry_def wait_empty_def WAIT_NODE_MAX_def)
  note a = add_node_spec [OF wait_empty_ok(1) _ this]
  have "wait_ok (add_node wait_empty 1 7 0)" "waiters (add_node wait_empty 1 7 0) 1 = {7}"
    using a [of 1 7] by (simp_all add: WAIT_NODE_MAX_def wait_empty_ok(2))
  with wait_queue_wake_all_correct [of "add_node wait_empty 1 7 0" 1] show ?thesis
    by (auto simp: add_node_def wait_empty_def wake_proc_def)
qed

end
