(* ===== verification/Pipe.thy ===== *)
theory Pipe
  imports Ring Wait "HOL-Library.Monad_Syntax"
begin

text \<open>
  Pipes, the pipe handles of \<^verbatim>\<open>src/kernel/process.c\<close>. A pipe is a ring of 4096 bytes with reference
  counts of its two ends and two wait queues. A call that has to wait parks the process in a queue
  and goes on when it is woken, so an operation is modelled as what runs in one go: from the call,
  or from being woken, to returning or to parking. Interrupts are off in between, so nothing else
  changes the pipe meanwhile. \<open>None\<close> is a wait queue loop that does not end.
\<close>

section \<open>Handles and pipes\<close>

definition PIPE_BUFFER_SIZE :: nat where "PIPE_BUFFER_SIZE = unat PAGE_SIZE"
definition SYS_PIPE_BUF :: nat where "SYS_PIPE_BUF = 4096"
definition SYS_FD_FLAG_NONBLOCK :: u32 where "SYS_FD_FLAG_NONBLOCK = 0x800"
definition SYS_FD_FLAG_CLOEXEC :: u32 where "SYS_FD_FLAG_CLOEXEC = 0x80000"
definition PROCESS_HANDLE_KIND_PIPE :: int where "PROCESS_HANDLE_KIND_PIPE = 7"

definition POLLIN :: u16 where "POLLIN = 0x1"
definition POLLOUT :: u16 where "POLLOUT = 0x4"
definition POLLERR :: u16 where "POLLERR = 0x8"
definition POLLHUP :: u16 where "POLLHUP = 0x10"

record fd_entry =
  fd_valid :: bool
  fd_kind :: int
  fd_readable :: bool
  fd_writable :: bool
  fd_status :: u32
  fd_flags :: u32
  aux_frame :: u32

definition fd_closed :: fd_entry where
  "fd_closed = \<lparr>fd_valid = False, fd_kind = 0, fd_readable = False, fd_writable = False, fd_status = 0, fd_flags = 0,
     aux_frame = 0\<rparr>"

record pipe =
  read_waiters :: queue_ptr
  write_waiters :: queue_ptr
  data_frame :: u32
  pipe_bytes :: "u8 list"
  read_pos :: nat
  write_pos :: nat
  pipe_count :: nat
  read_refs :: nat
  write_refs :: nat

text \<open>
  The pipe that lives in the frame of the handles, the wait queues, the processes a broken pipe was
  signalled to, and the frames given back.
\<close>

record pipe_sys =
  the_pipe :: pipe
  pipe_wait :: wait
  sigpipes :: "proc_ptr list"
  freed_frames :: "u32 list"

definition pipe_object_from_ent :: "pipe_sys \<Rightarrow> fd_entry \<Rightarrow> pipe option" where
  "pipe_object_from_ent st ent =
     (if fd_kind ent \<noteq> PROCESS_HANDLE_KIND_PIPE \<or> aux_frame ent = 0 then None else Some (the_pipe st))"

definition pipe_data :: "pipe option \<Rightarrow> u8 list option" where
  "pipe_data pip = (case pip of None \<Rightarrow> None | Some pip \<Rightarrow> if data_frame pip = 0 then None else Some (pipe_bytes pip))"

definition process_fd_pipe_ref :: "pipe_sys \<Rightarrow> fd_entry \<Rightarrow> pipe_sys" where
  "process_fd_pipe_ref st ent =
     (if \<not> fd_valid ent \<or> fd_kind ent \<noteq> PROCESS_HANDLE_KIND_PIPE then st
      else
        case pipe_object_from_ent st ent of
          None \<Rightarrow> st
        | Some pip \<Rightarrow>
            st\<lparr>the_pipe := pip\<lparr>read_refs := read_refs pip + (if fd_readable ent then 1 else 0),
                              write_refs := write_refs pip + (if fd_writable ent then 1 else 0)\<rparr>\<rparr>)"

text \<open>
  Opening a pipe. The two frames from the allocator (0 when it has none) and the results of looking
  for two free descriptors are arguments; the result carries the frames given back on failure.
\<close>

definition pipe_entry :: "u32 \<Rightarrow> bool \<Rightarrow> u32 \<Rightarrow> fd_entry" where
  "pipe_entry flags reading frame =
     \<lparr>fd_valid = True, fd_kind = PROCESS_HANDLE_KIND_PIPE, fd_readable = reading, fd_writable = \<not> reading,
      fd_status = flags AND SYS_FD_FLAG_NONBLOCK, fd_flags = flags AND SYS_FD_FLAG_CLOEXEC, aux_frame = frame\<rparr>"

definition process_fd_pipe ::
  "wait \<Rightarrow> queue_ptr \<Rightarrow> queue_ptr \<Rightarrow> u32 \<Rightarrow> u32 \<Rightarrow> u32 \<Rightarrow> int \<Rightarrow> int \<Rightarrow>
   (int \<times> u32 list) + (pipe_sys \<times> fd_entry \<times> fd_entry)" where
  "process_fd_pipe w rq wq flags pipe_frame dframe read_fd write_fd =
     (if flags AND NOT (SYS_FD_FLAG_NONBLOCK OR SYS_FD_FLAG_CLOEXEC) \<noteq> 0 then Inl (- EINVAL, [])
      else if pipe_frame = 0 then Inl (- ENOMEM, [])
      else if dframe = 0 then Inl (- ENOMEM, [pipe_frame])
      else if read_fd < 0 then Inl (read_fd, [dframe, pipe_frame])
      else if write_fd < 0 then Inl (write_fd, [dframe, pipe_frame])
      else
        let w = wait_queue_init (wait_queue_init w rq) wq;
            pip = \<lparr>read_waiters = rq, write_waiters = wq, data_frame = dframe,
                  pipe_bytes = replicate PIPE_BUFFER_SIZE 0, read_pos = 0, write_pos = 0, pipe_count = 0,
                  read_refs = 1, write_refs = 1\<rparr>
        in Inr (\<lparr>the_pipe = pip, pipe_wait = w, sigpipes = [], freed_frames = []\<rparr>,
                pipe_entry flags True pipe_frame, pipe_entry flags False pipe_frame))"

section \<open>Moving bytes\<close>

definition pipe_get :: "pipe \<Rightarrow> u8 option \<times> pipe" where
  "pipe_get pip =
     (if pipe_count pip = 0 then (None, pip)
      else (Some (pipe_bytes pip ! read_pos pip),
            pip\<lparr>read_pos := (read_pos pip + 1) mod PIPE_BUFFER_SIZE, pipe_count := pipe_count pip - 1\<rparr>))"

definition pipe_put :: "pipe \<Rightarrow> u8 \<Rightarrow> pipe" where
  "pipe_put pip b =
     pip\<lparr>pipe_bytes := (pipe_bytes pip)[write_pos pip := b], write_pos := (write_pos pip + 1) mod PIPE_BUFFER_SIZE,
        pipe_count := pipe_count pip + 1\<rparr>"

definition pipe_full :: "pipe \<Rightarrow> bool" where
  "pipe_full pip \<longleftrightarrow> \<not> pipe_count pip < PIPE_BUFFER_SIZE"

definition set_state :: "wait \<Rightarrow> proc_ptr \<Rightarrow> process_state \<Rightarrow> wait" where
  "set_state w p s = w\<lparr>wq_procs := (wq_procs w)(p := (wq_procs w p)\<lparr>state := s\<rparr>)\<rparr>"

definition unwait :: "wait \<Rightarrow> proc_ptr option \<Rightarrow> wait option" where
  "unwait w proc = (case proc of None \<Rightarrow> Some w | Some p \<Rightarrow> wait_queue_remove_proc w p)"

text \<open>
  Parking in a queue: \<open>Inl rc\<close> when the queue takes no more (the process is running again and in no
  queue), \<open>Inr\<close> when the process waits. The test the code repeats after entering the queue reads what
  the loop condition has just read. Without a process (during boot) the code only halts until
  an interrupt.
\<close>

definition pipe_park :: "wait \<Rightarrow> queue_ptr \<Rightarrow> proc_ptr option \<Rightarrow> (int + unit) option \<times> wait" where
  "pipe_park w q proc =
     (case proc of
        None \<Rightarrow> (Some (Inr ()), w)
      | Some p \<Rightarrow>
          let w = set_state w p PROCESS_STATE_WAITING
          in case wait_queue_add w q p of
               None \<Rightarrow> (None, w)
             | Some (rc, w) \<Rightarrow>
                 if rc < 0
                 then (case wait_queue_remove_proc (set_state w p PROCESS_STATE_RUNNING) p of
                         None \<Rightarrow> (None, w) | Some w \<Rightarrow> (Some (Inl rc), w))
                 else (Some (Inr ()), w))"

section \<open>Reading\<close>

datatype read_outcome = Read_Returns int "u8 list" | Read_Parks

definition pipe_read_finish :: "pipe_sys \<Rightarrow> proc_ptr option \<Rightarrow> nat \<Rightarrow> (read_outcome \<times> pipe_sys) option" where
  "pipe_read_finish st proc len =
     do {
       w \<leftarrow> unwait (pipe_wait st) proc;
       let (bytes, pip) = ring_drain pipe_get len (the_pipe st);
       w \<leftarrow> (if bytes \<noteq> [] then wait_queue_wake_all w (write_waiters pip) else Some w);
       Some (Read_Returns (int (length bytes)) bytes, st\<lparr>the_pipe := pip, pipe_wait := w\<rparr>)
     }"

definition pipe_read_loop :: "pipe_sys \<Rightarrow> fd_entry \<Rightarrow> proc_ptr option \<Rightarrow> nat \<Rightarrow> (read_outcome \<times> pipe_sys) option" where
  "pipe_read_loop st ent proc len =
     (let pip = the_pipe st
      in if pipe_count pip = 0 \<and> write_refs pip \<noteq> 0 then
           if fd_status ent AND SYS_FD_FLAG_NONBLOCK \<noteq> 0 then Some (Read_Returns (- EAGAIN) [], st)
           else
             case pipe_park (pipe_wait st) (read_waiters pip) proc of
               (None, w) \<Rightarrow> None
             | (Some (Inl rc), w) \<Rightarrow> Some (Read_Returns rc [], st\<lparr>pipe_wait := w\<rparr>)
             | (Some (Inr _), w) \<Rightarrow> Some (Read_Parks, st\<lparr>pipe_wait := w\<rparr>)
         else pipe_read_finish st proc len)"

definition process_handle_pipe_read ::
  "pipe_sys \<Rightarrow> fd_entry \<Rightarrow> proc_ptr option \<Rightarrow> bool \<Rightarrow> nat \<Rightarrow> (read_outcome \<times> pipe_sys) option" where
  "process_handle_pipe_read st ent proc buf len =
     (if \<not> fd_valid ent \<or> \<not> fd_readable ent then Some (Read_Returns (- EBADF) [], st)
      else if \<not> buf then Some (Read_Returns (- EFAULT) [], st)
      else if len = 0 then Some (Read_Returns 0 [], st)
      else if pipe_data (pipe_object_from_ent st ent) = None then Some (Read_Returns (- EIO) [], st)
      else pipe_read_loop st ent proc len)"

text \<open>A reader that was woken leaves the queue and tests again.\<close>

definition pipe_read_woken ::
  "pipe_sys \<Rightarrow> fd_entry \<Rightarrow> proc_ptr option \<Rightarrow> nat \<Rightarrow> (read_outcome \<times> pipe_sys) option" where
  "pipe_read_woken st ent proc len =
     do { w \<leftarrow> unwait (pipe_wait st) proc; pipe_read_loop (st\<lparr>pipe_wait := w\<rparr>) ent proc len }"

section \<open>Writing\<close>

text \<open>Both outcomes of a write carry the number of bytes written so far.\<close>

datatype write_outcome = Write_Returns int nat | Write_Parks nat

definition write_result :: "nat \<Rightarrow> int \<Rightarrow> write_outcome" where
  "write_result don rc = Write_Returns (if don \<noteq> 0 then int don else rc) don"

partial_function (option) pipe_write_loop ::
  "pipe_sys \<Rightarrow> fd_entry \<Rightarrow> proc_ptr option \<Rightarrow> u8 list \<Rightarrow> nat \<Rightarrow> (write_outcome \<times> pipe_sys) option" where
  "pipe_write_loop st ent proc buf don =
     (if \<not> don < length buf then Some (Write_Returns (int don) don, st)
      else
        let pip = the_pipe st;
            needed = (if length buf \<le> SYS_PIPE_BUF then length buf else 1)
        in if read_refs pip = 0
           then Some (write_result don (- EPIPE),
                      if don = 0 then st\<lparr>sigpipes := sigpipes st @ (case proc of None \<Rightarrow> [] | Some p \<Rightarrow> [p])\<rparr> else st)
           else if PIPE_BUFFER_SIZE - pipe_count pip < needed
           then
             if fd_status ent AND SYS_FD_FLAG_NONBLOCK \<noteq> 0 then Some (write_result don (- EAGAIN), st)
             else
               case pipe_park (pipe_wait st) (write_waiters pip) proc of
                 (None, w) \<Rightarrow> None
               | (Some (Inl rc), w) \<Rightarrow> Some (write_result don rc, st\<lparr>pipe_wait := w\<rparr>)
               | (Some (Inr _), w) \<Rightarrow> Some (Write_Parks don, st\<lparr>pipe_wait := w\<rparr>)
           else
             do {
               w \<leftarrow> unwait (pipe_wait st) proc;
               let (n, pip) = ring_fill pipe_full pipe_put (drop don buf) pip;
               w \<leftarrow> wait_queue_wake_all w (read_waiters pip);
               let st = st\<lparr>the_pipe := pip, pipe_wait := w\<rparr>;
               if fd_status ent AND SYS_FD_FLAG_NONBLOCK \<noteq> 0
               then Some (Write_Returns (int (don + n)) (don + n), st)
               else pipe_write_loop st ent proc buf (don + n)
             })"

definition process_handle_pipe_write ::
  "pipe_sys \<Rightarrow> fd_entry \<Rightarrow> proc_ptr option \<Rightarrow> u8 list option \<Rightarrow> (write_outcome \<times> pipe_sys) option" where
  "process_handle_pipe_write st ent proc buf =
     (if \<not> fd_valid ent \<or> \<not> fd_writable ent then Some (Write_Returns (- EBADF) 0, st)
      else
        case buf of
          None \<Rightarrow> Some (Write_Returns (- EFAULT) 0, st)
        | Some buf \<Rightarrow>
            if buf = [] then Some (Write_Returns 0 0, st)
            else if pipe_data (pipe_object_from_ent st ent) = None then Some (Write_Returns (- EIO) 0, st)
            else pipe_write_loop st ent proc buf 0)"

definition pipe_write_woken ::
  "pipe_sys \<Rightarrow> fd_entry \<Rightarrow> proc_ptr option \<Rightarrow> u8 list \<Rightarrow> nat \<Rightarrow> (write_outcome \<times> pipe_sys) option" where
  "pipe_write_woken st ent proc buf don =
     do { w \<leftarrow> unwait (pipe_wait st) proc; pipe_write_loop (st\<lparr>pipe_wait := w\<rparr>) ent proc buf don }"

section \<open>Seek, poll, close\<close>

definition process_handle_pipe_seek :: "fd_entry \<Rightarrow> int \<Rightarrow> int \<Rightarrow> int" where
  "process_handle_pipe_seek ent offset whence = - ESPIPE"

definition process_handle_pipe_poll :: "pipe_sys \<Rightarrow> fd_entry \<Rightarrow> u16 \<Rightarrow> u16" where
  "process_handle_pipe_poll st ent events =
     (if \<not> fd_valid ent then POLLERR
      else
        case pipe_object_from_ent st ent of
          None \<Rightarrow> POLLERR
        | Some pip \<Rightarrow>
            (if events AND POLLIN \<noteq> 0 \<and> fd_readable ent \<and> (pipe_count pip \<noteq> 0 \<or> write_refs pip = 0) then POLLIN else 0)
            OR (if events AND POLLOUT \<noteq> 0 \<and> fd_writable ent \<and> read_refs pip \<noteq> 0 \<and> pipe_count pip < PIPE_BUFFER_SIZE
                then POLLOUT else 0)
            OR (if fd_readable ent \<and> write_refs pip = 0 \<or> fd_writable ent \<and> read_refs pip = 0 then POLLHUP else 0))"

definition process_handle_pipe_close :: "pipe_sys \<Rightarrow> fd_entry \<Rightarrow> (fd_entry \<times> pipe_sys) option" where
  "process_handle_pipe_close st ent =
     (case pipe_object_from_ent st ent of
        None \<Rightarrow> Some (fd_closed, st)
      | Some pip \<Rightarrow>
          do {
            let pip = pip\<lparr>read_refs := read_refs pip - (if fd_readable ent \<and> read_refs pip > 0 then 1 else 0),
                        write_refs := write_refs pip - (if fd_writable ent \<and> write_refs pip > 0 then 1 else 0)\<rparr>;
            w \<leftarrow> wait_queue_wake_all (pipe_wait st) (read_waiters pip);
            w \<leftarrow> wait_queue_wake_all w (write_waiters pip);
            let frames = (if read_refs pip = 0 \<and> write_refs pip = 0
                          then (if data_frame pip \<noteq> 0 then [data_frame pip] else []) @
                               (if aux_frame ent \<noteq> 0 then [aux_frame ent] else [])
                          else []);
            Some (fd_closed, st\<lparr>the_pipe := pip, pipe_wait := w, freed_frames := freed_frames st @ frames\<rparr>)
          })"

section \<open>A pipe is a bounded queue of bytes\<close>

definition pipe_ok :: "pipe \<Rightarrow> bool" where
  "pipe_ok pip \<longleftrightarrow> length (pipe_bytes pip) = PIPE_BUFFER_SIZE \<and> pipe_count pip \<le> PIPE_BUFFER_SIZE \<and>
     read_pos pip < PIPE_BUFFER_SIZE \<and> write_pos pip = (read_pos pip + pipe_count pip) mod PIPE_BUFFER_SIZE"

definition pipe_items :: "pipe \<Rightarrow> u8 list" where
  "pipe_items pip = ring_list PIPE_BUFFER_SIZE (pipe_bytes pip) (read_pos pip) (pipe_count pip)"

lemma length_pipe_items [simp]: "length (pipe_items pip) = pipe_count pip"
  by (simp add: pipe_items_def)

lemma PIPE_BUFFER_SIZE_pos [simp]: "0 < PIPE_BUFFER_SIZE"
  by (simp add: PIPE_BUFFER_SIZE_def PAGE_SIZE_def)

lemma pipe_put_spec:
  assumes "pipe_ok pip" "pipe_count pip < PIPE_BUFFER_SIZE"
  shows "pipe_ok (pipe_put pip b)" "pipe_items (pipe_put pip b) = pipe_items pip @ [b]"
  using assms ring_list_put [of "pipe_bytes pip" PIPE_BUFFER_SIZE "pipe_count pip" "read_pos pip" b]
    ring_head_step [of "read_pos pip" "pipe_count pip" PIPE_BUFFER_SIZE]
  by (simp_all add: pipe_ok_def pipe_put_def pipe_items_def)

lemma pipe_get_spec:
  assumes "pipe_ok pip" "pipe_count pip \<noteq> 0"
  shows "pipe_ok (snd (pipe_get pip))" "fst (pipe_get pip) = Some (hd (pipe_items pip))"
    "pipe_items (snd (pipe_get pip)) = tl (pipe_items pip)"
proof -
  obtain n where n: "pipe_count pip = Suc n" using assms(2) by (cases "pipe_count pip") auto
  note r = ring_list_get [of PIPE_BUFFER_SIZE "pipe_bytes pip" "read_pos pip" n]
  show "pipe_ok (snd (pipe_get pip))"
    using assms ring_tail_step [of "pipe_count pip" "read_pos pip" PIPE_BUFFER_SIZE] by (auto simp: pipe_ok_def pipe_get_def)
  show "fst (pipe_get pip) = Some (hd (pipe_items pip))" "pipe_items (snd (pipe_get pip)) = tl (pipe_items pip)"
    using assms r n by (simp_all add: pipe_ok_def pipe_get_def pipe_items_def)
qed

lemma pipe_items_Nil: "pipe_items pip = [] \<longleftrightarrow> pipe_count pip = 0"
  by (metis length_0_conv length_pipe_items)

interpretation pipe_queue: bounded_queue pipe_ok pipe_items PIPE_BUFFER_SIZE pipe_put pipe_get
proof unfold_locales
  fix s x
  assume ok: "pipe_ok s"
  show "length (pipe_items s) \<le> PIPE_BUFFER_SIZE" using ok by (simp add: pipe_ok_def)
  show "pipe_ok (snd (pipe_get s))"
    using ok pipe_get_spec(1) [of s] by (cases "pipe_count s = 0") (simp_all add: pipe_get_def)
  {
    assume "length (pipe_items s) < PIPE_BUFFER_SIZE"
    then show "pipe_ok (pipe_put s x)" "pipe_items (pipe_put s x) = pipe_items s @ [x]"
      using ok pipe_put_spec by simp_all
  next
    assume "pipe_items s = []"
    then show "pipe_get s = (None, s)" by (simp add: pipe_items_Nil pipe_get_def)
  next
    assume "pipe_items s \<noteq> []"
    then show "fst (pipe_get s) = Some (hd (pipe_items s))" "pipe_items (snd (pipe_get s)) = tl (pipe_items s)"
      using ok pipe_get_spec by (simp_all add: pipe_items_Nil)
  }
qed

lemma pipe_fill:
  assumes "pipe_ok pip" "ring_fill pipe_full pipe_put xs pip = (n, pip')"
  shows "n = min (length xs) (PIPE_BUFFER_SIZE - pipe_count pip)" "pipe_items pip' = pipe_items pip @ take n xs" "pipe_ok pip'"
proof -
  have "pipe_full s \<longleftrightarrow> length (pipe_items s) = PIPE_BUFFER_SIZE" if "pipe_ok s" for s
    using that by (auto simp: pipe_full_def pipe_ok_def)
  from pipe_queue.fill_spec [OF assms(1) this assms(2)]
  show "n = min (length xs) (PIPE_BUFFER_SIZE - pipe_count pip)" "pipe_items pip' = pipe_items pip @ take n xs" "pipe_ok pip'"
    by simp_all
qed

section \<open>The wait queues never block an operation\<close>

lemma wait_ok_set_state [simp]: "wait_ok (set_state w p s) = wait_ok w"
  by (simp add: wait_ok_def set_state_def members_def entry_def)

lemma unwait_ok:
  assumes "wait_ok w"
  obtains w' where "unwait w proc = Some w'" "wait_ok w'"
proof (cases proc)
  case None
  then show thesis using that [of w] assms by (simp add: unwait_def)
next
  case (Some p)
  show thesis using remove_proc_spec [OF assms, of p] that Some by (metis option.simps(5) unwait_def)
qed

lemma wake_all_ok:
  "wait_ok w \<Longrightarrow> \<exists>w'. wait_queue_wake_all w q = Some w' \<and> wait_ok w'"
  using wake_all_spec [of w q] by (auto simp: woken_def)

lemma pipe_park_ok:
  assumes "wait_ok w"
  obtains r w' where "pipe_park w q proc = (Some r, w')" "wait_ok w'" "\<And>rc. r = Inl rc \<Longrightarrow> rc = - ENOMEM"
proof (cases proc)
  case None
  then show thesis using that [of "Inr ()" w] assms by (simp add: pipe_park_def)
next
  case (Some p)
  obtain rc w1 where a: "wait_queue_add (set_state w p PROCESS_STATE_WAITING) q p = Some (rc, w1)" "wait_ok w1"
    "rc = 0 \<or> rc = - ENOMEM"
    using wait_add_spec [of "set_state w p PROCESS_STATE_WAITING" q p] assms by (auto split: if_splits)
  show thesis
  proof (cases "rc < 0")
    case False
    then show thesis using that [of "Inr ()" w1] Some a by (simp add: pipe_park_def Let_def)
  next
    case True
    obtain w2 where "wait_queue_remove_proc (set_state w1 p PROCESS_STATE_RUNNING) p = Some w2" "wait_ok w2"
      using remove_proc_spec [of "set_state w1 p PROCESS_STATE_RUNNING" p] a(2) by auto
    then show thesis using that [of "Inl rc" w2] Some a True by (auto simp: pipe_park_def Let_def)
  qed
qed

section \<open>Reads and writes\<close>

definition pipe_sys_ok :: "pipe_sys \<Rightarrow> bool" where
  "pipe_sys_ok st \<longleftrightarrow> pipe_ok (the_pipe st) \<and> wait_ok (pipe_wait st)"

abbreviation contents :: "pipe_sys \<Rightarrow> u8 list" where
  "contents st \<equiv> pipe_items (the_pipe st)"

fun bytes_read :: "read_outcome \<Rightarrow> u8 list" where
  "bytes_read (Read_Returns rc bytes) = bytes"
| "bytes_read Read_Parks = []"

fun written :: "write_outcome \<Rightarrow> nat" where
  "written (Write_Returns rc n) = n"
| "written (Write_Parks n) = n"

lemma written_result [simp]: "written (write_result don rc) = don"
  by (simp add: write_result_def)

lemma read_finish_spec:
  assumes "pipe_sys_ok st"
  shows "\<exists>st'. pipe_read_finish st proc len = Some (Read_Returns (int (min len (length (contents st)))) (take len (contents st)), st') \<and>
    pipe_sys_ok st' \<and> contents st' = drop len (contents st)"
proof -
  have ok: "pipe_ok (the_pipe st)" "wait_ok (pipe_wait st)" using assms by (simp_all add: pipe_sys_ok_def)
  obtain w where w: "unwait (pipe_wait st) proc = Some w" "wait_ok w" using unwait_ok [OF ok(2)] .
  obtain bytes pip where d: "ring_drain pipe_get len (the_pipe st) = (bytes, pip)" by fastforce
  note s = pipe_queue.drain_spec [OF ok(1) d]
  obtain w' where w': "(if bytes \<noteq> [] then wait_queue_wake_all w (write_waiters pip) else Some w) = Some w'" "wait_ok w'"
    using wake_all_ok [OF w(2), of "write_waiters pip"] w(2) by (cases "bytes = []") auto
  then show ?thesis using w d s by (simp add: pipe_read_finish_def pipe_sys_ok_def min.commute)
qed

lemma read_loop_spec:
  assumes "pipe_sys_ok st"
  shows "\<exists>out st'. pipe_read_loop st ent proc len = Some (out, st') \<and> pipe_sys_ok st' \<and>
    bytes_read out @ contents st' = contents st"
proof (cases "pipe_count (the_pipe st) = 0 \<and> write_refs (the_pipe st) \<noteq> 0")
  case False
  then show ?thesis using read_finish_spec [OF assms, of proc len] by (auto simp: pipe_read_loop_def Let_def)
next
  case True
  obtain r w where "pipe_park (pipe_wait st) (read_waiters (the_pipe st)) proc = (Some r, w)" "wait_ok w"
    using pipe_park_ok assms by (metis pipe_sys_ok_def)
  then show ?thesis using True assms
    by (cases r) (auto simp: pipe_read_loop_def Let_def pipe_sys_ok_def)
qed

text \<open>One round of the writer that finds room.\<close>

lemma write_fill_round:
  assumes "pipe_sys_ok st" "don < length buf" "read_refs (the_pipe st) \<noteq> 0"
    "(if length buf \<le> SYS_PIPE_BUF then length buf else 1) \<le> PIPE_BUFFER_SIZE - pipe_count (the_pipe st)"
  obtains n st1 where "pipe_sys_ok st1" "contents st1 = contents st @ take n (drop don buf)" "0 < n" "don + n \<le> length buf"
    "length buf \<le> SYS_PIPE_BUF \<and> don = 0 \<longrightarrow> n = length buf"
    "pipe_write_loop st ent proc buf don =
      (if fd_status ent AND SYS_FD_FLAG_NONBLOCK \<noteq> 0 then Some (Write_Returns (int (don + n)) (don + n), st1)
       else pipe_write_loop st1 ent proc buf (don + n))"
proof -
  have ok: "pipe_ok (the_pipe st)" "wait_ok (pipe_wait st)" using assms(1) by (simp_all add: pipe_sys_ok_def)
  obtain w where w: "unwait (pipe_wait st) proc = Some w" "wait_ok w" using unwait_ok [OF ok(2)] .
  obtain n pip where f: "ring_fill pipe_full pipe_put (drop don buf) (the_pipe st) = (n, pip)" by fastforce
  note s = pipe_fill [OF ok(1) f]
  obtain w' where w': "wait_queue_wake_all w (read_waiters pip) = Some w'" "wait_ok w'" using wake_all_ok [OF w(2)] by blast
  define st1 where "st1 = st\<lparr>the_pipe := pip, pipe_wait := w'\<rparr>"
  define needed where "needed = (if length buf \<le> SYS_PIPE_BUF then length buf else 1)"
  have need: "needed \<le> PIPE_BUFFER_SIZE - pipe_count (the_pipe st)" using assms(4) by (simp add: needed_def)
  have "pipe_sys_ok st1" "contents st1 = contents st @ take n (drop don buf)"
    using s w' by (simp_all add: st1_def pipe_sys_ok_def)
  moreover have "0 < n" "don + n \<le> length buf" "length buf \<le> SYS_PIPE_BUF \<and> don = 0 \<longrightarrow> n = length buf"
    using s(1) assms(2) need by (auto simp: needed_def split: if_splits)
  moreover have "pipe_write_loop st ent proc buf don =
      (if fd_status ent AND SYS_FD_FLAG_NONBLOCK \<noteq> 0 then Some (Write_Returns (int (don + n)) (don + n), st1)
       else pipe_write_loop st1 ent proc buf (don + n))"
    using assms(2,3) need w f w' by (subst pipe_write_loop.simps) (simp add: Let_def needed_def [symmetric] st1_def)
  ultimately show thesis using that by blast
qed

lemma write_loop_spec:
  assumes "pipe_sys_ok st" "don \<le> length buf"
  shows "\<exists>out st'. pipe_write_loop st ent proc buf don = Some (out, st') \<and> pipe_sys_ok st' \<and>
    don \<le> written out \<and> written out \<le> length buf \<and>
    contents st' = contents st @ take (written out - don) (drop don buf) \<and>
    (length buf \<le> SYS_PIPE_BUF \<and> (don = 0 \<or> don = length buf) \<longrightarrow> written out = don \<or> written out = length buf)"
  using assms
proof (induction "length buf - don" arbitrary: st don rule: less_induct)
  case less
  define needed where "needed = (if length buf \<le> SYS_PIPE_BUF then length buf else 1)"
  have ok: "pipe_ok (the_pipe st)" "wait_ok (pipe_wait st)" using less.prems by (simp_all add: pipe_sys_ok_def)
  consider "don = length buf" | "don < length buf" "read_refs (the_pipe st) = 0 \<or> PIPE_BUFFER_SIZE - pipe_count (the_pipe st) < needed"
    | "don < length buf" "read_refs (the_pipe st) \<noteq> 0" "needed \<le> PIPE_BUFFER_SIZE - pipe_count (the_pipe st)"
    using less.prems(2) by linarith
  then show ?case
  proof cases
    case 1
    then show ?thesis using less.prems by (subst pipe_write_loop.simps) simp
  next
    case 2
    obtain r w where "pipe_park (pipe_wait st) (write_waiters (the_pipe st)) proc = (Some r, w)" "wait_ok w"
      using pipe_park_ok [OF ok(2)] by metis
    then show ?thesis using 2 less.prems ok
      by (subst pipe_write_loop.simps) (cases r, auto simp: Let_def needed_def [symmetric] pipe_sys_ok_def)
  next
    case 3
    obtain n st1 where st1: "pipe_sys_ok st1" "contents st1 = contents st @ take n (drop don buf)"
      and n: "0 < n" "don + n \<le> length buf" "length buf \<le> SYS_PIPE_BUF \<and> don = 0 \<longrightarrow> n = length buf"
      and run: "pipe_write_loop st ent proc buf don =
        (if fd_status ent AND SYS_FD_FLAG_NONBLOCK \<noteq> 0 then Some (Write_Returns (int (don + n)) (don + n), st1)
         else pipe_write_loop st1 ent proc buf (don + n))"
      using write_fill_round [OF less.prems(1) 3(1,2) 3(3) [unfolded needed_def]] .
    show ?thesis
    proof (cases "fd_status ent AND SYS_FD_FLAG_NONBLOCK \<noteq> 0")
      case True
      then show ?thesis using run st1 n 3(1) by auto
    next
      case False
      have "length buf - (don + n) < length buf - don" using n(1) 3(1) by linarith
      from less.hyps [OF this st1(1) n(2)] obtain out st' where IH: "pipe_write_loop st1 ent proc buf (don + n) = Some (out, st')" "pipe_sys_ok st'"
        "don + n \<le> written out" "written out \<le> length buf"
        "contents st' = contents st1 @ take (written out - (don + n)) (drop (don + n) buf)" by blast
      have "take n (drop don buf) @ take (written out - (don + n)) (drop (don + n) buf) = take (written out - don) (drop don buf)"
        using IH(3) take_add [of n "written out - (don + n)" "drop don buf"] by (simp add: add.commute)
      then show ?thesis using False run IH st1(2) n 3(1) by auto
    qed
  qed
qed

section \<open>Any interleaving\<close>

datatype pipe_op =
    Do_Read fd_entry "proc_ptr option" bool nat
  | Wake_Reader fd_entry "proc_ptr option" nat
  | Do_Write fd_entry "proc_ptr option" "u8 list option"
  | Wake_Writer fd_entry "proc_ptr option" "u8 list" nat

text \<open>The bytes read, the bytes written, and the state after an operation.\<close>

fun pipe_exec :: "pipe_sys \<Rightarrow> pipe_op \<Rightarrow> (u8 list \<times> u8 list \<times> pipe_sys) option" where
  "pipe_exec st (Do_Read ent proc buf len) =
     map_option (\<lambda>(out, st). (bytes_read out, [], st)) (process_handle_pipe_read st ent proc buf len)"
| "pipe_exec st (Wake_Reader ent proc len) =
     map_option (\<lambda>(out, st). (bytes_read out, [], st)) (pipe_read_woken st ent proc len)"
| "pipe_exec st (Do_Write ent proc buf) =
     map_option (\<lambda>(out, st). ([], take (written out) (case buf of None \<Rightarrow> [] | Some bs \<Rightarrow> bs), st))
       (process_handle_pipe_write st ent proc buf)"
| "pipe_exec st (Wake_Writer ent proc buf don) =
     map_option (\<lambda>(out, st). ([], take (written out - don) (drop don buf), st)) (pipe_write_woken st ent proc buf don)"

fun pipe_run :: "pipe_sys \<Rightarrow> pipe_op list \<Rightarrow> (u8 list \<times> u8 list \<times> pipe_sys) option" where
  "pipe_run st [] = Some ([], [], st)"
| "pipe_run st (op # ops) =
     do {
       (r, w, st) \<leftarrow> pipe_exec st op;
       (rs, ws, st) \<leftarrow> pipe_run st ops;
       Some (r @ rs, w @ ws, st)
     }"

lemma pipe_read_spec:
  assumes "pipe_sys_ok st"
  shows "\<exists>out st'. process_handle_pipe_read st ent proc buf len = Some (out, st') \<and> pipe_sys_ok st' \<and>
    bytes_read out @ contents st' = contents st"
  using read_loop_spec [OF assms] assms by (auto simp: process_handle_pipe_read_def)

lemma pipe_write_spec:
  assumes "pipe_sys_ok st" "bs = (case buf of None \<Rightarrow> [] | Some bs \<Rightarrow> bs)"
  shows "\<exists>out st'. process_handle_pipe_write st ent proc buf = Some (out, st') \<and> pipe_sys_ok st' \<and>
    contents st' = contents st @ take (written out) bs \<and> written out \<le> length bs \<and>
    (length bs \<le> SYS_PIPE_BUF \<longrightarrow> written out = 0 \<or> written out = length bs)"
  using write_loop_spec [OF assms(1), of 0 bs ent proc] assms
  by (cases buf) (auto simp: process_handle_pipe_write_def)

lemma unwait_sys_ok:
  assumes "pipe_sys_ok st"
  shows "\<exists>w. unwait (pipe_wait st) proc = Some w \<and> pipe_sys_ok (st\<lparr>pipe_wait := w\<rparr>)"
proof -
  have "wait_ok (pipe_wait st)" using assms by (simp add: pipe_sys_ok_def)
  then obtain w where "unwait (pipe_wait st) proc = Some w" "wait_ok w" by (rule unwait_ok)
  then show ?thesis using assms by (simp add: pipe_sys_ok_def)
qed

lemma pipe_exec_spec:
  assumes "pipe_sys_ok st"
  shows "\<exists>r w st'. pipe_exec st op = Some (r, w, st') \<and> pipe_sys_ok st' \<and> r @ contents st' = contents st @ w"
proof (cases op)
  case (Do_Read ent proc buf len)
  then show ?thesis using pipe_read_spec [OF assms, of ent proc buf len] by auto
next
  case (Wake_Reader ent proc len)
  obtain w where w: "unwait (pipe_wait st) proc = Some w" "pipe_sys_ok (st\<lparr>pipe_wait := w\<rparr>)"
    using unwait_sys_ok [OF assms] by blast
  show ?thesis using read_loop_spec [OF w(2), of ent proc len] w(1) by (auto simp: Wake_Reader pipe_read_woken_def)
next
  case (Do_Write ent proc buf)
  then show ?thesis using pipe_write_spec [OF assms refl, where buf = buf and ent = ent and proc = proc] by auto
next
  case (Wake_Writer ent proc buf don)
  obtain w where w: "unwait (pipe_wait st) proc = Some w" "pipe_sys_ok (st\<lparr>pipe_wait := w\<rparr>)"
    using unwait_sys_ok [OF assms] by blast
  show ?thesis
  proof (cases "don \<le> length buf")
    case True
    then show ?thesis using write_loop_spec [OF w(2) True, of ent proc] w(1) by (auto simp: Wake_Writer pipe_write_woken_def)
  next
    case False
    then show ?thesis using w by (simp add: Wake_Writer pipe_write_woken_def pipe_write_loop.simps)
  qed
qed

text \<open>
  C21: A pipe delivers every byte once, in order. Through whichever handles and in whatever order
  calls read and write and parked processes wake up, each step ends, the ring and the wait queues
  stay well formed, and the bytes read so far followed by those still in the pipe are the bytes
  that were in it at first followed by all that were written.
\<close>

theorem pipe_fifo:
  assumes "pipe_sys_ok st"
  shows "\<exists>r w st'. pipe_run st ops = Some (r, w, st') \<and> pipe_sys_ok st' \<and> r @ contents st' = contents st @ w"
  using assms
proof (induction ops arbitrary: st)
  case (Cons op ops)
  obtain r w st1 where a: "pipe_exec st op = Some (r, w, st1)" "pipe_sys_ok st1" "r @ contents st1 = contents st @ w"
    using pipe_exec_spec [OF Cons.prems] by blast
  obtain rs ws st' where b: "pipe_run st1 ops = Some (rs, ws, st')" "pipe_sys_ok st'" "rs @ contents st' = contents st1 @ ws"
    using Cons.IH [OF a(2)] by blast
  have "(r @ rs) @ contents st' = contents st @ w @ ws" using a(3) b(3) by (metis append.assoc)
  then show ?case using a(1) b(1,2) by simp
qed simp

definition sample_pipe :: pipe_sys where
  "sample_pipe =
     \<lparr>the_pipe = \<lparr>read_waiters = 1, write_waiters = 2, data_frame = 0x2000, pipe_bytes = replicate PIPE_BUFFER_SIZE 0,
        read_pos = 0, write_pos = 0, pipe_count = 0, read_refs = 1, write_refs = 1\<rparr>,
      pipe_wait = wait_empty, sigpipes = [], freed_frames = []\<rparr>"

lemma sample_pipe_ok: "pipe_sys_ok sample_pipe" "contents sample_pipe = []"
  using wait_empty_ok(1) by (simp_all add: pipe_sys_ok_def sample_pipe_def pipe_ok_def pipe_items_def)

theorem pipe_fifo_witness:
  "\<exists>r w st'. pipe_run sample_pipe
     [Do_Read (pipe_entry 0 True 0x1000) (Some 7) True 4, Do_Write (pipe_entry 0 False 0x1000) (Some 8) (Some [1, 2, 3]),
      Wake_Reader (pipe_entry 0 True 0x1000) (Some 7) 4] = Some (r, w, st') \<and> r @ contents st' = w"
  using pipe_fifo [OF sample_pipe_ok(1)] sample_pipe_ok(2) by fastforce

text \<open>
  C22: A write of at most \<^verbatim>\<open>PIPE_BUF\<close> bytes is atomic: whether it starts, or goes on after waiting, it
  puts either nothing or all its bytes into the pipe, next to each other, and so is never
  interleaved with other writes.
\<close>

theorem pipe_write_atomic:
  assumes "pipe_sys_ok st" "length buf \<le> SYS_PIPE_BUF"
  shows "(\<exists>out st'. process_handle_pipe_write st ent proc (Some buf) = Some (out, st') \<and>
      (written out = 0 \<and> contents st' = contents st \<or> written out = length buf \<and> contents st' = contents st @ buf)) \<and>
    (\<exists>out st'. pipe_write_woken st ent proc buf 0 = Some (out, st') \<and>
      (written out = 0 \<and> contents st' = contents st \<or> written out = length buf \<and> contents st' = contents st @ buf))"
proof
  show "\<exists>out st'. process_handle_pipe_write st ent proc (Some buf) = Some (out, st') \<and>
      (written out = 0 \<and> contents st' = contents st \<or> written out = length buf \<and> contents st' = contents st @ buf)"
    using pipe_write_spec [OF assms(1) refl, where buf = "Some buf" and ent = ent and proc = proc] assms(2) by auto
  obtain w where w: "unwait (pipe_wait st) proc = Some w" "pipe_sys_ok (st\<lparr>pipe_wait := w\<rparr>)"
    using unwait_sys_ok [OF assms(1)] by blast
  then show "\<exists>out st'. pipe_write_woken st ent proc buf 0 = Some (out, st') \<and>
      (written out = 0 \<and> contents st' = contents st \<or> written out = length buf \<and> contents st' = contents st @ buf)"
    using write_loop_spec [OF w(2), of 0 buf ent proc] assms(2) by (auto simp: pipe_write_woken_def)
qed

theorem pipe_write_atomic_witness:
  "\<exists>out st'. pipe_write_woken sample_pipe (pipe_entry 0 False 0x1000) (Some 8) [1, 2, 3] 0 = Some (out, st') \<and>
     (written out = 0 \<and> contents st' = [] \<or> written out = 3 \<and> contents st' = [1, 2, 3])"
  using pipe_write_atomic [OF sample_pipe_ok(1), of "[1, 2, 3]" "pipe_entry 0 False 0x1000" "Some 8"]
  by (simp add: sample_pipe_ok(2) SYS_PIPE_BUF_def numeral_3_eq_3)

text \<open>
  \<^verbatim>\<open>poll\<close> tells the truth. On a nonblocking handle of an open pipe, it reports input exactly when a
  read would not fail with \<^verbatim>\<open>EAGAIN\<close>, and room for output exactly when writing one byte succeeds.
\<close>

theorem pipe_poll_exact:
  assumes "pipe_sys_ok st" "fd_valid ent" "fd_kind ent = PROCESS_HANDLE_KIND_PIPE" "aux_frame ent \<noteq> 0"
    "data_frame (the_pipe st) \<noteq> 0" "fd_status ent AND SYS_FD_FLAG_NONBLOCK \<noteq> 0" "0 < len"
  shows "(fd_readable ent \<longrightarrow>
      (process_handle_pipe_poll st ent POLLIN AND POLLIN \<noteq> 0 \<longleftrightarrow>
       process_handle_pipe_read st ent proc True len \<noteq> Some (Read_Returns (- EAGAIN) [], st))) \<and>
    (fd_writable ent \<longrightarrow>
      (process_handle_pipe_poll st ent POLLOUT AND POLLOUT \<noteq> 0 \<longleftrightarrow>
       (\<exists>st'. process_handle_pipe_write st ent proc (Some [b]) = Some (Write_Returns 1 1, st'))))"
proof (intro conjI impI)
  have obj: "pipe_object_from_ent st ent = Some (the_pipe st)" "pipe_data (Some (the_pipe st)) \<noteq> None"
    using assms(3-5) by (simp_all add: pipe_object_from_ent_def pipe_data_def)
  show "process_handle_pipe_poll st ent POLLIN AND POLLIN \<noteq> 0 \<longleftrightarrow>
       process_handle_pipe_read st ent proc True len \<noteq> Some (Read_Returns (- EAGAIN) [], st)" if "fd_readable ent"
  proof -
    have "process_handle_pipe_poll st ent POLLIN AND POLLIN \<noteq> 0 \<longleftrightarrow>
        \<not> (pipe_count (the_pipe st) = 0 \<and> write_refs (the_pipe st) \<noteq> 0)"
      using assms(2) obj that
      by (simp add: process_handle_pipe_poll_def POLLIN_def POLLOUT_def POLLHUP_def bit.conj_disj_distrib2)
    then show ?thesis
      using assms(2,6,7) obj that read_finish_spec [OF assms(1), of proc len]
      by (auto simp: process_handle_pipe_read_def pipe_read_loop_def Let_def EAGAIN_def)
  qed
  show "process_handle_pipe_poll st ent POLLOUT AND POLLOUT \<noteq> 0 \<longleftrightarrow>
       (\<exists>st'. process_handle_pipe_write st ent proc (Some [b]) = Some (Write_Returns 1 1, st'))" if "fd_writable ent"
  proof -
    have "process_handle_pipe_poll st ent POLLOUT AND POLLOUT \<noteq> 0 \<longleftrightarrow>
        read_refs (the_pipe st) \<noteq> 0 \<and> pipe_count (the_pipe st) < PIPE_BUFFER_SIZE"
      using assms(2) obj that
      by (simp add: process_handle_pipe_poll_def POLLIN_def POLLOUT_def POLLHUP_def bit.conj_disj_distrib2)
    moreover have ok: "pipe_ok (the_pipe st)" "wait_ok (pipe_wait st)" using assms(1) by (simp_all add: pipe_sys_ok_def)
    moreover obtain w where w: "unwait (pipe_wait st) proc = Some w" "wait_ok w" using unwait_ok [OF ok(2)] .
    moreover obtain w' where "wait_queue_wake_all w (read_waiters (the_pipe st)) = Some w'" using wake_all_ok [OF w(2)] by blast
    ultimately show ?thesis
      using assms(2,6) obj that
      by (auto simp: process_handle_pipe_write_def pipe_write_loop.simps [of st ent proc "[b]" 0] Let_def pipe_full_def
            write_result_def pipe_put_def SYS_PIPE_BUF_def)
  qed
qed

theorem pipe_poll_exact_witness:
  "process_handle_pipe_read sample_pipe (pipe_entry 0x800 True 0x1000) (Some 7) True 4 = Some (Read_Returns (- EAGAIN) [], sample_pipe)"
proof -
  have "process_handle_pipe_poll sample_pipe (pipe_entry 0x800 True 0x1000) POLLIN AND POLLIN = 0"
    by (simp add: process_handle_pipe_poll_def pipe_object_from_ent_def pipe_entry_def sample_pipe_def
          PROCESS_HANDLE_KIND_PIPE_def POLLIN_def)
  then show ?thesis
    using pipe_poll_exact [OF sample_pipe_ok(1), of "pipe_entry 0x800 True 0x1000" 4 "Some 7"]
    by (simp add: pipe_entry_def SYS_FD_FLAG_NONBLOCK_def, simp add: sample_pipe_def)
qed

end
