(* ===== verification/Vm.thy ===== *)
theory Vm
  imports Prelude Errno "HOL-Library.Monad_Syntax"
begin

text \<open>
  The virtual memory areas of a process, \<^verbatim>\<open>src/kernel/process.c\<close>: the ordered table of address
  ranges behind \<^verbatim>\<open>mmap\<close>, \<^verbatim>\<open>munmap\<close>, \<^verbatim>\<open>mprotect\<close> and \<^verbatim>\<open>brk\<close>. The table is the list of its areas
  in use, \<open>None\<close> before it is allocated; \<open>alloc\<close> tells whether \<^verbatim>\<open>kcalloc\<close> finds memory. The page
  table of the process appears as the entry it holds for each page address, 0 where nothing is
  mapped. The operations return, as the code does, whether they succeeded.
\<close>

section \<open>Areas\<close>

definition PROCESS_VM_PROT_READ :: u32 where "PROCESS_VM_PROT_READ = 1"
definition PROCESS_VM_PROT_WRITE :: u32 where "PROCESS_VM_PROT_WRITE = 2"
definition PROCESS_VM_PROT_EXEC :: u32 where "PROCESS_VM_PROT_EXEC = 4"
definition PROCESS_VM_KIND_FILE_PRIVATE :: u32 where "PROCESS_VM_KIND_FILE_PRIVATE = 4"
definition PROCESS_VM_KIND_ELF :: u32 where "PROCESS_VM_KIND_ELF = 5"
definition PROCESS_VM_AREA_INITIAL :: nat where "PROCESS_VM_AREA_INITIAL = 32"
definition PROCESS_VM_AREA_MAX :: nat where "PROCESS_VM_AREA_MAX = 512"
definition PROCESS_FD_NAME_MAX :: nat where "PROCESS_FD_NAME_MAX = 128"
definition USER_CODE_BASE :: u32 where "USER_CODE_BASE = 0x400000"
definition USER_STACK_TOP :: u32 where "USER_STACK_TOP = 0xC0000000"

definition PAGE_PRESENT :: u32 where "PAGE_PRESENT = 0x1"
definition PAGE_WRITE :: u32 where "PAGE_WRITE = 0x2"
definition PAGE_USER :: u32 where "PAGE_USER = 0x4"
definition PAGE_SHARED_RO_FILE :: u32 where "PAGE_SHARED_RO_FILE = 0x200"
definition PAGE_COW :: u32 where "PAGE_COW = 0x400"

record vm_area =
  va_start :: u32
  va_end :: u32
  va_prot :: u32
  va_max_prot :: u32
  va_kind :: u32
  va_flags :: u32
  va_file_start :: u32
  va_file_end :: u32
  va_file_offset :: u32
  va_file_size :: u32
  va_path :: string

record vm =
  vm_areas :: "vm_area list option"
  vm_area_capacity :: nat
  user_ptes :: "u32 \<Rightarrow> u32"

definition areas :: "vm \<Rightarrow> vm_area list" where
  "areas v = (case vm_areas v of None \<Rightarrow> [] | Some xs \<Rightarrow> xs)"

definition page_floor :: "u32 \<Rightarrow> u32" where
  "page_floor value = value AND NOT (PAGE_SIZE - 1)"

definition file_backed :: "vm_area \<Rightarrow> bool" where
  "file_backed a \<longleftrightarrow> va_kind a = PROCESS_VM_KIND_FILE_PRIVATE \<or> va_kind a = PROCESS_VM_KIND_ELF"

definition process_vm_compatible :: "vm_area \<Rightarrow> vm_area \<Rightarrow> bool" where
  "process_vm_compatible a b \<longleftrightarrow>
     va_end a = va_start b \<and>
     va_prot a = va_prot b \<and> va_max_prot a = va_max_prot b \<and> va_kind a = va_kind b \<and> va_flags a = va_flags b \<and>
     va_file_size a = va_file_size b \<and> va_path a = va_path b \<and>
     (file_backed a \<longrightarrow>
        va_file_end a = va_file_start b \<and>
        va_file_offset a + (va_file_end a - va_file_start a) = va_file_offset b)"

fun process_vm_merge :: "vm_area list \<Rightarrow> vm_area list" where
  "process_vm_merge (cur # nxt # as) =
     (if process_vm_compatible cur nxt
      then process_vm_merge (cur\<lparr>va_end := va_end nxt, va_file_end := va_file_end nxt\<rparr> # as)
      else cur # process_vm_merge (nxt # as))"
| "process_vm_merge as = as"

section \<open>The table\<close>

definition process_vm_init :: "bool \<Rightarrow> vm \<Rightarrow> bool \<times> vm" where
  "process_vm_init alloc v =
     (if vm_areas v \<noteq> None then (True, v)
      else if \<not> alloc then (False, v)
      else (True, v\<lparr>vm_areas := Some [], vm_area_capacity := PROCESS_VM_AREA_INITIAL\<rparr>))"

definition process_vm_free :: "vm \<Rightarrow> vm" where
  "process_vm_free v = v\<lparr>vm_areas := None, vm_area_capacity := 0\<rparr>"

definition process_vm_clear :: "bool \<Rightarrow> vm \<Rightarrow> vm" where
  "process_vm_clear alloc v =
     (case process_vm_init alloc v of (False, v) \<Rightarrow> v | (True, v) \<Rightarrow> v\<lparr>vm_areas := Some []\<rparr>)"

text \<open>The capacity is not zero when the doubling loop runs.\<close>

function grow_capacity :: "nat \<Rightarrow> nat \<Rightarrow> nat" where
  "grow_capacity cap needed =
     (if cap = 0 \<or> \<not> cap < needed then cap
      else if cap * 2 > PROCESS_VM_AREA_MAX then PROCESS_VM_AREA_MAX
      else grow_capacity (cap * 2) needed)"
  by pat_completeness auto
termination
  by (relation "measure (\<lambda>(cap, needed). needed - cap)") auto

declare grow_capacity.simps [simp del]

definition process_vm_ensure_capacity :: "bool \<Rightarrow> vm \<Rightarrow> nat \<Rightarrow> bool \<times> vm" where
  "process_vm_ensure_capacity alloc v needed =
     (case process_vm_init alloc v of
        (False, v) \<Rightarrow> (False, v)
      | (True, v) \<Rightarrow>
          if needed \<le> vm_area_capacity v then (True, v)
          else if needed > PROCESS_VM_AREA_MAX then (False, v)
          else
            let cap = grow_capacity (if vm_area_capacity v \<noteq> 0 then vm_area_capacity v else PROCESS_VM_AREA_INITIAL) needed
            in if cap < needed \<or> \<not> alloc then (False, v) else (True, v\<lparr>vm_area_capacity := cap\<rparr>))"

definition process_vm_clone :: "bool \<Rightarrow> vm \<Rightarrow> vm \<Rightarrow> bool \<times> vm" where
  "process_vm_clone alloc dst src =
     (case process_vm_init alloc dst of
        (False, dst) \<Rightarrow> (False, dst)
      | (True, dst) \<Rightarrow>
          (case process_vm_ensure_capacity alloc dst (vm_area_capacity src) of
             (False, dst) \<Rightarrow> (False, dst)
           | (True, dst) \<Rightarrow> (True, dst\<lparr>vm_areas := Some (areas src)\<rparr>)))"

definition covers :: "vm_area \<Rightarrow> u32 \<Rightarrow> bool" where
  "covers a addr \<longleftrightarrow> addr \<ge> va_start a \<and> addr < va_end a"

definition process_vm_find_index :: "vm \<Rightarrow> u32 \<Rightarrow> nat option" where
  "process_vm_find_index v addr = List.find (\<lambda>i. covers (areas v ! i) addr) [0..<length (areas v)]"

definition process_vm_lookup :: "vm \<Rightarrow> u32 \<Rightarrow> vm_area option" where
  "process_vm_lookup v addr = map_option (\<lambda>i. areas v ! i) (process_vm_find_index v addr)"

definition process_vm_insert_area :: "bool \<Rightarrow> vm \<Rightarrow> vm_area \<Rightarrow> bool \<Rightarrow> bool \<times> vm" where
  "process_vm_insert_area alloc v area merge =
     (if va_start area \<ge> va_end area then (False, v)
      else
        case process_vm_ensure_capacity alloc v (length (areas v) + 1) of
          (False, v) \<Rightarrow> (False, v)
        | (True, v) \<Rightarrow>
            let as = areas v;
                pos = length (takeWhile (\<lambda>a. va_start a < va_start area) as)
            in if pos > 0 \<and> va_end (as ! (pos - 1)) > va_start area then (False, v)
               else if pos < length as \<and> va_end area > va_start (as ! pos) then (False, v)
               else
                 let as = take pos as @ area # drop pos as
                 in (True, v\<lparr>vm_areas := Some (if merge then process_vm_merge as else as)\<rparr>))"

definition process_vm_range_free :: "vm \<Rightarrow> u32 \<Rightarrow> u32 \<Rightarrow> bool" where
  "process_vm_range_free v start end_addr \<longleftrightarrow>
     start < end_addr \<and> (\<forall>a\<in>set (areas v). \<not> (start < va_end a \<and> end_addr > va_start a))"

definition process_vm_add ::
  "bool \<Rightarrow> vm \<Rightarrow> u32 \<Rightarrow> u32 \<Rightarrow> u32 \<Rightarrow> u32 \<Rightarrow> u32 \<Rightarrow> u32 \<Rightarrow> string option \<Rightarrow> u32 \<Rightarrow> u32 \<Rightarrow> u32 \<Rightarrow> u32 \<Rightarrow> bool \<times> vm" where
  "process_vm_add alloc v start end_addr prot max_prot kind flags path file_start file_end file_offset file_size =
     (if start AND (PAGE_SIZE - 1) \<noteq> 0 \<or> end_addr AND (PAGE_SIZE - 1) \<noteq> 0 then (False, v)
      else if start < USER_CODE_BASE \<or> end_addr > USER_STACK_TOP \<or> start \<ge> end_addr then (False, v)
      else if prot AND NOT max_prot \<noteq> 0 then (False, v)
      else if max_prot AND NOT (PROCESS_VM_PROT_READ OR PROCESS_VM_PROT_WRITE OR PROCESS_VM_PROT_EXEC) \<noteq> 0 then (False, v)
      else if \<not> process_vm_range_free v start end_addr then (False, v)
      else
        process_vm_insert_area alloc v
          \<lparr>va_start = start, va_end = end_addr, va_prot = prot, va_max_prot = max_prot, va_kind = kind, va_flags = flags,
           va_file_start = file_start, va_file_end = file_end, va_file_offset = file_offset, va_file_size = file_size,
           va_path = (case path of None \<Rightarrow> [] | Some p \<Rightarrow> take (PROCESS_FD_NAME_MAX - 1) p)\<rparr> True)"

section \<open>Page table entries\<close>

definition user_page_present :: "(u32 \<Rightarrow> u32) \<Rightarrow> u32 \<Rightarrow> bool" where
  "user_page_present ptes page \<longleftrightarrow> ptes page AND (PAGE_PRESENT OR PAGE_USER) = PAGE_PRESENT OR PAGE_USER"

definition user_page_set_flags :: "(u32 \<Rightarrow> u32) \<Rightarrow> u32 \<Rightarrow> u32 \<Rightarrow> u32 \<Rightarrow> u32 \<Rightarrow> u32" where
  "user_page_set_flags ptes page clear_flags set_flags =
     (if user_page_present ptes page
      then ptes(page := (ptes page AND NOT clear_flags) OR set_flags OR PAGE_PRESENT OR PAGE_USER) else ptes)"

definition user_page_unmap :: "(u32 \<Rightarrow> u32) \<Rightarrow> u32 \<Rightarrow> u32 \<Rightarrow> u32" where
  "user_page_unmap ptes page = (if ptes page AND PAGE_PRESENT \<noteq> 0 then ptes(page := 0) else ptes)"

section \<open>Splitting and removing\<close>

definition split_right :: "vm_area \<Rightarrow> u32 \<Rightarrow> vm_area" where
  "split_right a addr =
     (let r = a\<lparr>va_start := addr\<rparr>
      in if file_backed a then
           if va_file_start a < addr \<and> va_file_end a > addr
           then r\<lparr>va_file_offset := va_file_offset a + (addr - va_start a), va_file_start := addr\<rparr>
           else if va_file_end a \<le> addr then r\<lparr>va_file_start := addr, va_file_end := addr\<rparr>
           else r
         else r)"

definition split_left :: "vm_area \<Rightarrow> u32 \<Rightarrow> vm_area" where
  "split_left a addr =
     (let l = a\<lparr>va_end := addr\<rparr>
      in if file_backed a \<and> va_file_end a > addr then l\<lparr>va_file_end := addr\<rparr> else l)"

definition process_vm_split_at :: "bool \<Rightarrow> vm \<Rightarrow> u32 \<Rightarrow> bool \<times> vm" where
  "process_vm_split_at alloc v addr =
     (if vm_areas v = None \<or> addr AND (PAGE_SIZE - 1) \<noteq> 0 then (False, v)
      else
        case process_vm_find_index v addr of
          None \<Rightarrow> (True, v)
        | Some idx \<Rightarrow>
            let a = areas v ! idx
            in if addr = va_start a \<or> addr = va_end a then (True, v)
               else
                 case process_vm_ensure_capacity alloc v (length (areas v) + 1) of
                   (False, v) \<Rightarrow> (False, v)
                 | (True, v) \<Rightarrow>
                     (True, v\<lparr>vm_areas := Some (take idx (areas v) @ split_left a addr # split_right a addr #
                                             drop (idx + 1) (areas v))\<rparr>))"

definition process_vm_split_needed :: "vm \<Rightarrow> u32 \<Rightarrow> bool" where
  "process_vm_split_needed v addr \<longleftrightarrow>
     vm_areas v \<noteq> None \<and> addr AND (PAGE_SIZE - 1) = 0 \<and>
     (case process_vm_lookup v addr of None \<Rightarrow> False | Some a \<Rightarrow> addr \<noteq> va_start a \<and> addr \<noteq> va_end a)"

definition process_vm_remove_range :: "bool \<Rightarrow> vm \<Rightarrow> u32 \<Rightarrow> u32 \<Rightarrow> bool \<times> vm" where
  "process_vm_remove_range alloc v start end_addr =
     (if start \<ge> end_addr then (False, v)
      else if start AND (PAGE_SIZE - 1) \<noteq> 0 \<or> end_addr AND (PAGE_SIZE - 1) \<noteq> 0 then (False, v)
      else if vm_areas v = None then (True, v)
      else
        case process_vm_split_at alloc v start of
          (False, v) \<Rightarrow> (False, v)
        | (True, v) \<Rightarrow>
            (case process_vm_split_at alloc v end_addr of
               (False, v) \<Rightarrow> (False, v)
             | (True, v) \<Rightarrow>
                 let v = v\<lparr>user_ptes := fold (\<lambda>page ptes. user_page_unmap ptes page) (page_addrs start end_addr) (user_ptes v)\<rparr>;
                     as = filter (\<lambda>a. \<not> (va_start a \<ge> start \<and> va_end a \<le> end_addr)) (areas v)
                 in (True, v\<lparr>vm_areas := Some (process_vm_merge as)\<rparr>)))"

definition process_vm_remove_range_errno :: "bool \<Rightarrow> vm \<Rightarrow> u32 \<Rightarrow> u32 \<Rightarrow> int \<times> vm" where
  "process_vm_remove_range_errno alloc v start end_addr =
     (if start \<ge> end_addr then (- EINVAL, v)
      else if start AND (PAGE_SIZE - 1) \<noteq> 0 \<or> end_addr AND (PAGE_SIZE - 1) \<noteq> 0 then (- EINVAL, v)
      else if vm_areas v = None then (0, v)
      else
        let needed = length (areas v) + (if process_vm_split_needed v start then 1 else 0)
                       + (if process_vm_split_needed v end_addr then 1 else 0)
        in case process_vm_ensure_capacity alloc v needed of
             (False, v) \<Rightarrow> (- ENOMEM, v)
           | (True, v) \<Rightarrow>
               (case process_vm_remove_range alloc v start end_addr of
                  (True, v) \<Rightarrow> (0, v) | (False, v) \<Rightarrow> (- EINVAL, v)))"

section \<open>Changing the protection\<close>

lemma lookup_covers: "process_vm_lookup v addr = Some a \<Longrightarrow> a \<in> set (areas v) \<and> covers a addr"
  by (auto simp: process_vm_lookup_def process_vm_find_index_def find_Some_iff)

function range_covered_loop :: "vm \<Rightarrow> u32 \<Rightarrow> u32 \<Rightarrow> bool" where
  "range_covered_loop v pos end_addr =
     (if pos < end_addr then
        case process_vm_lookup v pos of
          None \<Rightarrow> False
        | Some a \<Rightarrow> if va_start a > pos then False else range_covered_loop v (va_end a) end_addr
      else True)"
  by pat_completeness auto
termination
proof (relation "measure (\<lambda>(v, pos, end_addr). unat end_addr - unat pos)")
  fix v pos end_addr a
  assume "pos < end_addr" "process_vm_lookup v pos = Some a"
  then show "((v, va_end a, end_addr), (v, pos, end_addr)) \<in> measure (\<lambda>(v, pos, end_addr). unat end_addr - unat pos)"
    using lookup_covers [of v pos a] by (auto simp: covers_def word_less_nat_alt)
qed simp

declare range_covered_loop.simps [simp del]

definition process_vm_range_covered :: "vm \<Rightarrow> u32 \<Rightarrow> u32 \<Rightarrow> bool" where
  "process_vm_range_covered v start end_addr \<longleftrightarrow>
     vm_areas v \<noteq> None \<and> start < end_addr \<and> range_covered_loop v start end_addr"

definition overlaps :: "vm_area \<Rightarrow> u32 \<Rightarrow> u32 \<Rightarrow> bool" where
  "overlaps a start end_addr \<longleftrightarrow> \<not> (va_end a \<le> start \<or> va_start a \<ge> end_addr)"

definition protect_page :: "u32 \<Rightarrow> u32 \<Rightarrow> (u32 \<Rightarrow> u32) \<Rightarrow> u32 \<Rightarrow> u32" where
  "protect_page prot page ptes =
     (if \<not> user_page_present ptes page then ptes
      else if prot AND PROCESS_VM_PROT_WRITE \<noteq> 0 then
        if ptes page AND PAGE_COW = 0 \<and> ptes page AND PAGE_SHARED_RO_FILE = 0
        then user_page_set_flags ptes page 0 PAGE_WRITE else ptes
      else user_page_set_flags ptes page PAGE_WRITE 0)"

definition process_vm_protect :: "bool \<Rightarrow> vm \<Rightarrow> u32 \<Rightarrow> u32 \<Rightarrow> u32 \<Rightarrow> bool \<times> vm" where
  "process_vm_protect alloc v start end_addr prot =
     (if start \<ge> end_addr then (False, v)
      else if start AND (PAGE_SIZE - 1) \<noteq> 0 \<or> end_addr AND (PAGE_SIZE - 1) \<noteq> 0 then (False, v)
      else if prot AND NOT (PROCESS_VM_PROT_READ OR PROCESS_VM_PROT_WRITE OR PROCESS_VM_PROT_EXEC) \<noteq> 0 then (False, v)
      else if \<not> process_vm_range_covered v start end_addr then (False, v)
      else if \<exists>a\<in>set (areas v). overlaps a start end_addr \<and> prot AND NOT (va_max_prot a) \<noteq> 0 then (False, v)
      else
        case process_vm_split_at alloc v start of
          (False, v) \<Rightarrow> (False, v)
        | (True, v) \<Rightarrow>
            (case process_vm_split_at alloc v end_addr of
               (False, v) \<Rightarrow> (False, v)
             | (True, v) \<Rightarrow>
                 let pages = concat (map (\<lambda>a. page_addrs (va_start a) (va_end a))
                               (filter (\<lambda>a. overlaps a start end_addr) (areas v)));
                     as = map (\<lambda>a. if overlaps a start end_addr then a\<lparr>va_prot := prot\<rparr> else a) (areas v)
                 in (True, v\<lparr>user_ptes := fold (protect_page prot) pages (user_ptes v),
                             vm_areas := Some (process_vm_merge as)\<rparr>)))"

definition process_vm_protect_errno :: "bool \<Rightarrow> vm \<Rightarrow> u32 \<Rightarrow> u32 \<Rightarrow> u32 \<Rightarrow> int \<times> vm" where
  "process_vm_protect_errno alloc v start end_addr prot =
     (if start \<ge> end_addr then (- EINVAL, v)
      else if start AND (PAGE_SIZE - 1) \<noteq> 0 \<or> end_addr AND (PAGE_SIZE - 1) \<noteq> 0 then (- EINVAL, v)
      else if prot AND NOT (PROCESS_VM_PROT_READ OR PROCESS_VM_PROT_WRITE OR PROCESS_VM_PROT_EXEC) \<noteq> 0 then (- EINVAL, v)
      else if \<not> process_vm_range_covered v start end_addr then (- EINVAL, v)
      else
        let needed = length (areas v) + (if process_vm_split_needed v start then 1 else 0)
                       + (if process_vm_split_needed v end_addr then 1 else 0)
        in case process_vm_ensure_capacity alloc v needed of
             (False, v) \<Rightarrow> (- ENOMEM, v)
           | (True, v) \<Rightarrow>
               (case process_vm_protect alloc v start end_addr prot of
                  (True, v) \<Rightarrow> (0, v) | (False, v) \<Rightarrow> (- EINVAL, v)))"

definition process_vm_page_may_write :: "vm \<Rightarrow> u32 \<Rightarrow> bool" where
  "process_vm_page_may_write v virt \<longleftrightarrow>
     (case process_vm_lookup v (page_floor virt) of
        None \<Rightarrow> False | Some a \<Rightarrow> va_max_prot a AND PROCESS_VM_PROT_WRITE \<noteq> 0)"

section \<open>What the table says of an address\<close>

definition area_ok :: "vm_area \<Rightarrow> bool" where
  "area_ok a \<longleftrightarrow> va_start a < va_end a \<and> page_aligned (va_start a) \<and> page_aligned (va_end a) \<and>
     va_prot a AND NOT (va_max_prot a) = 0"

definition areas_ok :: "vm_area list \<Rightarrow> bool" where
  "areas_ok as \<longleftrightarrow> sorted_wrt (\<lambda>a b. va_end a \<le> va_start b) as \<and> (\<forall>a\<in>set as. area_ok a)"

definition vm_ok :: "vm \<Rightarrow> bool" where
  "vm_ok v \<longleftrightarrow> areas_ok (areas v) \<and>
     (vm_areas v \<noteq> None \<longrightarrow> length (areas v) \<le> vm_area_capacity v \<and> 0 < vm_area_capacity v \<and>
        vm_area_capacity v \<le> PROCESS_VM_AREA_MAX)"

text \<open>Protection, highest protection, kind, flags and file of an address.\<close>

datatype attributes = Attributes (at_prot: u32) (at_max_prot: u32) u32 u32 string

definition attrs :: "vm_area \<Rightarrow> attributes" where
  "attrs a = Attributes (va_prot a) (va_max_prot a) (va_kind a) (va_flags a) (va_path a)"

definition vm_view :: "vm \<Rightarrow> u32 \<Rightarrow> attributes option" where
  "vm_view v addr = map_option attrs (process_vm_lookup v addr)"

definition maps :: "vm_area list \<Rightarrow> u32 \<Rightarrow> attributes \<Rightarrow> bool" where
  "maps as addr t \<longleftrightarrow> (\<exists>a\<in>set as. covers a addr \<and> attrs a = t)"

lemma maps_simps [simp]:
  "\<not> maps [] x t" "maps (a # as) x t \<longleftrightarrow> covers a x \<and> attrs a = t \<or> maps as x t"
  "maps (as @ bs) x t \<longleftrightarrow> maps as x t \<or> maps bs x t"
  by (auto simp: maps_def)

definition above :: "u32 \<Rightarrow> vm_area list \<Rightarrow> bool" where
  "above c as \<longleftrightarrow> (\<forall>a\<in>set as. c \<le> va_start a)"

definition below :: "vm_area list \<Rightarrow> u32 \<Rightarrow> bool" where
  "below as c \<longleftrightarrow> (\<forall>a\<in>set as. va_end a \<le> c)"

lemma above_simps [simp]:
  "above c []" "above c (a # as) \<longleftrightarrow> c \<le> va_start a \<and> above c as" "above c (as @ bs) \<longleftrightarrow> above c as \<and> above c bs"
  "below [] c" "below (a # as) c \<longleftrightarrow> va_end a \<le> c \<and> below as c" "below (as @ bs) c \<longleftrightarrow> below as c \<and> below bs c"
  by (auto simp: above_def below_def)

lemma above_mono: "above c as \<Longrightarrow> d \<le> c \<Longrightarrow> above d as"
  by (auto simp: above_def)

lemma areas_ok_simps [simp]:
  "areas_ok []" "areas_ok (a # as) \<longleftrightarrow> area_ok a \<and> above (va_end a) as \<and> areas_ok as"
  "areas_ok (as @ b # bs) \<longleftrightarrow> areas_ok as \<and> areas_ok (b # bs) \<and> below as (va_start b)"
proof -
  show "areas_ok []" "areas_ok (a # as) \<longleftrightarrow> area_ok a \<and> above (va_end a) as \<and> areas_ok as"
    by (auto simp: areas_ok_def above_def)
  have "va_end a \<le> va_start c" if "va_end a \<le> va_start b" "area_ok b" "va_end b \<le> va_start c" for a c
    using that by (meson area_ok_def less_imp_le order_trans)
  then show "areas_ok (as @ b # bs) \<longleftrightarrow> areas_ok as \<and> areas_ok (b # bs) \<and> below as (va_start b)"
    by (auto simp: areas_ok_def below_def sorted_wrt_append)
qed

lemma find_map: "List.find P (map f xs) = map_option f (List.find (\<lambda>x. P (f x)) xs)"
  by (induction xs) simp_all

lemma find_nth: "map_option (\<lambda>i. xs ! i) (List.find (\<lambda>i. P (xs ! i)) [0..<length xs]) = List.find P xs"
proof (induction xs)
  case (Cons x xs)
  have "List.find (\<lambda>i. P ((x # xs) ! i)) (map Suc [0..<length xs]) = map_option Suc (List.find (\<lambda>i. P (xs ! i)) [0..<length xs])"
    by (simp add: find_map)
  then show ?case using Cons
    by (simp add: upt_conv_Cons map_Suc_upt [symmetric] option.map_comp o_def del: upt_Suc)
qed simp

lemma lookup_find: "process_vm_lookup v addr = List.find (\<lambda>a. covers a addr) (areas v)"
  unfolding process_vm_lookup_def process_vm_find_index_def by (rule find_nth)

lemma maps_unique:
  "areas_ok as \<Longrightarrow> maps as x t \<Longrightarrow> maps as x t' \<Longrightarrow> t = t'"
proof (induction as)
  case (Cons a as)
  have "\<not> maps as x u" if "covers a x" for u
    using Cons.prems(1) that by (fastforce simp: maps_def covers_def above_def)
  then show ?case using Cons by auto
qed simp

lemma find_maps: "areas_ok as \<Longrightarrow> map_option attrs (List.find (\<lambda>a. covers a x) as) = Some t \<longleftrightarrow> maps as x t"
proof (induction as)
  case (Cons a as)
  show ?case
  proof (cases "covers a x")
    case True
    then show ?thesis using maps_unique [OF Cons.prems, of x "attrs a" t] by auto
  next
    case False
    then show ?thesis using Cons by simp
  qed
qed simp

lemma view_Some: "areas_ok (areas v) \<Longrightarrow> vm_view v x = Some t \<longleftrightarrow> maps (areas v) x t"
  unfolding vm_view_def lookup_find by (rule find_maps)

lemma view_eqI:
  assumes "areas_ok (areas v)" "\<And>t. maps (areas v) x t \<longleftrightarrow> r = Some t"
  shows "vm_view v x = r"
proof (cases r)
  case None
  then show ?thesis using assms view_Some [OF assms(1), of x] by (cases "vm_view v x") auto
next
  case (Some t)
  then show ?thesis using assms view_Some [OF assms(1), of x t] by simp
qed

section \<open>Merging\<close>

lemma merge_area:
  assumes "process_vm_compatible a b" "areas_ok (a # b # as)"
  shows "areas_ok (a\<lparr>va_end := va_end b, va_file_end := va_file_end b\<rparr> # as)"
    "maps (a\<lparr>va_end := va_end b, va_file_end := va_file_end b\<rparr> # as) x t \<longleftrightarrow> maps (a # b # as) x t"
  using assms by (auto simp: process_vm_compatible_def area_ok_def covers_def attrs_def)

definition refines_areas :: "vm_area list \<Rightarrow> vm_area list \<Rightarrow> bool" where
  "refines_areas bs as \<longleftrightarrow> areas_ok bs \<and> maps bs = maps as \<and> (\<forall>c. above c as \<longrightarrow> above c bs)"

lemma merge_spec:
  "areas_ok as \<Longrightarrow> refines_areas (process_vm_merge as) as \<and> length (process_vm_merge as) \<le> length as"
proof (induction as rule: process_vm_merge.induct)
  case (1 cur nxt as)
  show ?case
  proof (cases "process_vm_compatible cur nxt")
    case True
    let ?cur = "cur\<lparr>va_end := va_end nxt, va_file_end := va_file_end nxt\<rparr>"
    note m = merge_area [OF True "1.prems"]
    have IH: "refines_areas (process_vm_merge (?cur # as)) (?cur # as)"
      "length (process_vm_merge (?cur # as)) \<le> length (?cur # as)"
      using "1.IH"(1) [OF True m(1)] by blast+
    have "maps (?cur # as) = maps (cur # nxt # as)" using m(2) by (intro ext) simp
    then show ?thesis using True IH by (simp add: refines_areas_def)
  next
    case False
    have "refines_areas (process_vm_merge (nxt # as)) (nxt # as)"
      "length (process_vm_merge (nxt # as)) \<le> length (nxt # as)"
      using "1.IH"(2) [OF False] "1.prems" by (simp_all del: process_vm_merge.simps)
    then show ?thesis using False "1.prems" by (simp add: refines_areas_def fun_eq_iff)
  qed
qed (simp_all add: refines_areas_def)

section \<open>Room in the table\<close>

lemma grow_capacity_bound:
  "0 < cap \<Longrightarrow> cap \<le> PROCESS_VM_AREA_MAX \<Longrightarrow> cap \<le> grow_capacity cap needed \<and> grow_capacity cap needed \<le> PROCESS_VM_AREA_MAX"
proof (induction cap needed rule: grow_capacity.induct)
  case (1 cap needed)
  then show ?case by (subst (1 2) grow_capacity.simps) auto
qed

lemma init_spec:
  assumes "vm_ok v" "process_vm_init alloc v = (r, v')"
  shows "vm_ok v' \<and> areas v' = areas v \<and> user_ptes v' = user_ptes v \<and> (r \<longrightarrow> vm_areas v' \<noteq> None)"
  using assms
  by (auto simp: process_vm_init_def vm_ok_def areas_def PROCESS_VM_AREA_INITIAL_def PROCESS_VM_AREA_MAX_def split: if_splits)

lemma ensure_capacity_spec:
  assumes "vm_ok v" "process_vm_ensure_capacity alloc v needed = (r, v')"
  shows "vm_ok v' \<and> areas v' = areas v \<and> user_ptes v' = user_ptes v \<and>
    (r \<longrightarrow> needed \<le> vm_area_capacity v' \<and> vm_areas v' \<noteq> None)"
proof -
  obtain r1 v1 where v1: "process_vm_init alloc v = (r1, v1)" by fastforce
  note i = init_spec [OF assms(1) v1]
  define cap where "cap = grow_capacity (if vm_area_capacity v1 \<noteq> 0 then vm_area_capacity v1 else PROCESS_VM_AREA_INITIAL) needed"
  show ?thesis
  proof (cases "r1 \<and> \<not> needed \<le> vm_area_capacity v1 \<and> r")
    case False
    then show ?thesis using i assms(2) v1
      by (auto simp: process_vm_ensure_capacity_def Let_def split: if_splits bool.splits)
  next
    case True
    then have v': "v' = v1\<lparr>vm_area_capacity := cap\<rparr>" "needed \<le> cap"
      using assms(2) v1 by (auto simp: process_vm_ensure_capacity_def Let_def cap_def split: if_splits)
    have b: "0 < vm_area_capacity v1" "vm_area_capacity v1 \<le> PROCESS_VM_AREA_MAX" "length (areas v1) \<le> vm_area_capacity v1"
      using i True unfolding vm_ok_def by blast+
    then have "vm_area_capacity v1 \<le> cap" "cap \<le> PROCESS_VM_AREA_MAX"
      using grow_capacity_bound [of "vm_area_capacity v1" needed] by (simp_all add: cap_def)
    then show ?thesis using i v' b True by (auto simp: vm_ok_def areas_def)
  qed
qed

section \<open>Adding an area\<close>

lemma insert_ok:
  assumes "areas_ok (xs @ ys)" "area_ok a" "xs \<noteq> [] \<Longrightarrow> va_end (last xs) \<le> va_start a" "ys \<noteq> [] \<Longrightarrow> va_end a \<le> va_start (hd ys)"
  shows "areas_ok (xs @ a # ys)"
proof -
  have xs: "areas_ok xs" "areas_ok ys" using assms(1) by (auto simp: areas_ok_def sorted_wrt_append)
  have "below xs (va_start a)"
  proof (cases xs rule: rev_cases)
    case (snoc zs z)
    have "below zs (va_start z)" using xs(1) snoc by simp
    moreover have "va_start z \<le> va_start a" using assms(3) xs(1) snoc by (auto simp: area_ok_def)
    ultimately show ?thesis using assms(3) snoc by (auto simp: below_def)
  qed simp
  moreover have "above (va_end a) ys"
  proof (cases ys)
    case (Cons y zs)
    have "above (va_end y) zs" "va_start y < va_end y" using xs(2) Cons by (auto simp: area_ok_def)
    moreover have "va_end a \<le> va_start y" using assms(4) Cons by simp
    ultimately show ?thesis using Cons above_mono [of "va_end y" zs "va_end a"] by simp
  qed simp
  ultimately show ?thesis using xs assms(2) by simp
qed

lemma insert_area_spec:
  assumes "vm_ok v" "area_ok area" "process_vm_insert_area alloc v area True = (r, v')"
  shows "vm_ok v' \<and> user_ptes v' = user_ptes v \<and>
    (if r then \<forall>x t. maps (areas v') x t \<longleftrightarrow> maps (areas v) x t \<or> covers area x \<and> attrs area = t else areas v' = areas v)"
proof -
  obtain r1 v1 where v1: "process_vm_ensure_capacity alloc v (length (areas v) + 1) = (r1, v1)" by fastforce
  note e = ensure_capacity_spec [OF assms(1) v1]
  have lt: "va_start area < va_end area" using assms(2) by (simp add: area_ok_def)
  define xs ys where "xs = takeWhile (\<lambda>a. va_start a < va_start area) (areas v)"
    and "ys = dropWhile (\<lambda>a. va_start a < va_start area) (areas v)"
  have xy: "xs @ ys = areas v" "take (length xs) (areas v) = xs" "drop (length xs) (areas v) = ys"
    by (simp_all add: xs_def ys_def takeWhile_eq_take [symmetric] dropWhile_eq_drop [symmetric])
  define bad where "bad \<longleftrightarrow> length xs > 0 \<and> va_end (areas v ! (length xs - 1)) > va_start area \<or>
    length xs < length (areas v) \<and> va_end area > va_start (areas v ! length xs)"
  have run: "process_vm_insert_area alloc v area True =
    (if r1 \<and> \<not> bad then (True, v1\<lparr>vm_areas := Some (process_vm_merge (xs @ area # ys))\<rparr>) else (False, v1))"
    using lt v1 e xy by (auto simp: process_vm_insert_area_def Let_def bad_def xs_def [symmetric] split: bool.splits)
  show ?thesis
  proof (cases "r1 \<and> \<not> bad")
    case False
    then show ?thesis using assms(3) run e by auto
  next
    case True
    have nth: "areas v ! (length xs - 1) = last xs" if "xs \<noteq> []"
      using that by (simp add: xy(1) [symmetric] nth_append last_conv_nth)
    have hd: "areas v ! length xs = hd ys" if "ys \<noteq> []"
      using that by (simp add: xy(1) [symmetric] nth_append hd_conv_nth)
    have len: "length xs < length (areas v)" if "ys \<noteq> []" using that xy(1) by (metis length_append length_greater_0_conv less_add_same_cancel1)
    have "areas_ok (xs @ ys)" using assms(1) xy(1) by (simp add: vm_ok_def)
    then have ok: "areas_ok (xs @ area # ys)"
      using True nth hd len by (intro insert_ok [OF _ assms(2)]) (auto simp: bad_def not_less)
    note m = merge_spec [OF this]
    have v': "v' = v1\<lparr>vm_areas := Some (process_vm_merge (xs @ area # ys))\<rparr>" and r: "r"
      using assms(3) run True by auto
    have "length (xs @ area # ys) = length (areas v) + 1" by (simp flip: xy(1))
    then have "vm_ok v'" using m e True by (simp add: vm_ok_def v' areas_def refines_areas_def)
    moreover have "maps (areas v') x t \<longleftrightarrow> maps (areas v) x t \<or> covers area x \<and> attrs area = t" for x t
      using m xy(1) [symmetric] by (auto simp: v' areas_def refines_areas_def)
    ultimately show ?thesis using e r by (simp add: v')
  qed
qed

section \<open>Splitting an area\<close>

lemma low_bits: "x AND (PAGE_SIZE - 1) = 0 \<longleftrightarrow> page_aligned x"
  by (simp add: page_aligned_def PAGE_SIZE_def)

definition straddled :: "vm_area list \<Rightarrow> u32 \<Rightarrow> bool" where
  "straddled as p \<longleftrightarrow> (\<exists>a\<in>set as. va_start a < p \<and> p < va_end a)"

lemma split_parts:
  assumes "area_ok a" "va_start a < addr" "addr < va_end a" "page_aligned addr"
  shows "area_ok (split_left a addr)" "area_ok (split_right a addr)"
    "va_start (split_left a addr) = va_start a" "va_end (split_left a addr) = addr"
    "va_start (split_right a addr) = addr" "va_end (split_right a addr) = va_end a"
    "attrs (split_left a addr) = attrs a" "attrs (split_right a addr) = attrs a"
  using assms by (simp_all add: split_left_def split_right_def Let_def area_ok_def attrs_def)

lemma split_list_spec:
  assumes "areas_ok (xs @ a # ys)" "va_start a < addr" "addr < va_end a" "page_aligned addr"
  shows "areas_ok (xs @ split_left a addr # split_right a addr # ys)"
    "maps (xs @ split_left a addr # split_right a addr # ys) = maps (xs @ a # ys)"
    "straddled (xs @ split_left a addr # split_right a addr # ys) p \<longleftrightarrow> straddled (xs @ a # ys) p \<and> p \<noteq> addr"
proof -
  have a: "area_ok a" "above (va_end a) ys" "below xs (va_start a)" "areas_ok xs" "areas_ok ys" using assms(1) by auto
  note s = split_parts [OF a(1) assms(2-4)]
  show "areas_ok (xs @ split_left a addr # split_right a addr # ys)"
    using a s assms(3) above_mono [OF a(2), of addr] by auto
  show "maps (xs @ split_left a addr # split_right a addr # ys) = maps (xs @ a # ys)"
    using s assms(2,3) by (auto simp: fun_eq_iff covers_def)
  have "\<not> (va_start b < addr \<and> addr < va_end b)" if "b \<in> set xs \<union> set ys" for b
    using that a assms(2,3) by (auto simp: above_def below_def)
  then show "straddled (xs @ split_left a addr # split_right a addr # ys) p \<longleftrightarrow> straddled (xs @ a # ys) p \<and> p \<noteq> addr"
    using s assms(2,3) by (auto simp: straddled_def)
qed

definition same_view :: "vm \<Rightarrow> vm \<Rightarrow> bool" where
  "same_view v' v \<longleftrightarrow> vm_ok v' \<and> maps (areas v') = maps (areas v) \<and> user_ptes v' = user_ptes v"

lemma same_view_view: "same_view v' v \<Longrightarrow> vm_ok v \<Longrightarrow> vm_view v' x = vm_view v x"
  by (rule view_eqI) (simp_all add: same_view_def vm_ok_def view_Some)

lemma same_view_trans: "same_view v2 v1 \<Longrightarrow> same_view v1 v \<Longrightarrow> same_view v2 v"
  by (simp add: same_view_def)

lemma split_stored:
  assumes "vm_ok v" "areas v = xs @ a # ys" "length (areas v) + 1 \<le> vm_area_capacity v" "vm_areas v \<noteq> None"
    "va_start a < addr" "addr < va_end a" "page_aligned addr"
    "v' = v\<lparr>vm_areas := Some (xs @ split_left a addr # split_right a addr # ys)\<rparr>"
  shows "same_view v' v" "straddled (areas v') p \<longleftrightarrow> straddled (areas v) p \<and> p \<noteq> addr" "vm_areas v' \<noteq> None"
proof -
  have "areas_ok (xs @ a # ys)" using assms(1,2) by (simp add: vm_ok_def)
  note sp = split_list_spec [OF this assms(5-7)]
  have v': "areas v' = xs @ split_left a addr # split_right a addr # ys" by (simp add: assms(8) areas_def)
  have "vm_ok v'" using assms(1-4) sp(1) by (auto simp: vm_ok_def v') (simp_all add: assms(8))
  then show "same_view v' v" using sp(2) v' assms(2) by (simp add: same_view_def) (simp add: assms(8))
  show "straddled (areas v') p \<longleftrightarrow> straddled (areas v) p \<and> p \<noteq> addr" using sp(3) v' assms(2) by simp
  show "vm_areas v' \<noteq> None" by (simp add: assms(8))
qed

lemma split_at_spec:
  assumes "vm_ok v" "process_vm_split_at alloc v addr = (r, v')"
  shows "same_view v' v \<and>
    (r \<longrightarrow> (\<forall>p. straddled (areas v') p \<longleftrightarrow> straddled (areas v) p \<and> p \<noteq> addr) \<and> page_aligned addr \<and> vm_areas v' \<noteq> None)"
proof (cases "process_vm_find_index v addr")
  case None
  then have "\<not> covers a addr" if "a \<in> set (areas v)" for a
    using that by (auto simp: process_vm_find_index_def find_None_iff in_set_conv_nth)
  then have "\<not> straddled (areas v) addr" by (auto simp: straddled_def covers_def)
  then show ?thesis using None assms
    by (auto simp: process_vm_split_at_def low_bits same_view_def split: if_splits)
next
  case (Some idx)
  then have idx: "idx < length (areas v)" "covers (areas v ! idx) addr"
    by (auto simp: process_vm_find_index_def find_Some_iff)
  define a xs ys where "a = areas v ! idx" and "xs = take idx (areas v)" and "ys = drop (Suc idx) (areas v)"
  have dec: "areas v = xs @ a # ys" using id_take_nth_drop [OF idx(1)] by (simp add: a_def xs_def ys_def)
  obtain r1 v1 where v1: "process_vm_ensure_capacity alloc v (length (areas v) + 1) = (r1, v1)" by fastforce
  note e = ensure_capacity_spec [OF assms(1) v1]
  have cov: "va_start a \<le> addr" "addr < va_end a" using idx(2) by (simp_all add: covers_def a_def)
  have ok: "areas_ok (xs @ a # ys)" using assms(1) dec by (simp add: vm_ok_def)
  consider "vm_areas v = None \<or> \<not> page_aligned addr" | "vm_areas v \<noteq> None" "page_aligned addr" "addr = va_start a"
    | "vm_areas v \<noteq> None" "page_aligned addr" "va_start a < addr" "\<not> r1"
    | "vm_areas v \<noteq> None" "page_aligned addr" "va_start a < addr" "r1"
    using cov(1) by fastforce
  then show ?thesis
  proof cases
    case 1
    then show ?thesis using assms by (auto simp: process_vm_split_at_def low_bits same_view_def)
  next
    case 2
    have "\<not> straddled (xs @ a # ys) addr"
      using ok 2(3) cov by (auto simp: straddled_def above_def below_def)
    moreover have "r \<and> v' = v" using assms(2) 2 Some by (simp add: process_vm_split_at_def low_bits Let_def a_def)
    ultimately show ?thesis using 2 assms(1) by (auto simp: same_view_def dec)
  next
    case 3
    then obtain bs where "vm_areas v = Some bs" by auto
    then have "\<not> r \<and> v' = v1" using 3 assms(2) Some v1 cov(2)
      by (simp add: process_vm_split_at_def low_bits a_def [symmetric] less_imp_neq [THEN not_sym] less_imp_neq)
    then show ?thesis using e by (simp add: same_view_def)
  next
    case 4
    then obtain bs where "vm_areas v = Some bs" by auto
    then have "r \<and> v' = v1\<lparr>vm_areas := Some (xs @ split_left a addr # split_right a addr # ys)\<rparr>"
      using 4 assms(2) Some v1 cov(2) e
      by (simp add: process_vm_split_at_def low_bits a_def [symmetric] xs_def ys_def less_imp_neq [THEN not_sym] less_imp_neq)
    then have r: "r" and v': "v' = v1\<lparr>vm_areas := Some (xs @ split_left a addr # split_right a addr # ys)\<rparr>" by auto
    have "vm_ok v1" "areas v1 = xs @ a # ys" "length (areas v1) + 1 \<le> vm_area_capacity v1" "vm_areas v1 \<noteq> None"
      using e 4(4) dec by auto
    note st = split_stored [OF this 4(3) cov(2) 4(2) v']
    have "same_view v1 v" using e by (simp add: same_view_def)
    then show ?thesis using st same_view_trans [of v' v1 v] e 4(2) by simp
  qed
qed

section \<open>Removing and protecting a range\<close>

lemma covers_range:
  assumes "a \<in> set as" "covers a x" "\<not> straddled as start" "\<not> straddled as end_addr" "start < end_addr"
  shows "va_start a \<ge> start \<and> va_end a \<le> end_addr \<longleftrightarrow> start \<le> x \<and> x < end_addr"
    "overlaps a start end_addr \<longleftrightarrow> start \<le> x \<and> x < end_addr"
proof -
  have a: "va_start a \<le> x" "x < va_end a" using assms(2) by (simp_all add: covers_def)
  have "\<not> (va_start a < start \<and> start < va_end a)" "\<not> (va_start a < end_addr \<and> end_addr < va_end a)"
    using assms(1,3,4) by (auto simp: straddled_def)
  then show "va_start a \<ge> start \<and> va_end a \<le> end_addr \<longleftrightarrow> start \<le> x \<and> x < end_addr"
    "overlaps a start end_addr \<longleftrightarrow> start \<le> x \<and> x < end_addr"
    using a assms(5) by (auto simp: overlaps_def)
qed

lemma areas_ok_filter: "areas_ok as \<Longrightarrow> areas_ok (filter P as)"
  by (auto simp: areas_ok_def sorted_wrt_filter)

lemma maps_remove:
  assumes "\<not> straddled as start" "\<not> straddled as end_addr" "start < end_addr"
  shows "maps (filter (\<lambda>a. \<not> (va_start a \<ge> start \<and> va_end a \<le> end_addr)) as) x t \<longleftrightarrow>
    maps as x t \<and> \<not> (start \<le> x \<and> x < end_addr)"
  using covers_range(1) [OF _ _ assms] by (auto simp: maps_def)

fun set_prot :: "u32 \<Rightarrow> attributes \<Rightarrow> attributes" where
  "set_prot p (Attributes prot max_prot kind flags path) = Attributes p max_prot kind flags path"

definition protected :: "u32 \<Rightarrow> u32 \<Rightarrow> u32 \<Rightarrow> vm_area list \<Rightarrow> vm_area list" where
  "protected start end_addr prot as = map (\<lambda>a. if overlaps a start end_addr then a\<lparr>va_prot := prot\<rparr> else a) as"

lemma areas_ok_protected:
  assumes "areas_ok as" "\<forall>a\<in>set as. overlaps a start end_addr \<longrightarrow> prot AND NOT (va_max_prot a) = 0"
  shows "areas_ok (protected start end_addr prot as)"
proof -
  have "sorted_wrt (\<lambda>a b. va_end a \<le> va_start b) (protected start end_addr prot as)"
    using assms(1) by (auto simp: areas_ok_def protected_def sorted_wrt_map elim!: sorted_wrt_mono_rel [rotated])
  then show ?thesis using assms by (auto simp: areas_ok_def protected_def area_ok_def)
qed

lemma maps_protected:
  assumes "\<not> straddled as start" "\<not> straddled as end_addr" "start < end_addr"
  shows "maps (protected start end_addr prot as) x t \<longleftrightarrow>
    (if start \<le> x \<and> x < end_addr then \<exists>u. maps as x u \<and> t = set_prot prot u else maps as x t)"
proof -
  define f where "f a = (if overlaps a start end_addr then a\<lparr>va_prot := prot\<rparr> else a)" for a
  have cov: "covers (f a) x = covers a x" for a by (simp add: covers_def f_def)
  have at: "attrs (f a) = (if start \<le> x \<and> x < end_addr then set_prot prot (attrs a) else attrs a)"
    if "a \<in> set as" "covers a x" for a
    using covers_range(2) [OF that assms] by (auto simp: attrs_def f_def)
  have "maps (protected start end_addr prot as) x t \<longleftrightarrow> (\<exists>a\<in>set as. covers a x \<and> attrs (f a) = t)"
    by (simp add: maps_def protected_def cov flip: f_def)
  then show ?thesis using at by (auto simp: maps_def)
qed

section \<open>The page table\<close>

lemma fold_unmap:
  "fold (\<lambda>page ptes. user_page_unmap ptes page) pages ptes x =
    (if x \<in> set pages \<and> ptes x AND PAGE_PRESENT \<noteq> 0 then 0 else ptes x)"
  by (induction pages arbitrary: ptes) (auto simp: user_page_unmap_def)

lemma fold_protect_other: "x \<notin> set pages \<Longrightarrow> fold (protect_page prot) pages ptes x = ptes x"
  by (induction pages arbitrary: ptes) (auto simp: protect_page_def user_page_set_flags_def)

lemma clear_write: "(((w :: u32) AND NOT PAGE_WRITE) OR 0 OR PAGE_PRESENT OR PAGE_USER) AND PAGE_WRITE = 0"
  by (simp add: PAGE_WRITE_def PAGE_PRESENT_def PAGE_USER_def bit.conj_disj_distrib2 and.assoc)

lemma protect_page_readonly:
  "prot AND PROCESS_VM_PROT_WRITE = 0 \<Longrightarrow> user_page_present (protect_page prot x ptes) x \<Longrightarrow>
    protect_page prot x ptes x AND PAGE_WRITE = 0"
  using clear_write [of "ptes x"] by (auto simp: protect_page_def user_page_set_flags_def)

lemma fold_protect_readonly:
  assumes "prot AND PROCESS_VM_PROT_WRITE = 0"
  shows "x \<in> set pages \<Longrightarrow> user_page_present (fold (protect_page prot) pages ptes) x \<Longrightarrow>
    fold (protect_page prot) pages ptes x AND PAGE_WRITE = 0"
proof (induction pages rule: rev_induct)
  case (snoc p pages)
  show ?case
  proof (cases "p = x")
    case True
    then show ?thesis using snoc.prems protect_page_readonly [OF assms] by simp
  next
    case False
    have same: "protect_page prot p q x = q x" for q
      using False by (simp add: protect_page_def user_page_set_flags_def)
    then have "user_page_present (fold (protect_page prot) pages ptes) x"
      using snoc.prems(2) by (simp add: user_page_present_def)
    then show ?thesis using snoc False same by simp
  qed
qed simp

text \<open>A range that passes the coverage test has no hole.\<close>

lemma range_covered_spec:
  "range_covered_loop v pos end_addr \<Longrightarrow> pos \<le> x \<Longrightarrow> x < end_addr \<Longrightarrow> \<exists>a\<in>set (areas v). covers a x"
proof (induction v pos end_addr rule: range_covered_loop.induct)
  case (1 v pos end_addr)
  have lt: "pos < end_addr" using "1.prems"(2,3) by simp
  obtain a where a: "process_vm_lookup v pos = Some a" "\<not> va_start a > pos" "range_covered_loop v (va_end a) end_addr"
    using "1.prems"(1) lt by (subst (asm) range_covered_loop.simps) (auto split: option.splits if_splits)
  note c = lookup_covers [OF a(1)]
  show ?case
  proof (cases "x < va_end a")
    case True
    then have "covers a x" using c "1.prems"(2) by (auto simp: covers_def)
    then show ?thesis using c by blast
  next
    case False
    then show ?thesis using "1.IH" [OF lt a(1,2,3) _ "1.prems"(3)] by simp
  qed
qed

lemma set_protect_pages:
  assumes "areas_ok as" "\<not> straddled as start" "\<not> straddled as end_addr" "start < end_addr"
    "\<And>x. start \<le> x \<Longrightarrow> x < end_addr \<Longrightarrow> \<exists>a\<in>set as. covers a x"
  shows "x \<in> set (concat (map (\<lambda>a. page_addrs (va_start a) (va_end a)) (filter (\<lambda>a. overlaps a start end_addr) as))) \<longleftrightarrow>
    page_aligned x \<and> start \<le> x \<and> x < end_addr"
proof -
  have pages: "x \<in> set (page_addrs (va_start a) (va_end a)) \<longleftrightarrow> page_aligned x \<and> covers a x" if "a \<in> set as" for a
    using set_page_addrs_aligned [of "va_start a" "va_end a" x] assms(1) that by (simp add: areas_ok_def area_ok_def covers_def)
  have "x \<in> set (concat (map (\<lambda>a. page_addrs (va_start a) (va_end a)) (filter (\<lambda>a. overlaps a start end_addr) as))) \<longleftrightarrow>
    page_aligned x \<and> (\<exists>a\<in>set as. covers a x \<and> overlaps a start end_addr)"
    using pages by auto
  also have "\<dots> \<longleftrightarrow> page_aligned x \<and> start \<le> x \<and> x < end_addr"
    using covers_range(2) [OF _ _ assms(2-4)] assms(5) by blast
  finally show ?thesis .
qed

section \<open>The operations\<close>

definition add_args_valid :: "u32 \<Rightarrow> u32 \<Rightarrow> u32 \<Rightarrow> u32 \<Rightarrow> bool" where
  "add_args_valid start end_addr prot max_prot \<longleftrightarrow> page_aligned start \<and> page_aligned end_addr \<and>
     USER_CODE_BASE \<le> start \<and> end_addr \<le> USER_STACK_TOP \<and> start < end_addr \<and> prot AND NOT max_prot = 0 \<and>
     max_prot AND NOT (PROCESS_VM_PROT_READ OR PROCESS_VM_PROT_WRITE OR PROCESS_VM_PROT_EXEC) = 0"

lemma range_free_view:
  assumes "vm_ok v" "process_vm_range_free v start end_addr" "start \<le> x" "x < end_addr"
  shows "vm_view v x = None"
proof -
  have "\<not> covers a x" if "a \<in> set (areas v)" for a
    using assms(2-4) that by (auto simp: process_vm_range_free_def covers_def)
  then show ?thesis using assms(1) by (intro view_eqI) (auto simp: vm_ok_def maps_def)
qed

text \<open>
  C19: Adding an area changes the meaning of exactly its addresses. The call keeps the table sorted,
  disjoint, page aligned, within its capacity and with no protection above the highest one
  allowed. When it succeeds, its arguments were valid, no address of the range was mapped before,
  all of them have the new attributes after, and every other address keeps its own, although
  neighbours may have been merged; when it fails no address changes.
\<close>

theorem process_vm_add_correct:
  assumes "vm_ok v"
    "process_vm_add alloc v start end_addr prot max_prot kind flags path file_start file_end file_offset file_size = (ok, v')"
  shows "vm_ok v' \<and> user_ptes v' = user_ptes v \<and>
    (if ok then add_args_valid start end_addr prot max_prot \<and>
       (\<forall>x. start \<le> x \<and> x < end_addr \<longrightarrow> vm_view v x = None) \<and>
       (\<forall>x. vm_view v' x =
          (if start \<le> x \<and> x < end_addr
           then Some (Attributes prot max_prot kind flags (case path of None \<Rightarrow> [] | Some p \<Rightarrow> take (PROCESS_FD_NAME_MAX - 1) p))
           else vm_view v x))
     else \<forall>x. vm_view v' x = vm_view v x)"
proof -
  define area where "area = \<lparr>va_start = start, va_end = end_addr, va_prot = prot, va_max_prot = max_prot, va_kind = kind,
    va_flags = flags, va_file_start = file_start, va_file_end = file_end, va_file_offset = file_offset,
    va_file_size = file_size, va_path = (case path of None \<Rightarrow> [] | Some p \<Rightarrow> take (PROCESS_FD_NAME_MAX - 1) p)\<rparr>"
  have run: "(ok, v') = (if add_args_valid start end_addr prot max_prot \<and> process_vm_range_free v start end_addr
    then process_vm_insert_area alloc v area True else (False, v))"
    using assms(2) by (auto simp: process_vm_add_def add_args_valid_def low_bits area_def not_le not_less split: if_splits)
  show ?thesis
  proof (cases "add_args_valid start end_addr prot max_prot \<and> process_vm_range_free v start end_addr")
    case False
    then have "\<not> ok \<and> v' = v" using run by auto
    then show ?thesis using assms(1) by simp
  next
    case True
    then have "area_ok area" by (simp add: area_def area_ok_def add_args_valid_def)
    moreover have "process_vm_insert_area alloc v area True = (ok, v')" using run True by simp
    ultimately have i: "vm_ok v'" "user_ptes v' = user_ptes v"
      "if ok then \<forall>x t. maps (areas v') x t \<longleftrightarrow> maps (areas v) x t \<or> covers area x \<and> attrs area = t else areas v' = areas v"
      using insert_area_spec [OF assms(1)] by blast+
    have old: "vm_view v x = Some t \<longleftrightarrow> maps (areas v) x t" for x t using assms(1) by (simp add: vm_ok_def view_Some)
    have free: "vm_view v x = None" if "start \<le> x" "x < end_addr" for x
      using range_free_view [OF assms(1) _ that] True by blast
    have ok': "areas_ok (areas v')" using i(1) by (simp add: vm_ok_def)
    have "vm_view v' x = (if covers area x then Some (attrs area) else vm_view v x)" if ok for x
      using i(3) that free [of x] old [of x] by (intro view_eqI [OF ok']) (auto simp: covers_def area_def)
    moreover have "vm_view v' x = vm_view v x" if "\<not> ok" for x
      using i(3) that by (simp add: vm_view_def lookup_find)
    ultimately show ?thesis using i(1,2) free True by (simp add: covers_def area_def attrs_def)
  qed
qed

definition empty_vm :: vm where
  "empty_vm = \<lparr>vm_areas = None, vm_area_capacity = 0, user_ptes = (\<lambda>_. 0)\<rparr>"

lemma empty_vm_ok: "vm_ok empty_vm" "vm_view empty_vm x = None"
  by (simp_all add: empty_vm_def vm_ok_def areas_def vm_view_def lookup_find)

theorem process_vm_add_correct_witness:
  "fst (process_vm_add True empty_vm 0x400000 0x402000 1 3 1 0 None 0 0 0 0) \<and>
   vm_view (snd (process_vm_add True empty_vm 0x400000 0x402000 1 3 1 0 None 0 0 0 0)) 0x401234 = Some (Attributes 1 3 1 0 [])"
proof -
  have ok: "fst (process_vm_add True empty_vm 0x400000 0x402000 1 3 1 0 None 0 0 0 0)"
    by (simp add: process_vm_add_def process_vm_insert_area_def process_vm_ensure_capacity_def process_vm_init_def
          process_vm_range_free_def empty_vm_def areas_def PAGE_SIZE_def USER_CODE_BASE_def USER_STACK_TOP_def
          PROCESS_VM_PROT_READ_def PROCESS_VM_PROT_WRITE_def PROCESS_VM_PROT_EXEC_def PROCESS_VM_AREA_INITIAL_def)
  obtain v' where r: "process_vm_add True empty_vm 0x400000 0x402000 1 3 1 0 None 0 0 0 0 = (True, v')"
    using ok by (cases "process_vm_add True empty_vm 0x400000 0x402000 1 3 1 0 None 0 0 0 0") auto
  show ?thesis using process_vm_add_correct [OF empty_vm_ok(1) r] r by simp
qed

lemma area_unique:
  "areas_ok as \<Longrightarrow> a \<in> set as \<Longrightarrow> b \<in> set as \<Longrightarrow> covers a x \<Longrightarrow> covers b x \<Longrightarrow> a = b"
proof (induction as)
  case (Cons c as)
  have "\<not> covers d x" if "covers c x" "d \<in> set as" for d
    using Cons.prems(1) that by (fastforce simp: covers_def above_def)
  then show ?case using Cons by auto
qed simp

lemma split_needed_straddled:
  assumes "vm_ok v"
  shows "process_vm_split_needed v p \<longleftrightarrow> vm_areas v \<noteq> None \<and> page_aligned p \<and> straddled (areas v) p"
proof -
  have "(case process_vm_lookup v p of None \<Rightarrow> False | Some a \<Rightarrow> p \<noteq> va_start a \<and> p \<noteq> va_end a) \<longleftrightarrow> straddled (areas v) p"
  proof (cases "process_vm_lookup v p")
    case None
    then have "\<forall>a\<in>set (areas v). \<not> covers a p" by (auto simp: lookup_find find_None_iff)
    then show ?thesis using None by (auto simp: straddled_def covers_def)
  next
    case (Some a)
    note c = lookup_covers [OF Some]
    have "b = a" if "b \<in> set (areas v)" "va_start b < p" "p < va_end b" for b
      using area_unique [of "areas v" b a p] that c assms by (auto simp: vm_ok_def covers_def)
    then have "straddled (areas v) p \<longleftrightarrow> va_start a < p \<and> p < va_end a" using c unfolding straddled_def by blast
    then show ?thesis using Some c by (auto simp: covers_def)
  qed
  then show ?thesis by (auto simp: process_vm_split_needed_def low_bits)
qed

lemma ensure_room: "vm_areas v \<noteq> None \<Longrightarrow> n \<le> vm_area_capacity v \<Longrightarrow> process_vm_ensure_capacity alloc v n = (True, v)"
  by (simp add: process_vm_ensure_capacity_def process_vm_init_def)

lemma split_at_room:
  assumes "vm_areas v \<noteq> None" "page_aligned addr"
    "process_vm_split_needed v addr \<Longrightarrow> length (areas v) + 1 \<le> vm_area_capacity v"
  shows "\<exists>v'. process_vm_split_at alloc v addr = (True, v') \<and> vm_area_capacity v' = vm_area_capacity v \<and>
    length (areas v') = length (areas v) + (if process_vm_split_needed v addr then 1 else 0)"
proof (cases "process_vm_find_index v addr")
  case None
  then show ?thesis using assms
    by (auto simp: process_vm_split_at_def process_vm_split_needed_def process_vm_lookup_def low_bits)
next
  case (Some idx)
  then have idx: "idx < length (areas v)" by (auto simp: process_vm_find_index_def find_Some_iff)
  let ?a = "areas v ! idx"
  have n: "process_vm_split_needed v addr \<longleftrightarrow> addr \<noteq> va_start ?a \<and> addr \<noteq> va_end ?a"
    using assms(1,2) Some by (simp add: process_vm_split_needed_def process_vm_lookup_def low_bits)
  obtain as where as: "vm_areas v = Some as" using assms(1) by auto
  show ?thesis
  proof (cases "process_vm_split_needed v addr")
    case True
    then show ?thesis using n assms as Some idx ensure_room [OF assms(1) assms(3) [OF True], of alloc]
      by (simp add: process_vm_split_at_def low_bits Let_def) (simp add: areas_def)
  next
    case False
    then show ?thesis using n as assms(2) Some by (simp add: process_vm_split_at_def low_bits Let_def)
  qed
qed

text \<open>With room for both splits, both succeed; together they leave the view of the memory as it is.\<close>

lemma split_both:
  assumes "vm_ok v" "process_vm_split_at alloc v start = (True, v1)" "process_vm_split_at alloc v1 end_addr = (r, v2)"
  shows "same_view v2 v" "r \<Longrightarrow> \<not> straddled (areas v2) start \<and> \<not> straddled (areas v2) end_addr \<and> vm_areas v2 \<noteq> None"
proof -
  note s1 = split_at_spec [OF assms(1,2)]
  then have "vm_ok v1" by (simp add: same_view_def)
  note s2 = split_at_spec [OF this assms(3)]
  show "same_view v2 v" using s1 s2 same_view_trans by blast
  show "\<not> straddled (areas v2) start \<and> \<not> straddled (areas v2) end_addr \<and> vm_areas v2 \<noteq> None" if r
    using s1 s2 that by blast
qed

lemma split_both_room:
  assumes "vm_ok v" "vm_areas v \<noteq> None" "page_aligned start" "page_aligned end_addr" "start < end_addr"
    "length (areas v) + (if process_vm_split_needed v start then 1 else 0)
       + (if process_vm_split_needed v end_addr then 1 else 0) \<le> vm_area_capacity v"
  obtains v1 v2 where "process_vm_split_at alloc v start = (True, v1)" "process_vm_split_at alloc v1 end_addr = (True, v2)"
proof -
  obtain v1 where v1: "process_vm_split_at alloc v start = (True, v1)" "vm_area_capacity v1 = vm_area_capacity v"
    "length (areas v1) = length (areas v) + (if process_vm_split_needed v start then 1 else 0)"
    using split_at_room [OF assms(2,3)] assms(6) by (auto split: if_splits)
  note s = split_at_spec [OF assms(1) v1(1)]
  have "process_vm_split_needed v1 end_addr \<Longrightarrow> process_vm_split_needed v end_addr"
    using s assms(1,2,4) by (simp add: split_needed_straddled same_view_def)
  then have "process_vm_split_needed v1 end_addr \<Longrightarrow> length (areas v1) + 1 \<le> vm_area_capacity v1"
    using v1(2,3) assms(6) by simp
  then obtain v2 where "process_vm_split_at alloc v1 end_addr = (True, v2)"
    using split_at_room [of v1 end_addr alloc] s assms(4) by blast
  then show thesis using that v1(1) by blast
qed

lemma remove_range_room:
  assumes "vm_ok v" "vm_areas v \<noteq> None" "page_aligned start" "page_aligned end_addr" "start < end_addr"
    "length (areas v) + (if process_vm_split_needed v start then 1 else 0)
       + (if process_vm_split_needed v end_addr then 1 else 0) \<le> vm_area_capacity v"
  shows "\<exists>v'. process_vm_remove_range alloc v start end_addr = (True, v') \<and> vm_ok v' \<and>
    (\<forall>x. vm_view v' x = (if start \<le> x \<and> x < end_addr then None else vm_view v x)) \<and>
    (\<forall>page. user_ptes v' page =
       (if page_aligned page \<and> start \<le> page \<and> page < end_addr \<and> user_ptes v page AND PAGE_PRESENT \<noteq> 0
        then 0 else user_ptes v page))"
proof -
  obtain v1 v2 where sp: "process_vm_split_at alloc v start = (True, v1)" "process_vm_split_at alloc v1 end_addr = (True, v2)"
    using split_both_room [OF assms] .
  note b = split_both [OF assms(1) sp]
  define as where "as = filter (\<lambda>a. \<not> (va_start a \<ge> start \<and> va_end a \<le> end_addr)) (areas v2)"
  define v' where "v' = v2\<lparr>user_ptes := fold (\<lambda>page ptes. user_page_unmap ptes page) (page_addrs start end_addr) (user_ptes v2),
    vm_areas := Some (process_vm_merge as)\<rparr>"
  obtain bs where bs: "vm_areas v = Some bs" using assms(2) by auto
  have run: "process_vm_remove_range alloc v start end_addr = (True, v')"
    using assms(3,4) iffD2 [OF not_le assms(5)] bs sp by (simp add: process_vm_remove_range_def low_bits Let_def v'_def as_def areas_def)
  have ok2: "vm_ok v2" "maps (areas v2) = maps (areas v)" "user_ptes v2 = user_ptes v" using b(1) by (simp_all add: same_view_def)
  then have ok: "areas_ok as" by (simp add: as_def vm_ok_def areas_ok_filter)
  note m = merge_spec [OF this]
  have v': "areas v' = process_vm_merge as" "vm_area_capacity v' = vm_area_capacity v2" by (simp_all add: v'_def areas_def)
  have "length as \<le> length (areas v2)" by (simp add: as_def)
  then have "vm_ok v'" using ok2(1) m v' b(2) by (auto simp: vm_ok_def refines_areas_def)
  moreover have "vm_view v' x = (if start \<le> x \<and> x < end_addr then None else vm_view v x)" for x
  proof (rule view_eqI)
    show "areas_ok (areas v')" using m v' by (simp add: refines_areas_def)
    have "maps (areas v') = maps as" using m v' by (simp add: refines_areas_def)
    then show "maps (areas v') x t \<longleftrightarrow> (if start \<le> x \<and> x < end_addr then None else vm_view v x) = Some t" for t
      using maps_remove [of "areas v2" start end_addr x t] b(2) assms(1,5) ok2(2) by (auto simp: as_def vm_ok_def view_Some)
  qed
  moreover have "user_ptes v' page =
       (if page_aligned page \<and> start \<le> page \<and> page < end_addr \<and> user_ptes v page AND PAGE_PRESENT \<noteq> 0
        then 0 else user_ptes v page)" for page
    using set_page_addrs_aligned [OF assms(3,4), of page] ok2(3) by (simp add: v'_def fold_unmap)
  ultimately show ?thesis using run by blast
qed

text \<open>
  C17: \<^verbatim>\<open>munmap\<close> is all or nothing. When the call succeeds, exactly the addresses of the range are
  unmapped, in the table and in the page table, and every other address keeps its attributes; when
  it fails nothing changes for any address. It fails only for an empty or unaligned range or for
  lack of memory, and the table stays well formed in every case.
\<close>

theorem process_vm_remove_range_correct:
  assumes "vm_ok v" "process_vm_remove_range_errno alloc v start end_addr = (rc, v')"
  shows "vm_ok v' \<and>
    (if rc = 0
     then (\<forall>x. vm_view v' x = (if start \<le> x \<and> x < end_addr then None else vm_view v x)) \<and>
       (vm_areas v \<noteq> None \<longrightarrow> (\<forall>page. user_ptes v' page =
          (if page_aligned page \<and> start \<le> page \<and> page < end_addr \<and> user_ptes v page AND PAGE_PRESENT \<noteq> 0
           then 0 else user_ptes v page)))
     else (\<forall>x. vm_view v' x = vm_view v x) \<and> user_ptes v' = user_ptes v \<and>
       rc = (if start < end_addr \<and> page_aligned start \<and> page_aligned end_addr then - ENOMEM else - EINVAL))"
proof -
  define needed where "needed = length (areas v) + (if process_vm_split_needed v start then 1 else 0)
    + (if process_vm_split_needed v end_addr then 1 else 0)"
  obtain r v1 where v1: "process_vm_ensure_capacity alloc v needed = (r, v1)" by fastforce
  note e = ensure_capacity_spec [OF assms(1) v1]
  have sv: "same_view v1 v" using e by (simp add: same_view_def)
  consider "\<not> (start < end_addr \<and> page_aligned start \<and> page_aligned end_addr)"
    | "start < end_addr" "page_aligned start" "page_aligned end_addr" "vm_areas v = None"
    | "start < end_addr" "page_aligned start" "page_aligned end_addr" "vm_areas v \<noteq> None" by blast
  then show ?thesis
  proof cases
    case 1
    then have "rc = - EINVAL \<and> v' = v"
      using assms(2) by (auto simp: process_vm_remove_range_errno_def low_bits not_less split: if_splits)
    then show ?thesis using 1 assms(1) by (auto simp: EINVAL_def)
  next
    case 2
    then have "rc = 0 \<and> v' = v" using assms(2) iffD2 [OF not_le 2(1)] by (simp add: process_vm_remove_range_errno_def low_bits)
    moreover have "vm_view v x = None" for x using 2(4) by (simp add: vm_view_def lookup_find areas_def)
    ultimately show ?thesis using assms(1) 2(4) by simp
  next
    case 3
    then obtain bs where bs: "vm_areas v = Some bs" by auto
    have run: "(rc, v') = (if r then (case process_vm_remove_range alloc v1 start end_addr of (True, v) \<Rightarrow> (0, v) | (False, v) \<Rightarrow> (- EINVAL, v))
        else (- ENOMEM, v1))"
      using assms(2) 3(2,3) iffD2 [OF not_le 3(1)] bs v1
      by (simp add: process_vm_remove_range_errno_def low_bits Let_def needed_def split: bool.splits)
    show ?thesis
    proof (cases r)
      case False
      then show ?thesis using run 3(1-3) e same_view_view [OF sv assms(1)] by (simp add: ENOMEM_def)
    next
      case True
      have "process_vm_split_needed v1 p = process_vm_split_needed v p" for p
        using e True 3(4) assms(1) by (simp add: split_needed_straddled)
      then have "\<exists>v'. process_vm_remove_range alloc v1 start end_addr = (True, v') \<and> vm_ok v' \<and>
        (\<forall>x. vm_view v' x = (if start \<le> x \<and> x < end_addr then None else vm_view v1 x)) \<and>
        (\<forall>page. user_ptes v' page =
           (if page_aligned page \<and> start \<le> page \<and> page < end_addr \<and> user_ptes v1 page AND PAGE_PRESENT \<noteq> 0
            then 0 else user_ptes v1 page))"
        using e True 3(1-3) by (intro remove_range_room) (simp_all add: needed_def)
      then show ?thesis using run True same_view_view [OF sv assms(1)] e by auto
    qed
  qed
qed

definition one_area :: vm where
  "one_area = \<lparr>vm_areas = Some [\<lparr>va_start = 0x400000, va_end = 0x404000, va_prot = 3, va_max_prot = 3, va_kind = 1, va_flags = 0,
     va_file_start = 0, va_file_end = 0, va_file_offset = 0, va_file_size = 0, va_path = []\<rparr>],
     vm_area_capacity = 32, user_ptes = (\<lambda>_. 0x5007)\<rparr>"

lemma one_area_ok: "vm_ok one_area" "vm_view one_area 0x400000 = Some (Attributes 3 3 1 0 [])"
  by (simp_all add: one_area_def vm_ok_def areas_def area_ok_def page_aligned_def PROCESS_VM_AREA_MAX_def vm_view_def
        lookup_find covers_def attrs_def)

theorem process_vm_remove_range_correct_witness:
  "\<exists>v'. process_vm_remove_range_errno False one_area 0x401000 0x402000 = (0, v') \<and> vm_ok v' \<and>
     vm_view v' 0x401000 = None \<and> vm_view v' 0x400000 = Some (Attributes 3 3 1 0 [])"
proof -
  obtain rc v' where r: "process_vm_remove_range_errno False one_area 0x401000 0x402000 = (rc, v')" by fastforce
  have "rc \<noteq> - ENOMEM"
    using r by (auto simp: process_vm_remove_range_errno_def one_area_def PAGE_SIZE_def ensure_room areas_def EINVAL_def ENOMEM_def
        Let_def split: bool.splits prod.splits)
  then have "rc = 0" using process_vm_remove_range_correct [OF one_area_ok(1) r] by (auto simp: page_aligned_def split: if_splits)
  then show ?thesis using process_vm_remove_range_correct [OF one_area_ok(1) r] r one_area_ok(2) by simp
qed

lemma prot_allowed:
  assumes "vm_ok v" "\<forall>a\<in>set (areas v). overlaps a start end_addr \<longrightarrow> prot AND NOT (va_max_prot a) = 0"
    "maps (areas v) x t" "start \<le> x" "x < end_addr"
  shows "prot AND NOT (at_max_prot t) = 0"
proof -
  obtain a where "a \<in> set (areas v)" "covers a x" "attrs a = t" using assms(3) by (auto simp: maps_def)
  moreover have "overlaps a start end_addr" using \<open>covers a x\<close> assms(4,5) by (auto simp: overlaps_def covers_def)
  ultimately show ?thesis using assms(2) by (auto simp: attrs_def)
qed

lemma protect_spec:
  assumes "vm_ok v" "start < end_addr" "\<And>x. start \<le> x \<Longrightarrow> x < end_addr \<Longrightarrow> \<exists>a\<in>set (areas v). covers a x"
    "\<forall>a\<in>set (areas v). overlaps a start end_addr \<longrightarrow> prot AND NOT (va_max_prot a) = 0"
    "same_view v2 v" "\<not> straddled (areas v2) start \<and> \<not> straddled (areas v2) end_addr \<and> vm_areas v2 \<noteq> None"
    "pages = concat (map (\<lambda>a. page_addrs (va_start a) (va_end a)) (filter (\<lambda>a. overlaps a start end_addr) (areas v2)))"
    "v' = v2\<lparr>user_ptes := fold (protect_page prot) pages (user_ptes v2),
       vm_areas := Some (process_vm_merge (protected start end_addr prot (areas v2)))\<rparr>"
  shows "vm_ok v'" "vm_view v' x = (if start \<le> x \<and> x < end_addr then map_option (set_prot prot) (vm_view v x) else vm_view v x)"
    "x \<in> set pages \<longleftrightarrow> page_aligned x \<and> start \<le> x \<and> x < end_addr"
proof -
  have ok2: "vm_ok v2" "areas_ok (areas v2)" "maps (areas v2) = maps (areas v)" "user_ptes v2 = user_ptes v"
    using assms(5) by (simp_all add: same_view_def vm_ok_def)
  have cov: "\<exists>a\<in>set (areas v2). covers a x" if "start \<le> x" "x < end_addr" for x
    using assms(3) [OF that] ok2(3) by (metis maps_def)
  show "x \<in> set pages \<longleftrightarrow> page_aligned x \<and> start \<le> x \<and> x < end_addr"
    unfolding assms(7) using set_protect_pages [OF ok2(2) _ _ assms(2) cov] assms(6) by blast
  have allowed: "\<forall>a\<in>set (areas v2). overlaps a start end_addr \<longrightarrow> prot AND NOT (va_max_prot a) = 0"
  proof (intro ballI impI)
    fix a
    assume a: "a \<in> set (areas v2)" "overlaps a start end_addr"
    have c: "covers a (va_start a)" using a(1) ok2(2) by (simp add: areas_ok_def area_ok_def covers_def)
    then have "maps (areas v) (va_start a) (attrs a)" using a(1) ok2(3) by (metis maps_def)
    moreover have "start \<le> va_start a" "va_start a < end_addr"
      using covers_range(2) [OF a(1) c _ _ assms(2)] assms(6) a(2) by blast+
    ultimately show "prot AND NOT (va_max_prot a) = 0" using prot_allowed [OF assms(1,4)] by (fastforce simp: attrs_def)
  qed
  note ok = areas_ok_protected [OF ok2(2) allowed]
  note m = merge_spec [OF ok]
  have v': "areas v' = process_vm_merge (protected start end_addr prot (areas v2))" "vm_area_capacity v' = vm_area_capacity v2"
    by (simp_all add: assms(8) areas_def)
  have "length (protected start end_addr prot (areas v2)) = length (areas v2)" by (simp add: protected_def)
  then show "vm_ok v'" using ok2(1) m v' assms(6) by (auto simp: vm_ok_def refines_areas_def)
  show "vm_view v' x = (if start \<le> x \<and> x < end_addr then map_option (set_prot prot) (vm_view v x) else vm_view v x)"
  proof (rule view_eqI)
    show "areas_ok (areas v')" using m v' by (simp add: refines_areas_def)
    have "maps (areas v') = maps (protected start end_addr prot (areas v2))" using m v' by (simp add: refines_areas_def)
    moreover have "vm_view v x = Some t \<longleftrightarrow> maps (areas v2) x t" for t using assms(1) ok2(3) by (simp add: vm_ok_def view_Some)
    ultimately show "maps (areas v') x t \<longleftrightarrow>
      (if start \<le> x \<and> x < end_addr then map_option (set_prot prot) (vm_view v x) else vm_view v x) = Some t" for t
      using maps_protected [of "areas v2" start end_addr prot x t] assms(2,6) by auto
  qed
qed

text \<open>
  C18: \<^verbatim>\<open>mprotect\<close> changes the protection of exactly the range it is given, and never beyond what the
  areas allow. When it succeeds, every address of the range was mapped with a highest protection
  that includes the new one and has the new protection after; all other attributes and addresses
  stay, and without write permission no page of the range is left writable in the page table. When
  it fails nothing changes for any address.
\<close>

theorem process_vm_protect_correct:
  assumes "vm_ok v" "process_vm_protect alloc v start end_addr prot = (ok, v')"
  shows "vm_ok v' \<and>
    (if ok
     then (\<forall>x. start \<le> x \<and> x < end_addr \<longrightarrow> (\<exists>t. vm_view v x = Some t \<and> prot AND NOT (at_max_prot t) = 0)) \<and>
       (\<forall>x. vm_view v' x = (if start \<le> x \<and> x < end_addr then map_option (set_prot prot) (vm_view v x) else vm_view v x)) \<and>
       (\<forall>page. \<not> (start \<le> page \<and> page < end_addr) \<longrightarrow> user_ptes v' page = user_ptes v page) \<and>
       (\<forall>page. page_aligned page \<and> start \<le> page \<and> page < end_addr \<and> prot AND PROCESS_VM_PROT_WRITE = 0 \<and>
          user_page_present (user_ptes v') page \<longrightarrow> user_ptes v' page AND PAGE_WRITE = 0)
     else (\<forall>x. vm_view v' x = vm_view v x) \<and> user_ptes v' = user_ptes v)"
proof -
  define good where "good \<longleftrightarrow> start < end_addr \<and> page_aligned start \<and> page_aligned end_addr \<and>
    prot AND NOT (PROCESS_VM_PROT_READ OR PROCESS_VM_PROT_WRITE OR PROCESS_VM_PROT_EXEC) = 0 \<and>
    process_vm_range_covered v start end_addr \<and> (\<forall>a\<in>set (areas v). overlaps a start end_addr \<longrightarrow> prot AND NOT (va_max_prot a) = 0)"
  obtain r1 v1 where v1: "process_vm_split_at alloc v start = (r1, v1)" by fastforce
  obtain r2 v2 where v2: "process_vm_split_at alloc v1 end_addr = (r2, v2)" by fastforce
  define pages where "pages = concat (map (\<lambda>a. page_addrs (va_start a) (va_end a)) (filter (\<lambda>a. overlaps a start end_addr) (areas v2)))"
  define w where "w = v2\<lparr>user_ptes := fold (protect_page prot) pages (user_ptes v2),
    vm_areas := Some (process_vm_merge (protected start end_addr prot (areas v2)))\<rparr>"
  have run: "(ok, v') = (if \<not> good then (False, v) else if \<not> r1 then (False, v1) else if \<not> r2 then (False, v2) else (True, w))"
    using assms(2) v1 v2
    by (auto simp: process_vm_protect_def good_def low_bits not_le w_def pages_def protected_def Let_def not_less split: if_splits bool.splits)
  show ?thesis
  proof (cases "good \<and> r1 \<and> r2")
    case False
    then have "\<not> ok \<and> same_view v' v"
      using run split_at_spec [OF assms(1) v1] split_both(1) [OF assms(1) _ v2] v1 assms(1)
      by (auto simp: same_view_def split: if_splits)
    then show ?thesis using same_view_view [OF _ assms(1)] by (simp add: same_view_def)
  next
    case True
    then have ok: "ok" "v' = w" using run by auto
    have g: "start < end_addr" "range_covered_loop v start end_addr"
      "\<forall>a\<in>set (areas v). overlaps a start end_addr \<longrightarrow> prot AND NOT (va_max_prot a) = 0"
      using True by (simp_all add: good_def process_vm_range_covered_def)
    have sp: "process_vm_split_at alloc v start = (True, v1)" "process_vm_split_at alloc v1 end_addr = (True, v2)"
      using v1 v2 True by simp_all
    note b = split_both [OF assms(1) sp]
    note p = protect_spec [OF assms(1) g(1) range_covered_spec [OF g(2)] g(3) b(1) b(2) [OF TrueI] pages_def w_def]
    have "\<exists>t. vm_view v x = Some t \<and> prot AND NOT (at_max_prot t) = 0" if "start \<le> x" "x < end_addr" for x
      using range_covered_spec [OF g(2) that] prot_allowed [OF assms(1) g(3) _ that] assms(1)
      by (metis maps_def view_Some vm_ok_def)
    moreover have "user_ptes w page = user_ptes v page" if "\<not> (start \<le> page \<and> page < end_addr)" for page
      using that p(3) b(1) fold_protect_other [of page pages] by (auto simp: w_def same_view_def)
    moreover have "user_ptes w page AND PAGE_WRITE = 0"
      if "page_aligned page" "start \<le> page" "page < end_addr" "prot AND PROCESS_VM_PROT_WRITE = 0" "user_page_present (user_ptes w) page" for page
      using that p(3) fold_protect_readonly [OF that(4)] by (auto simp: w_def)
    ultimately show ?thesis using ok p(1,2) by simp
  qed
qed

theorem process_vm_protect_correct_witness:
  "\<exists>v'. process_vm_protect False one_area 0x401000 0x402000 1 = (True, v') \<and>
     vm_view v' 0x401000 = Some (Attributes 1 3 1 0 []) \<and> vm_view v' 0x400000 = Some (Attributes 3 3 1 0 [])"
proof -
  obtain ok v' where r: "process_vm_protect False one_area 0x401000 0x402000 1 = (ok, v')" by fastforce
  have needed: "length (areas one_area) + (if process_vm_split_needed one_area 0x401000 then 1 else 0)
      + (if process_vm_split_needed one_area 0x402000 then 1 else 0) \<le> vm_area_capacity one_area"
    by (simp add: one_area_def areas_def)
  have "vm_areas one_area \<noteq> None" "page_aligned 0x401000" "page_aligned 0x402000" "0x401000 < (0x402000 :: u32)"
    by (simp_all add: one_area_def page_aligned_def)
  from split_both_room [OF one_area_ok(1) this needed, of False] obtain v1 v2 where
    sp: "process_vm_split_at False one_area 0x401000 = (True, v1)" "process_vm_split_at False v1 0x402000 = (True, v2)" .
  have look: "process_vm_lookup one_area 0x401000 = Some (hd (areas one_area))"
    by (simp add: lookup_find one_area_def areas_def covers_def)
  have "process_vm_range_covered one_area 0x401000 0x402000"
    unfolding process_vm_range_covered_def
    by (subst range_covered_loop.simps, simp add: look, subst range_covered_loop.simps) (simp add: one_area_def areas_def)
  moreover have "\<forall>a\<in>set (areas one_area). (1 :: u32) AND NOT (va_max_prot a) = 0" by (simp add: one_area_def areas_def)
  ultimately have ok using r sp
    by (auto simp: process_vm_protect_def PAGE_SIZE_def PROCESS_VM_PROT_READ_def PROCESS_VM_PROT_WRITE_def PROCESS_VM_PROT_EXEC_def
        Let_def split: if_splits)
  moreover have "vm_view one_area 0x401000 = Some (Attributes 3 3 1 0 [])"
    using look by (simp add: vm_view_def one_area_def areas_def attrs_def)
  ultimately show ?thesis
    using process_vm_protect_correct [OF one_area_ok(1) r] r one_area_ok(2) by simp
qed

section \<open>The file behind a split area\<close>

text \<open>The position in the file of the byte at an address, as a page fault computes it.\<close>

definition file_pos :: "vm_area \<Rightarrow> u32 \<Rightarrow> u32" where
  "file_pos a x = va_file_offset a + (x - va_file_start a)"

text \<open>
  Splitting an area inside its file contents moves the position by the distance from the start of
  the area to the start of the file contents. It is right for areas whose contents begin at their
  start, as \<^verbatim>\<open>mmap\<close> makes them, and wrong for the segments of a program that do not begin on a page.
\<close>

lemma split_moves_file:
  assumes "file_backed a" "va_file_start a < addr" "addr < va_file_end a"
  shows "file_pos (split_right a addr) x = file_pos a x + (va_file_start a - va_start a)"
  using assms by (simp add: file_pos_def split_right_def Let_def)

lemma split_keeps_file:
  assumes "va_file_start a = va_start a" "file_backed a" "va_file_start a < addr" "addr < va_file_end a"
  shows "file_pos (split_right a addr) x = file_pos a x" "file_pos (split_left a addr) x = file_pos a x"
  using assms split_moves_file [OF assms(2-4)] by (simp_all add: file_pos_def split_left_def Let_def)

end
