(* ===== verification/Paging.thy ===== *)
theory Paging
  imports Memory Frame_Pool Vm
begin

text \<open>
  Page directories and page tables (\<^verbatim>\<open>src/kernel/paging.c\<close>). Physical memory is a store from the address of
  a frame and the index of a word to that word; the kernel reaches a frame of the manager through its alias
  and any other frame through the identity map, and both are accesses to the same store. The kernel's directory is a static
  array; a process directory is the frame that holds it, 0 being the null pointer. \<open>None\<close> is
  \<^verbatim>\<open>paging_panic\<close>. Translation caches are not modelled.
\<close>

section \<open>State\<close>

definition PD_ENTRIES :: nat where "PD_ENTRIES = 1024"
definition PT_ENTRIES :: nat where "PT_ENTRIES = 1024"
definition KERNEL_PMM_MAP_BASE :: u32 where "KERNEL_PMM_MAP_BASE = 0xE0000000"
definition KERNEL_PMM_MAP_SIZE :: u32 where "KERNEL_PMM_MAP_SIZE = PMM_SIZE"
definition KERNEL_PMM_MAP_END :: u32 where "KERNEL_PMM_MAP_END = KERNEL_PMM_MAP_BASE + KERNEL_PMM_MAP_SIZE"
definition KERNEL_PMM_MAP_PD_INDEX :: nat where "KERNEL_PMM_MAP_PD_INDEX = unat (drop_bit 22 KERNEL_PMM_MAP_BASE)"
definition KERNEL_PMM_MAP_TABLES :: nat where
  "KERNEL_PMM_MAP_TABLES = unat (drop_bit 22 (KERNEL_PMM_MAP_SIZE + 0x3FFFFF))"
definition KERNEL_FB_MAP_PD_INDEX :: nat where "KERNEL_FB_MAP_PD_INDEX = unat (drop_bit 22 (0xD0000000 :: u32))"
definition KERNEL_HIGH_MMIO_PD_INDEX :: nat where "KERNEL_HIGH_MMIO_PD_INDEX = unat (drop_bit 22 (0xFE000000 :: u32))"
definition KERNEL_HIGH_MMIO_TABLES :: nat where "KERNEL_HIGH_MMIO_TABLES = 8"
definition USER_PD_FIRST_INDEX :: nat where "USER_PD_FIRST_INDEX = unat (drop_bit 22 USER_CODE_BASE)"
definition USER_PD_LIMIT_INDEX :: nat where "USER_PD_LIMIT_INDEX = unat (drop_bit 22 USER_STACK_TOP)"

type_synonym frame_words = "nat \<Rightarrow> u32"

record paging =
  kernel_page_directory :: frame_words
  phys_mem :: "u32 \<Rightarrow> frame_words"
  pg_kmem :: kmem

datatype page_directory = KernelDirectory | ProcessDirectory u32

abbreviation pg_pmm :: "paging \<Rightarrow> pmm" where
  "pg_pmm s \<equiv> kpmm (pg_kmem s)"

definition set_pmm :: "pmm \<Rightarrow> paging \<Rightarrow> paging" where
  "set_pmm p s = s\<lparr>pg_kmem := (pg_kmem s)\<lparr>kpmm := p\<rparr>\<rparr>"

definition frame_of :: "u32 \<Rightarrow> u32" where
  "frame_of e = e AND NOT 0xFFF"

definition set_word :: "u32 \<Rightarrow> nat \<Rightarrow> u32 \<Rightarrow> paging \<Rightarrow> paging" where
  "set_word frame i w s = s\<lparr>phys_mem := (phys_mem s)(frame := (phys_mem s frame)(i := w))\<rparr>"

definition set_frame :: "u32 \<Rightarrow> frame_words \<Rightarrow> paging \<Rightarrow> paging" where
  "set_frame frame ws s = s\<lparr>phys_mem := (phys_mem s)(frame := ws)\<rparr>"

section \<open>Addresses\<close>

definition paging_virt_is_pmm_alias :: "u32 \<Rightarrow> bool" where
  "paging_virt_is_pmm_alias virt \<longleftrightarrow> virt \<ge> KERNEL_PMM_MAP_BASE \<and> virt < KERNEL_PMM_MAP_END"

definition paging_phys_is_pmm_frame :: "u32 \<Rightarrow> bool" where
  "paging_phys_is_pmm_frame phys \<longleftrightarrow> phys \<ge> PMM_BASE \<and> phys < PMM_BASE + PMM_SIZE"

definition paging_phys_to_kernel_virt :: "u32 \<Rightarrow> u32 option" where
  "paging_phys_to_kernel_virt phys =
     (if \<not> paging_phys_is_pmm_frame phys then None else Some (KERNEL_PMM_MAP_BASE + (phys - PMM_BASE)))"

definition paging_kernel_virt_to_phys :: "u32 \<Rightarrow> u32 option" where
  "paging_kernel_virt_to_phys virt =
     (if \<not> paging_virt_is_pmm_alias virt then None else Some (PMM_BASE + (virt - KERNEL_PMM_MAP_BASE)))"

definition paging_pd_index_is_user :: "nat \<Rightarrow> bool" where
  "paging_pd_index_is_user index \<longleftrightarrow> index \<ge> USER_PD_FIRST_INDEX \<and> index < USER_PD_LIMIT_INDEX"

text \<open>
  \<^verbatim>\<open>paging_pd_virt\<close>: the words of a directory, and writing one; a process directory that is not a frame of the
  manager is a panic. \<^verbatim>\<open>paging_pt_virt\<close> never fails: the words of a table are \<open>phys_mem s\<close> at its frame.
\<close>

definition paging_pd_virt :: "page_directory \<Rightarrow> paging \<Rightarrow> frame_words option" where
  "paging_pd_virt dir s =
     (case dir of
        KernelDirectory \<Rightarrow> Some (kernel_page_directory s)
      | ProcessDirectory frame \<Rightarrow>
          map_option (\<lambda>_. phys_mem s frame) (paging_phys_to_kernel_virt frame))"

definition set_pde :: "page_directory \<Rightarrow> nat \<Rightarrow> u32 \<Rightarrow> paging \<Rightarrow> paging" where
  "set_pde dir i e s =
     (case dir of
        KernelDirectory \<Rightarrow> s\<lparr>kernel_page_directory := (kernel_page_directory s)(i := e)\<rparr>
      | ProcessDirectory frame \<Rightarrow> set_word frame i e s)"

definition pd_index_of :: "u32 \<Rightarrow> nat" where
  "pd_index_of virt = unat (drop_bit 22 virt)"

definition pt_index_of :: "u32 \<Rightarrow> nat" where
  "pt_index_of virt = unat (drop_bit 12 virt AND 0x3FF)"

abbreviation user_present :: "u32 \<Rightarrow> bool" where
  "user_present e \<equiv> e AND (PAGE_PRESENT OR PAGE_USER) = PAGE_PRESENT OR PAGE_USER"

section \<open>Mapping\<close>

text \<open>The page table for an index of a directory, a new one when there is none.\<close>

definition page_table_for :: "page_directory \<Rightarrow> nat \<Rightarrow> paging \<Rightarrow> (u32 \<times> paging) option" where
  "page_table_for dir pd_index s =
     (case paging_pd_virt dir s of
        None \<Rightarrow> None
      | Some pd_virt \<Rightarrow>
          if pd_virt pd_index AND PAGE_PRESENT \<noteq> 0 then Some (frame_of (pd_virt pd_index), s)
          else
            (case dir of
               KernelDirectory \<Rightarrow>
                 (let (pt, m) = kmalloc_page (pg_kmem s) in
                  if pt = 0 then None
                  else Some (pt, set_pde dir pd_index (pt OR PAGE_PRESENT OR PAGE_WRITE OR PAGE_USER)
                         (set_frame pt (\<lambda>_. 0) (s\<lparr>pg_kmem := m\<rparr>))))
             | ProcessDirectory frame \<Rightarrow>
                 (let (pt, p) = pmm_alloc_frame (pg_pmm s) in
                  if pt = 0 then None
                  else map_option (\<lambda>_. (pt, set_pde dir pd_index (pt OR PAGE_PRESENT OR PAGE_WRITE OR PAGE_USER)
                         (set_frame pt (\<lambda>_. 0) (set_pmm p s)))) (paging_phys_to_kernel_virt pt))))"

definition paging_map_page :: "page_directory \<Rightarrow> u32 \<Rightarrow> u32 \<Rightarrow> u32 \<Rightarrow> paging \<Rightarrow> paging option" where
  "paging_map_page dir virt phys flags s =
     (let pd_index = pd_index_of virt;
          pt_index = pt_index_of virt;
          flags = flags OR PAGE_PRESENT
      in case page_table_for dir pd_index s of
           None \<Rightarrow> None
         | Some (pt, s) \<Rightarrow>
             let s = (if dir \<noteq> KernelDirectory \<and> user_present (phys_mem s pt pt_index) \<and>
                         paging_phys_is_pmm_frame (frame_of (phys_mem s pt pt_index))
                      then set_pmm (pmm_free_frame (pg_pmm s) (frame_of (phys_mem s pt pt_index))) s else s)
             in Some (set_word pt pt_index (frame_of phys OR flags) s))"

definition paging_map_kernel_range :: "u32 \<Rightarrow> u32 \<Rightarrow> u32 \<Rightarrow> u32 \<Rightarrow> paging \<Rightarrow> paging option" where
  "paging_map_kernel_range virt phys sz flags s =
     (if sz = 0 then Some s
      else
        let virt_start = virt AND NOT (PAGE_SIZE - 1);
            phys_start = phys AND NOT (PAGE_SIZE - 1);
            offset = virt - virt_start;
            tot = (sz + offset + PAGE_SIZE - 1) AND NOT (PAGE_SIZE - 1)
        in fold (\<lambda>mapped s. case s of None \<Rightarrow> None
                  | Some s \<Rightarrow> paging_map_page KernelDirectory (virt_start + mapped) (phys_start + mapped) flags s)
             (page_addrs 0 tot) (Some s))"

section \<open>Directories of processes\<close>

definition process_pd_create :: "paging \<Rightarrow> (u32 \<times> paging) option" where
  "process_pd_create s =
     (let (frame, p) = pmm_alloc_frame (pg_pmm s) in
      if frame = 0 then None
      else
        map_option (\<lambda>_. (frame, set_frame frame
            (\<lambda>i. if i < PD_ENTRIES \<and> \<not> paging_pd_index_is_user i then kernel_page_directory s i else 0)
            (set_pmm p s)))
          (paging_phys_to_kernel_virt frame))"

definition user_pd_indices :: "nat list" where
  "user_pd_indices = [USER_PD_FIRST_INDEX..<USER_PD_LIMIT_INDEX]"

text \<open>Freeing the user frames one table maps, then the table, then clearing its entry.\<close>

definition destroy_frames :: "frame_words \<Rightarrow> pmm \<Rightarrow> pmm" where
  "destroy_frames pt p =
     fold (\<lambda>j p. if user_present (pt j) \<and> paging_phys_is_pmm_frame (frame_of (pt j))
                 then pmm_free_frame p (frame_of (pt j)) else p) [0..<PT_ENTRIES] p"

definition destroy_table :: "u32 \<Rightarrow> nat \<Rightarrow> paging \<Rightarrow> paging" where
  "destroy_table frame i s =
     (let pde = phys_mem s frame i in
      if pde = kernel_page_directory s i \<or> pde AND PAGE_PRESENT = 0 then s
      else
        let pt_phys = frame_of pde;
            p = destroy_frames (phys_mem s pt_phys) (pg_pmm s);
            p = pmm_free_frame p pt_phys
        in set_word frame i 0 (set_pmm p s))"

definition process_pd_destroy :: "u32 \<Rightarrow> paging \<Rightarrow> paging option" where
  "process_pd_destroy frame s =
     (if frame = 0 then Some s
      else
        map_option (\<lambda>_.
          let s = fold (destroy_table frame) user_pd_indices s
          in set_pmm (pmm_free_frame (pg_pmm s) frame) s)
          (paging_phys_to_kernel_virt frame))"

definition process_pd_count_private_frames :: "u32 \<Rightarrow> paging \<Rightarrow> u32 option" where
  "process_pd_count_private_frames frame s =
     (if frame = 0 then Some 0
      else
        map_option (\<lambda>_.
          fold (\<lambda>i n.
              let pde = phys_mem s frame i in
              if pde = kernel_page_directory s i \<or> pde AND PAGE_PRESENT = 0 then n
              else fold (\<lambda>j n.
                       let pte = phys_mem s (frame_of pde) j in
                       if user_present pte \<and> paging_phys_is_pmm_frame (frame_of pte) \<and>
                          pmm_frame_refcount (pg_pmm s) (frame_of pte) \<le> 1 then n + 1 else n)
                     [0..<PT_ENTRIES] (n + 1)) [0..<PD_ENTRIES] 1)
          (paging_phys_to_kernel_virt frame))"

section \<open>User pages\<close>

text \<open>
  Looking up a user page: \<open>None\<close> in the result where the C function returns 0, the entry with its frame and flags
  otherwise.
\<close>

definition paging_user_page_get :: "u32 \<Rightarrow> u32 \<Rightarrow> paging \<Rightarrow> (u32 \<times> u32) option option" where
  "paging_user_page_get frame virt s =
     (if frame = 0 then Some None
      else
        let page = virt AND NOT (PAGE_SIZE - 1);
            pd_index = pd_index_of page;
            pt_index = pt_index_of page
        in if \<not> paging_pd_index_is_user pd_index then Some None
           else
             (case paging_pd_virt (ProcessDirectory frame) s of
                None \<Rightarrow> None
              | Some pd_virt \<Rightarrow>
                  let pde = pd_virt pd_index in
                  if \<not> user_present pde then Some None
                  else
                    let pte = phys_mem s (frame_of pde) pt_index in
                    if \<not> user_present pte then Some None
                    else Some (Some (frame_of pte, pte AND 0xFFF))))"

definition paging_user_page_present :: "u32 \<Rightarrow> u32 \<Rightarrow> paging \<Rightarrow> bool option" where
  "paging_user_page_present frame virt s = map_option (\<lambda>r. r \<noteq> None) (paging_user_page_get frame virt s)"

definition paging_user_page_set_flags :: "u32 \<Rightarrow> u32 \<Rightarrow> u32 \<Rightarrow> u32 \<Rightarrow> paging \<Rightarrow> (bool \<times> paging) option" where
  "paging_user_page_set_flags frame virt clear_flags set_flags s =
     (if frame = 0 then Some (False, s)
      else
        let page = virt AND NOT (PAGE_SIZE - 1);
            pd_index = pd_index_of page;
            pt_index = pt_index_of page
        in if \<not> paging_pd_index_is_user pd_index then Some (False, s)
           else
             (case paging_pd_virt (ProcessDirectory frame) s of
                None \<Rightarrow> None
              | Some pd_virt \<Rightarrow>
                  let pde = pd_virt pd_index in
                  if \<not> user_present pde then Some (False, s)
                  else
                    let pte = phys_mem s (frame_of pde) pt_index in
                    if \<not> user_present pte then Some (False, s)
                    else Some (True, set_word (frame_of pde) pt_index
                                ((pte AND NOT clear_flags) OR set_flags OR PAGE_PRESENT OR PAGE_USER) s)))"

definition paging_pt_empty :: "frame_words \<Rightarrow> bool" where
  "paging_pt_empty pt = list_all (\<lambda>i. pt i AND PAGE_PRESENT = 0) [0..<PT_ENTRIES]"

definition paging_unmap_user_page :: "u32 \<Rightarrow> u32 \<Rightarrow> paging \<Rightarrow> (bool \<times> paging) option" where
  "paging_unmap_user_page frame virt s =
     (if frame = 0 then Some (False, s)
      else
        let page = virt AND NOT (PAGE_SIZE - 1);
            pd_index = pd_index_of page;
            pt_index = pt_index_of page
        in if \<not> paging_pd_index_is_user pd_index then Some (False, s)
           else
             (case paging_pd_virt (ProcessDirectory frame) s of
                None \<Rightarrow> None
              | Some pd_virt \<Rightarrow>
                  let pde = pd_virt pd_index in
                  if pde AND PAGE_PRESENT = 0 then Some (False, s)
                  else if pde = kernel_page_directory s pd_index then Some (False, s)
                  else
                    let pt_phys = frame_of pde;
                        pte = phys_mem s pt_phys pt_index
                    in if pte AND PAGE_PRESENT = 0 then Some (False, s)
                       else
                         let s = (if pte AND PAGE_USER \<noteq> 0 \<and> paging_phys_is_pmm_frame (frame_of pte)
                                  then set_pmm (pmm_release_frame (pg_pmm s) (frame_of pte)) s else s);
                             s = set_word pt_phys pt_index 0 s
                         in Some (True,
                              if paging_pt_empty (phys_mem s pt_phys) then
                                let s = set_word frame pd_index 0 s in
                                if paging_phys_is_pmm_frame pt_phys
                                then set_pmm (pmm_release_frame (pg_pmm s) pt_phys) s else s
                              else s)))"

definition paging_resolve_cow_fault :: "u32 \<Rightarrow> u32 \<Rightarrow> paging \<Rightarrow> (bool \<times> paging) option" where
  "paging_resolve_cow_fault frame fault_addr s =
     (if frame = 0 then Some (False, s)
      else
        let virt = fault_addr AND NOT (PAGE_SIZE - 1);
            pd_index = pd_index_of virt;
            pt_index = pt_index_of virt
        in if \<not> paging_pd_index_is_user pd_index then Some (False, s)
           else
             (case paging_pd_virt (ProcessDirectory frame) s of
                None \<Rightarrow> None
              | Some pd_virt \<Rightarrow>
                  let pde = pd_virt pd_index in
                  if pde AND PAGE_PRESENT = 0 then Some (False, s)
                  else
                    let pt = frame_of pde;
                        pte = phys_mem s pt pt_index
                    in if pte AND (PAGE_PRESENT OR PAGE_USER OR PAGE_COW) \<noteq> PAGE_PRESENT OR PAGE_USER OR PAGE_COW
                       then Some (False, s)
                       else if pte AND PAGE_WRITE \<noteq> 0 then Some (False, s)
                       else
                         let old_frame = frame_of pte in
                         if \<not> paging_phys_is_pmm_frame old_frame then Some (False, s)
                         else
                           let flags = pte AND 0xFFF;
                               refs = pmm_frame_refcount (pg_pmm s) old_frame;
                               new_flags = (flags OR PAGE_WRITE) AND NOT PAGE_COW AND NOT PAGE_SHARED_RO_FILE
                           in if refs \<le> 1 then Some (True, set_word pt pt_index (old_frame OR new_flags) s)
                              else
                                let (new_frame, p) = pmm_alloc_frame (pg_pmm s) in
                                if new_frame = 0 then Some (False, s)
                                else
                                  map_option (\<lambda>_.
                                    let s = set_frame new_frame (phys_mem s old_frame) (set_pmm p s);
                                        s = set_word pt pt_index (new_frame OR new_flags) s
                                    in (True, set_pmm (pmm_release_frame (pg_pmm s) old_frame) s))
                                    (paging_phys_to_kernel_virt new_frame)))"

section \<open>Copying an address space\<close>

text \<open>
  One entry of one table: the page is shared with the copy, read-only, and marked for copying when
  either side may come to write to it. The flag is false when the frame cannot take another reference,
  which destroys the copy.
\<close>

definition clone_page :: "(u32 \<Rightarrow> bool) \<Rightarrow> u32 \<Rightarrow> u32 \<Rightarrow> nat \<Rightarrow> nat \<Rightarrow> paging \<Rightarrow> (bool \<times> paging) option" where
  "clone_page page_may_write dst_pd src_pt i j s =
     (let pte = phys_mem s src_pt j in
      if \<not> user_present pte then Some (True, s)
      else
        let src_frame = frame_of pte;
            src_flags = pte AND 0xFFF;
            virt = push_bit 22 (of_nat i) OR push_bit 12 (of_nat j)
        in if \<not> paging_phys_is_pmm_frame src_frame
           then map_option (Pair True) (paging_map_page (ProcessDirectory dst_pd) virt src_frame src_flags s)
           else
             let (ok, p) = pmm_retain_frame (pg_pmm s) src_frame in
             if \<not> ok then Some (False, s)
             else
               let s = set_pmm p s in
               if src_flags AND PAGE_SHARED_RO_FILE = 0 \<and> src_flags AND PAGE_COW = 0 \<and>
                  (src_flags AND PAGE_WRITE \<noteq> 0 \<or> page_may_write virt)
               then
                 let s = set_word src_pt j
                           (src_frame OR ((src_flags AND NOT PAGE_WRITE) OR PAGE_COW OR PAGE_PRESENT)) s
                 in map_option (Pair True) (paging_map_page (ProcessDirectory dst_pd) virt src_frame
                      ((src_flags AND NOT PAGE_WRITE) OR PAGE_COW) s)
               else map_option (Pair True) (paging_map_page (ProcessDirectory dst_pd) virt src_frame
                      (src_flags AND NOT PAGE_WRITE) s))"

text \<open>The two loops; a failed page ends both.\<close>

fun clone_pages :: "(u32 \<Rightarrow> bool) \<Rightarrow> u32 \<Rightarrow> u32 \<Rightarrow> nat \<Rightarrow> nat list \<Rightarrow> paging \<Rightarrow> (bool \<times> paging) option" where
  "clone_pages page_may_write dst_pd src_pt i [] s = Some (True, s)"
| "clone_pages page_may_write dst_pd src_pt i (j # js) s =
     (case clone_page page_may_write dst_pd src_pt i j s of
        None \<Rightarrow> None
      | Some (ok, s) \<Rightarrow> if \<not> ok then Some (False, s) else clone_pages page_may_write dst_pd src_pt i js s)"

fun clone_tables :: "(u32 \<Rightarrow> bool) \<Rightarrow> u32 \<Rightarrow> u32 \<Rightarrow> nat list \<Rightarrow> paging \<Rightarrow> (bool \<times> paging) option" where
  "clone_tables page_may_write dst_pd src_pd [] s = Some (True, s)"
| "clone_tables page_may_write dst_pd src_pd (i # is) s =
     (let pde = phys_mem s src_pd i in
      if pde = kernel_page_directory s i \<or> pde AND PAGE_PRESENT = 0
      then clone_tables page_may_write dst_pd src_pd is s
      else
        (case clone_pages page_may_write dst_pd (frame_of pde) i [0..<PT_ENTRIES] s of
           None \<Rightarrow> None
         | Some (ok, s) \<Rightarrow> if \<not> ok then Some (False, s) else clone_tables page_may_write dst_pd src_pd is s))"

definition process_pd_clone_user :: "u32 \<Rightarrow> (u32 \<Rightarrow> bool) \<Rightarrow> paging \<Rightarrow> (u32 \<times> paging) option" where
  "process_pd_clone_user src_pd page_may_write s =
     (if src_pd = 0 then Some (0, s)
      else
        (case process_pd_create s of
           None \<Rightarrow> None
         | Some (dst_pd, s) \<Rightarrow>
             (case paging_pd_virt (ProcessDirectory src_pd) s of
                None \<Rightarrow> None
              | Some _ \<Rightarrow>
                  (case clone_tables page_may_write dst_pd src_pd user_pd_indices s of
                     None \<Rightarrow> None
                   | Some (ok, s) \<Rightarrow>
                       if ok then Some (dst_pd, s)
                       else map_option (Pair 0) (process_pd_destroy dst_pd s)))))"

end
