(* ===== verification/Paging_Views.thy ===== *)
theory Paging_Views
  imports Paging
begin

text \<open>
  What the page tables of \<open>Paging\<close> mean: the entry a process directory holds for each user page, the well-formedness
  of a set of address spaces that share the frame manager, and how the elementary changes to memory act on
  both.
\<close>

section \<open>Indices and flags\<close>

lemma unat_drop_bit_u32: "unat (drop_bit n (x :: u32)) = unat x div 2 ^ n"
  using unat_u32_bound [of x] by (simp only: unsigned_drop_bit_eq) (simp add: drop_bit_eq_div take_bit_nat_eq_self)

lemma pd_index_of_unat: "pd_index_of v = unat v div 4194304"
  by (simp add: pd_index_of_def unat_drop_bit_u32)

lemma pt_index_of_unat: "pt_index_of v = unat v div 4096 mod 1024"
proof -
  have m: "(0x3FF :: u32) = mask 10" by (simp add: mask_eq_exp_minus_1)
  show ?thesis unfolding pt_index_of_def m unat_and_mask by (simp add: unat_drop_bit_u32)
qed

lemma index_bounds: "pd_index_of v < 1024" "pt_index_of v < 1024"
  using unat_u32_bound [of v] by (simp_all add: pd_index_of_unat pt_index_of_unat less_mult_imp_div_less)

lemma page_of_indices:
  assumes "page_aligned p" "page_aligned q" "pd_index_of p = pd_index_of q" "pt_index_of p = pt_index_of q"
  shows "p = q"
proof -
  obtain a b where ab: "unat p = 4096 * a" "unat q = 4096 * b"
    using assms(1,2) unfolding page_aligned_dvd dvd_def by auto
  have d: "4096 * a div 4194304 = a div 1024" "4096 * b div 4194304 = b div 1024"
    using div_mult2_eq [of "4096 * a" 4096 1024] div_mult2_eq [of "4096 * b" 4096 1024] by simp_all
  have "a div 1024 = b div 1024" "a mod 1024 = b mod 1024"
    using assms(3,4) unfolding pd_index_of_unat pt_index_of_unat ab d by simp_all
  then have "a = b" using div_mult_mod_eq [of a 1024] div_mult_mod_eq [of b 1024] by metis
  then have "unat p = unat q" using ab by simp
  then show ?thesis by (rule unsigned_word_eqI)
qed

lemma page_floor_indices [simp]:
  "pd_index_of (v AND NOT (PAGE_SIZE - 1)) = pd_index_of v" "pt_index_of (v AND NOT (PAGE_SIZE - 1)) = pt_index_of v"
proof -
  have u: "unat (v AND NOT (PAGE_SIZE - 1)) = unat v div 4096 * 4096"
    by (simp add: PAGE_SIZE_def unat_page_floor')
  have "unat v div 4096 * 4096 div 4194304 = unat v div 4194304"
    using div_mult2_eq [of "unat v" 4096 1024] div_mult2_eq [of "unat v div 4096 * 4096" 4096 1024] by simp
  then show "pd_index_of (v AND NOT (PAGE_SIZE - 1)) = pd_index_of v" by (simp only: pd_index_of_unat u)
  show "pt_index_of (v AND NOT (PAGE_SIZE - 1)) = pt_index_of v" by (simp add: pt_index_of_unat u)
qed

lemma bit_flag: "n < 32 \<Longrightarrow> bit (push_bit n 1 :: u32) i \<longleftrightarrow> i = n"
  by (auto simp: bit_simps)

lemma bit_page_flags [simp]:
  "bit PAGE_PRESENT i \<longleftrightarrow> i = 0" "bit PAGE_WRITE i \<longleftrightarrow> i = 1" "bit PAGE_USER i \<longleftrightarrow> i = 2"
  "bit PAGE_SHARED_RO_FILE i \<longleftrightarrow> i = 9" "bit PAGE_COW i \<longleftrightarrow> i = 10"
  using bit_flag [of 0 i] bit_flag [of 1 i] bit_flag [of 2 i] bit_flag [of 9 i] bit_flag [of 10 i]
  by (simp_all add: PAGE_PRESENT_def PAGE_WRITE_def PAGE_USER_def PAGE_COW_def PAGE_SHARED_RO_FILE_def)

lemma bit_offset_mask [simp]: "bit (0xFFF :: u32) i \<longleftrightarrow> i < 12"
proof -
  have m: "(0xFFF :: u32) = mask 12" by (simp add: mask_eq_exp_minus_1)
  show ?thesis unfolding m bit_mask_iff by auto
qed

lemma word_zero_iff: "(e :: u32) = 0 \<longleftrightarrow> (\<forall>i. \<not> bit e i)"
  by (metis bit_0_eq bot_apply bot_bool_def bit_eqI)

lemma flag_tests [simp]:
  "e AND PAGE_PRESENT = 0 \<longleftrightarrow> \<not> bit e 0" "e AND PAGE_WRITE = 0 \<longleftrightarrow> \<not> bit e 1" "e AND PAGE_USER = 0 \<longleftrightarrow> \<not> bit e 2"
  "e AND PAGE_SHARED_RO_FILE = 0 \<longleftrightarrow> \<not> bit e 9" "e AND PAGE_COW = 0 \<longleftrightarrow> \<not> bit e 10"
  unfolding word_zero_iff bit_and_iff bit_page_flags by blast+

lemma and_all_iff: "e AND f = (f :: u32) \<longleftrightarrow> (\<forall>i. bit f i \<longrightarrow> bit e i)"
proof
  assume eq: "e AND f = f"
  have "bit (e AND f) i" if "bit f i" for i using that unfolding eq .
  then show "\<forall>i. bit f i \<longrightarrow> bit e i" unfolding bit_and_iff by blast
next
  assume "\<forall>i. bit f i \<longrightarrow> bit e i"
  then show "e AND f = f" by (intro bit_eqI) (auto simp: bit_and_iff)
qed

lemma user_present_iff [simp]: "user_present e \<longleftrightarrow> bit e 0 \<and> bit e 2"
  unfolding and_all_iff bit_or_iff by auto

lemma cow_test_iff [simp]:
  "e AND (PAGE_PRESENT OR PAGE_USER OR PAGE_COW) = PAGE_PRESENT OR PAGE_USER OR PAGE_COW \<longleftrightarrow>
     bit e 0 \<and> bit e 2 \<and> bit e 10"
  unfolding and_all_iff bit_or_iff by auto

lemma bit_frame_of [simp]: "bit (frame_of e) i \<longleftrightarrow> bit e i \<and> 12 \<le> i"
  unfolding frame_of_def bit_and_iff bit_not_iff bit_offset_mask
  by (auto dest: bit_imp_le_length)

lemma page_aligned_frame_of [simp]: "page_aligned (frame_of e)"
  using page_aligned_floor [of e] by (simp add: frame_of_def)

lemma page_aligned_bits: "page_aligned f \<longleftrightarrow> (\<forall>i < 12. \<not> bit f i)"
  unfolding page_aligned_def word_zero_iff bit_and_iff bit_offset_mask by auto

lemma frame_of_aligned [simp]: "page_aligned f \<Longrightarrow> frame_of f = f"
  by (rule bit_eqI) (auto simp: page_aligned_bits not_less)

lemma frame_of_or:
  assumes "page_aligned f" "\<forall>i. bit g i \<longrightarrow> i < 12"
  shows "frame_of (f OR g) = f"
  using assms by (intro bit_eqI) (auto simp: page_aligned_bits bit_or_iff not_less)

lemma frame_of_frame_of [simp]: "frame_of (frame_of e) = frame_of e"
  by simp

section \<open>Address spaces\<close>

definition has_table :: "paging \<Rightarrow> u32 \<Rightarrow> nat \<Rightarrow> bool" where
  "has_table s d i \<longleftrightarrow> paging_pd_index_is_user i \<and> bit (phys_mem s d i) 0"

definition table_of :: "paging \<Rightarrow> u32 \<Rightarrow> nat \<Rightarrow> u32" where
  "table_of s d i = frame_of (phys_mem s d i)"

text \<open>The entry the two-level walk finds for a user page, 0 when nothing is present.\<close>

definition user_pte :: "paging \<Rightarrow> u32 \<Rightarrow> u32 \<Rightarrow> u32" where
  "user_pte s d p =
     (if page_aligned p \<and> has_table s d (pd_index_of p) \<and>
         bit (phys_mem s (table_of s d (pd_index_of p)) (pt_index_of p)) 0
      then phys_mem s (table_of s d (pd_index_of p)) (pt_index_of p) else 0)"

text \<open>The frames that hold the structures of the address spaces \<open>D\<close>: directories and tables.\<close>

definition struct_keys :: "paging \<Rightarrow> u32 set \<Rightarrow> (u32 \<times> nat option) set" where
  "struct_keys s D = {(d, k). d \<in> D \<and> (case k of None \<Rightarrow> True | Some i \<Rightarrow> has_table s d i)}"

fun struct_at :: "paging \<Rightarrow> u32 \<times> nat option \<Rightarrow> u32" where
  "struct_at s (d, None) = d"
| "struct_at s (d, Some i) = table_of s d i"

definition structs :: "paging \<Rightarrow> u32 set \<Rightarrow> u32 set" where
  "structs s D = struct_at s ` struct_keys s D"

definition mapped :: "paging \<Rightarrow> u32 set \<Rightarrow> u32 \<Rightarrow> (u32 \<times> u32) set" where
  "mapped s D f = {(d, p). d \<in> D \<and> user_present (user_pte s d p) \<and> frame_of (user_pte s d p) = f}"

text \<open>
  The address spaces \<open>D\<close> are well formed: their directories and tables are distinct frames in use, none of which is mapped
  for user code, and each frame of the manager has at least as many references as there are user mappings of it.
\<close>

definition spaces_ok :: "paging \<Rightarrow> u32 set \<Rightarrow> bool" where
  "spaces_ok s D \<longleftrightarrow> finite D \<and> pmm_inv (pg_pmm s) \<and> inj_on (struct_at s) (struct_keys s D) \<and>
     (\<forall>f \<in> structs s D. f \<in> pmm_frames (pg_pmm s) \<and> 0 < frame_refs (pg_pmm s) f \<and> mapped s D f = {}) \<and>
     (\<forall>d \<in> D. \<forall>i. has_table s d i \<longrightarrow> bit (phys_mem s d i) 2) \<and>
     (\<forall>i. paging_pd_index_is_user i \<longrightarrow> \<not> bit (kernel_page_directory s i) 2) \<and>
     (\<forall>f. paging_phys_is_pmm_frame f \<longrightarrow> card (mapped s D f) \<le> frame_refs (pg_pmm s) f)"

lemma spaces_okD:
  assumes "spaces_ok s D"
  shows "finite D" "pmm_inv (pg_pmm s)" "inj_on (struct_at s) (struct_keys s D)"
    "f \<in> structs s D \<Longrightarrow> f \<in> pmm_frames (pg_pmm s)" "f \<in> structs s D \<Longrightarrow> 0 < frame_refs (pg_pmm s) f"
    "f \<in> structs s D \<Longrightarrow> mapped s D f = {}"
    "d \<in> D \<Longrightarrow> has_table s d i \<Longrightarrow> bit (phys_mem s d i) 2"
    "paging_pd_index_is_user i \<Longrightarrow> \<not> bit (kernel_page_directory s i) 2"
    "paging_phys_is_pmm_frame f \<Longrightarrow> card (mapped s D f) \<le> frame_refs (pg_pmm s) f"
  using assms by (auto simp: spaces_ok_def)

lemma structI: "d \<in> D \<Longrightarrow> d \<in> structs s D" "d \<in> D \<Longrightarrow> has_table s d i \<Longrightarrow> table_of s d i \<in> structs s D"
  unfolding structs_def
  by (rule image_eqI [of _ _ "(d, None)"]; simp add: struct_keys_def)
    (rule image_eqI [of _ _ "(d, Some i)"]; simp add: struct_keys_def)

lemma table_ne_dir:
  assumes "spaces_ok s D" "d \<in> D" "e \<in> D" "has_table s d i"
  shows "table_of s d i \<noteq> e"
  using inj_onD [OF spaces_okD(3) [OF assms(1)], of "(d, Some i)" "(e, None)"] assms(2-4)
  by (auto simp: struct_keys_def)

lemma table_not_dir: "spaces_ok s D \<Longrightarrow> d \<in> D \<Longrightarrow> has_table s d i \<Longrightarrow> table_of s d i \<notin> D"
  using table_ne_dir by blast

lemma table_inj:
  assumes "spaces_ok s D" "d \<in> D" "e \<in> D" "has_table s d i" "has_table s e k" "table_of s d i = table_of s e k"
  shows "d = e \<and> i = k"
  using inj_onD [OF spaces_okD(3) [OF assms(1)], of "(d, Some i)" "(e, Some k)"] assms(2-6)
  by (auto simp: struct_keys_def)

lemma pmm_frame_in_range: "pmm_inv p \<Longrightarrow> f \<in> pmm_frames p \<Longrightarrow> paging_phys_is_pmm_frame f"
  by (auto simp: pmm_frames_def pmm_managed_def paging_phys_is_pmm_frame_def pmm_inv_def pmm_wf_def
      word_le_nat_alt word_less_nat_alt pmm_consts)

lemma pmm_frame_aligned: "f \<in> pmm_frames p \<Longrightarrow> page_aligned f"
  by (simp add: pmm_frames_def)

lemma frame_refs_managed: "0 < frame_refs p f \<Longrightarrow> f \<in> pmm_frames p"
  by (auto simp: frame_refs_def pmm_frames_def split: if_splits)

lemma finite_mapped: "finite D \<Longrightarrow> finite (mapped s D f)"
  by (rule finite_subset [of _ "D \<times> UNIV"]) (auto simp: mapped_def)

lemma dir_virt:
  assumes "spaces_ok s D" "d \<in> D"
  shows "paging_pd_virt (ProcessDirectory d) s = Some (phys_mem s d)" "d \<noteq> 0" "paging_phys_is_pmm_frame d"
proof -
  have f: "d \<in> pmm_frames (pg_pmm s)" using spaces_okD(4) [OF assms(1) structI(1) [OF assms(2)]] .
  show r: "paging_phys_is_pmm_frame d" by (rule pmm_frame_in_range [OF spaces_okD(2) [OF assms(1)] f])
  then show "paging_pd_virt (ProcessDirectory d) s = Some (phys_mem s d)"
    by (simp add: paging_pd_virt_def paging_phys_to_kernel_virt_def)
  show "d \<noteq> 0" using r by (auto simp: paging_phys_is_pmm_frame_def PMM_BASE_def)
qed

text \<open>The release of a frame on an aligned address, managed or not.\<close>

lemma release_aligned:
  assumes "pmm_inv p" "page_aligned a"
  shows "pmm_inv (pmm_release_frame p a)" "pmm_frames (pmm_release_frame p a) = pmm_frames p"
    "frame_refs (pmm_release_frame p a) = (frame_refs p)(a := frame_refs p a - 1)"
proof -
  have "pmm_inv (pmm_release_frame p a) \<and> pmm_frames (pmm_release_frame p a) = pmm_frames p \<and>
    frame_refs (pmm_release_frame p a) = (frame_refs p)(a := frame_refs p a - 1)"
  proof (cases "a \<in> pmm_frames p")
    case True
    then show ?thesis using pmm_pool.release_frame [OF assms(1)] by blast
  next
    case False
    then have "\<not> pmm_managed p a" using assms(2) by (simp add: pmm_frames_def)
    moreover from this have "frame_refs p a = 0" by (simp add: frame_refs_def)
    ultimately show ?thesis using assms(1)
      by (auto simp: pmm_release_frame_def pmm_managed_not fun_eq_iff)
  qed
  then show "pmm_inv (pmm_release_frame p a)" "pmm_frames (pmm_release_frame p a) = pmm_frames p"
    "frame_refs (pmm_release_frame p a) = (frame_refs p)(a := frame_refs p a - 1)" by blast+
qed

section \<open>Elementary changes\<close>

lemma set_pmm_simps [simp]:
  "phys_mem (set_pmm p s) = phys_mem s" "kernel_page_directory (set_pmm p s) = kernel_page_directory s"
  "pg_pmm (set_pmm p s) = p" "has_table (set_pmm p s) = has_table s" "table_of (set_pmm p s) = table_of s"
  "user_pte (set_pmm p s) = user_pte s" "struct_keys (set_pmm p s) = struct_keys s"
  "mapped (set_pmm p s) = mapped s"
  by (simp_all add: set_pmm_def fun_eq_iff has_table_def table_of_def user_pte_def struct_keys_def mapped_def
      split: option.split)

lemma struct_at_set_pmm [simp]: "struct_at (set_pmm p s) = struct_at s"
proof
  fix k show "struct_at (set_pmm p s) k = struct_at s k" by (cases k; cases "snd k") auto
qed

lemma structs_set_pmm [simp]: "structs (set_pmm p s) = structs s"
  by (simp add: structs_def fun_eq_iff)

lemma set_word_simps [simp]:
  "kernel_page_directory (set_word f i w s) = kernel_page_directory s" "pg_kmem (set_word f i w s) = pg_kmem s"
  "phys_mem (set_word f i w s) = (phys_mem s)(f := (phys_mem s f)(i := w))"
  by (simp_all add: set_word_def)

lemma set_frame_simps [simp]:
  "kernel_page_directory (set_frame f ws s) = kernel_page_directory s" "pg_kmem (set_frame f ws s) = pg_kmem s"
  "phys_mem (set_frame f ws s) = (phys_mem s)(f := ws)"
  by (simp_all add: set_frame_def)

text \<open>Two states with the same tables seen from \<open>D\<close>.\<close>

definition same_tables :: "u32 set \<Rightarrow> paging \<Rightarrow> paging \<Rightarrow> bool" where
  "same_tables D s s' \<longleftrightarrow> (\<forall>d \<in> D. \<forall>i. phys_mem s' d i = phys_mem s d i) \<and>
     kernel_page_directory s' = kernel_page_directory s"

lemma same_tablesD:
  assumes "same_tables D s s'" "d \<in> D"
  shows "has_table s' d i = has_table s d i" "table_of s' d i = table_of s d i"
  using assms by (auto simp: same_tables_def has_table_def table_of_def)

lemma same_tables_structs:
  assumes "same_tables D s s'"
  shows "struct_keys s' D = struct_keys s D" "k \<in> struct_keys s D \<Longrightarrow> struct_at s' k = struct_at s k"
    "structs s' D = structs s D"
proof -
  show k: "struct_keys s' D = struct_keys s D"
    using same_tablesD(1) [OF assms] by (auto simp: struct_keys_def split: option.splits)
  show at: "k \<in> struct_keys s D \<Longrightarrow> struct_at s' k = struct_at s k" for k
    using same_tablesD(2) [OF assms] by (cases k; cases "snd k") (auto simp: struct_keys_def)
  show "structs s' D = structs s D" unfolding structs_def k using at by (intro image_cong) auto
qed

lemma spaces_ok_same:
  assumes ok: "spaces_ok s D" and same: "same_tables D s s'"
    and pmm: "pmm_inv (pg_pmm s')" "pmm_frames (pg_pmm s') = pmm_frames (pg_pmm s)"
    and st: "\<And>f. f \<in> structs s D \<Longrightarrow> 0 < frame_refs (pg_pmm s') f \<and> mapped s' D f = {}"
    and refs: "\<And>f. paging_phys_is_pmm_frame f \<Longrightarrow> card (mapped s' D f) \<le> frame_refs (pg_pmm s') f"
  shows "spaces_ok s' D"
proof -
  note ss = same_tables_structs [OF same]
  have inj: "inj_on (struct_at s') (struct_keys s' D)"
    unfolding ss(1) using spaces_okD(3) [OF ok] ss(2) by (simp cong: inj_on_cong)
  have u: "bit (phys_mem s' d i) 2" if "d \<in> D" "has_table s' d i" for d i
    using spaces_okD(7) [OF ok that(1), of i] that same same_tablesD(1) [OF same that(1)]
    by (simp add: same_tables_def)
  have k: "\<not> bit (kernel_page_directory s' i) 2" if "paging_pd_index_is_user i" for i
    using spaces_okD(8) [OF ok that] same by (simp add: same_tables_def)
  show ?thesis unfolding spaces_ok_def ss(3)
    using spaces_okD(1) [OF ok] spaces_okD(4) [OF ok] pmm st refs inj u k by simp
qed

text \<open>Writing an entry of a table changes one page of one address space.\<close>

lemma write_entry:
  assumes ok: "spaces_ok s D" and d: "d \<in> D" "has_table s d (pd_index_of p)" "page_aligned p"
    and s': "\<And>f. f \<in> structs s D \<Longrightarrow> phys_mem s' f =
        (if f = table_of s d (pd_index_of p) then (phys_mem s f)(pt_index_of p := w) else phys_mem s f)"
      "kernel_page_directory s' = kernel_page_directory s"
  shows "same_tables D s s'"
    "e \<in> D \<Longrightarrow> user_pte s' e q = (if e = d \<and> q = p then (if bit w 0 then w else 0) else user_pte s e q)"
proof -
  have ne: "table_of s d (pd_index_of p) \<noteq> e" if "e \<in> D" for e using table_ne_dir [OF ok d(1) that d(2)] .
  show same: "same_tables D s s'" using ne s'(2) s'(1) [OF structI(1)] by (auto simp: same_tables_def)
  assume e: "e \<in> D"
  show "user_pte s' e q = (if e = d \<and> q = p then (if bit w 0 then w else 0) else user_pte s e q)"
  proof (cases "page_aligned q \<and> has_table s e (pd_index_of q)")
    case True
    then have q: "page_aligned q" "has_table s e (pd_index_of q)" by auto
    have "table_of s e (pd_index_of q) = table_of s d (pd_index_of p) \<longleftrightarrow> e = d \<and> pd_index_of q = pd_index_of p"
      using table_inj [OF ok e d(1) q(2) d(2)] by auto
    moreover have "q = p \<longleftrightarrow> pd_index_of q = pd_index_of p \<and> pt_index_of q = pt_index_of p"
      using page_of_indices [OF q(1) d(3)] by auto
    ultimately show ?thesis
      using q s'(1) [OF structI(2) [OF e q(2)]] unfolding user_pte_def same_tablesD [OF same e] by auto
  next
    case False
    then show ?thesis using d(2,3) unfolding user_pte_def same_tablesD [OF same e] by auto
  qed
qed

lemma mapped_write:
  assumes "d \<in> D" "\<And>e q. e \<in> D \<Longrightarrow> user_pte s' e q = (if e = d \<and> q = p then w else user_pte s e q)"
  shows "mapped s' D f =
    (if user_present w \<and> frame_of w = f then insert (d, p) (mapped s D f) else mapped s D f - {(d, p)})"
  using assms by (auto simp: mapped_def split: if_splits)

text \<open>The address spaces stay well formed when the reference counts follow the entry.\<close>

lemma write_entry_ok:
  assumes ok: "spaces_ok s D" and d: "d \<in> D" "has_table s d (pd_index_of p)" "page_aligned p"
    and s': "\<And>f. f \<in> structs s D \<Longrightarrow> phys_mem s' f =
        (if f = table_of s d (pd_index_of p) then (phys_mem s f)(pt_index_of p := w) else phys_mem s f)"
      "kernel_page_directory s' = kernel_page_directory s"
    and pmm: "pmm_inv (pg_pmm s')" "pmm_frames (pg_pmm s') = pmm_frames (pg_pmm s)"
    and st: "\<And>f. f \<in> structs s D \<Longrightarrow> 0 < frame_refs (pg_pmm s') f \<and> (bit w 0 \<and> bit w 2 \<longrightarrow> frame_of w \<noteq> f)"
    and refs: "\<And>f. paging_phys_is_pmm_frame f \<Longrightarrow>
      card (mapped s D f - {(d, p)}) + (if bit w 0 \<and> bit w 2 \<and> frame_of w = f then 1 else 0)
        \<le> frame_refs (pg_pmm s') f"
  shows "spaces_ok s' D"
proof (rule spaces_ok_same [OF ok write_entry(1) [OF ok d s'] pmm])
  have pte: "e \<in> D \<Longrightarrow> user_pte s' e q = (if e = d \<and> q = p then (if bit w 0 then w else 0) else user_pte s e q)" for e q
    by (rule write_entry(2) [OF ok d s'])
  have m: "mapped s' D f = (if bit w 0 \<and> bit w 2 \<and> frame_of w = f then insert (d, p) (mapped s D f - {(d, p)})
      else mapped s D f - {(d, p)})" for f
    using mapped_write [OF d(1) pte, of f] by auto
  show "0 < frame_refs (pg_pmm s') f \<and> mapped s' D f = {}" if "f \<in> structs s D" for f
    using st [OF that] spaces_okD(6) [OF ok that] by (auto simp: m)
  show "card (mapped s' D f) \<le> frame_refs (pg_pmm s') f" if "paging_phys_is_pmm_frame f" for f
    using refs [OF that] finite_mapped [OF spaces_okD(1) [OF ok], of s f] by (auto simp: m card_insert_if)
qed

end
