(* ===== verification/Paging_Correct.thy ===== *)
theory Paging_Correct
  imports Paging_Views
begin

text \<open>
  Correctness of the page tables: each operation of \<open>Paging\<close> on the address space of one process acts
  on the entries of that space as the flat tables of \<open>Vm\<close> describe, leaves the other spaces alone, and
  keeps the reference counts of the frame manager above the number of mappings.
\<close>

section \<open>Adding and dropping tables\<close>

lemma mapped_same_pte: "(\<And>e p. e \<in> D \<Longrightarrow> user_pte s' e p = user_pte s e p) \<Longrightarrow> mapped s' D f = mapped s D f"
  by (auto simp: mapped_def)

lemma mapped_free:
  assumes "spaces_ok s D" "t \<in> pmm_frames (pg_pmm s)" "frame_refs (pg_pmm s) t = 0"
  shows "mapped s D t = {}" "t \<notin> structs s D"
proof -
  have "paging_phys_is_pmm_frame t" by (rule pmm_frame_in_range [OF spaces_okD(2) [OF assms(1)] assms(2)])
  then have "card (mapped s D t) = 0" using spaces_okD(9) [OF assms(1), of t] assms(3) by simp
  then show "mapped s D t = {}" using finite_mapped [OF spaces_okD(1) [OF assms(1)]] by simp
  show "t \<notin> structs s D" using spaces_okD(5) [OF assms(1), of t] assms(3) by auto
qed

text \<open>A new, empty table at a free index of a directory.\<close>

definition adds_table :: "u32 set \<Rightarrow> paging \<Rightarrow> u32 \<Rightarrow> nat \<Rightarrow> u32 \<Rightarrow> paging \<Rightarrow> bool" where
  "adds_table D s d i t s' \<longleftrightarrow> spaces_ok s D \<and> d \<in> D \<and> paging_pd_index_is_user i \<and> \<not> has_table s d i \<and>
     t \<in> pmm_frames (pg_pmm s) \<and> frame_refs (pg_pmm s) t = 0 \<and>
     phys_mem s' = (phys_mem s)(t := \<lambda>_. 0, d := (phys_mem s d)(i := t OR PAGE_PRESENT OR PAGE_WRITE OR PAGE_USER)) \<and>
     kernel_page_directory s' = kernel_page_directory s \<and>
     pmm_inv (pg_pmm s') \<and> pmm_frames (pg_pmm s') = pmm_frames (pg_pmm s) \<and>
     frame_refs (pg_pmm s') = (frame_refs (pg_pmm s))(t := 1)"

lemma table_entry:
  assumes "page_aligned t"
  shows "frame_of (t OR PAGE_PRESENT OR PAGE_WRITE OR PAGE_USER) = t"
    "bit (t OR PAGE_PRESENT OR PAGE_WRITE OR PAGE_USER) 0" "bit (t OR PAGE_PRESENT OR PAGE_WRITE OR PAGE_USER) 2"
  using assms by (auto simp: or.assoc bit_or_iff intro!: frame_of_or)

lemma adds_tableD:
  assumes "adds_table D s d i t s'"
  shows "spaces_ok s D" "d \<in> D" "\<not> has_table s d i" "t \<in> pmm_frames (pg_pmm s)" "frame_refs (pg_pmm s) t = 0"
    "mapped s D t = {}" "t \<notin> structs s D"
    "pmm_inv (pg_pmm s')" "pmm_frames (pg_pmm s') = pmm_frames (pg_pmm s)"
    "frame_refs (pg_pmm s') = (frame_refs (pg_pmm s))(t := 1)"
  using assms mapped_free [of s D t] by (simp_all add: adds_table_def)

lemma adds_table_words:
  assumes ad: "adds_table D s d i t s'" and c: "c \<in> D"
  shows "phys_mem s' c k =
      (if c = d \<and> k = i then t OR PAGE_PRESENT OR PAGE_WRITE OR PAGE_USER else phys_mem s c k)"
    "has_table s' c k \<longleftrightarrow> has_table s c k \<or> c = d \<and> k = i"
    "table_of s' c k = (if c = d \<and> k = i then t else table_of s c k)"
proof -
  have "t \<noteq> c" using adds_tableD(7) [OF ad] structI(1) [OF c, of s] by auto
  then show w: "phys_mem s' c k =
      (if c = d \<and> k = i then t OR PAGE_PRESENT OR PAGE_WRITE OR PAGE_USER else phys_mem s c k)"
    using ad by (simp add: adds_table_def)
  note te = table_entry [OF pmm_frame_aligned [OF adds_tableD(4) [OF ad]]]
  show "has_table s' c k \<longleftrightarrow> has_table s c k \<or> c = d \<and> k = i"
    using w te(2) ad unfolding has_table_def adds_table_def by auto
  show "table_of s' c k = (if c = d \<and> k = i then t else table_of s c k)"
    using w te(1) by (simp add: table_of_def)
qed

lemma adds_table_pte:
  assumes ad: "adds_table D s d i t s'" and c: "c \<in> D"
  shows "user_pte s' c q = user_pte s c q"
proof (cases "has_table s c (pd_index_of q)")
  case True
  then have "\<not> (c = d \<and> pd_index_of q = i)" using adds_tableD(3) [OF ad] by auto
  then have "table_of s' c (pd_index_of q) = table_of s c (pd_index_of q)" "has_table s' c (pd_index_of q)"
    using adds_table_words [OF ad c] True by auto
  moreover have "t \<noteq> table_of s c (pd_index_of q)" using adds_tableD(7) [OF ad] structI(2) [OF c True] by auto
  moreover have "table_of s c (pd_index_of q) \<noteq> d"
    by (rule table_ne_dir [OF adds_tableD(1) [OF ad] c adds_tableD(2) [OF ad] True])
  ultimately show ?thesis using True ad by (auto simp: user_pte_def adds_table_def)
next
  case False
  have z: "phys_mem s' t k = 0" for k
    using ad adds_tableD(7) [OF ad] structI(1) [OF adds_tableD(2) [OF ad], of s] by (auto simp: adds_table_def)
  show ?thesis
    using False z adds_table_words [OF ad c, of "pd_index_of q"] by (auto simp: user_pte_def split: if_splits)
qed

lemma adds_table_structs:
  assumes ad: "adds_table D s d i t s'"
  shows "structs s' D = insert t (structs s D)" "inj_on (struct_at s') (struct_keys s' D)"
proof -
  note d = adds_tableD(2,3) [OF ad] and w = adds_table_words [OF ad]
  have keys: "struct_keys s' D = insert (d, Some i) (struct_keys s D)"
    using w(2) d(1) by (auto simp: struct_keys_def split: option.splits)
  have kd: "(d, Some i) \<notin> struct_keys s D" using d(2) by (simp add: struct_keys_def)
  have at: "struct_at s' k = struct_at s k" if "k \<in> struct_keys s D" for k
    using that w(3) kd by (cases k; cases "snd k") (auto simp: struct_keys_def)
  have atd: "struct_at s' (d, Some i) = t" using w(3) [OF d(1)] by simp
  have im: "struct_at s' ` struct_keys s D = structs s D"
    unfolding structs_def using at by (intro image_cong) auto
  show "structs s' D = insert t (structs s D)"
    unfolding structs_def [of s'] keys image_insert atd im ..
  have "inj_on (struct_at s') (struct_keys s D)"
    using spaces_okD(3) [OF adds_tableD(1) [OF ad]] at by (simp cong: inj_on_cong)
  then show "inj_on (struct_at s') (struct_keys s' D)"
    unfolding keys inj_on_insert using im adds_tableD(7) [OF ad] atd kd by simp
qed

lemma adds_table_ok:
  assumes ad: "adds_table D s d i t s'"
  shows "spaces_ok s' D"
proof -
  note ok = adds_tableD(1) [OF ad] and p = adds_tableD(8-10) [OF ad] and st = adds_table_structs [OF ad]
  have m: "mapped s' D f = mapped s D f" for f by (rule mapped_same_pte [OF adds_table_pte [OF ad]])
  have stf: "f \<in> pmm_frames (pg_pmm s') \<and> 0 < frame_refs (pg_pmm s') f \<and> mapped s' D f = {}"
    if "f \<in> structs s' D" for f
    using that unfolding st m using adds_tableD(4,6) [OF ad] p spaces_okD(4-6) [OF ok, of f] by auto
  note te = table_entry [OF pmm_frame_aligned [OF adds_tableD(4) [OF ad]]]
  have ub: "bit (phys_mem s' c k) 2" if "c \<in> D" "has_table s' c k" for c k
    using spaces_okD(7) [OF ok that(1), of k] that adds_table_words [OF ad that(1)] te(3) by auto
  have refs: "card (mapped s' D f) \<le> frame_refs (pg_pmm s') f" if "paging_phys_is_pmm_frame f" for f
    unfolding m p(3) using spaces_okD(9) [OF ok that] adds_tableD(6) [OF ad] by auto
  have "kernel_page_directory s' = kernel_page_directory s" using ad by (simp add: adds_table_def)
  then show ?thesis unfolding spaces_ok_def
    using spaces_okD(1) [OF ok] spaces_okD(8) [OF ok] p(1) st(2) stf ub refs by simp
qed

text \<open>Clearing the entry of a table that maps nothing.\<close>

definition drops_table :: "u32 set \<Rightarrow> paging \<Rightarrow> u32 \<Rightarrow> nat \<Rightarrow> paging \<Rightarrow> bool" where
  "drops_table D s d i s' \<longleftrightarrow> spaces_ok s D \<and> d \<in> D \<and> has_table s d i \<and>
     (\<forall>j < 1024. \<not> bit (phys_mem s (table_of s d i) j) 0) \<and>
     phys_mem s' = (phys_mem s)(d := (phys_mem s d)(i := 0)) \<and>
     kernel_page_directory s' = kernel_page_directory s \<and>
     pmm_inv (pg_pmm s') \<and> pmm_frames (pg_pmm s') = pmm_frames (pg_pmm s) \<and>
     frame_refs (pg_pmm s') =
       (frame_refs (pg_pmm s))(table_of s d i := frame_refs (pg_pmm s) (table_of s d i) - 1)"

lemma drops_table_words:
  assumes dr: "drops_table D s d i s'"
  shows "phys_mem s' c k = (if c = d \<and> k = i then 0 else phys_mem s c k)"
    "has_table s' c k \<longleftrightarrow> has_table s c k \<and> \<not> (c = d \<and> k = i)"
    "\<not> (c = d \<and> k = i) \<Longrightarrow> table_of s' c k = table_of s c k"
  using dr by (auto simp: drops_table_def has_table_def table_of_def)

lemma drops_table_pte:
  assumes dr: "drops_table D s d i s'" and c: "c \<in> D"
  shows "user_pte s' c q = user_pte s c q"
proof (cases "has_table s c (pd_index_of q) \<and> \<not> (c = d \<and> pd_index_of q = i)")
  case True
  then have "has_table s' c (pd_index_of q)" "table_of s' c (pd_index_of q) = table_of s c (pd_index_of q)"
    using drops_table_words [OF dr] by auto
  moreover have "table_of s c (pd_index_of q) \<noteq> d"
    using table_ne_dir [of s D c d] dr c True by (auto simp: drops_table_def)
  ultimately show ?thesis using True dr by (auto simp: user_pte_def drops_table_def)
next
  case False
  then have n: "\<not> has_table s' c (pd_index_of q)" using drops_table_words(2) [OF dr] by blast
  have "\<not> bit (phys_mem s (table_of s d i) (pt_index_of q)) 0"
    using dr index_bounds(2) [of q] by (simp add: drops_table_def)
  then have "user_pte s c q = 0" using False by (auto simp: user_pte_def)
  then show ?thesis using n by (simp add: user_pte_def)
qed

lemma drops_table_structs:
  assumes dr: "drops_table D s d i s'"
  shows "structs s' D = structs s D - {table_of s d i}" "inj_on (struct_at s') (struct_keys s' D)"
proof -
  have d: "d \<in> D" "has_table s d i" "spaces_ok s D" using dr by (auto simp: drops_table_def)
  note w = drops_table_words [OF dr] and inj = spaces_okD(3) [OF d(3)]
  have keys: "struct_keys s' D = struct_keys s D - {(d, Some i)}"
    using w(2) by (auto simp: struct_keys_def split: option.splits)
  have kd: "(d, Some i) \<in> struct_keys s D" using d by (simp add: struct_keys_def)
  have at: "struct_at s' k = struct_at s k" if "k \<in> struct_keys s D - {(d, Some i)}" for k
    using that w(3) by (cases k; cases "snd k") auto
  have "structs s' D = struct_at s ` (struct_keys s D - {(d, Some i)})"
    unfolding structs_def keys using at by (intro image_cong) auto
  also have "\<dots> = structs s D - {table_of s d i}"
    using inj_on_image_set_diff [OF inj Diff_subset, of "struct_keys s D - {(d, Some i)}"] kd
      inj_on_image_set_diff [OF inj, of "struct_keys s D" "{(d, Some i)}"] by (simp add: structs_def)
  finally show "structs s' D = structs s D - {table_of s d i}" .
  have "inj_on (struct_at s) (struct_keys s D - {(d, Some i)})" by (rule inj_on_subset [OF inj]) auto
  then show "inj_on (struct_at s') (struct_keys s' D)" unfolding keys
    using inj_on_cong [of "struct_keys s D - {(d, Some i)}" "struct_at s'" "struct_at s"] at by blast
qed

lemma drops_table_ok:
  assumes dr: "drops_table D s d i s'"
  shows "spaces_ok s' D"
proof -
  have ok: "spaces_ok s D" and d: "d \<in> D" "has_table s d i" using dr by (simp_all add: drops_table_def)
  have p: "pmm_inv (pg_pmm s')" "pmm_frames (pg_pmm s') = pmm_frames (pg_pmm s)"
    "f \<noteq> table_of s d i \<Longrightarrow> frame_refs (pg_pmm s') f = frame_refs (pg_pmm s) f" for f
    using dr by (simp_all add: drops_table_def)
  note st = drops_table_structs [OF dr]
  have m: "mapped s' D f = mapped s D f" for f by (rule mapped_same_pte [OF drops_table_pte [OF dr]])
  have stf: "f \<in> pmm_frames (pg_pmm s') \<and> 0 < frame_refs (pg_pmm s') f \<and> mapped s' D f = {}"
    if "f \<in> structs s' D" for f
    using that unfolding st m p(2) using p(3) [of f] spaces_okD(4-6) [OF ok, of f] by auto
  have ub: "bit (phys_mem s' c k) 2" if "c \<in> D" "has_table s' c k" for c k
    using spaces_okD(7) [OF ok that(1), of k] that drops_table_words [OF dr, of c k] by auto
  have refs: "card (mapped s' D f) \<le> frame_refs (pg_pmm s') f" if "paging_phys_is_pmm_frame f" for f
    unfolding m using spaces_okD(9) [OF ok that] p(3) [of f] spaces_okD(6) [OF ok structI(2) [OF d]]
    by (cases "f = table_of s d i") auto
  have "kernel_page_directory s' = kernel_page_directory s" using dr by (simp add: drops_table_def)
  then show ?thesis unfolding spaces_ok_def
    using spaces_okD(1) [OF ok] spaces_okD(8) [OF ok] p(1) st(2) stf ub refs by simp
qed

section \<open>One page\<close>

text \<open>
  What changing the entry of one user page to \<open>w\<close> means: no other page of any address space changes, the
  spaces stay well formed, and no frame in use but the page tables is written.
\<close>

definition page_update :: "u32 set \<Rightarrow> paging \<Rightarrow> u32 \<Rightarrow> u32 \<Rightarrow> u32 \<Rightarrow> paging \<Rightarrow> bool" where
  "page_update D s d p w s' \<longleftrightarrow> spaces_ok s' D \<and>
     (\<forall>e \<in> D. user_pte s' e = (if e = d then (user_pte s d)(p := w) else user_pte s e)) \<and>
     (\<forall>e \<in> D - {d}. phys_mem s' e = phys_mem s e) \<and>
     (\<forall>f. f \<notin> structs s D \<and> (f \<in> pmm_frames (pg_pmm s) \<longrightarrow> 0 < frame_refs (pg_pmm s) f) \<longrightarrow>
        phys_mem s' f = phys_mem s f) \<and> pmm_frames (pg_pmm s') = pmm_frames (pg_pmm s)"

lemma page_updateI:
  assumes "spaces_ok s' D" "\<And>e q. e \<in> D \<Longrightarrow> user_pte s' e q = (if e = d \<and> q = p then w else user_pte s e q)"
    "\<And>e. e \<in> D \<Longrightarrow> e \<noteq> d \<Longrightarrow> phys_mem s' e = phys_mem s e"
    "\<And>f. f \<notin> structs s D \<Longrightarrow> (f \<in> pmm_frames (pg_pmm s) \<Longrightarrow> 0 < frame_refs (pg_pmm s) f) \<Longrightarrow>
      phys_mem s' f = phys_mem s f"
    "pmm_frames (pg_pmm s') = pmm_frames (pg_pmm s)"
  shows "page_update D s d p w s'"
  using assms by (auto simp: page_update_def fun_eq_iff)

lemma page_update_none: "spaces_ok s D \<Longrightarrow> user_pte s d p = w \<Longrightarrow> page_update D s d p w s"
  by (rule page_updateI) auto

lemma page_aligned_page [simp]: "page_aligned (v AND NOT (PAGE_SIZE - 1))"
  using page_aligned_floor [of v] by (simp add: PAGE_SIZE_def)

lemma user_pte_no_table: "\<not> has_table s d (pd_index_of p) \<Longrightarrow> user_pte s d p = 0"
  by (simp add: user_pte_def)

lemma user_pte_table:
  assumes "has_table s d (pd_index_of v)"
  shows "user_pte s d (v AND NOT (PAGE_SIZE - 1)) =
    (let e = phys_mem s (table_of s d (pd_index_of v)) (pt_index_of v) in if bit e 0 then e else 0)"
  using assms by (simp add: user_pte_def Let_def)

text \<open>The lookup.\<close>

lemma page_get:
  assumes ok: "spaces_ok s D" and d: "d \<in> D"
  shows "paging_user_page_get d v s =
    Some (let e = user_pte s d (v AND NOT (PAGE_SIZE - 1)) in
          if user_present e then Some (frame_of e, e AND 0xFFF) else None)"
proof (cases "has_table s d (pd_index_of v)")
  case True
  have "bit (phys_mem s d (pd_index_of v)) 2" by (rule spaces_okD(7) [OF ok d True])
  then show ?thesis
    using True dir_virt [OF ok d] user_pte_table [OF True]
    by (auto simp: paging_user_page_get_def has_table_def table_of_def Let_def)
next
  case False
  then show ?thesis
    using dir_virt [OF ok d] user_pte_no_table [of s d "v AND NOT (PAGE_SIZE - 1)"]
    by (auto simp: paging_user_page_get_def has_table_def Let_def)
qed

lemma page_present:
  assumes "spaces_ok s D" "d \<in> D"
  shows "paging_user_page_present d v s = Some (user_page_present (user_pte s d) (v AND NOT (PAGE_SIZE - 1)))"
  using page_get [OF assms] by (simp add: paging_user_page_present_def user_page_present_def Let_def)

text \<open>Changing flags.\<close>

lemma frame_of_zero: "frame_of g = 0 \<Longrightarrow> 12 \<le> i \<Longrightarrow> \<not> bit g i"
  using bit_frame_of [of g i] by auto

lemma frame_of_set_flags:
  assumes "frame_of c = 0" "frame_of g = 0"
  shows "frame_of ((e AND NOT c) OR g OR PAGE_PRESENT OR PAGE_USER) = frame_of e"
    "bit ((e AND NOT c) OR g OR PAGE_PRESENT OR PAGE_USER) 0"
    "bit ((e AND NOT c) OR g OR PAGE_PRESENT OR PAGE_USER) 2"
proof -
  show "frame_of ((e AND NOT c) OR g OR PAGE_PRESENT OR PAGE_USER) = frame_of e"
    using frame_of_zero [OF assms(1)] frame_of_zero [OF assms(2)]
    by (intro bit_eqI) (auto simp: bit_or_iff bit_and_iff bit_not_iff dest: bit_imp_le_length)
qed (simp_all add: bit_or_iff)

lemma mapped_at:
  assumes "d \<in> D" "user_present (user_pte s d p)"
  shows "(d, p) \<in> mapped s D f \<longleftrightarrow> frame_of (user_pte s d p) = f"
  using assms by (simp add: mapped_def)

lemma mapped_not_struct:
  assumes "spaces_ok s D" "d \<in> D" "user_present (user_pte s d p)" "f \<in> structs s D"
  shows "frame_of (user_pte s d p) \<noteq> f"
  using spaces_okD(6) [OF assms(1,4)] mapped_at [OF assms(2,3), of f] by auto

text \<open>Writing an entry that maps the same frame with the same access to the page needs no count.\<close>

lemma rewrite_entry:
  assumes ok: "spaces_ok s D" and d: "d \<in> D" "has_table s d (pd_index_of p)" "page_aligned p"
    and u: "user_present (user_pte s d p)" and w: "bit w 0" "bit w 2" "frame_of w = frame_of (user_pte s d p)"
  shows "page_update D s d p w (set_word (table_of s d (pd_index_of p)) (pt_index_of p) w s)"
proof -
  let ?s' = "set_word (table_of s d (pd_index_of p)) (pt_index_of p) w s"
  have s': "phys_mem ?s' f =
      (if f = table_of s d (pd_index_of p) then (phys_mem s f)(pt_index_of p := w) else phys_mem s f)"
    "kernel_page_directory ?s' = kernel_page_directory s" for f by simp_all
  have fin: "finite (mapped s D f)" for f by (rule finite_mapped [OF spaces_okD(1) [OF ok]])
  have "spaces_ok ?s' D"
  proof (rule write_entry_ok [OF ok d s'])
    show "0 < frame_refs (pg_pmm ?s') f \<and> (bit w 0 \<and> bit w 2 \<longrightarrow> frame_of w \<noteq> f)" if "f \<in> structs s D" for f
      using spaces_okD(5) [OF ok that] mapped_not_struct [OF ok d(1) u that] w(3) by simp
    show "card (mapped s D f - {(d, p)}) + (if bit w 0 \<and> bit w 2 \<and> frame_of w = f then 1 else 0)
        \<le> frame_refs (pg_pmm ?s') f" if "paging_phys_is_pmm_frame f" for f
      using spaces_okD(9) [OF ok that] mapped_at [OF d(1) u, of f] w fin [of f] card_Suc_Diff1 [OF fin [of f]]
      by (auto simp: card_Diff_singleton_if)
  qed (use spaces_okD(2) [OF ok] in simp_all)
  moreover have "table_of s d (pd_index_of p) \<in> structs s D" by (rule structI(2) [OF d(1,2)])
  ultimately show ?thesis
    using write_entry(2) [OF ok d s'] w(1) table_not_dir [OF ok d(1,2)] by (intro page_updateI) auto
qed

lemma page_set_flags:
  assumes ok: "spaces_ok s D" and d: "d \<in> D" and fl: "frame_of c = 0" "frame_of g = 0"
    and p: "p = v AND NOT (PAGE_SIZE - 1)"
  shows "\<exists>s'. paging_user_page_set_flags d v c g s = Some (user_page_present (user_pte s d) p, s') \<and>
    page_update D s d p (user_page_set_flags (user_pte s d) p c g p) s' \<and> pg_kmem s' = pg_kmem s"
proof (cases "user_present (user_pte s d p)")
  case True
  then have "user_pte s d p \<noteq> 0" by auto
  then have ht: "has_table s d (pd_index_of p)" using user_pte_no_table by blast
  have e: "phys_mem s (table_of s d (pd_index_of p)) (pt_index_of p) = user_pte s d p"
    using True by (auto simp: user_pte_def p)
  have "bit (phys_mem s d (pd_index_of p)) 2" by (rule spaces_okD(7) [OF ok d ht])
  then have "paging_user_page_set_flags d v c g s = Some (True, set_word (table_of s d (pd_index_of p)) (pt_index_of p)
      ((user_pte s d p AND NOT c) OR g OR PAGE_PRESENT OR PAGE_USER) s)"
    using True ht dir_virt [OF ok d] e unfolding has_table_def table_of_def
    by (auto simp: paging_user_page_set_flags_def Let_def p)
  moreover have "page_aligned p" by (simp add: p)
  ultimately show ?thesis
    using rewrite_entry [OF ok d ht _ True] frame_of_set_flags [OF fl, of "user_pte s d p"] True
    by (simp add: user_page_set_flags_def user_page_present_def)
next
  case False
  then have n: "\<not> user_page_present (user_pte s d) p" by (simp add: user_page_present_def)
  have "paging_user_page_set_flags d v c g s = Some (False, s)"
    using False dir_virt [OF ok d] user_pte_table [of s d v] unfolding has_table_def table_of_def
    by (auto simp: paging_user_page_set_flags_def Let_def p split: if_splits)
  then show ?thesis using n page_update_none [OF ok] by (simp add: user_page_set_flags_def)
qed

text \<open>Copy on write.\<close>

lemma refcount_refs:
  assumes "pmm_inv p" "page_aligned f"
  shows "unat (pmm_frame_refcount p f) = frame_refs p f"
proof -
  have "unat (ucast (x :: u16) :: u32) = unat x" for x
    using unsigned_less [of x, where 'a = nat] by (simp add: unsigned_ucast_eq take_bit_nat_eq_self)
  then show ?thesis using addr_to_idx_bound [OF pmm_inv_wf [OF assms(1)], of f] assms(2)
    by (auto simp: pmm_frame_refcount_def frame_refs_def pmm_managed_def pmm_refs_def not_less)
qed

definition cow_entry :: "u32 \<Rightarrow> bool" where
  "cow_entry e \<longleftrightarrow> bit e 0 \<and> bit e 2 \<and> bit e 10 \<and> \<not> bit e 1 \<and> paging_phys_is_pmm_frame (frame_of e)"

definition cow_flags :: "u32 \<Rightarrow> u32" where
  "cow_flags e = ((e AND 0xFFF) OR PAGE_WRITE) AND NOT PAGE_COW AND NOT PAGE_SHARED_RO_FILE"

lemma cow_entry_new:
  assumes "page_aligned f" "cow_entry e"
  shows "frame_of (f OR cow_flags e) = f" "bit (f OR cow_flags e) 0" "bit (f OR cow_flags e) 2"
    "bit (f OR cow_flags e) 1" "\<not> bit (f OR cow_flags e) 9" "\<not> bit (f OR cow_flags e) 10"
proof -
  have b: "bit (cow_flags e) i \<longleftrightarrow> i < 12 \<and> (bit e i \<or> i = 1) \<and> i \<noteq> 10 \<and> i \<noteq> 9" for i
    unfolding cow_flags_def bit_and_iff bit_or_iff bit_not_iff bit_page_flags bit_offset_mask
    by (auto dest: bit_imp_le_length)
  show "frame_of (f OR cow_flags e) = f" by (rule frame_of_or [OF assms(1)]) (simp add: b)
qed (use assms in \<open>simp_all add: cow_entry_def page_aligned_bits cow_flags_def bit_or_iff bit_and_iff bit_not_iff\<close>)

lemma cow_cases:
  assumes ok: "spaces_ok s D" and d: "d \<in> D" and p: "p = v AND NOT (PAGE_SIZE - 1)" and e: "e = user_pte s d p"
    and t: "t = table_of s d (pd_index_of p)"
  shows "paging_resolve_cow_fault d v s =
    (if \<not> cow_entry e then Some (False, s)
     else if frame_refs (pg_pmm s) (frame_of e) \<le> 1
     then Some (True, set_word t (pt_index_of p) (frame_of e OR cow_flags e) s)
     else case pmm_alloc_frame (pg_pmm s) of (a, q) \<Rightarrow>
       if a = 0 then Some (False, s)
       else let s1 = set_word t (pt_index_of p) (a OR cow_flags e) (set_frame a (phys_mem s (frame_of e)) (set_pmm q s))
            in Some (True, set_pmm (pmm_release_frame (pg_pmm s1) (frame_of e)) s1))"
proof (cases "has_table s d (pd_index_of p)")
  case ht: True
  have m: "paging_phys_to_kernel_virt a \<noteq> None" if "pmm_alloc_frame (pg_pmm s) = (a, q)" "a \<noteq> 0" for a q
  proof -
    have "a \<in> pmm_frames (pg_pmm s)" using pmm_pool.alloc_frame [OF spaces_okD(2) [OF ok] that] by blast
    then show ?thesis using pmm_frame_in_range [OF spaces_okD(2) [OF ok]] by (simp add: paging_phys_to_kernel_virt_def)
  qed
  have r: "pmm_frame_refcount (pg_pmm s) (frame_of e) \<le> 1 \<longleftrightarrow> frame_refs (pg_pmm s) (frame_of e) \<le> 1" for e
    using refcount_refs [OF spaces_okD(2) [OF ok], of "frame_of e"] by (simp add: word_le_nat_alt)
  define x where "x = phys_mem s t (pt_index_of p)"
  have e': "e = (if bit x 0 then x else 0)" using user_pte_table [of s d v] ht by (simp add: e p t x_def Let_def)
  have pde: "bit (phys_mem s d (pd_index_of v)) 0" "paging_pd_index_is_user (pd_index_of v)"
    using ht by (auto simp: has_table_def p)
  have unf: "paging_resolve_cow_fault d v s =
    (if \<not> (bit x 0 \<and> bit x 2 \<and> bit x 10) then Some (False, s) else if bit x 1 then Some (False, s)
     else if \<not> paging_phys_is_pmm_frame (frame_of x) then Some (False, s)
     else if frame_refs (pg_pmm s) (frame_of x) \<le> 1 then Some (True, set_word t (pt_index_of p) (frame_of x OR cow_flags x) s)
     else let (a, q) = pmm_alloc_frame (pg_pmm s) in
       if a = 0 then Some (False, s)
       else map_option (\<lambda>_. let s1 = set_word t (pt_index_of p) (a OR cow_flags x) (set_frame a (phys_mem s (frame_of x)) (set_pmm q s))
            in (True, set_pmm (pmm_release_frame (pg_pmm s1) (frame_of x)) s1)) (paging_phys_to_kernel_virt a))"
    unfolding paging_resolve_cow_fault_def dir_virt(1) [OF ok d] Let_def page_floor_indices option.case
      x_def t table_of_def p cow_flags_def [symmetric] r cow_test_iff flag_tests
    using dir_virt(2) [OF ok d] pde by simp
  show ?thesis
  proof (cases "cow_entry e")
    case True
    then have "e = x" using e' by (auto simp: cow_entry_def)
    then show ?thesis using True m unfolding unf by (auto simp: cow_entry_def Let_def split: prod.split)
  next
    case False
    then have "\<not> (bit x 0 \<and> bit x 2 \<and> bit x 10) \<or> bit x 1 \<or> \<not> paging_phys_is_pmm_frame (frame_of x)"
      using e' by (auto simp: cow_entry_def)
    then show ?thesis using False unfolding unf by auto
  qed
next
  case False
  then have "e = 0" using user_pte_no_table e by blast
  then show ?thesis using False dir_virt [OF ok d]
    by (auto simp: paging_resolve_cow_fault_def has_table_def p cow_entry_def Let_def)
qed

lemma user_pte_has_table:
  assumes "bit (user_pte s d p) n"
  shows "has_table s d (pd_index_of p)" "page_aligned p"
proof -
  have "user_pte s d p \<noteq> 0" using assms by auto
  then show "has_table s d (pd_index_of p)" "page_aligned p" by (auto simp: user_pte_def split: if_splits)
qed

text \<open>What a resolved fault leaves: the page alone maps its frame, writable, with the contents it had.\<close>

definition cow_resolved :: "u32 set \<Rightarrow> paging \<Rightarrow> u32 \<Rightarrow> u32 \<Rightarrow> paging \<Rightarrow> bool" where
  "cow_resolved D s d p s' \<longleftrightarrow>
     (let e' = user_pte s' d p in
      bit e' 0 \<and> bit e' 1 \<and> bit e' 2 \<and> \<not> bit e' 9 \<and> \<not> bit e' 10 \<and>
      mapped s' D (frame_of e') = {(d, p)} \<and> frame_refs (pg_pmm s') (frame_of e') = 1 \<and>
      phys_mem s' (frame_of e') = phys_mem s (frame_of (user_pte s d p)) \<and> page_update D s d p e' s')"

lemma cow_inplace:
  assumes ok: "spaces_ok s D" and d: "d \<in> D" and c: "cow_entry (user_pte s d p)"
    and one: "frame_refs (pg_pmm s) (frame_of (user_pte s d p)) \<le> 1"
  shows "cow_resolved D s d p (set_word (table_of s d (pd_index_of p)) (pt_index_of p)
    (frame_of (user_pte s d p) OR cow_flags (user_pte s d p)) s)"
proof -
  define e f w where "e = user_pte s d p" and "f = frame_of e" and "w = f OR cow_flags e"
  let ?s' = "set_word (table_of s d (pd_index_of p)) (pt_index_of p) w s"
  have b: "bit e 0" "bit e 2" and fr: "paging_phys_is_pmm_frame f" using c by (simp_all add: cow_entry_def e_def f_def)
  note n = cow_entry_new [OF page_aligned_frame_of c, of e, folded e_def, folded f_def, folded w_def]
  note ht = user_pte_has_table [of s d p, folded e_def, OF b(1)]
  have u: "page_update D s d p w ?s'"
    using rewrite_entry [OF ok d ht, of w] b n by (simp add: e_def [symmetric] f_def)
  then have pte: "user_pte s' d p = w" if "s' = ?s'" for s' using d that by (simp add: page_update_def)
  have ins: "(d, p) \<in> mapped s D f" using b d by (simp add: mapped_def e_def f_def)
  moreover have "card (mapped s D f) \<le> 1" using spaces_okD(9) [OF ok fr] one by (simp add: e_def f_def)
  moreover have "finite (mapped s D f)" by (rule finite_mapped [OF spaces_okD(1) [OF ok]])
  ultimately have m: "mapped s D f = {(d, p)}" using card_le_Suc0_iff_eq [of "mapped s D f"] by auto
  have m': "mapped ?s' D f = {(d, p)}"
    using mapped_write [of d D ?s' p w s f] u d n(1-3) m by (auto simp: page_update_def)
  have "frame_refs (pg_pmm s) f = 1" using spaces_okD(9) [OF ok fr] one m by (simp add: e_def f_def)
  moreover have "f \<noteq> table_of s d (pd_index_of p)"
    using mapped_not_struct [OF ok d _ structI(2) [OF d ht(1)], of p] b by (simp add: e_def f_def)
  ultimately show ?thesis
    unfolding cow_resolved_def Let_def e_def [symmetric] f_def [symmetric] w_def [symmetric] pte [OF refl]
    using n m' u by simp
qed

lemma cow_copy:
  assumes ok: "spaces_ok s D" and d: "d \<in> D" and c: "cow_entry (user_pte s d p)"
    and many: "1 < frame_refs (pg_pmm s) (frame_of (user_pte s d p))"
    and al: "pmm_alloc_frame (pg_pmm s) = (a, q)" "a \<noteq> 0"
    and s': "s' = set_pmm (pmm_release_frame q (frame_of (user_pte s d p)))
      (set_word (table_of s d (pd_index_of p)) (pt_index_of p) (a OR cow_flags (user_pte s d p))
        (set_frame a (phys_mem s (frame_of (user_pte s d p))) (set_pmm q s)))"
  shows "cow_resolved D s d p s'"
    "frame_refs (pg_pmm s') = (frame_refs (pg_pmm s))(a := 1, frame_of (user_pte s d p) :=
      frame_refs (pg_pmm s) (frame_of (user_pte s d p)) - 1)"
proof -
  define e f w t where "e = user_pte s d p" and "f = frame_of e" and "w = a OR cow_flags e"
    and "t = table_of s d (pd_index_of p)"
  note defs = e_def [symmetric] f_def [symmetric] w_def [symmetric] t_def [symmetric]
  have b: "bit e 0" "bit e 2" using c by (simp_all add: cow_entry_def e_def)
  note ht = user_pte_has_table [of s d p, folded e_def, OF b(1)]
  note a = pmm_pool.alloc_frame [OF spaces_okD(2) [OF ok] al]
  have ap: "page_aligned a" using a pmm_frame_aligned by blast
  have free: "mapped s D a = {}" "a \<notin> structs s D" using mapped_free [OF ok] a by auto
  have af: "a \<noteq> f" using a many unfolding defs by auto
  note n = cow_entry_new [OF ap c, folded e_def, folded w_def]
  have r: "frame_refs (pg_pmm s') = (frame_refs (pg_pmm s))(a := 1, f := frame_refs (pg_pmm s) f - 1)"
    "pmm_inv (pg_pmm s')" "pmm_frames (pg_pmm s') = pmm_frames (pg_pmm s)"
    using release_aligned [of q f] a af unfolding s' defs by (auto simp: f_def)
  then show "frame_refs (pg_pmm s') = (frame_refs (pg_pmm s))(a := 1, frame_of (user_pte s d p) :=
      frame_refs (pg_pmm s) (frame_of (user_pte s d p)) - 1)" unfolding defs by simp
  have ts: "t \<in> structs s D" unfolding t_def by (rule structI(2) [OF d ht(1)])
  have ft: "f \<noteq> t" using mapped_not_struct [OF ok d _ ts, of p] b unfolding defs by auto
  have pm: "phys_mem s' = (phys_mem s)(a := phys_mem s f, t := (phys_mem s t)(pt_index_of p := w))"
    using free(2) ts unfolding s' defs by (auto simp: fun_eq_iff)
  have w1: "phys_mem s' g = (if g = table_of s d (pd_index_of p) then (phys_mem s g)(pt_index_of p := w) else phys_mem s g)"
    if "g \<in> structs s D" for g using that free(2) unfolding defs by (auto simp: pm)
  have k: "kernel_page_directory s' = kernel_page_directory s" unfolding s' by simp
  have pte: "e' \<in> D \<Longrightarrow> user_pte s' e' x = (if e' = d \<and> x = p then w else user_pte s e' x)" for e' x
    using write_entry(2) [OF ok d ht w1 k] n(2) by simp
  have cnt: "card (mapped s D g - {(d, p)}) + (if bit w 0 \<and> bit w 2 \<and> frame_of w = g then 1 else 0)
      \<le> frame_refs (pg_pmm s') g" if "paging_phys_is_pmm_frame g" for g
    using spaces_okD(9) [OF ok that] mapped_at [OF d, of s p g] b finite_mapped [OF spaces_okD(1) [OF ok], of s g]
      free(1) n(1) af unfolding r(1) defs by (auto simp: card_Diff_singleton_if)
  have str: "0 < frame_refs (pg_pmm s') g \<and> (bit w 0 \<and> bit w 2 \<longrightarrow> frame_of w \<noteq> g)" if "g \<in> structs s D" for g
    using spaces_okD(5) [OF ok that] mapped_not_struct [OF ok d _ that, of p] b that free(2) n(1)
    unfolding r(1) defs by auto
  have ok': "spaces_ok s' D" by (rule write_entry_ok [OF ok d ht w1 k r(2,3) str cnt])
  have "page_update D s d p w s'"
    using ok' pte a ts r(3) structI(1) [of _ D s] free(2) table_not_dir [OF ok d ht(1)]
    by (intro page_updateI) (auto simp: pm t_def)
  moreover have "mapped s' D a = {(d, p)}" using mapped_write [OF d pte, of a] n free(1) by simp
  moreover have "user_pte s' d p = w" using pte d by simp
  ultimately show "cow_resolved D s d p s'"
    using n r(1) af ft free(2) ts unfolding cow_resolved_def Let_def defs by (auto simp: pm)
qed

text \<open>Mapping.\<close>

definition release_old :: "u32 \<Rightarrow> pmm \<Rightarrow> pmm" where
  "release_old e p = (if bit e 0 \<and> bit e 2 \<and> paging_phys_is_pmm_frame (frame_of e) then pmm_release_frame p (frame_of e) else p)"

lemma release_old:
  assumes "pmm_inv p"
  shows "pmm_inv (release_old e p)" "pmm_frames (release_old e p) = pmm_frames p"
    "frame_refs (release_old e p) g = frame_refs p g -
      (if bit e 0 \<and> bit e 2 \<and> paging_phys_is_pmm_frame (frame_of e) \<and> frame_of e = g then 1 else 0)"
  using release_aligned [OF assms page_aligned_frame_of, of e] assms by (auto simp: release_old_def)

text \<open>An entry may be written when its frame is the caller's to map: outside the manager, or with a reference to spare.\<close>

definition may_map :: "paging \<Rightarrow> u32 set \<Rightarrow> u32 \<Rightarrow> bool" where
  "may_map s D w \<longleftrightarrow> (bit w 0 \<and> bit w 2 \<longrightarrow> frame_of w \<notin> structs s D \<and>
     (paging_phys_is_pmm_frame (frame_of w) \<longrightarrow>
        card (mapped s D (frame_of w)) < frame_refs (pg_pmm s) (frame_of w)))"

lemma replace_entry:
  assumes ok: "spaces_ok s D" and d: "d \<in> D" "has_table s d (pd_index_of p)" "page_aligned p"
    and w: "may_map s D w"
    and s': "s' = set_word (table_of s d (pd_index_of p)) (pt_index_of p) w
      (set_pmm (release_old (user_pte s d p) (pg_pmm s)) s)"
  shows "page_update D s d p (if bit w 0 then w else 0) s'"
    "frame_refs (pg_pmm s') g = frame_refs (pg_pmm s) g -
      (if bit (user_pte s d p) 0 \<and> bit (user_pte s d p) 2 \<and>
          paging_phys_is_pmm_frame (frame_of (user_pte s d p)) \<and> frame_of (user_pte s d p) = g then 1 else 0)"
proof -
  let ?e = "user_pte s d p" and ?t = "table_of s d (pd_index_of p)"
  note r = release_old [OF spaces_okD(2) [OF ok], of ?e]
  have q: "pg_pmm s' = release_old ?e (pg_pmm s)" by (simp add: s')
  show "frame_refs (pg_pmm s') g = frame_refs (pg_pmm s) g -
      (if bit ?e 0 \<and> bit ?e 2 \<and> paging_phys_is_pmm_frame (frame_of ?e) \<and> frame_of ?e = g then 1 else 0)"
    unfolding q by (rule r(3))
  have pm: "phys_mem s' f = (if f = ?t then (phys_mem s f)(pt_index_of p := w) else phys_mem s f)" for f
    by (simp add: s')
  have k: "kernel_page_directory s' = kernel_page_directory s" by (simp add: s')
  have st: "0 < frame_refs (pg_pmm s') f \<and> (bit w 0 \<and> bit w 2 \<longrightarrow> frame_of w \<noteq> f)" if "f \<in> structs s D" for f
    using spaces_okD(5) [OF ok that] mapped_not_struct [OF ok d(1) _ that, of p] that w
    unfolding q r(3) may_map_def by auto
  have cnt: "card (mapped s D f - {(d, p)}) + (if bit w 0 \<and> bit w 2 \<and> frame_of w = f then 1 else 0)
      \<le> frame_refs (pg_pmm s') f" if f: "paging_phys_is_pmm_frame f" for f
  proof -
    have fin: "finite (mapped s D f)" by (rule finite_mapped [OF spaces_okD(1) [OF ok]])
    have "(d, p) \<in> mapped s D f \<longleftrightarrow> bit ?e 0 \<and> bit ?e 2 \<and> frame_of ?e = f" using d(1) by (simp add: mapped_def)
    then have "card (mapped s D f - {(d, p)}) + (if bit ?e 0 \<and> bit ?e 2 \<and> frame_of ?e = f then 1 else 0)
        = card (mapped s D f)"
      using card_Suc_Diff1 [OF fin, of "(d, p)"] by (cases "(d, p) \<in> mapped s D f") auto
    then show ?thesis using spaces_okD(9) [OF ok f] w f unfolding q r(3) may_map_def by (auto split: if_splits)
  qed
  have "spaces_ok s' D"
    by (rule write_entry_ok [OF ok d pm k _ _ st cnt]) (use r in \<open>simp_all add: q\<close>)
  then show "page_update D s d p (if bit w 0 then w else 0) s'"
    using write_entry(2) [OF ok d pm k] structI(2) [OF d(1,2)] table_not_dir [OF ok d(1,2)] r(2)
    by (intro page_updateI) (auto simp: pm q)
qed

lemma table_for:
  assumes ok: "spaces_ok s D" and d: "d \<in> D" "paging_pd_index_is_user i"
  obtains (present) "has_table s d i" "page_table_for (ProcessDirectory d) i s = Some (table_of s d i, s)"
  | (full) "\<not> has_table s d i" "page_table_for (ProcessDirectory d) i s = None"
      "\<And>f. f \<in> pmm_frames (pg_pmm s) \<Longrightarrow> frame_refs (pg_pmm s) f \<noteq> 0"
  | (new) t s1 where "page_table_for (ProcessDirectory d) i s = Some (t, s1)" "adds_table D s d i t s1"
proof -
  obtain t q where al: "pmm_alloc_frame (pg_pmm s) = (t, q)" by (cases "pmm_alloc_frame (pg_pmm s)")
  note virt = dir_virt(1) [OF ok d(1)] and inv = spaces_okD(2) [OF ok]
  show thesis
  proof (cases "has_table s d i")
    case True
    then show thesis using present virt by (simp add: page_table_for_def has_table_def table_of_def)
  next
    case False
    then have nb: "\<not> bit (phys_mem s d i) 0" using d(2) by (simp add: has_table_def)
    show thesis
    proof (cases "t = 0")
      case True
      then show thesis using full False nb virt al pmm_pool.alloc_full [OF inv, of q]
        by (simp add: page_table_for_def)
    next
      case t: False
      note a = pmm_pool.alloc_frame [OF inv al t]
      let ?s1 = "set_word d i (t OR PAGE_PRESENT OR PAGE_WRITE OR PAGE_USER) (set_frame t (\<lambda>_. 0) (set_pmm q s))"
      have "t \<notin> structs s D" using mapped_free(2) [OF ok] a by blast
      then have "t \<noteq> d" using structI(1) [OF d(1), of s] by auto
      then have "adds_table D s d i t ?s1"
        using ok d False a by (auto simp: adds_table_def fun_eq_iff)
      moreover have "page_table_for (ProcessDirectory d) i s = Some (t, ?s1)"
        using nb virt al t a pmm_frame_in_range [OF inv, of t]
        by (simp add: page_table_for_def set_pde_def paging_phys_to_kernel_virt_def)
      ultimately show thesis using new by blast
    qed
  qed
qed

lemma release_old_raw: "release_old (if bit e 0 then e else 0) p = release_old e p"
  by (simp add: release_old_def)

definition freed_ref :: "paging \<Rightarrow> u32 \<Rightarrow> u32 \<Rightarrow> u32 \<Rightarrow> nat" where
  "freed_ref s d p g =
     (if bit (user_pte s d p) 0 \<and> bit (user_pte s d p) 2 \<and>
         paging_phys_is_pmm_frame (frame_of (user_pte s d p)) \<and> frame_of (user_pte s d p) = g then 1 else 0)"

lemma map_with_table:
  assumes ok: "spaces_ok s D" and d: "d \<in> D" "has_table s d (pd_index_of v)"
    and tf: "page_table_for (ProcessDirectory d) (pd_index_of v) s0 = Some (table_of s d (pd_index_of v), s)"
    and w: "w = frame_of phys OR (flags OR PAGE_PRESENT)" "may_map s D w" and p: "p = v AND NOT (PAGE_SIZE - 1)"
  shows "\<exists>s'. paging_map_page (ProcessDirectory d) v phys flags s0 = Some s' \<and> page_update D s d p w s' \<and>
    structs s' D = structs s D \<and> (\<forall>g. frame_refs (pg_pmm s') g = frame_refs (pg_pmm s) g - freed_ref s d p g)"
proof -
  let ?t = "table_of s d (pd_index_of v)"
  let ?s' = "set_word ?t (pt_index_of v) w (set_pmm (release_old (user_pte s d p) (pg_pmm s)) s)"
  have "release_old (user_pte s d p) (pg_pmm s) = release_old (phys_mem s ?t (pt_index_of v)) (pg_pmm s)"
    using user_pte_table [OF d(2)] by (simp add: p Let_def release_old_raw)
  moreover have "set_pmm (pg_pmm s) s = s" by (simp add: set_pmm_def)
  ultimately have "paging_map_page (ProcessDirectory d) v phys flags s0 = Some ?s'"
    unfolding paging_map_page_def Let_def tf by (simp add: release_old_def pmm_free_frame_def w(1))
  moreover have "bit w 0" by (simp add: w(1) bit_or_iff)
  moreover have "structs ?s' D = structs s D"
    using table_not_dir [OF ok d] by (intro same_tables_structs(3)) (auto simp: same_tables_def)
  ultimately show ?thesis
    using replace_entry [OF ok d(1) _ _ w(2), of p ?s'] d(2) by (simp add: p freed_ref_def)
qed

lemma adds_table_may_map:
  assumes ad: "adds_table D s d i t s'" and w: "may_map s D w"
  shows "may_map s' D w"
proof -
  have "paging_phys_is_pmm_frame t"
    by (rule pmm_frame_in_range [OF spaces_okD(2) [OF adds_tableD(1) [OF ad]] adds_tableD(4) [OF ad]])
  then have "frame_of w \<noteq> t" if "bit w 0" "bit w 2" using w adds_tableD(5) [OF ad] that by (auto simp: may_map_def)
  moreover have "mapped s' D f = mapped s D f" for f by (rule mapped_same_pte [OF adds_table_pte [OF ad]])
  ultimately show ?thesis
    using w unfolding may_map_def adds_table_structs(1) [OF ad] adds_tableD(10) [OF ad] by auto
qed

lemma mapped_refs:
  assumes "spaces_ok s D" "d \<in> D" "user_present (user_pte s d p)" "paging_phys_is_pmm_frame (frame_of (user_pte s d p))"
  shows "0 < frame_refs (pg_pmm s) (frame_of (user_pte s d p))"
    "frame_of (user_pte s d p) \<in> pmm_frames (pg_pmm s)"
proof -
  have "(d, p) \<in> mapped s D (frame_of (user_pte s d p))" using assms(2,3) by (simp add: mapped_def)
  then have "0 < card (mapped s D (frame_of (user_pte s d p)))"
    using finite_mapped [OF spaces_okD(1) [OF assms(1)]] by (auto simp: card_gt_0_iff)
  then show "0 < frame_refs (pg_pmm s) (frame_of (user_pte s d p))"
    using spaces_okD(9) [OF assms(1,4)] by simp
  then show "frame_of (user_pte s d p) \<in> pmm_frames (pg_pmm s)" by (rule frame_refs_managed)
qed

lemma freed_ref_le:
  assumes "spaces_ok s D" "d \<in> D"
  shows "freed_ref s d p g \<le> frame_refs (pg_pmm s) g"
  using mapped_refs(1) [OF assms, of p] by (auto simp: freed_ref_def)

text \<open>Frames to spare for the table at an index of a directory, an existing table counting as one.\<close>

definition headroom :: "paging \<Rightarrow> u32 \<Rightarrow> nat \<Rightarrow> nat" where
  "headroom s d i =
     card {f \<in> pmm_frames (pg_pmm s). frame_refs (pg_pmm s) f = 0} + (if has_table s d i then 1 else 0)"

lemma headroom_mono:
  assumes "pmm_frames (pg_pmm s') = pmm_frames (pg_pmm s)" "\<And>g. frame_refs (pg_pmm s) g = 0 \<Longrightarrow> frame_refs (pg_pmm s') g = 0"
    "has_table s d i \<Longrightarrow> has_table s' d i"
  shows "headroom s d i \<le> headroom s' d i"
  unfolding headroom_def using assms by (intro add_mono card_mono) auto

lemma adds_table_headroom:
  assumes ad: "adds_table D s d i t s'"
  shows "headroom s' d i = headroom s d i"
proof -
  let ?F = "{f \<in> pmm_frames (pg_pmm s). frame_refs (pg_pmm s) f = 0}"
  have "{f \<in> pmm_frames (pg_pmm s'). frame_refs (pg_pmm s') f = 0} = ?F - {t}"
    using adds_tableD(9,10) [OF ad] by auto
  moreover have "t \<in> ?F" using adds_tableD(4,5) [OF ad] by simp
  moreover have "has_table s' d i" "\<not> has_table s d i"
    using adds_table_words(2) [OF ad adds_tableD(2) [OF ad]] adds_tableD(3) [OF ad] by auto
  ultimately show ?thesis using card_Suc_Diff1 [of ?F t] by (simp add: headroom_def)
qed

lemma page_map:
  assumes ok: "spaces_ok s D" and d: "d \<in> D" "paging_pd_index_is_user (pd_index_of v)"
    and w: "w = frame_of phys OR (flags OR PAGE_PRESENT)" "may_map s D w" and p: "p = v AND NOT (PAGE_SIZE - 1)"
  obtains (full) "paging_map_page (ProcessDirectory d) v phys flags s = None" "\<not> has_table s d (pd_index_of v)"
      "\<And>f. f \<in> pmm_frames (pg_pmm s) \<Longrightarrow> frame_refs (pg_pmm s) f \<noteq> 0"
  | (mapped) s' where "paging_map_page (ProcessDirectory d) v phys flags s = Some s'" "page_update D s d p w s'"
      "has_table s' d (pd_index_of v)"
      "\<And>g. 0 < frame_refs (pg_pmm s) g \<Longrightarrow> frame_refs (pg_pmm s') g = frame_refs (pg_pmm s) g - freed_ref s d p g"
      "headroom s d (pd_index_of v) \<le> headroom s' d (pd_index_of v)"
      "\<And>g. frame_refs (pg_pmm s') g + freed_ref s d p g + of_bool (g \<in> structs s D) =
         frame_refs (pg_pmm s) g + of_bool (g \<in> structs s' D)"
  using ok d
proof (cases rule: table_for)
  case present
  from map_with_table [OF ok d(1) present w p] obtain s' where
    s': "paging_map_page (ProcessDirectory d) v phys flags s = Some s'" "page_update D s d p w s'"
    "structs s' D = structs s D"
    "\<forall>g. frame_refs (pg_pmm s') g = frame_refs (pg_pmm s) g - freed_ref s d p g" by blast
  have "user_pte s' d p = w" using s'(2) d(1) by (simp add: page_update_def)
  then have ht: "has_table s' d (pd_index_of v)"
    using user_pte_has_table(1) [of s' d p 0] by (simp add: p w(1) bit_or_iff)
  have "headroom s d (pd_index_of v) \<le> headroom s' d (pd_index_of v)"
    by (rule headroom_mono) (use s' ht in \<open>simp_all add: page_update_def\<close>)
  then show thesis using mapped [OF s'(1,2) ht] s'(3,4) freed_ref_le [OF ok d(1), of p] by simp
next
  case full
  then show thesis using that(1) by (simp add: paging_map_page_def Let_def)
next
  case (new t s1)
  note ad = new(2)
  note pte = adds_table_pte [OF ad]
  have ht: "has_table s1 d (pd_index_of v)" "table_of s1 d (pd_index_of v) = t"
    using adds_table_words [OF ad d(1)] by auto
  from map_with_table [OF adds_table_ok [OF ad] d(1) ht(1) _ w(1) adds_table_may_map [OF ad w(2)] p, of s] new(1)
  obtain s' where s': "paging_map_page (ProcessDirectory d) v phys flags s = Some s'" "page_update D s1 d p w s'"
    "structs s' D = structs s1 D"
    "\<forall>g. frame_refs (pg_pmm s') g = frame_refs (pg_pmm s1) g - freed_ref s1 d p g" unfolding ht(2) by blast
  have "phys_mem s' f = phys_mem s f"
    if f: "f \<notin> structs s D" "f \<in> pmm_frames (pg_pmm s) \<Longrightarrow> 0 < frame_refs (pg_pmm s) f" for f
  proof -
    have "f \<noteq> t" "f \<noteq> d" using f adds_tableD(4,5) [OF ad] structI(1) [OF d(1), of s] by auto
    moreover from this have "phys_mem s' f = phys_mem s1 f"
      using s'(2) f ad unfolding page_update_def adds_table_structs(1) [OF ad] by (simp add: adds_table_def)
    ultimately show ?thesis using ad by (simp add: adds_table_def)
  qed
  moreover have "phys_mem s' e = phys_mem s e" if "e \<in> D" "e \<noteq> d" for e
    using that s'(2) adds_table_words(1) [OF ad that(1)] by (auto simp: page_update_def)
  ultimately have u: "page_update D s d p w s'"
    using s'(2) pte d(1) adds_tableD(9) [OF ad] by (intro page_updateI) (auto simp: page_update_def)
  have "frame_refs (pg_pmm s') g = frame_refs (pg_pmm s) g - freed_ref s d p g" if "0 < frame_refs (pg_pmm s) g" for g
    using that s'(4) adds_tableD(5,10) [OF ad] pte [OF d(1)] by (auto simp: freed_ref_def)
  moreover have "user_pte s' d p = w" using u d(1) by (simp add: page_update_def)
  then have ht': "has_table s' d (pd_index_of v)"
    using user_pte_has_table(1) [of s' d p 0] by (simp add: p w(1) bit_or_iff)
  have "headroom s1 d (pd_index_of v) \<le> headroom s' d (pd_index_of v)"
    by (rule headroom_mono) (use s' ht' in \<open>simp_all add: page_update_def\<close>)
  moreover have "frame_refs (pg_pmm s') g + freed_ref s d p g + of_bool (g \<in> structs s D) =
      frame_refs (pg_pmm s) g + of_bool (g \<in> structs s' D)" for g
    using s'(3,4) freed_ref_le [OF ok d(1), of p g] adds_tableD(5,7,10) [OF ad] pte [OF d(1)]
    by (auto simp: freed_ref_def adds_table_structs(1) [OF ad] split: if_splits)
  ultimately show thesis using mapped [OF s'(1) u ht'] adds_table_headroom [OF ad] by simp
qed

text \<open>Unmapping, with the release of a table that became empty.\<close>

lemma pt_empty_iff: "paging_pt_empty pt \<longleftrightarrow> (\<forall>j < 1024. \<not> bit (pt j) 0)"
  by (auto simp: paging_pt_empty_def list_all_iff PT_ENTRIES_def)

lemma page_update_drop:
  assumes u: "page_update D s d p w s1" and dr: "drops_table D s1 d i s'"
  shows "page_update D s d p w s'"
proof (rule page_updateI [OF drops_table_ok [OF dr]])
  have d: "d \<in> D" using dr by (simp add: drops_table_def)
  show "e \<in> D \<Longrightarrow> user_pte s' e q = (if e = d \<and> q = p then w else user_pte s e q)" for e q
    using drops_table_pte [OF dr, of e q] u by (auto simp: page_update_def)
  show "e \<in> D \<Longrightarrow> e \<noteq> d \<Longrightarrow> phys_mem s' e = phys_mem s e" for e
    using u dr by (simp add: page_update_def drops_table_def)
  show "phys_mem s' f = phys_mem s f"
    if "f \<notin> structs s D" "f \<in> pmm_frames (pg_pmm s) \<Longrightarrow> 0 < frame_refs (pg_pmm s) f" for f
  proof -
    have "f \<noteq> d" using structI(1) [OF d, of s] that by auto
    then show ?thesis using that u dr by (simp add: page_update_def drops_table_def)
  qed
  show "pmm_frames (pg_pmm s') = pmm_frames (pg_pmm s)" using u dr by (simp add: page_update_def drops_table_def)
qed

lemma page_unmap:
  assumes ok: "spaces_ok s D" and d: "d \<in> D" and p: "p = v AND NOT (PAGE_SIZE - 1)"
  shows "\<exists>s'. paging_unmap_user_page d v s = Some (bit (user_pte s d p) 0, s') \<and>
    (if bit (user_pte s d p) 0 then page_update D s d p 0 s' else s' = s) \<and>
    (\<forall>g. g \<notin> structs s D \<longrightarrow> frame_refs (pg_pmm s') g = frame_refs (pg_pmm s) g - freed_ref s d p g)"
proof (cases "bit (user_pte s d p) 0")
  case True
  define e t s1 where "e = user_pte s d p" and "t = table_of s d (pd_index_of p)"
    and "s1 = set_word t (pt_index_of p) 0 (set_pmm (release_old e (pg_pmm s)) s)"
  note ht = user_pte_has_table [OF True]
  have raw: "phys_mem s t (pt_index_of p) = e" using True ht by (auto simp: user_pte_def e_def t_def split: if_splits)
  have "bit (phys_mem s d (pd_index_of p)) 2" by (rule spaces_okD(7) [OF ok d ht(1)])
  then have ne: "phys_mem s d (pd_index_of p) \<noteq> kernel_page_directory s (pd_index_of p)"
    using spaces_okD(8) [OF ok, of "pd_index_of p"] ht(1) by (auto simp: has_table_def)
  note rp = replace_entry [OF ok d ht, of 0 s1, folded e_def t_def, OF _ s1_def]
  have u: "page_update D s d p 0 s1" and r: "frame_refs (pg_pmm s1) g = frame_refs (pg_pmm s) g - freed_ref s d p g" for g
    using rp by (simp_all add: may_map_def freed_ref_def e_def)
  have ok1: "spaces_ok s1 D" using u by (simp add: page_update_def)
  have dir: "phys_mem s1 c = phys_mem s c" if "c \<in> D" for c
    using table_not_dir [OF ok d ht(1)] that by (auto simp: s1_def t_def)
  have tb: "has_table s1 c i = has_table s c i" "table_of s1 c i = table_of s c i" if "c \<in> D" for c i
    using dir [OF that] by (simp_all add: has_table_def table_of_def)
  have ts: "t \<in> structs s D" unfolding t_def by (rule structI(2) [OF d ht(1)])
  have tr: "paging_phys_is_pmm_frame t"
    by (rule pmm_frame_in_range [OF spaces_okD(2) [OF ok] spaces_okD(4) [OF ok ts]])
  define s2 where "s2 = set_pmm (pmm_release_frame (pg_pmm s1) t) (set_word d (pd_index_of p) 0 s1)"
  have set_id: "set_pmm (pg_pmm s) s = s" by (simp add: set_pmm_def)
  have run: "paging_unmap_user_page d v s = Some (True, if paging_pt_empty (phys_mem s1 t) then s2 else s1)"
    using ht dir_virt [OF ok d] raw True ne tr set_id unfolding paging_unmap_user_page_def s2_def s1_def e_def t_def
    by (simp add: Let_def p has_table_def table_of_def release_old_def set_pmm_def set_word_def)
  show ?thesis
  proof (cases "paging_pt_empty (phys_mem s1 t)")
    case False
    then show ?thesis using run u True r by simp
  next
    case empty: True
    note rel = release_aligned [OF spaces_okD(2) [OF ok1], of t]
    have al: "page_aligned t" by (simp add: t_def table_of_def)
    have "drops_table D s1 d (pd_index_of p) s2"
      using ok1 d ht(1) tb [OF d] empty rel [OF al] unfolding pt_empty_iff
      by (simp add: drops_table_def s2_def t_def)
    then have "page_update D s d p 0 s2" by (rule page_update_drop [OF u])
    moreover have "frame_refs (pg_pmm s2) g = frame_refs (pg_pmm s) g - freed_ref s d p g" if "g \<notin> structs s D" for g
      using that ts rel(3) [OF al] r by (auto simp: s2_def)
    ultimately show ?thesis using run True empty by simp
  qed
next
  case False
  have "paging_unmap_user_page d v s = Some (False, s)"
    using False dir_virt [OF ok d] user_pte_table [of s d v] unfolding has_table_def table_of_def
    by (auto simp: paging_unmap_user_page_def Let_def p split: if_splits)
  then show ?thesis using False by (simp add: freed_ref_def)
qed

section \<open>The tables of a process as the memory areas use them\<close>

text \<open>
  The loops of \<^verbatim>\<open>process_vm_remove_range\<close> and \<^verbatim>\<open>process_vm_protect\<close> (\<^verbatim>\<open>src/kernel/process.c\<close>) over the pages of a
  range, on any tables that offer the three calls they make.
\<close>

fun vm_unmap_pages :: "(u32 \<Rightarrow> 's \<Rightarrow> (bool \<times> 's) option) \<Rightarrow> u32 list \<Rightarrow> 's \<Rightarrow> 's option" where
  "vm_unmap_pages unmap [] s = Some s"
| "vm_unmap_pages unmap (page # pages) s =
     (case unmap page s of None \<Rightarrow> None | Some (_, s) \<Rightarrow> vm_unmap_pages unmap pages s)"

fun vm_protect_pages :: "(u32 \<Rightarrow> 's \<Rightarrow> (u32 \<times> u32) option option) \<Rightarrow>
    (u32 \<Rightarrow> u32 \<Rightarrow> u32 \<Rightarrow> 's \<Rightarrow> (bool \<times> 's) option) \<Rightarrow> u32 \<Rightarrow> u32 list \<Rightarrow> 's \<Rightarrow> 's option" where
  "vm_protect_pages get set_flags prot [] s = Some s"
| "vm_protect_pages get set_flags prot (page # pages) s =
     (case get page s of
        None \<Rightarrow> None
      | Some None \<Rightarrow> vm_protect_pages get set_flags prot pages s
      | Some (Some (phys, flags)) \<Rightarrow>
          if prot AND PROCESS_VM_PROT_WRITE \<noteq> 0 then
            if flags AND PAGE_COW = 0 \<and> flags AND PAGE_SHARED_RO_FILE = 0
            then (case set_flags page 0 PAGE_WRITE s of
                    None \<Rightarrow> None | Some (_, s) \<Rightarrow> vm_protect_pages get set_flags prot pages s)
            else vm_protect_pages get set_flags prot pages s
          else (case set_flags page PAGE_WRITE 0 s of
                  None \<Rightarrow> None | Some (_, s) \<Rightarrow> vm_protect_pages get set_flags prot pages s))"

locale page_store =
  fixes ok :: "'s \<Rightarrow> bool"
    and view :: "'s \<Rightarrow> u32 \<Rightarrow> u32"
    and get :: "u32 \<Rightarrow> 's \<Rightarrow> (u32 \<times> u32) option option"
    and set_flags :: "u32 \<Rightarrow> u32 \<Rightarrow> u32 \<Rightarrow> 's \<Rightarrow> (bool \<times> 's) option"
    and unmap :: "u32 \<Rightarrow> 's \<Rightarrow> (bool \<times> 's) option"
  assumes get_law: "ok s \<Longrightarrow> page_aligned p \<Longrightarrow>
      get p s = Some (if user_page_present (view s) p then Some (frame_of (view s p), view s p AND 0xFFF) else None)"
    and set_flags_law: "ok s \<Longrightarrow> page_aligned p \<Longrightarrow> frame_of c = 0 \<Longrightarrow> frame_of g = 0 \<Longrightarrow>
      \<exists>s'. set_flags p c g s = Some (user_page_present (view s) p, s') \<and> ok s' \<and>
        view s' = user_page_set_flags (view s) p c g"
    and unmap_law: "ok s \<Longrightarrow> page_aligned p \<Longrightarrow>
      \<exists>r s'. unmap p s = Some (r, s') \<and> ok s' \<and> view s' = user_page_unmap (view s) p"
begin

lemma unmap_pages:
  "ok s \<Longrightarrow> list_all page_aligned pages \<Longrightarrow>
    \<exists>s'. vm_unmap_pages unmap pages s = Some s' \<and> ok s' \<and>
      view s' = fold (\<lambda>page ptes. user_page_unmap ptes page) pages (view s)"
proof (induction pages arbitrary: s)
  case (Cons p pages)
  from unmap_law [OF Cons.prems(1), of p] Cons.prems(2) obtain r s1 where
    s1: "unmap p s = Some (r, s1)" "ok s1" "view s1 = user_page_unmap (view s) p" by auto
  from Cons.IH [OF s1(2)] Cons.prems(2) s1 show ?case by simp
qed simp

lemma flag_bits: "(e AND 0xFFF) AND PAGE_COW = 0 \<longleftrightarrow> e AND PAGE_COW = 0"
  "(e AND 0xFFF) AND PAGE_SHARED_RO_FILE = 0 \<longleftrightarrow> e AND PAGE_SHARED_RO_FILE = 0"
  unfolding flag_tests by (simp_all only: bit_and_iff bit_offset_mask) simp_all

lemma flag_frames: "frame_of 0 = 0" "frame_of PAGE_WRITE = 0"
  by (simp_all add: frame_of_def PAGE_WRITE_def)

lemma protect_pages:
  "ok s \<Longrightarrow> list_all page_aligned pages \<Longrightarrow>
    \<exists>s'. vm_protect_pages get set_flags prot pages s = Some s' \<and> ok s' \<and>
      view s' = fold (protect_page prot) pages (view s)"
proof (induction pages arbitrary: s)
  case (Cons p pages)
  have al: "page_aligned p" "list_all page_aligned pages" using Cons.prems(2) by simp_all
  note set1 = set_flags_law [OF Cons.prems(1) al(1) flag_frames]
    and set2 = set_flags_law [OF Cons.prems(1) al(1) flag_frames(2,1)]
  show ?case
  proof (cases "user_page_present (view s) p")
    case False
    then show ?thesis using Cons.IH [OF Cons.prems(1) al(2)] get_law [OF Cons.prems(1) al(1)]
      by (simp add: protect_page_def)
  next
    case True
    obtain s1 where s1: "set_flags p 0 PAGE_WRITE s = Some (True, s1)" "ok s1"
      "view s1 = user_page_set_flags (view s) p 0 PAGE_WRITE" using set1 True by auto
    obtain s2 where s2: "set_flags p PAGE_WRITE 0 s = Some (True, s2)" "ok s2"
      "view s2 = user_page_set_flags (view s) p PAGE_WRITE 0" using set2 True by auto
    show ?thesis
      using True get_law [OF Cons.prems(1) al(1)] s1 s2 flag_bits [of "view s p"]
        Cons.IH [OF Cons.prems(1) al(2)] Cons.IH [OF s1(2) al(2)] Cons.IH [OF s2(2) al(2)]
      by (simp add: protect_page_def del: flag_tests)
  qed
qed simp

end

lemma page_floor_page: "page_aligned p \<Longrightarrow> p AND NOT (PAGE_SIZE - 1) = p"
  using frame_of_aligned [of p] by (simp add: frame_of_def PAGE_SIZE_def)

interpretation tables: page_store
  "\<lambda>s. d \<in> D \<and> spaces_ok s D \<and> (\<forall>e \<in> D - {d}. user_pte s e = V e)" "\<lambda>s. user_pte s d"
  "paging_user_page_get d" "paging_user_page_set_flags d" "paging_unmap_user_page d" for d D V
proof
  fix s p c g
  assume a: "d \<in> D \<and> spaces_ok s D \<and> (\<forall>e \<in> D - {d}. user_pte s e = V e)" and al: "page_aligned p"
  note fl = page_floor_page [OF al]
  show "paging_user_page_get d p s = Some (if user_page_present (user_pte s d) p
      then Some (frame_of (user_pte s d p), user_pte s d p AND 0xFFF) else None)"
    using page_get [of s D d p] a by (simp add: fl user_page_present_def Let_def)
  show "\<exists>s'. paging_user_page_set_flags d p c g s = Some (user_page_present (user_pte s d) p, s') \<and>
      (d \<in> D \<and> spaces_ok s' D \<and> (\<forall>e \<in> D - {d}. user_pte s' e = V e)) \<and>
      user_pte s' d = user_page_set_flags (user_pte s d) p c g" if "frame_of c = 0" "frame_of g = 0"
  proof -
    have "(user_pte s d)(p := user_page_set_flags (user_pte s d) p c g p) = user_page_set_flags (user_pte s d) p c g"
      by (auto simp: user_page_set_flags_def)
    then show ?thesis
      using page_set_flags [of s D d c g p p] a that fl by (auto simp: page_update_def)
  qed
  show "\<exists>r s'. paging_unmap_user_page d p s = Some (r, s') \<and>
      (d \<in> D \<and> spaces_ok s' D \<and> (\<forall>e \<in> D - {d}. user_pte s' e = V e)) \<and>
      user_pte s' d = user_page_unmap (user_pte s d) p"
    using page_unmap [of s D d p p] a fl by (auto simp: page_update_def user_page_unmap_def split: if_splits)
qed

section \<open>Properties\<close>

definition same_other_spaces :: "u32 set \<Rightarrow> u32 \<Rightarrow> paging \<Rightarrow> paging \<Rightarrow> bool" where
  "same_other_spaces D d s s' \<longleftrightarrow> (\<forall>e \<in> D - {d}. user_pte s' e = user_pte s e)"

text \<open>
  A process with one table, which maps a shared copy-on-write page at \<open>0x405000\<close>, in a machine of eight frames.
\<close>

definition paging_example :: paging where
  "paging_example =
     \<lparr>kernel_page_directory = \<lambda>_. 0,
      phys_mem = (\<lambda>_ _. 0)(0x200000 := (\<lambda>_. 0)(1 := 0x201007), 0x201000 := (\<lambda>_. 0)(5 := 0x202405)),
      pg_kmem = \<lparr>heap_current = 0x100000, heap_base = 0x100000, kpmm =
        \<lparr>s_bitmap = [7], s_refcount = [1, 1, 2, 0, 0, 0, 0, 0], s_bitmap_bytes = 1, s_managed_frames = 8, s_max_phys = 0x208000,
         s_free_count = 5, s_total_count = 8, s_next_free = 3, s_ready = True\<rparr>\<rparr>\<rparr>"

lemma user_index_range: "paging_pd_index_is_user i \<longleftrightarrow> 1 \<le> i \<and> i < 768"
proof -
  have "USER_PD_FIRST_INDEX = 1" "USER_PD_LIMIT_INDEX = 768" by code_simp+
  then show ?thesis by (simp add: paging_pd_index_is_user_def)
qed

lemma example_tables:
  "has_table paging_example 0x200000 i \<longleftrightarrow> i = 1" "table_of paging_example 0x200000 (Suc 0) = 0x201000"
proof -
  have "bit (0x201007 :: u32) 0" by code_simp
  then show "has_table paging_example 0x200000 i \<longleftrightarrow> i = 1"
    by (auto simp: has_table_def user_index_range paging_example_def)
  show "table_of paging_example 0x200000 (Suc 0) = 0x201000" by (simp add: table_of_def frame_of_def paging_example_def)
qed

lemma example_pte: "user_pte paging_example 0x200000 p = (if p = 0x405000 then 0x202405 else 0)"
proof -
  have b: "bit (0x202405 :: u32) 0" by code_simp
  have i: "page_aligned 0x405000" "pd_index_of 0x405000 = 1" "pt_index_of 0x405000 = 5" by code_simp+
  have w: "phys_mem paging_example 0x201000 j = (if j = 5 then 0x202405 else 0)" for j
    by (simp add: paging_example_def)
  have "p = 0x405000 \<longleftrightarrow> page_aligned p \<and> pd_index_of p = 1 \<and> pt_index_of p = 5"
    using page_of_indices [of p "0x405000"] i by auto
  then show ?thesis using b by (auto simp: user_pte_def example_tables w)
qed

lemma example_structs:
  "struct_keys paging_example {0x200000} = {(0x200000, None), (0x200000, Some 1)}"
  "structs paging_example {0x200000} = {0x200000, 0x201000}"
proof -
  show k: "struct_keys paging_example {0x200000} = {(0x200000, None), (0x200000, Some 1)}"
    by (auto simp: struct_keys_def example_tables split: option.splits)
  show "structs paging_example {0x200000} = {0x200000, 0x201000}"
    by (simp add: structs_def k example_tables)
qed

lemma example_mapped: "mapped paging_example {0x200000} f = (if f = 0x202000 then {(0x200000, 0x405000)} else {})"
proof -
  have "bit (0x202405 :: u32) 0" "bit (0x202405 :: u32) 2" "frame_of 0x202405 = 0x202000" by code_simp+
  then show ?thesis by (auto simp: mapped_def example_pte split: if_splits)
qed

lemma example_ok: "spaces_ok paging_example {0x200000}"
proof -
  have p: "pg_pmm paging_example = \<lparr>s_bitmap = [7], s_refcount = [1, 1, 2, 0, 0, 0, 0, 0], s_bitmap_bytes = 1, s_managed_frames = 8,
      s_max_phys = 0x208000, s_free_count = 5, s_total_count = 8, s_next_free = 3, s_ready = True\<rparr>"
    by (simp add: paging_example_def)
  have inv: "pmm_inv (pg_pmm paging_example)" unfolding p by (simp add: pmm_inv_code pmm_eval)
  have r: "frame_refs (pg_pmm paging_example) 0x200000 = 1" "frame_refs (pg_pmm paging_example) 0x201000 = 1"
    "frame_refs (pg_pmm paging_example) 0x202000 = 2" unfolding p by code_simp+
  have "bit (phys_mem paging_example 0x200000 1) 2" unfolding paging_example_def by code_simp
  moreover have "kernel_page_directory paging_example = (\<lambda>_. 0)" by (simp add: paging_example_def)
  ultimately show ?thesis
    unfolding spaces_ok_def example_structs using inv r frame_refs_managed [of "pg_pmm paging_example"]
    by (auto simp: example_tables example_mapped)
qed

text \<open>
  C6: Copy on write. A fault on a page of a process is resolved exactly when the page is present, marked
  copy-on-write, read-only and backed by the frame manager, and either its frame has one reference or a frame is free. The page is
  then writable and no longer marked, its contents are what they were, no other page of any
  address space maps its frame, whose one reference it holds, and every other page of every address space, and every
  frame in use outside the page tables, is unchanged. Otherwise nothing changes. It never panics.
\<close>

theorem paging_resolve_cow_fault_correct:
  assumes "spaces_ok s D" "d \<in> D" "p = v AND NOT (PAGE_SIZE - 1)"
  shows "\<exists>r s'. paging_resolve_cow_fault d v s = Some (r, s') \<and>
    (r \<longleftrightarrow> cow_entry (user_pte s d p) \<and> (frame_refs (pg_pmm s) (frame_of (user_pte s d p)) \<le> 1 \<or>
       (\<exists>f \<in> pmm_frames (pg_pmm s). frame_refs (pg_pmm s) f = 0))) \<and>
    (if r then cow_resolved D s d p s' else s' = s)"
proof -
  note cases = cow_cases [OF assms(1-3) refl refl]
  consider (no) "\<not> cow_entry (user_pte s d p)"
    | (one) "cow_entry (user_pte s d p)" "frame_refs (pg_pmm s) (frame_of (user_pte s d p)) \<le> 1"
    | (many) "cow_entry (user_pte s d p)" "1 < frame_refs (pg_pmm s) (frame_of (user_pte s d p))"
    by linarith
  then show ?thesis
  proof cases
    case no
    then show ?thesis unfolding cases by (intro exI [of _ False] exI [of _ s]) simp
  next
    case one
    then show ?thesis unfolding cases using cow_inplace [OF assms(1,2) one] by (intro exI [of _ True] exI) simp
  next
    case many
    obtain a q where al: "pmm_alloc_frame (pg_pmm s) = (a, q)" by (cases "pmm_alloc_frame (pg_pmm s)")
    show ?thesis
    proof (cases "a = 0")
      case True
      then show ?thesis using many al pmm_pool.alloc_full [OF spaces_okD(2) [OF assms(1)], of q]
        unfolding cases by (intro exI [of _ False] exI [of _ s]) auto
    next
      case False
      then have "\<exists>f \<in> pmm_frames (pg_pmm s). frame_refs (pg_pmm s) f = 0"
        using pmm_pool.alloc_frame [OF spaces_okD(2) [OF assms(1)] al] by blast
      then show ?thesis
        using many al False cow_copy(1) [OF assms(1,2) many al False refl] unfolding cases
        by (intro exI [of _ True] exI) (simp add: Let_def)
    qed
  qed
qed

lemma paging_resolve_cow_fault_correct_witness:
  "\<exists>s'. paging_resolve_cow_fault 0x200000 0x405123 paging_example = Some (True, s') \<and>
    cow_resolved {0x200000} paging_example 0x200000 0x405000 s'"
proof -
  have p: "(0x405000 :: u32) = 0x405123 AND NOT (PAGE_SIZE - 1)" by code_simp
  have c: "cow_entry (user_pte paging_example 0x200000 0x405000)" unfolding example_pte by code_simp
  have "frame_refs (pg_pmm paging_example) 0x203000 = 0" "0x203000 \<in> pmm_frames (pg_pmm paging_example)"
    unfolding paging_example_def pmm_frames_def mem_Collect_eq by code_simp+
  then have f: "\<exists>f \<in> pmm_frames (pg_pmm paging_example). frame_refs (pg_pmm paging_example) f = 0" by blast
  have d: "(0x200000 :: u32) \<in> {0x200000}" by simp
  from paging_resolve_cow_fault_correct [OF example_ok d p] obtain r s' where
    run: "paging_resolve_cow_fault 0x200000 0x405123 paging_example = Some (r, s')"
      "if r then cow_resolved {0x200000} paging_example 0x200000 0x405000 s' else s' = paging_example"
    and r: "r \<longleftrightarrow> cow_entry (user_pte paging_example 0x200000 0x405000) \<and>
      (frame_refs (pg_pmm paging_example) (frame_of (user_pte paging_example 0x200000 0x405000)) \<le> 1 \<or>
       (\<exists>f \<in> pmm_frames (pg_pmm paging_example). frame_refs (pg_pmm paging_example) f = 0))" by blast
  have "r" unfolding r using c f by blast
  then show ?thesis using run by auto
qed

text \<open>
  C7: Page tables as the memory areas see them. Over any list of pages, the loops of \<^verbatim>\<open>process_vm_remove_range\<close> and
  \<^verbatim>\<open>process_vm_protect\<close>, run on the two-level tables of a process, never panic and leave its entries as the same
  loops on a flat table leave them, which is how \<open>Vm\<close> states them; the other address spaces are unchanged, and
  all stay well formed.
\<close>

theorem page_tables_refine_flat:
  assumes "spaces_ok s D" "d \<in> D" "list_all page_aligned pages"
  shows "\<exists>u w. vm_unmap_pages (paging_unmap_user_page d) pages s = Some u \<and>
    vm_protect_pages (paging_user_page_get d) (paging_user_page_set_flags d) prot pages s = Some w \<and>
    spaces_ok u D \<and> spaces_ok w D \<and> same_other_spaces D d s u \<and> same_other_spaces D d s w \<and>
    user_pte u d = fold (\<lambda>page ptes. user_page_unmap ptes page) pages (user_pte s d) \<and>
    user_pte w d = fold (protect_page prot) pages (user_pte s d)"
  using tables.unmap_pages [where d = d and D = D and s = s and V = "user_pte s" and pages = pages]
    tables.protect_pages [where d = d and D = D and s = s and V = "user_pte s" and pages = pages and prot = prot] assms
  by (auto simp: same_other_spaces_def)

lemma page_tables_refine_flat_witness:
  "\<exists>u w. vm_unmap_pages (paging_unmap_user_page 0x200000) [0x405000] paging_example = Some u \<and>
    vm_protect_pages (paging_user_page_get 0x200000) (paging_user_page_set_flags 0x200000) 1 [0x405000] paging_example = Some w \<and>
    user_pte u 0x200000 0x405000 = 0 \<and> user_pte w 0x200000 0x405000 = 0x202405"
proof -
  have a: "list_all page_aligned [0x405000]" by code_simp
  have e: "bit (0x202405 :: u32) 0" "bit (0x202405 :: u32) 2"
    "(0x202405 :: u32) AND NOT PAGE_WRITE OR 0 OR PAGE_PRESENT OR PAGE_USER = 0x202405" by code_simp+
  have q: "1 AND PROCESS_VM_PROT_WRITE = 0" by code_simp
  from page_tables_refine_flat [OF example_ok _ a, of "0x200000" 1] obtain u w where
    r: "vm_unmap_pages (paging_unmap_user_page 0x200000) [0x405000] paging_example = Some u"
    "vm_protect_pages (paging_user_page_get 0x200000) (paging_user_page_set_flags 0x200000) 1 [0x405000] paging_example = Some w"
    "user_pte u 0x200000 = user_page_unmap (user_pte paging_example 0x200000) 0x405000"
    "user_pte w 0x200000 = protect_page 1 0x405000 (user_pte paging_example 0x200000)" by auto
  moreover have "user_pte u 0x200000 0x405000 = 0" using e by (simp add: r(3) user_page_unmap_def example_pte)
  moreover have "user_pte w 0x200000 0x405000 = 0x202405"
    using e q by (simp add: r(4) protect_page_def user_page_present_def user_page_set_flags_def example_pte)
  ultimately show ?thesis by blast
qed

end
