(* ===== verification/Paging_Fork.thy ===== *)
theory Paging_Fork
  imports Paging_Correct
begin

text \<open>
  Creating, copying and destroying address spaces (\<^verbatim>\<open>process_pd_create\<close>, \<^verbatim>\<open>process_pd_clone_user\<close> and
  \<^verbatim>\<open>process_pd_destroy\<close>): what fork shares, and that an address space that is taken down gives back its frames.
\<close>

section \<open>A new directory\<close>

definition adds_dir :: "u32 set \<Rightarrow> paging \<Rightarrow> u32 \<Rightarrow> paging \<Rightarrow> bool" where
  "adds_dir D s d s' \<longleftrightarrow> spaces_ok s D \<and> d \<in> pmm_frames (pg_pmm s) \<and> frame_refs (pg_pmm s) d = 0 \<and>
     (\<forall>i. \<not> has_table s' d i) \<and> (\<forall>f. f \<noteq> d \<longrightarrow> phys_mem s' f = phys_mem s f) \<and>
     kernel_page_directory s' = kernel_page_directory s \<and> pmm_inv (pg_pmm s') \<and>
     pmm_frames (pg_pmm s') = pmm_frames (pg_pmm s) \<and> frame_refs (pg_pmm s') = (frame_refs (pg_pmm s))(d := 1)"

lemma adds_dir_fresh:
  assumes "adds_dir D s d s'"
  shows "mapped s D d = {}" "d \<notin> structs s D" "d \<notin> D" "d \<noteq> 0"
proof -
  show f: "mapped s D d = {}" "d \<notin> structs s D" using assms mapped_free [of s D d] by (auto simp: adds_dir_def)
  then show "d \<notin> D" using structI(1) [of d D s] by blast
  show "d \<noteq> 0" using assms pmm_pool.zero_frame [of "pg_pmm s"] spaces_okD(2) by (auto simp: adds_dir_def)
qed

lemma adds_dir_pte:
  assumes ad: "adds_dir D s d s'"
  shows "user_pte s' d p = 0"
    and "c \<in> D \<Longrightarrow> has_table s' c i = has_table s c i" "c \<in> D \<Longrightarrow> table_of s' c i = table_of s c i"
    and "c \<in> D \<Longrightarrow> user_pte s' c = user_pte s c"
proof -
  show "user_pte s' d p = 0" using ad by (simp add: adds_dir_def user_pte_def)
  have w: "phys_mem s' c = phys_mem s c" if "c \<noteq> d" for c using ad that by (simp add: adds_dir_def)
  have tb: "has_table s' c i = has_table s c i" "table_of s' c i = table_of s c i" if "c \<in> D" for c i
    using w [of c] that adds_dir_fresh(3) [OF ad] by (cases "c = d"; simp add: has_table_def table_of_def)+
  then show "c \<in> D \<Longrightarrow> has_table s' c i = has_table s c i" "c \<in> D \<Longrightarrow> table_of s' c i = table_of s c i"
    by blast+
  assume c: "c \<in> D"
  show "user_pte s' c = user_pte s c"
  proof
    fix p
    have "phys_mem s' (table_of s c (pd_index_of p)) = phys_mem s (table_of s c (pd_index_of p))"
      if "has_table s c (pd_index_of p)" using w structI(2) [OF c that] adds_dir_fresh(2) [OF ad] by metis
    then show "user_pte s' c p = user_pte s c p" by (auto simp: user_pte_def tb [OF c])
  qed
qed

lemma adds_dir_structs:
  assumes ad: "adds_dir D s d s'"
  shows "structs s' (insert d D) = insert d (structs s D)" "inj_on (struct_at s') (struct_keys s' (insert d D))"
proof -
  note tb = adds_dir_pte(2,3) [OF ad] and free = adds_dir_fresh [OF ad]
  have ok: "spaces_ok s D" and nt: "\<not> has_table s' d i" for i using ad by (simp_all add: adds_dir_def)
  have keys: "struct_keys s' (insert d D) = insert (d, None) (struct_keys s D)"
    using nt tb(1) by (auto simp: struct_keys_def split: option.splits)
  have at: "struct_at s' k = struct_at s k" if "k \<in> struct_keys s D" for k
    using that tb(2) by (cases k; cases "snd k") (auto simp: struct_keys_def)
  have im: "struct_at s' ` struct_keys s D = structs s D"
    unfolding structs_def using at by (intro image_cong) auto
  then show "structs s' (insert d D) = insert d (structs s D)" by (simp add: structs_def [of s'] keys)
  have "inj_on (struct_at s') (struct_keys s D)"
    using inj_on_cong [of "struct_keys s D" "struct_at s'" "struct_at s"] at spaces_okD(3) [OF ok] by blast
  then show "inj_on (struct_at s') (struct_keys s' (insert d D))"
    unfolding keys inj_on_insert using im free(2) by auto
qed

lemma adds_dir_ok:
  assumes ad: "adds_dir D s d s'"
  shows "spaces_ok s' (insert d D)"
proof -
  note pte = adds_dir_pte [OF ad] and free = adds_dir_fresh [OF ad]
  have ok: "spaces_ok s D" and nt: "\<not> has_table s' d i" for i using ad by (simp_all add: adds_dir_def)
  have p: "pmm_inv (pg_pmm s')" "pmm_frames (pg_pmm s') = pmm_frames (pg_pmm s)" "d \<in> pmm_frames (pg_pmm s)"
    "frame_refs (pg_pmm s') = (frame_refs (pg_pmm s))(d := 1)" "kernel_page_directory s' = kernel_page_directory s"
    using ad by (simp_all add: adds_dir_def)
  have m: "mapped s' (insert d D) f = mapped s D f" for f using pte(1,4) free(3) by (auto simp: mapped_def)
  have stf: "f \<in> pmm_frames (pg_pmm s') \<and> 0 < frame_refs (pg_pmm s') f \<and> mapped s' (insert d D) f = {}"
    if "f \<in> structs s' (insert d D)" for f
    using that unfolding adds_dir_structs(1) [OF ad] m p(2,4) using spaces_okD(4-6) [OF ok, of f] p(3) free(1) by auto
  have ub: "bit (phys_mem s' c k) 2" if "c \<in> insert d D" "has_table s' c k" for c k
  proof -
    have c: "c \<in> D" "c \<noteq> d" using that nt free(3) by auto
    then have "bit (phys_mem s c k) 2" using spaces_okD(7) [OF ok c(1)] pte(2) [OF c(1)] that by simp
    then show ?thesis using ad c by (simp add: adds_dir_def)
  qed
  have refs: "card (mapped s' (insert d D) f) \<le> frame_refs (pg_pmm s') f" if "paging_phys_is_pmm_frame f" for f
    unfolding m p(4) using spaces_okD(9) [OF ok that] free(1) by auto
  show ?thesis unfolding spaces_ok_def
    using spaces_okD(1) [OF ok] spaces_okD(8) [OF ok] p(1,5) adds_dir_structs(2) [OF ad] stf ub refs by simp
qed

lemma create_ok:
  assumes ok: "spaces_ok s D"
  obtains (full) "process_pd_create s = None" "\<And>f. f \<in> pmm_frames (pg_pmm s) \<Longrightarrow> frame_refs (pg_pmm s) f \<noteq> 0"
  | (new) d s' where "process_pd_create s = Some (d, s')" "adds_dir D s d s'"
proof -
  obtain d q where al: "pmm_alloc_frame (pg_pmm s) = (d, q)" by (cases "pmm_alloc_frame (pg_pmm s)")
  note inv = spaces_okD(2) [OF ok]
  show thesis
  proof (cases "d = 0")
    case True
    then show thesis using full al pmm_pool.alloc_full [OF inv, of q] by (simp add: process_pd_create_def)
  next
    case d0: False
    note a = pmm_pool.alloc_frame [OF inv al d0]
    define s' where "s' = set_frame d
      (\<lambda>i. if i < PD_ENTRIES \<and> \<not> paging_pd_index_is_user i then kernel_page_directory s i else 0) (set_pmm q s)"
    have "process_pd_create s = Some (d, s')"
      using al d0 a pmm_frame_in_range [OF inv, of d]
      by (simp add: process_pd_create_def s'_def paging_phys_to_kernel_virt_def)
    moreover have "adds_dir D s d s'" using ok a by (simp add: adds_dir_def s'_def has_table_def)
    ultimately show thesis using new by blast
  qed
qed

section \<open>Sharing a page\<close>

definition vpage :: "nat \<Rightarrow> nat \<Rightarrow> u32" where
  "vpage i j = push_bit 22 (of_nat i) OR push_bit 12 (of_nat j)"

lemma unat_vpage:
  assumes "i < 1024" "j < 1024"
  shows "unat (vpage i j) = i * 4194304 + j * 4096"
proof -
  have j: "n < 10" if b: "bit (of_nat j :: u32) n" for n
  proof (rule ccontr)
    assume "\<not> n < 10"
    then have "(2 :: nat) ^ 10 \<le> 2 ^ n" by (intro power_increasing) auto
    then have "j div 2 ^ n = 0" using assms(2) by simp
    moreover have "bit j n" using b by (simp add: bit_of_nat_iff)
    ultimately show False by (simp add: bit_iff_odd)
  qed
  have "push_bit 22 (of_nat i) AND push_bit 12 (of_nat j) = (0 :: u32)"
  proof (rule bit_eqI)
    fix n show "bit (push_bit 22 (of_nat i) AND push_bit 12 (of_nat j) :: u32) n \<longleftrightarrow> bit (0 :: u32) n"
      using j [of "n - 12"] by (auto simp: bit_and_iff bit_push_bit_iff)
  qed
  then have "vpage i j = push_bit 22 (of_nat i) + push_bit 12 (of_nat j)"
    unfolding vpage_def by (simp add: disjunctive_add_eq_or)
  also have "\<dots> = of_nat (i * 4194304 + j * 4096)" by (simp add: push_bit_eq_mult)
  finally have v: "vpage i j = of_nat (i * 4194304 + j * 4096)" .
  have "i * 4194304 + j * 4096 < 2 ^ 32" using assms by simp
  then show ?thesis unfolding v unsigned_of_nat by (simp add: take_bit_nat_eq_self)
qed

lemma vpage_indices:
  assumes "i < 1024" "j < 1024"
  shows "pd_index_of (vpage i j) = i" "pt_index_of (vpage i j) = j" "page_aligned (vpage i j)"
    "vpage i j AND NOT (PAGE_SIZE - 1) = vpage i j"
proof -
  have "j * 4096 div 4194304 = 0" using assms by simp
  then have "(i * 4194304 + j * 4096) div 4194304 = i"
    using div_mult_self3 [of 4194304 i "j * 4096"] by simp
  moreover have "(i * 4194304 + j * 4096) div 4096 = i * 1024 + j"
    using nonzero_mult_div_cancel_right [of 4096 "i * 1024 + j"] by (simp add: add_mult_distrib)
  ultimately show "pd_index_of (vpage i j) = i" "pt_index_of (vpage i j) = j"
    using assms by (simp_all add: pd_index_of_unat pt_index_of_unat unat_vpage)
  show a: "page_aligned (vpage i j)" using assms by (simp add: page_aligned_dvd unat_vpage)
  show "vpage i j AND NOT (PAGE_SIZE - 1) = vpage i j" by (rule page_floor_page [OF a])
qed

text \<open>The entries of the parent and of the child after fork.\<close>

definition clone_marks :: "(u32 \<Rightarrow> bool) \<Rightarrow> u32 \<Rightarrow> u32 \<Rightarrow> bool" where
  "clone_marks may_write p e \<longleftrightarrow> bit e 0 \<and> bit e 2 \<and> paging_phys_is_pmm_frame (frame_of e) \<and>
     \<not> bit e 9 \<and> \<not> bit e 10 \<and> (bit e 1 \<or> may_write p)"

definition clone_src :: "(u32 \<Rightarrow> bool) \<Rightarrow> u32 \<Rightarrow> u32 \<Rightarrow> u32" where
  "clone_src may_write p e =
     (if clone_marks may_write p e
      then frame_of e OR ((e AND 0xFFF AND NOT PAGE_WRITE) OR PAGE_COW OR PAGE_PRESENT) else e)"

definition clone_dst :: "(u32 \<Rightarrow> bool) \<Rightarrow> u32 \<Rightarrow> u32 \<Rightarrow> u32" where
  "clone_dst may_write p e =
     (if \<not> (bit e 0 \<and> bit e 2) then 0
      else if \<not> paging_phys_is_pmm_frame (frame_of e) then e
      else if clone_marks may_write p e
      then frame_of e OR ((e AND 0xFFF AND NOT PAGE_WRITE) OR PAGE_COW OR PAGE_PRESENT)
      else frame_of e OR ((e AND 0xFFF AND NOT PAGE_WRITE) OR PAGE_PRESENT))"

lemma clone_entry_bits:
  "bit (frame_of e OR ((e AND 0xFFF AND NOT PAGE_WRITE) OR PAGE_COW OR PAGE_PRESENT)) n \<longleftrightarrow>
     (bit e n \<and> n \<noteq> 1) \<or> n = 0 \<or> n = 10"
  "bit (frame_of e OR ((e AND 0xFFF AND NOT PAGE_WRITE) OR PAGE_PRESENT)) n \<longleftrightarrow> (bit e n \<and> n \<noteq> 1) \<or> n = 0"
  "bit (frame_of e OR ((e AND 0xFFF) OR PAGE_PRESENT)) n \<longleftrightarrow> bit e n \<or> n = 0"
  unfolding bit_or_iff bit_and_iff bit_not_iff bit_page_flags bit_offset_mask bit_frame_of
  by (auto dest: bit_imp_le_length)

lemma frame_of_cong: "(\<And>n. 12 \<le> n \<Longrightarrow> bit a n = bit b n) \<Longrightarrow> frame_of a = frame_of b"
  by (rule bit_eqI) auto

lemma clone_entries:
  "bit (clone_src m p e) 0 = bit e 0" "bit (clone_src m p e) 2 = bit e 2" "frame_of (clone_src m p e) = frame_of e"
  "bit e 0 \<Longrightarrow> bit e 2 \<Longrightarrow> bit (clone_dst m p e) 0 \<and> bit (clone_dst m p e) 2 \<and> frame_of (clone_dst m p e) = frame_of e"
proof -
  have f: "frame_of (frame_of e OR ((e AND 0xFFF AND NOT PAGE_WRITE) OR PAGE_COW OR PAGE_PRESENT)) = frame_of e"
    "frame_of (frame_of e OR ((e AND 0xFFF AND NOT PAGE_WRITE) OR PAGE_PRESENT)) = frame_of e"
    by (rule frame_of_cong; simp add: clone_entry_bits)+
  then show "frame_of (clone_src m p e) = frame_of e"
    "bit e 0 \<Longrightarrow> bit e 2 \<Longrightarrow> bit (clone_dst m p e) 0 \<and> bit (clone_dst m p e) 2 \<and> frame_of (clone_dst m p e) = frame_of e"
    by (simp_all add: clone_src_def clone_dst_def clone_entry_bits)
  show "bit (clone_src m p e) 0 = bit e 0" "bit (clone_src m p e) 2 = bit e 2"
    by (auto simp: clone_src_def clone_entry_bits clone_marks_def)
qed

text \<open>How often the address spaces \<open>D\<close> use a frame: for a directory or table, and for each user mapping.\<close>

definition frame_uses :: "paging \<Rightarrow> u32 set \<Rightarrow> u32 \<Rightarrow> nat" where
  "frame_uses s D f = card (mapped s D f) + of_bool (f \<in> structs s D)"

text \<open>
  What sharing the pages \<open>P\<close> of one address space with another means: the entries of those pages change as above, no
  other page changes, user memory keeps its contents, and a frame gains as many references as uses.
\<close>

definition cloned :: "u32 set \<Rightarrow> (u32 \<Rightarrow> bool) \<Rightarrow> paging \<Rightarrow> u32 \<Rightarrow> u32 \<Rightarrow> u32 set \<Rightarrow> paging \<Rightarrow> bool" where
  "cloned D may_write s src dst P s' \<longleftrightarrow> spaces_ok s' D \<and>
     (\<forall>e \<in> D - {src, dst}. user_pte s' e = user_pte s e) \<and>
     (\<forall>p. user_pte s' src p = (if p \<in> P then clone_src may_write p (user_pte s src p) else user_pte s src p)) \<and>
     (\<forall>p. user_pte s' dst p = (if p \<in> P then clone_dst may_write p (user_pte s src p) else user_pte s dst p)) \<and>
     (\<forall>e \<in> D - {dst}. phys_mem s' e = phys_mem s e) \<and>
     (\<forall>f. mapped s D f \<noteq> {} \<longrightarrow> phys_mem s' f = phys_mem s f) \<and>
     (\<forall>f. mapped s D f \<subseteq> mapped s' D f) \<and>
     pmm_frames (pg_pmm s') = pmm_frames (pg_pmm s) \<and>
     (\<forall>f. paging_phys_is_pmm_frame f \<longrightarrow>
        frame_refs (pg_pmm s') f + frame_uses s D f = frame_refs (pg_pmm s) f + frame_uses s' D f)"

lemma cloned_refl: "spaces_ok s D \<Longrightarrow> cloned D may_write s src dst {} s"
  by (simp add: cloned_def)

lemma cloned_trans:
  assumes a: "cloned D may_write s src dst P s1" and b: "cloned D may_write s1 src dst Q s2"
    and disj: "P \<inter> Q = {}" and ne: "src \<noteq> dst"
  shows "cloned D may_write s src dst (P \<union> Q) s2"
proof -
  have sub: "mapped s D f \<subseteq> mapped s1 D f" "mapped s1 D f \<subseteq> mapped s2 D f" for f
    using a b by (simp_all add: cloned_def)
  have mem: "phys_mem s2 f = phys_mem s f" if "mapped s D f \<noteq> {}" for f
  proof -
    have "phys_mem s1 f = phys_mem s f" using a that by (simp add: cloned_def)
    moreover have "mapped s1 D f \<noteq> {}" using sub(1) [of f] that by blast
    then have "phys_mem s2 f = phys_mem s1 f" using b by (simp add: cloned_def)
    ultimately show ?thesis by simp
  qed
  have refs: "frame_refs (pg_pmm s2) f + frame_uses s D f = frame_refs (pg_pmm s) f + frame_uses s2 D f"
    if "paging_phys_is_pmm_frame f" for f
  proof -
    have "frame_refs (pg_pmm s1) f + frame_uses s D f = frame_refs (pg_pmm s) f + frame_uses s1 D f"
      using a that by (simp add: cloned_def)
    moreover have "frame_refs (pg_pmm s2) f + frame_uses s1 D f = frame_refs (pg_pmm s1) f + frame_uses s2 D f"
      using b that by (simp add: cloned_def)
    ultimately show ?thesis by linarith
  qed
  have s1: "user_pte s1 src p = (if p \<in> P then clone_src may_write p (user_pte s src p) else user_pte s src p)"
    "user_pte s1 dst p = (if p \<in> P then clone_dst may_write p (user_pte s src p) else user_pte s dst p)" for p
    using a by (simp_all add: cloned_def)
  have s2: "user_pte s2 src p = (if p \<in> Q then clone_src may_write p (user_pte s1 src p) else user_pte s1 src p)"
    "user_pte s2 dst p = (if p \<in> Q then clone_dst may_write p (user_pte s1 src p) else user_pte s1 dst p)" for p
    using b by (simp_all add: cloned_def)
  have "user_pte s2 src p = (if p \<in> P \<union> Q then clone_src may_write p (user_pte s src p) else user_pte s src p)"
    "user_pte s2 dst p = (if p \<in> P \<union> Q then clone_dst may_write p (user_pte s src p) else user_pte s dst p)" for p
    using disj by (auto simp: s1 s2)
  moreover have "spaces_ok s2 D" "\<forall>e \<in> D - {src, dst}. user_pte s2 e = user_pte s e"
    "\<forall>e \<in> D - {dst}. phys_mem s2 e = phys_mem s e" "pmm_frames (pg_pmm s2) = pmm_frames (pg_pmm s)"
    using a b by (simp_all add: cloned_def)
  moreover have "mapped s D f \<subseteq> mapped s2 D f" for f using sub by blast
  ultimately show ?thesis unfolding cloned_def using mem refs by blast
qed

lemma page_update_kept:
  assumes "page_update D s d p w s'" "spaces_ok s D" "mapped s D f \<noteq> {}"
  shows "phys_mem s' f = phys_mem s f"
proof -
  have "f \<notin> structs s D" using spaces_okD(6) [OF assms(2)] assms(3) by blast
  moreover have "0 < frame_refs (pg_pmm s) f" if "f \<in> pmm_frames (pg_pmm s)"
  proof -
    have "card (mapped s D f) \<le> frame_refs (pg_pmm s) f"
      by (rule spaces_okD(9) [OF assms(2) pmm_frame_in_range [OF spaces_okD(2) [OF assms(2)] that]])
    then show ?thesis using assms(3) finite_mapped [OF spaces_okD(1) [OF assms(2)], of s f]
      by (metis card_gt_0_iff less_le_trans)
  qed
  ultimately show ?thesis using assms(1) by (simp add: page_update_def)
qed

lemma retain_ok:
  assumes ok: "spaces_ok s D" and f: "f \<in> pmm_frames (pg_pmm s)" "pmm_retain_frame (pg_pmm s) f = (True, q)"
  shows "spaces_ok (set_pmm q s) D" "frame_refs q = (frame_refs (pg_pmm s))(f := Suc (frame_refs (pg_pmm s) f))"
    "pmm_frames q = pmm_frames (pg_pmm s)"
proof -
  note r = pmm_pool.retain_frame [OF spaces_okD(2) [OF ok] f]
  then show q: "frame_refs q = (frame_refs (pg_pmm s))(f := Suc (frame_refs (pg_pmm s) f))"
    "pmm_frames q = pmm_frames (pg_pmm s)" by simp_all
  have le: "frame_refs (pg_pmm s) g \<le> frame_refs q g" for g by (simp add: q)
  show "spaces_ok (set_pmm q s) D"
  proof (rule spaces_ok_same [OF ok])
    show "same_tables D s (set_pmm q s)" by (simp add: same_tables_def)
    show "0 < frame_refs (pg_pmm (set_pmm q s)) g \<and> mapped (set_pmm q s) D g = {}" if "g \<in> structs s D" for g
      using spaces_okD(5,6) [OF ok that] le [of g] by simp
    show "card (mapped (set_pmm q s) D g) \<le> frame_refs (pg_pmm (set_pmm q s)) g" if "paging_phys_is_pmm_frame g" for g
      using spaces_okD(9) [OF ok that] le [of g] by simp
  qed (use r in simp_all)
qed

lemma clone_one:
  assumes ok: "spaces_ok s D" and d: "src \<in> D" "dst \<in> D" "src \<noteq> dst" "user_pte s dst p = 0"
    and e: "e = user_pte s src p" "bit e 0" "bit e 2"
    and s1: "spaces_ok s1 D" "user_pte s1 = user_pte s" "phys_mem s1 = phys_mem s" "mapped s1 = mapped s"
      "pmm_frames (pg_pmm s1) = pmm_frames (pg_pmm s)"
    and u1: "page_update D s1 src p (clone_src m p e) s2" "\<And>c. c \<in> D \<Longrightarrow> phys_mem s2 c = phys_mem s c"
    and u2: "page_update D s2 dst p (clone_dst m p e) s3"
    and refs: "\<And>g. frame_refs (pg_pmm s3) g + of_bool (g \<in> structs s D) = frame_refs (pg_pmm s) g +
      of_bool (paging_phys_is_pmm_frame (frame_of e) \<and> g = frame_of e) + of_bool (g \<in> structs s3 D)"
  shows "cloned D m s src dst {p} s3"
proof -
  have p2: "user_pte s2 c = (if c = src then (user_pte s src)(p := clone_src m p e) else user_pte s c)" if "c \<in> D" for c
    using u1(1) that by (simp add: page_update_def s1(2))
  have p3: "user_pte s3 c = (if c = src then (user_pte s src)(p := clone_src m p e)
      else if c = dst then (user_pte s dst)(p := clone_dst m p e) else user_pte s c)" if "c \<in> D" for c
    using u2 that d p2 [OF d(1)] p2 [OF that] p2 [OF d(2)] by (auto simp: page_update_def)
  have ok2: "spaces_ok s2 D" and ok3: "spaces_ok s3 D" using u1 u2 by (simp_all add: page_update_def)
  note ce = clone_entries(1-3) [of m p e] clone_entries(4) [OF e(2,3), of m p]
  have mp2: "mapped s2 D g = mapped s D g" for g
    using p2 ce e by (auto simp: mapped_def split: if_splits)
  have mp: "mapped s3 D g = (if frame_of e = g then insert (dst, p) (mapped s D g) else mapped s D g)" for g
    using mapped_write [of dst D s3 p "clone_dst m p e" s2 g] u2 d(2) ce mp2 [of g] p2 [OF d(2)] d(3,4)
    by (auto simp: page_update_def mapped_def split: if_splits)
  have nm: "(dst, p) \<notin> mapped s D g" for g using d(4) by (simp add: mapped_def)
  have fin: "finite (mapped s D g)" for g by (rule finite_mapped [OF spaces_okD(1) [OF ok]])
  have "frame_refs (pg_pmm s3) g + frame_uses s D g = frame_refs (pg_pmm s) g + frame_uses s3 D g"
    if "paging_phys_is_pmm_frame g" for g
    using refs [of g] mp [of g] nm fin [of g] that by (auto simp: frame_uses_def)
  moreover have "phys_mem s3 f = phys_mem s f" if "mapped s D f \<noteq> {}" for f
    using page_update_kept [OF u1(1) s1(1), of f] page_update_kept [OF u2 ok2, of f] that s1(3,4) mp2 by simp
  moreover have "\<forall>c \<in> D - {dst}. phys_mem s3 c = phys_mem s c" using u2 u1(2) by (simp add: page_update_def)
  moreover have "pmm_frames (pg_pmm s3) = pmm_frames (pg_pmm s)" using u1 u2 s1(5) by (simp add: page_update_def)
  ultimately show ?thesis using ok3 p3 d e mp unfolding cloned_def by auto
qed

lemma clone_src_mapped:
  assumes "page_update D s1 src p (clone_src m p (user_pte s1 src p)) s2"
  shows "mapped s2 D g = mapped s1 D g"
proof -
  have "user_pte s2 c = (if c = src then (user_pte s1 src)(p := clone_src m p (user_pte s1 src p)) else user_pte s1 c)"
    if "c \<in> D" for c using assms that by (simp add: page_update_def)
  then show ?thesis using clone_entries(1-3) [of m p "user_pte s1 src p"] by (auto simp: mapped_def split: if_splits)
qed

text \<open>The source entry made read-only and marked, where the page may be written.\<close>

lemma clone_mark:
  assumes ok: "spaces_ok s D" and src: "src \<in> D" "has_table s src i" "p = vpage i j" "i < 1024" "j < 1024"
    and e: "e = user_pte s src p" "bit e 0" "bit e 2"
    and s2: "s2 = (if clone_marks m p e then set_word (table_of s src i) j (clone_src m p e) s else s)"
  shows "page_update D s src p (clone_src m p e) s2" "\<And>c. c \<in> D \<Longrightarrow> phys_mem s2 c = phys_mem s c" "pg_kmem s2 = pg_kmem s"
    "structs s2 D = structs s D"
proof -
  note ix = vpage_indices [OF src(4,5), folded src(3)]
  show c: "phys_mem s2 c = phys_mem s c" if "c \<in> D" for c
    using table_not_dir [OF ok src(1,2)] that by (auto simp: s2)
  have "kernel_page_directory s2 = kernel_page_directory s" by (simp add: s2)
  with c show "structs s2 D = structs s D" by (intro same_tables_structs(3)) (simp add: same_tables_def)
  show "pg_kmem s2 = pg_kmem s" by (simp add: s2)
  show "page_update D s src p (clone_src m p e) s2"
  proof (cases "clone_marks m p e")
    case True
    then show ?thesis
      using rewrite_entry [OF ok src(1), of p "clone_src m p e"] src(2) ix e clone_entries(1-3) [of m p e] by (simp add: s2)
  next
    case False
    then show ?thesis using page_update_none [OF ok] e by (simp add: s2 clone_src_def)
  qed
qed

lemma clone_page_run:
  assumes e: "bit e 0" "bit e 2" "phys_mem s t j = e"
  shows "clone_page m dst t i j s =
    (if \<not> paging_phys_is_pmm_frame (frame_of e)
     then map_option (Pair True) (paging_map_page (ProcessDirectory dst) (vpage i j) (frame_of e) (e AND 0xFFF) s)
     else let (ok, q) = pmm_retain_frame (pg_pmm s) (frame_of e) in
       if \<not> ok then Some (False, s)
       else map_option (Pair True) (paging_map_page (ProcessDirectory dst) (vpage i j) (frame_of e)
         (if clone_marks m (vpage i j) e then (e AND 0xFFF AND NOT PAGE_WRITE) OR PAGE_COW else e AND 0xFFF AND NOT PAGE_WRITE)
         (if clone_marks m (vpage i j) e then set_word t j (clone_src m (vpage i j) e) (set_pmm q s) else set_pmm q s)))"
proof -
  have b: "(e AND 0xFFF) AND PAGE_SHARED_RO_FILE = 0 \<longleftrightarrow> \<not> bit e 9" "(e AND 0xFFF) AND PAGE_COW = 0 \<longleftrightarrow> \<not> bit e 10"
    "(e AND 0xFFF) AND PAGE_WRITE = 0 \<longleftrightarrow> \<not> bit e 1"
    unfolding flag_tests by (simp_all only: bit_and_iff bit_offset_mask) simp_all
  show ?thesis
    unfolding clone_page_def Let_def e(3) vpage_def [symmetric] b user_present_iff
    using e(1,2) by (auto simp: clone_marks_def clone_src_def and.assoc split: prod.split)
qed

lemma clone_dst_entry:
  assumes "bit e 0" "bit e 2"
  shows "\<not> paging_phys_is_pmm_frame (frame_of e) \<Longrightarrow> frame_of (frame_of e) OR ((e AND 0xFFF) OR PAGE_PRESENT) = clone_dst m p e"
    "paging_phys_is_pmm_frame (frame_of e) \<Longrightarrow> frame_of (frame_of e) OR
      ((if clone_marks m p e then (e AND 0xFFF AND NOT PAGE_WRITE) OR PAGE_COW else e AND 0xFFF AND NOT PAGE_WRITE)
        OR PAGE_PRESENT) = clone_dst m p e"
proof -
  have "frame_of e OR ((e AND 0xFFF) OR PAGE_PRESENT) = e"
    using assms by (intro bit_eqI) (auto simp: clone_entry_bits)
  then show "\<not> paging_phys_is_pmm_frame (frame_of e) \<Longrightarrow>
      frame_of (frame_of e) OR ((e AND 0xFFF) OR PAGE_PRESENT) = clone_dst m p e"
    using assms by (simp add: clone_dst_def)
  show "paging_phys_is_pmm_frame (frame_of e) \<Longrightarrow> frame_of (frame_of e) OR
      ((if clone_marks m p e then (e AND 0xFFF AND NOT PAGE_WRITE) OR PAGE_COW else e AND 0xFFF AND NOT PAGE_WRITE)
        OR PAGE_PRESENT) = clone_dst m p e"
    using assms by (simp add: clone_dst_def or.assoc)
qed

lemma headroom_zero:
  assumes "\<And>f. f \<in> pmm_frames (pg_pmm s) \<Longrightarrow> frame_refs (pg_pmm s) f \<noteq> 0" "\<not> has_table s d i"
  shows "headroom s d i = 0"
  using assms by (auto simp: headroom_def)

text \<open>Mapping the shared frame into the copy; \<open>s2\<close> is the state with the reference taken and the source marked.\<close>

lemma clone_into:
  assumes ok: "spaces_ok s2 D" and d: "dst \<in> D" "p = vpage i j" "i < 1024" "j < 1024" "paging_pd_index_is_user i"
      "user_pte s2 dst p = 0"
    and w: "w = frame_of f OR (flags OR PAGE_PRESENT)" "may_map s2 D w"
  obtains (panic) "paging_map_page (ProcessDirectory dst) (vpage i j) f flags s2 = None" "headroom s2 dst i = 0"
  | (shared) s3 where "paging_map_page (ProcessDirectory dst) (vpage i j) f flags s2 = Some s3"
      "page_update D s2 dst p w s3"
      "\<And>g. frame_refs (pg_pmm s3) g + of_bool (g \<in> structs s2 D) = frame_refs (pg_pmm s2) g + of_bool (g \<in> structs s3 D)"
      "headroom s2 dst i \<le> headroom s3 dst i"
proof -
  note ix = vpage_indices [OF d(3,4), folded d(2)]
  have u: "paging_pd_index_is_user (pd_index_of p)" using d(5) ix(1) by simp
  have fr: "freed_ref s2 dst p g = 0" for g by (simp add: freed_ref_def d(6))
  show thesis using ok d(1) u w ix(4) [symmetric]
  proof (cases rule: page_map)
    case full
    then show thesis using panic headroom_zero [of s2 dst i] ix(1) d(2) by simp
  next
    case (mapped s3)
    then show thesis using shared [of s3] fr ix(1) d(2) by simp
  qed
qed

lemma clone_page_device:
  assumes ok: "spaces_ok s D" and d: "src \<in> D" "dst \<in> D" "src \<noteq> dst" "has_table s src i"
    and p: "p = vpage i j" "i < 1024" "j < 1024" and z: "user_pte s dst p = 0"
    and e: "e = user_pte s src p" "bit e 0" "bit e 2" "\<not> paging_phys_is_pmm_frame (frame_of e)" "phys_mem s t j = e"
  obtains (panic) "clone_page m dst t i j s = None" "headroom s dst i = 0"
  | (step) s' where "clone_page m dst t i j s = Some (True, s')" "cloned D m s src dst {p} s'"
      "headroom s dst i \<le> headroom s' dst i"
proof -
  have ui: "paging_pd_index_is_user i" using d(4) by (simp add: has_table_def)
  have f: "frame_of e \<notin> structs s D" using mapped_not_struct [OF ok d(1), of p] e by auto
  have w: "may_map s D (clone_dst m p e)" using f e by (simp add: may_map_def clone_dst_def)
  have run: "clone_page m dst t i j s =
      map_option (Pair True) (paging_map_page (ProcessDirectory dst) (vpage i j) (frame_of e) (e AND 0xFFF) s)"
    using clone_page_run [OF e(2,3,5)] e(4) by simp
  show thesis using ok d(2) p(1-3) ui z clone_dst_entry(1) [OF e(2-4), of m p, symmetric] w
  proof (cases rule: clone_into)
    case panic
    then show thesis using that(1) run by simp
  next
    case (shared s3)
    have "page_update D s src p (clone_src m p e) s"
      using page_update_none [OF ok, of src p e] e by (simp add: clone_src_def clone_marks_def)
    then have "cloned D m s src dst {p} s3"
      using shared(2,3) e by (intro clone_one [OF ok d(1-3) z e(1-3) ok, of m s]) simp_all
    then show thesis using step [of s3] run shared by simp
  qed
qed

lemma clone_page_ram:
  assumes ok: "spaces_ok s D" and d: "src \<in> D" "dst \<in> D" "src \<noteq> dst" "has_table s src i"
    and p: "p = vpage i j" "i < 1024" "j < 1024" and z: "user_pte s dst p = 0"
    and e: "e = user_pte s src p" "bit e 0" "bit e 2" "paging_phys_is_pmm_frame (frame_of e)"
    and t: "t = table_of s src i" "phys_mem s t j = e"
    and q: "pmm_retain_frame (pg_pmm s) (frame_of e) = (True, q)"
  obtains (panic) "clone_page m dst t i j s = None" "headroom s dst i = 0"
  | (step) s' where "clone_page m dst t i j s = Some (True, s')" "cloned D m s src dst {p} s'"
      "headroom s dst i \<le> headroom s' dst i"
proof -
  have ui: "paging_pd_index_is_user i" using d(4) by (simp add: has_table_def)
  have mr: "0 < frame_refs (pg_pmm s) (frame_of e)" "frame_of e \<in> pmm_frames (pg_pmm s)"
    using mapped_refs [OF ok d(1), of p] e by simp_all
  note r = retain_ok [OF ok mr(2) q]
  define s1 where "s1 = set_pmm q s"
  define s2 where "s2 = (if clone_marks m p e then set_word (table_of s1 src i) j (clone_src m p e) s1 else s1)"
  have ok1: "spaces_ok s1 D" using r(1) by (simp add: s1_def)
  note mk = clone_mark [OF ok1 d(1) _ p _ e(2,3) s2_def, unfolded s1_def set_pmm_simps, folded s1_def, OF d(4) e(1)]
  have ok2: "spaces_ok s2 D" using mk(1) by (simp add: page_update_def)
  have m2: "mapped s2 D g = mapped s D g" for g
    using clone_src_mapped [of D s1 src p m s2 g] mk(1) e(1) by (simp add: s1_def)
  have p2: "pg_pmm s2 = q" using mk(3) by (simp add: s1_def)
  have z2: "user_pte s2 dst p = 0" using mk(1) d z by (simp add: page_update_def s1_def)
  have h: "headroom s dst i \<le> headroom s2 dst i"
    using mk(2) [OF d(2)] r(2,3) mr(1) by (intro headroom_mono) (auto simp: p2 has_table_def split: if_splits)
  note ce = clone_entries(4) [OF e(2,3), of m p]
  have "(src, p) \<in> mapped s2 D (frame_of e)" unfolding m2 using e d(1) by (simp add: mapped_def)
  then have "frame_of e \<notin> structs s2 D" using spaces_okD(6) [OF ok2] by blast
  moreover have "card (mapped s2 D (frame_of e)) < frame_refs (pg_pmm s2) (frame_of e)"
    unfolding m2 p2 r(2) using spaces_okD(9) [OF ok e(4)] by simp
  ultimately have w: "may_map s2 D (clone_dst m p e)" using ce by (simp add: may_map_def)
  have run: "clone_page m dst t i j s = map_option (Pair True) (paging_map_page (ProcessDirectory dst) (vpage i j) (frame_of e)
      (if clone_marks m p e then (e AND 0xFFF AND NOT PAGE_WRITE) OR PAGE_COW else e AND 0xFFF AND NOT PAGE_WRITE) s2)"
    using clone_page_run [OF e(2,3) t(2), of m dst i] e(4) q by (simp add: s2_def s1_def t(1) p(1) [symmetric])
  show thesis using ok2 d(2) p ui z2 clone_dst_entry(2) [OF e(2-4), of m p, symmetric] w
  proof (cases rule: clone_into)
    case panic
    then show thesis using that(1) run h by simp
  next
    case (shared s3)
    have "cloned D m s src dst {p} s3"
      using shared(2,3) r(2,3) mr(1) e mk(1,2,4) d(1)
      by (intro clone_one [OF ok d(1-3) z e(1-3) ok1, of m s2]) (auto simp: s1_def p2)
    then show thesis using step [of s3] run shared h by simp
  qed
qed

lemma clone_page_step:
  assumes ok: "spaces_ok s D" and d: "src \<in> D" "dst \<in> D" "src \<noteq> dst" "has_table s src i"
    and p: "p = vpage i j" "i < 1024" "j < 1024" and z: "user_pte s dst p = 0" and t: "t = table_of s src i"
  obtains (panic) "clone_page m dst t i j s = None" "headroom s dst i = 0"
  | (step) r s' P where "clone_page m dst t i j s = Some (r, s')" "cloned D m s src dst P s'"
      "P \<subseteq> {p}" "r \<Longrightarrow> P = {p}" "headroom s dst i \<le> headroom s' dst i"
proof -
  define e where "e = user_pte s src p"
  have raw: "e = (if bit (phys_mem s t j) 0 then phys_mem s t j else 0)"
    using d(4) vpage_indices [OF p(2,3), folded p(1)] by (simp add: e_def t user_pte_def)
  show thesis
  proof (cases "bit e 0 \<and> bit e 2")
    case False
    then have "\<not> (bit (phys_mem s t j) 0 \<and> bit (phys_mem s t j) 2)" using raw by auto
    then have "clone_page m dst t i j s = Some (True, s)" unfolding clone_page_def Let_def user_present_iff by simp
    moreover have "cloned D m s src dst {p} s"
      using ok z False by (auto simp: cloned_def clone_src_def clone_dst_def clone_marks_def e_def [symmetric])
    ultimately show thesis using step [of True s "{p}"] by simp
  next
    case True
    then have b: "bit e 0" "bit e 2" and et: "phys_mem s t j = e" using raw by (auto split: if_splits)
    show thesis
    proof (cases "paging_phys_is_pmm_frame (frame_of e)")
      case False
      show thesis using ok d p z e_def b False et
        by (cases rule: clone_page_device) (use panic step [of True _ "{p}"] in simp_all)
    next
      case ram: True
      obtain r q where q: "pmm_retain_frame (pg_pmm s) (frame_of e) = (r, q)" by (cases "pmm_retain_frame (pg_pmm s) (frame_of e)")
      show thesis
      proof (cases r)
        case False
        then have "clone_page m dst t i j s = Some (False, s)" using clone_page_run [OF b et] ram q by simp
        then show thesis using step [of False s "{}"] cloned_refl [OF ok] by simp
      next
        case True
        have q': "pmm_retain_frame (pg_pmm s) (frame_of e) = (True, q)" using q True by simp
        show thesis using ok d p z e_def b ram t et q'
          by (cases rule: clone_page_ram) (use panic step [of True _ "{p}"] in simp_all)
      qed
    qed
  qed
qed

section \<open>The loops of fork\<close>

lemma cloned_tables:
  assumes "cloned D m s src dst P s'" "src \<in> D" "src \<noteq> dst"
  shows "has_table s' src i = has_table s src i" "table_of s' src i = table_of s src i"
  using assms by (simp_all add: cloned_def has_table_def table_of_def)

lemma vpage_eq: "i < 1024 \<Longrightarrow> j < 1024 \<Longrightarrow> i' < 1024 \<Longrightarrow> j' < 1024 \<Longrightarrow> vpage i j = vpage i' j' \<longleftrightarrow> i = i' \<and> j = j'"
  using vpage_indices(1,2) by metis

lemma clone_pages_run:
  assumes "spaces_ok s D" "src \<in> D" "dst \<in> D" "src \<noteq> dst" "has_table s src i" "i < 1024" "t = table_of s src i"
    and "distinct js" "\<And>j. j \<in> set js \<Longrightarrow> j < 1024 \<and> user_pte s dst (vpage i j) = 0"
  shows "clone_pages m dst t i js s = None \<and> headroom s dst i = 0 \<or>
    (\<exists>r s' P. clone_pages m dst t i js s = Some (r, s') \<and> cloned D m s src dst P s' \<and> P \<subseteq> vpage i ` set js \<and>
      (r \<longrightarrow> P = vpage i ` set js) \<and> headroom s dst i \<le> headroom s' dst i)"
  using assms
proof (induction js arbitrary: s)
  case Nil
  then show ?case using cloned_refl by fastforce
next
  case (Cons j js)
  note ok = Cons.prems(1) and d = Cons.prems(2-5) and i = Cons.prems(6)
  have j: "j < 1024" "user_pte s dst (vpage i j) = 0" using Cons.prems(9) by simp_all
  show ?case using ok d refl i j Cons.prems(7)
  proof (cases rule: clone_page_step [where m = m])
    case panic
    then show ?thesis by simp
  next
    case (step r s1 P)
    note tb = cloned_tables [OF step(2) d(1,3)]
    have ok1: "spaces_ok s1 D" using step(2) by (simp add: cloned_def)
    have z: "k < 1024 \<and> user_pte s1 dst (vpage i k) = 0" if "k \<in> set js" for k
    proof -
      have k: "k < 1024" "user_pte s dst (vpage i k) = 0" "k \<noteq> j" using Cons.prems(8,9) that by auto
      then have "vpage i k \<notin> P" using step(3) vpage_eq [OF i k(1) i j(1)] by auto
      then show ?thesis using k step(2) by (simp add: cloned_def)
    qed
    show ?thesis
    proof (cases r)
      case False
      then show ?thesis using step by (intro disjI2 exI [of _ False] exI [of _ s1] exI [of _ P]) auto
    next
      case True
      have run: "clone_pages m dst t i (j # js) s = clone_pages m dst t i js s1" using step(1) True by simp
      from Cons.IH [OF ok1 d(1-3) _ i _ _ z] tb d(4) Cons.prems(7,8)
      consider "clone_pages m dst t i js s1 = None" "headroom s1 dst i = 0"
        | r' s' Q where "clone_pages m dst t i js s1 = Some (r', s')" "cloned D m s1 src dst Q s'" "Q \<subseteq> vpage i ` set js"
          "r' \<longrightarrow> Q = vpage i ` set js" "headroom s1 dst i \<le> headroom s' dst i" by auto
      then show ?thesis
      proof cases
        case 1
        then show ?thesis using run step(5) by simp
      next
        case 2
        have "vpage i j \<noteq> vpage i k" if "k \<in> set js" for k
          using vpage_eq [OF i j(1) i, of k] z [OF that] Cons.prems(8) that by auto
        then have "vpage i j \<notin> vpage i ` set js" by blast
        then have "P \<inter> Q = {}" using step(4) True 2(3) by auto
        then have "cloned D m s src dst (P \<union> Q) s'" by (rule cloned_trans [OF step(2) 2(2) _ d(3)])
        then show ?thesis
          using run 2 step(4,5) True by (intro disjI2 exI [of _ r'] exI [of _ s'] exI [of _ "P \<union> Q"]) auto
      qed
    qed
  qed
qed

definition free_frames :: "paging \<Rightarrow> nat" where
  "free_frames s = card {f \<in> pmm_frames (pg_pmm s). frame_refs (pg_pmm s) f = 0}"

definition table_pages :: "nat \<Rightarrow> u32 set" where
  "table_pages i = vpage i ` {0..<1024}"

lemma headroom_free:
  "headroom s d i \<le> headroom s' d i \<Longrightarrow> free_frames s \<le> Suc (free_frames s')"
  "free_frames s \<le> headroom s d i"
  by (auto simp: headroom_def free_frames_def split: if_splits)

lemma cloned_absent:
  assumes "spaces_ok s D" "\<And>p. p \<in> P \<Longrightarrow> user_pte s src p = 0 \<and> user_pte s dst p = 0"
  shows "cloned D m s src dst P s"
  using assms by (auto simp: cloned_def clone_src_def clone_dst_def clone_marks_def)

lemma table_pages_index: "i < 1024 \<Longrightarrow> p \<in> table_pages i \<Longrightarrow> pd_index_of p = i"
  by (auto simp: table_pages_def vpage_indices)

lemma clone_tables_skip:
  assumes ok: "spaces_ok s D" and src: "src \<in> D" "paging_pd_index_is_user i"
  shows "phys_mem s src i = kernel_page_directory s i \<or> phys_mem s src i AND PAGE_PRESENT = 0 \<longleftrightarrow> \<not> has_table s src i"
  using spaces_okD(7) [OF ok src(1), of i] spaces_okD(8) [OF ok src(2)] src(2) by (auto simp: has_table_def)

lemma clone_tables_run:
  assumes "spaces_ok s D" "src \<in> D" "dst \<in> D" "src \<noteq> dst" "distinct is" "list_all paging_pd_index_is_user is"
    and "\<And>i p. i \<in> set is \<Longrightarrow> p \<in> table_pages i \<Longrightarrow> user_pte s dst p = 0"
    and "length (filter (has_table s src) is) \<le> free_frames s"
  shows "\<exists>r s' P. clone_tables m dst src is s = Some (r, s') \<and> cloned D m s src dst P s' \<and>
    P \<subseteq> \<Union> (table_pages ` set is) \<and> (r \<longrightarrow> P = \<Union> (table_pages ` set is))"
  using assms
proof (induction "is" arbitrary: s)
  case Nil
  then show ?case using cloned_refl by fastforce
next
  case (Cons i "is")
  note ok = Cons.prems(1) and d = Cons.prems(2-4)
  have i: "paging_pd_index_is_user i" "i < 1024" using Cons.prems(6) by (auto simp: user_index_range)
  have rest: "distinct is" "list_all paging_pd_index_is_user is" using Cons.prems(5,6) by simp_all
  have "table_pages i \<inter> table_pages k = {}" if "k \<in> set is" for k
  proof -
    have "k < 1024" "k \<noteq> i" using that Cons.prems(5,6) by (auto simp: list_all_iff user_index_range)
    then show ?thesis using table_pages_index i(2) by blast
  qed
  then have other: "table_pages i \<inter> \<Union> (table_pages ` set is) = {}" by blast
  have extend: ?case
    if c: "cloned D m s src dst (table_pages i) s1" and run: "clone_tables m dst src (i # is) s = clone_tables m dst src is s1"
      and free: "length (filter (has_table s src) is) \<le> free_frames s1" for s1
  proof -
    have ok1: "spaces_ok s1 D" using c by (simp add: cloned_def)
    have z: "user_pte s1 dst p = 0" if "k \<in> set is" "p \<in> table_pages k" for k p
    proof -
      have "p \<notin> table_pages i" using that other by blast
      then show ?thesis using c Cons.prems(7) [of k p] that by (simp add: cloned_def)
    qed
    have "has_table s1 src = has_table s src" using cloned_tables(1) [OF c d(1,3)] by blast
    then have "length (filter (has_table s1 src) is) \<le> free_frames s1" using free by simp
    then have "\<exists>r s' P. clone_tables m dst src is s1 = Some (r, s') \<and> cloned D m s1 src dst P s' \<and>
        P \<subseteq> \<Union> (table_pages ` set is) \<and> (r \<longrightarrow> P = \<Union> (table_pages ` set is))"
      by (intro Cons.IH [OF ok1 d rest]) (use z in blast)
    then obtain r s' P where
      r: "clone_tables m dst src is s1 = Some (r, s')" "cloned D m s1 src dst P s'"
      "P \<subseteq> \<Union> (table_pages ` set is)" "r \<longrightarrow> P = \<Union> (table_pages ` set is)" by blast
    have "cloned D m s src dst (table_pages i \<union> P) s'"
      by (rule cloned_trans [OF c r(2) _ d(3)]) (use other r(3) in blast)
    then show ?case using run r by (intro exI [of _ r] exI [of _ s'] exI [of _ "table_pages i \<union> P"]) auto
  qed
  show ?case
  proof (cases "has_table s src i")
    case False
    have "cloned D m s src dst (table_pages i) s"
      using table_pages_index [OF i(2)] False Cons.prems(7) [of i]
      by (intro cloned_absent [OF ok]) (auto simp: user_pte_no_table)
    moreover have "clone_tables m dst src (i # is) s = clone_tables m dst src is s"
      using False clone_tables_skip [OF ok d(1) i(1)] by (simp add: Let_def)
    ultimately show ?thesis using extend Cons.prems(8) False by simp
  next
    case True
    have js: "distinct [0..<1024]" "j \<in> set [0..<1024] \<Longrightarrow> j < 1024 \<and> user_pte s dst (vpage i j) = 0" for j
      using Cons.prems(7) [of i "vpage i j"] by (auto simp: table_pages_def)
    have "headroom s dst i \<noteq> 0" using headroom_free(2) [of s dst i] Cons.prems(8) True by simp
    with clone_pages_run [OF ok d True i(2) refl js, of m] obtain r s1 P where
      r: "clone_pages m dst (table_of s src i) i [0..<1024] s = Some (r, s1)" "cloned D m s src dst P s1"
      "P \<subseteq> table_pages i" "r \<longrightarrow> P = table_pages i" "headroom s dst i \<le> headroom s1 dst i"
      by (auto simp: table_pages_def)
    have run: "clone_tables m dst src (i # is) s = (if r then clone_tables m dst src is s1 else Some (False, s1))"
      using True clone_tables_skip [OF ok d(1) i(1)] r(1) unfolding table_of_def
      by (simp add: Let_def PT_ENTRIES_def)
    show ?thesis
    proof (cases r)
      case False
      then show ?thesis using run r by (intro exI [of _ False] exI [of _ s1] exI [of _ P]) auto
    next
      case r': True
      show ?thesis using extend [of s1] r r' run headroom_free(1) [OF r(5)] Cons.prems(8) True by simp
    qed
  qed
qed

end
