(* ===== verification/Paging_Spaces.thy ===== *)
theory Paging_Spaces
  imports Paging_Fork
begin

text \<open>
  Whole address spaces: \<^verbatim>\<open>process_pd_destroy\<close> gives back what an address space uses, \<^verbatim>\<open>process_pd_clone_user\<close> shares
  every page of the parent with the child, and the two together leave no frame behind.
\<close>

section \<open>Taking down a table\<close>

lemma same_structs:
  assumes ok: "spaces_ok s D" and s': "\<And>f. f \<in> structs s D \<Longrightarrow> phys_mem s' f = phys_mem s f"
    "kernel_page_directory s' = kernel_page_directory s" "pg_pmm s' = pg_pmm s"
  shows "spaces_ok s' D" "e \<in> D \<Longrightarrow> user_pte s' e = user_pte s e" "structs s' D = structs s D"
    "mapped s' D f = mapped s D f"
proof -
  have same: "same_tables D s s'" using s'(1) [OF structI(1)] s'(2) by (simp add: same_tables_def)
  show pte: "user_pte s' e = user_pte s e" if e: "e \<in> D" for e
  proof
    fix p
    show "user_pte s' e p = user_pte s e p"
      using s'(1) [OF structI(2) [OF e]] unfolding user_pte_def same_tablesD [OF same e] by auto
  qed
  show m: "mapped s' D f = mapped s D f" for f by (rule mapped_same_pte) (simp add: pte)
  show "structs s' D = structs s D" by (rule same_tables_structs(3) [OF same])
  show "spaces_ok s' D"
    using spaces_okD [OF ok] by (intro spaces_ok_same [OF ok same]) (simp_all add: m s'(3))
qed

text \<open>The loop over the entries of a table, and what it amounts to when each entry it frees is also cleared.\<close>

definition wipe :: "u32 \<Rightarrow> nat \<Rightarrow> paging \<Rightarrow> paging" where
  "wipe t j s = set_word t j 0 (set_pmm (release_old (phys_mem s t j) (pg_pmm s)) s)"

lemma destroy_frames_eq:
  "destroy_frames pt p = fold (\<lambda>j. release_old (pt j)) [0..<1024] p"
proof -
  have "(\<lambda>j p. if user_present (pt j) \<and> paging_phys_is_pmm_frame (frame_of (pt j))
      then pmm_free_frame p (frame_of (pt j)) else p) = (\<lambda>j. release_old (pt j))"
    by (simp add: fun_eq_iff release_old_def pmm_free_frame_def)
  then show ?thesis by (simp add: destroy_frames_def PT_ENTRIES_def)
qed

lemma wipe_memory:
  "phys_mem (fold (wipe t) [0..<n] s) = (phys_mem s)(t := \<lambda>j. if j < n then 0 else phys_mem s t j)"
  "kernel_page_directory (fold (wipe t) [0..<n] s) = kernel_page_directory s"
  "pg_pmm (fold (wipe t) [0..<n] s) = fold (\<lambda>j. release_old (phys_mem s t j)) [0..<n] (pg_pmm s)"
proof (induction n)
  case (Suc n)
  { case 1 show ?case using Suc by (auto simp: wipe_def fun_eq_iff) }
  { case 2 show ?case using Suc by (simp add: wipe_def) }
  { case 3 show ?case using Suc by (simp add: wipe_def) }
qed simp_all

lemma page_clear_uses:
  assumes ok: "spaces_ok s D" and d: "d \<in> D" and u: "page_update D s d p 0 s'" "structs s' D = structs s D"
    and r: "\<And>g. frame_refs (pg_pmm s') g = frame_refs (pg_pmm s) g - freed_ref s d p g" and g: "paging_phys_is_pmm_frame g"
  shows "frame_refs (pg_pmm s') g + frame_uses s D g = frame_refs (pg_pmm s) g + frame_uses s' D g"
proof -
  have m: "mapped s' D g = mapped s D g - {(d, p)}"
    using mapped_write [of d D s' p 0 s g, unfolded user_present_iff] u d by (auto simp: page_update_def)
  have fin: "finite (mapped s D g)" by (rule finite_mapped [OF spaces_okD(1) [OF ok]])
  have "(d, p) \<in> mapped s D g \<longleftrightarrow> freed_ref s d p g = 1" using d g by (auto simp: mapped_def freed_ref_def)
  moreover have "freed_ref s d p g \<le> 1" by (simp add: freed_ref_def)
  ultimately have "card (mapped s D g) = card (mapped s' D g) + freed_ref s d p g"
    using card_Suc_Diff1 [OF fin, of "(d, p)"] by (cases "(d, p) \<in> mapped s D g") (auto simp: m)
  then show ?thesis using r [of g] freed_ref_le [OF ok d, of p g] u(2) by (simp add: frame_uses_def)
qed

text \<open>The address space after the entries of one table are gone.\<close>

definition cleared :: "u32 set \<Rightarrow> paging \<Rightarrow> u32 \<Rightarrow> u32 set \<Rightarrow> paging \<Rightarrow> bool" where
  "cleared D s d P s' \<longleftrightarrow> spaces_ok s' D \<and> (\<forall>e \<in> D - {d}. user_pte s' e = user_pte s e) \<and>
     (\<forall>p. user_pte s' d p = (if p \<in> P then 0 else user_pte s d p)) \<and>
     (\<forall>e \<in> D - {d}. phys_mem s' e = phys_mem s e) \<and>
     (\<forall>f. f \<notin> structs s D \<longrightarrow> phys_mem s' f = phys_mem s f) \<and> structs s' D \<subseteq> structs s D \<and>
     pmm_frames (pg_pmm s') = pmm_frames (pg_pmm s) \<and>
     (\<forall>f. paging_phys_is_pmm_frame f \<longrightarrow>
        frame_refs (pg_pmm s') f + frame_uses s D f = frame_refs (pg_pmm s) f + frame_uses s' D f)"

lemma cleared_refl: "spaces_ok s D \<Longrightarrow> cleared D s d {} s"
  by (simp add: cleared_def)

lemma cleared_trans:
  assumes a: "cleared D s d P s1" and b: "cleared D s1 d Q s2"
  shows "cleared D s d (P \<union> Q) s2"
proof -
  have "frame_refs (pg_pmm s2) f + frame_uses s D f = frame_refs (pg_pmm s) f + frame_uses s2 D f"
    if "paging_phys_is_pmm_frame f" for f
  proof -
    have "frame_refs (pg_pmm s1) f + frame_uses s D f = frame_refs (pg_pmm s) f + frame_uses s1 D f"
      using a that by (simp add: cleared_def)
    moreover have "frame_refs (pg_pmm s2) f + frame_uses s1 D f = frame_refs (pg_pmm s1) f + frame_uses s2 D f"
      using b that by (simp add: cleared_def)
    ultimately show ?thesis by linarith
  qed
  moreover have "phys_mem s2 f = phys_mem s f" if "f \<notin> structs s D" for f
    using a b that by (auto simp: cleared_def)
  moreover have "structs s2 D \<subseteq> structs s D" using a b by (auto simp: cleared_def)
  moreover have "spaces_ok s2 D" "\<forall>e \<in> D - {d}. user_pte s2 e = user_pte s e"
    "\<forall>e \<in> D - {d}. phys_mem s2 e = phys_mem s e" "pmm_frames (pg_pmm s2) = pmm_frames (pg_pmm s)"
    "\<forall>p. user_pte s2 d p = (if p \<in> P \<union> Q then 0 else user_pte s d p)"
    using a b by (simp_all add: cleared_def)
  ultimately show ?thesis unfolding cleared_def by blast
qed

lemma wipe_cleared:
  assumes ok: "spaces_ok s D" and d: "d \<in> D" "has_table s d i" "i < 1024" and n: "n \<le> 1024"
  shows "cleared D s d (vpage i ` {0..<n}) (fold (wipe (table_of s d i)) [0..<n] s)"
  using n
proof (induction n)
  case 0
  then show ?case using cleared_refl [OF ok] by simp
next
  case (Suc n)
  let ?t = "table_of s d i"
  let ?s1 = "fold (wipe ?t) [0..<n] s"
  have IH: "cleared D s d (vpage i ` {0..<n}) ?s1" using Suc by simp
  then have ok1: "spaces_ok ?s1 D" by (simp add: cleared_def)
  have dir: "phys_mem ?s1 c = phys_mem s c" if "c \<in> D" for c
    using table_not_dir [OF ok d(1,2)] that by (auto simp: wipe_memory)
  have tb: "has_table ?s1 d i" "table_of ?s1 d i = ?t" using dir [OF d(1)] d(2) by (simp_all add: has_table_def table_of_def)
  have n': "n < 1024" using Suc.prems by simp
  note ix = vpage_indices [OF d(3) n']
  let ?s2 = "wipe ?t n ?s1"
  have "user_pte ?s1 d (vpage i n) = (if bit (phys_mem ?s1 ?t n) 0 then phys_mem ?s1 ?t n else 0)"
    using ix tb by (simp add: user_pte_def)
  then have w: "?s2 = set_word (table_of ?s1 d (pd_index_of (vpage i n))) (pt_index_of (vpage i n)) 0
      (set_pmm (release_old (user_pte ?s1 d (vpage i n)) (pg_pmm ?s1)) ?s1)"
    using ix tb by (simp add: wipe_def release_old_raw)
  have mm: "may_map ?s1 D 0" by (simp add: may_map_def)
  have ht: "has_table ?s1 d (pd_index_of (vpage i n))" using tb ix by simp
  note rp = replace_entry [OF ok1 d(1) ht ix(3) mm w]
  have st: "structs ?s2 D = structs ?s1 D"
    using table_not_dir [OF ok d(1,2)] by (intro same_tables_structs(3)) (auto simp: same_tables_def wipe_def)
  have u: "page_update D ?s1 d (vpage i n) 0 ?s2" using rp(1) by simp
  have "cleared D ?s1 d {vpage i n} ?s2"
    using u st page_clear_uses [OF ok1 d(1) u st rp(2) [folded freed_ref_def]] structI(2) [OF d(1) tb(1)] tb(2) d(1)
    by (auto simp: cleared_def page_update_def wipe_def)
  from cleared_trans [OF IH this] show ?case
    by (simp add: atLeast0_lessThan_Suc Un_commute)
qed

lemma drops_table_cleared:
  assumes dr: "drops_table D s d i s'"
  shows "cleared D s d {} s'"
proof -
  have ok: "spaces_ok s D" and d: "d \<in> D" "has_table s d i" using dr by (simp_all add: drops_table_def)
  have t: "table_of s d i \<in> structs s D" by (rule structI(2) [OF d])
  have "mapped s' D f = mapped s D f" for f by (rule mapped_same_pte [OF drops_table_pte [OF dr]])
  then have "frame_refs (pg_pmm s') f + frame_uses s D f = frame_refs (pg_pmm s) f + frame_uses s' D f" for f
    using dr t spaces_okD(5) [OF ok t]
    by (cases "f = table_of s d i") (auto simp: drops_table_def frame_uses_def drops_table_structs(1) [OF dr])
  moreover have "phys_mem s' f = phys_mem s f" if "f \<notin> structs s D" for f
    using dr that structI(1) [OF d(1), of s] by (auto simp: drops_table_def)
  moreover have "pmm_frames (pg_pmm s') = pmm_frames (pg_pmm s)" using dr by (simp add: drops_table_def)
  ultimately show ?thesis
    using drops_table_ok [OF dr] drops_table_pte [OF dr] d(1) drops_table_structs(1) [OF dr] dr
    by (auto simp: cleared_def drops_table_def)
qed

lemma destroy_table_present:
  assumes ok: "spaces_ok s D" and d: "d \<in> D" "has_table s d i"
  shows "cleared D s d (table_pages i) (destroy_table d i s)"
    "has_table (destroy_table d i s) d k \<Longrightarrow> has_table s d k \<and> k \<noteq> i"
proof -
  define t w where "t = table_of s d i" and "w = fold (wipe t) [0..<1024] s"
  define s0 where "s0 = set_word d i 0 (set_pmm (pmm_release_frame (pg_pmm w) t) w)"
  let ?s' = "destroy_table d i s"
  have i: "paging_pd_index_is_user i" "i < 1024" using d(2) by (auto simp: has_table_def user_index_range)
  have td: "t \<noteq> d" using table_ne_dir [OF ok d(1) d(1) d(2)] by (simp add: t_def)
  have cw: "cleared D s d (table_pages i) w"
    using wipe_cleared [OF ok d i(2), of 1024] by (simp add: w_def t_def table_pages_def)
  then have okw: "spaces_ok w D" by (simp add: cleared_def)
  have dir: "phys_mem w d = phys_mem s d" using td by (simp add: w_def wipe_memory)
  have tb: "has_table w d k = has_table s d k" "table_of w d k = table_of s d k" for k
    using dir by (simp_all add: has_table_def table_of_def)
  have s': "?s' = set_word d i 0 (set_pmm (pmm_release_frame (pg_pmm w) t) s)"
    using clone_tables_skip [OF ok d(1) i(1)] d(2)
    by (simp add: destroy_table_def Let_def destroy_frames_eq w_def wipe_memory t_def table_of_def pmm_free_frame_def)
  have "page_aligned t" by (simp add: t_def table_of_def)
  note rel = release_aligned [OF spaces_okD(2) [OF okw] this]
  have dr: "drops_table D w d i s0"
    using okw d tb rel td by (auto simp: drops_table_def s0_def t_def [symmetric] w_def wipe_memory)
  have c0: "cleared D s d (table_pages i) s0" using cleared_trans [OF cw drops_table_cleared [OF dr]] by simp
  have st0: "structs s0 D \<subseteq> structs s D" "t \<notin> structs s0 D"
    using c0 drops_table_structs(1) [OF dr] tb(2) by (auto simp: cleared_def t_def)
  have mem: "phys_mem ?s' f = phys_mem s0 f" if "f \<noteq> t" for f
    using that td by (auto simp: s' s0_def w_def wipe_memory)
  have "pg_pmm ?s' = pg_pmm s0" "kernel_page_directory ?s' = kernel_page_directory s0"
    by (simp_all add: s' s0_def w_def wipe_memory)
  note ss = same_structs [OF _ _ this(2,1), of D]
  have ok0: "spaces_ok s0 D" using c0 by (simp add: cleared_def)
  have agree: "\<And>f. f \<in> structs s0 D \<Longrightarrow> phys_mem ?s' f = phys_mem s0 f" using mem st0(2) by metis
  note ss = ss [OF ok0 agree]
  have "t \<in> structs s D" unfolding t_def by (rule structI(2) [OF d])
  then have "phys_mem ?s' f = phys_mem s f" if "f \<notin> structs s D" for f
    using mem [of f] c0 that by (auto simp: cleared_def)
  moreover have "phys_mem ?s' e = phys_mem s e" if "e \<in> D - {d}" for e using that by (simp add: s')
  ultimately show "cleared D s d (table_pages i) ?s'"
    using c0 ss \<open>pg_pmm ?s' = pg_pmm s0\<close> d(1) by (auto simp: cleared_def frame_uses_def)
  show "has_table ?s' d k \<Longrightarrow> has_table s d k \<and> k \<noteq> i"
    by (auto simp: s' has_table_def split: if_splits)
qed

lemma destroy_table_step:
  assumes ok: "spaces_ok s D" and d: "d \<in> D" "paging_pd_index_is_user i"
  shows "cleared D s d (table_pages i) (destroy_table d i s)"
    "has_table (destroy_table d i s) d k \<Longrightarrow> has_table s d k \<and> k \<noteq> i"
proof -
  have "cleared D s d (table_pages i) (destroy_table d i s) \<and>
      (has_table (destroy_table d i s) d k \<longrightarrow> has_table s d k \<and> k \<noteq> i)"
  proof (cases "has_table s d i")
    case True
    then show ?thesis using destroy_table_present [OF ok d(1)] by blast
  next
    case False
    then have "destroy_table d i s = s"
      using clone_tables_skip [OF ok d] by (simp add: destroy_table_def Let_def)
    moreover have "user_pte s d p = 0" if "p \<in> table_pages i" for p
      using table_pages_index [OF _ that] d(2) False by (simp add: user_index_range user_pte_no_table)
    ultimately show ?thesis using False ok d(1) by (auto simp: cleared_def)
  qed
  then show "cleared D s d (table_pages i) (destroy_table d i s)"
    "has_table (destroy_table d i s) d k \<Longrightarrow> has_table s d k \<and> k \<noteq> i" by blast+
qed

lemma destroy_tables_run:
  assumes "spaces_ok s D" "d \<in> D" "list_all paging_pd_index_is_user is"
  shows "cleared D s d (\<Union> (table_pages ` set is)) (fold (destroy_table d) is s) \<and>
    (\<forall>k. has_table (fold (destroy_table d) is s) d k \<longrightarrow> has_table s d k \<and> k \<notin> set is)"
  using assms
proof (induction "is" arbitrary: s)
  case Nil
  then show ?case by (simp add: cleared_refl)
next
  case (Cons i "is")
  have i: "paging_pd_index_is_user i" using Cons.prems(3) by simp
  note st = destroy_table_step [OF Cons.prems(1,2) i]
  have "spaces_ok (destroy_table d i s) D" using st(1) by (simp add: cleared_def)
  from Cons.IH [OF this Cons.prems(2)] Cons.prems(3)
  have c: "cleared D (destroy_table d i s) d (\<Union> (table_pages ` set is)) (fold (destroy_table d) (i # is) s)"
    and h: "\<forall>k. has_table (fold (destroy_table d) (i # is) s) d k \<longrightarrow> has_table (destroy_table d i s) d k \<and> k \<notin> set is"
    by simp_all
  show ?case using cleared_trans [OF st(1) c] h st(2) by auto
qed

section \<open>Taking down an address space\<close>

lemma user_indices: "set user_pd_indices = {i. paging_pd_index_is_user i}" "distinct user_pd_indices"
  by (auto simp: user_pd_indices_def paging_pd_index_is_user_def)


lemma drops_dir:
  assumes ok: "spaces_ok s D" and d: "d \<in> D" "\<And>i. \<not> has_table s d i"
    and s': "s' = set_pmm (pmm_release_frame (pg_pmm s) d) s"
  shows "spaces_ok s' (D - {d})" "mapped s' (D - {d}) f = mapped s D f" "structs s' (D - {d}) = structs s D - {d}"
    "frame_refs (pg_pmm s') = (frame_refs (pg_pmm s))(d := frame_refs (pg_pmm s) d - 1)"
    "pmm_frames (pg_pmm s') = pmm_frames (pg_pmm s)"
proof -
  have ds: "d \<in> structs s D" by (rule structI(1) [OF d(1)])
  note rel = release_aligned [OF spaces_okD(2) [OF ok] pmm_frame_aligned [OF spaces_okD(4) [OF ok ds]]]
  show r: "frame_refs (pg_pmm s') = (frame_refs (pg_pmm s))(d := frame_refs (pg_pmm s) d - 1)"
    "pmm_frames (pg_pmm s') = pmm_frames (pg_pmm s)" using rel by (simp_all add: s')
  have z: "user_pte s d p = 0" for p using d(2) by (simp add: user_pte_def)
  show m: "mapped s' (D - {d}) f = mapped s D f" for f using z by (auto simp: s' mapped_def)
  have keys: "struct_keys s (D - {d}) = struct_keys s D - {(d, None)}"
    using d(2) by (auto simp: struct_keys_def split: option.splits)
  have kd: "(d, None) \<in> struct_keys s D" using d(1) by (simp add: struct_keys_def)
  note inj = spaces_okD(3) [OF ok]
  show st: "structs s' (D - {d}) = structs s D - {d}"
    using inj_on_image_set_diff [OF inj, of "struct_keys s D" "{(d, None)}"] kd by (simp add: s' structs_def keys)
  have "inj_on (struct_at s) (struct_keys s D - {(d, None)})" by (rule inj_on_subset [OF inj]) auto
  moreover have "f \<in> pmm_frames (pg_pmm s') \<and> 0 < frame_refs (pg_pmm s') f \<and> mapped s' (D - {d}) f = {}"
    if "f \<in> structs s' (D - {d})" for f
    using that spaces_okD(4-6) [OF ok, of f] unfolding st m r by auto
  moreover have "card (mapped s' (D - {d}) f) \<le> frame_refs (pg_pmm s') f" if "paging_phys_is_pmm_frame f" for f
    using spaces_okD(9) [OF ok that] spaces_okD(6) [OF ok ds] unfolding m r by auto
  ultimately show "spaces_ok s' (D - {d})"
    using spaces_okD(1,7,8) [OF ok] rel(1) unfolding spaces_ok_def by (auto simp: s' keys)
qed

lemma destroy_ok:
  assumes ok: "spaces_ok s D" and d: "d \<in> D"
  obtains s' where "process_pd_destroy d s = Some s'" "spaces_ok s' (D - {d})"
    "\<And>e. e \<in> D - {d} \<Longrightarrow> user_pte s' e = user_pte s e" "\<And>e. e \<in> D - {d} \<Longrightarrow> phys_mem s' e = phys_mem s e"
    "\<And>f. f \<notin> structs s D \<Longrightarrow> phys_mem s' f = phys_mem s f"
    "pmm_frames (pg_pmm s') = pmm_frames (pg_pmm s)"
    "\<And>f. paging_phys_is_pmm_frame f \<Longrightarrow>
      frame_refs (pg_pmm s') f + frame_uses s D f = frame_refs (pg_pmm s) f + frame_uses s' (D - {d}) f"
proof -
  define s1 where "s1 = fold (destroy_table d) user_pd_indices s"
  define s' where "s' = set_pmm (pmm_release_frame (pg_pmm s1) d) s1"
  have "list_all paging_pd_index_is_user user_pd_indices" using user_indices(1) by (simp add: list_all_iff)
  note run = destroy_tables_run [OF ok d this, folded s1_def]
  have c: "cleared D s d (\<Union> (table_pages ` set user_pd_indices)) s1" using run by blast
  have nt: "\<not> has_table s1 d i" for i using run user_indices(1) by (auto simp: has_table_def)
  have ok1: "spaces_ok s1 D" using c by (simp add: cleared_def)
  note dd = drops_dir [OF ok1 d nt s'_def]
  have ds: "d \<in> structs s1 D" by (rule structI(1) [OF d])
  have u: "frame_refs (pg_pmm s') f + frame_uses s1 D f = frame_refs (pg_pmm s1) f + frame_uses s' (D - {d}) f" for f
    using dd(2-4) ds spaces_okD(5) [OF ok1 ds] by (auto simp: frame_uses_def)
  have uses: "frame_refs (pg_pmm s') f + frame_uses s D f = frame_refs (pg_pmm s) f + frame_uses s' (D - {d}) f"
    if "paging_phys_is_pmm_frame f" for f
  proof -
    have "frame_refs (pg_pmm s1) f + frame_uses s D f = frame_refs (pg_pmm s) f + frame_uses s1 D f"
      using c that by (simp add: cleared_def)
    then show ?thesis using u [of f] by linarith
  qed
  have go: "process_pd_destroy d s = Some s'"
    using dir_virt [OF ok d] by (simp add: process_pd_destroy_def paging_phys_to_kernel_virt_def Let_def s'_def s1_def
        pmm_free_frame_def)
  show thesis
    by (rule that [OF go dd(1) _ _ _ _ uses]) (use c dd(5) in \<open>simp_all add: cleared_def s'_def\<close>)
qed

section \<open>Fork\<close>

definition refs_balanced :: "paging \<Rightarrow> u32 set \<Rightarrow> paging \<Rightarrow> u32 set \<Rightarrow> bool" where
  "refs_balanced s D s' D' \<longleftrightarrow> (\<forall>f. paging_phys_is_pmm_frame f \<longrightarrow>
     frame_refs (pg_pmm s') f + frame_uses s D f = frame_refs (pg_pmm s) f + frame_uses s' D' f)"

lemma refs_balanced_trans:
  assumes "refs_balanced s D s1 D1" "refs_balanced s1 D1 s2 D2"
  shows "refs_balanced s D s2 D2"
  unfolding refs_balanced_def
proof (intro allI impI)
  fix f assume f: "paging_phys_is_pmm_frame f"
  have "frame_refs (pg_pmm s1) f + frame_uses s D f = frame_refs (pg_pmm s) f + frame_uses s1 D1 f"
    "frame_refs (pg_pmm s2) f + frame_uses s1 D1 f = frame_refs (pg_pmm s1) f + frame_uses s2 D2 f"
    using assms f by (simp_all add: refs_balanced_def)
  then show "frame_refs (pg_pmm s2) f + frame_uses s D f = frame_refs (pg_pmm s) f + frame_uses s2 D2 f" by linarith
qed

lemma adds_dir_balanced:
  assumes ad: "adds_dir D s d s'"
  shows "refs_balanced s D s' (insert d D)" "mapped s' (insert d D) f = mapped s D f"
proof -
  note pte = adds_dir_pte [OF ad] and free = adds_dir_fresh [OF ad]
  show m: "mapped s' (insert d D) f = mapped s D f" for f using pte(1,4) free(3) by (auto simp: mapped_def)
  have "frame_refs (pg_pmm s') f + frame_uses s D f = frame_refs (pg_pmm s) f + frame_uses s' (insert d D) f" for f
    using ad free(2) by (cases "f = d") (auto simp: adds_dir_def frame_uses_def m adds_dir_structs(1) [OF ad])
  then show "refs_balanced s D s' (insert d D)" by (simp add: refs_balanced_def)
qed

lemma adds_dir_free:
  assumes "adds_dir D s d s'"
  shows "free_frames s = Suc (free_frames s')"
proof -
  let ?F = "{f \<in> pmm_frames (pg_pmm s). frame_refs (pg_pmm s) f = 0}"
  have "{f \<in> pmm_frames (pg_pmm s'). frame_refs (pg_pmm s') f = 0} = ?F - {d}" "d \<in> ?F"
    using assms by (auto simp: adds_dir_def)
  then show ?thesis using card_Suc_Diff1 [of ?F d] by (simp add: free_frames_def)
qed

text \<open>The result of fork before a failed one is undone: \<open>P\<close> are the pages shared so far.\<close>

lemma clone_ok:
  assumes ok: "spaces_ok s D" and src: "src \<in> D"
    and free: "length (filter (has_table s src) user_pd_indices) < free_frames s"
  obtains dst s1 r s2 P where "process_pd_create s = Some (dst, s1)" "adds_dir D s dst s1"
    "clone_tables m dst src user_pd_indices s1 = Some (r, s2)" "cloned (insert dst D) m s1 src dst P s2"
    "r \<longrightarrow> P = \<Union> (table_pages ` set user_pd_indices)"
    "process_pd_clone_user src m s = (if r then Some (dst, s2) else map_option (Pair 0) (process_pd_destroy dst s2))"
proof -
  have "0 < card {f \<in> pmm_frames (pg_pmm s). frame_refs (pg_pmm s) f = 0}" using free by (simp add: free_frames_def)
  then have some: "\<exists>f \<in> pmm_frames (pg_pmm s). frame_refs (pg_pmm s) f = 0" by (auto simp: card_gt_0_iff)
  show thesis using ok
  proof (cases rule: create_ok)
    case full
    then show thesis using some by blast
  next
    case (new dst s1)
    note ad = new(2)
    have ne: "src \<noteq> dst" using adds_dir_fresh(3) [OF ad] src by auto
    have tb: "has_table s1 src = has_table s src" using adds_dir_pte(2) [OF ad src] by (simp add: fun_eq_iff)
    have "\<exists>r s2 P. clone_tables m dst src user_pd_indices s1 = Some (r, s2) \<and> cloned (insert dst D) m s1 src dst P s2 \<and>
        P \<subseteq> \<Union> (table_pages ` set user_pd_indices) \<and> (r \<longrightarrow> P = \<Union> (table_pages ` set user_pd_indices))"
      using adds_dir_ok [OF ad] src ne user_indices adds_dir_pte(1) [OF ad] free adds_dir_free [OF ad]
      by (intro clone_tables_run) (auto simp: list_all_iff tb)
    then obtain r s2 P where r: "clone_tables m dst src user_pd_indices s1 = Some (r, s2)"
      "cloned (insert dst D) m s1 src dst P s2" "r \<longrightarrow> P = \<Union> (table_pages ` set user_pd_indices)" by blast
    have "process_pd_clone_user src m s = (if r then Some (dst, s2) else map_option (Pair 0) (process_pd_destroy dst s2))"
      using dir_virt(2) [OF ok src] dir_virt(1) [OF adds_dir_ok [OF ad], of src] src new(1) r(1)
      by (simp add: process_pd_clone_user_def)
    then show thesis using that new r by blast
  qed
qed


text \<open>Undoing what fork did by taking the copy down.\<close>

lemma clone_undone:
  assumes ok: "spaces_ok s D" and src: "src \<in> D" and ad: "adds_dir D s dst s1"
    and c: "cloned (insert dst D) m s1 src dst P s2"
  obtains s3 where "process_pd_destroy dst s2 = Some s3" "spaces_ok s3 D"
    "\<And>f. paging_phys_is_pmm_frame f \<Longrightarrow> frame_refs (pg_pmm s3) f = frame_refs (pg_pmm s) f"
    "\<And>p. user_pte s3 src p = (if p \<in> P then clone_src m p (user_pte s src p) else user_pte s src p)"
    "\<And>e. e \<in> D - {src} \<Longrightarrow> user_pte s3 e = user_pte s e"
    "\<And>f. mapped s D f \<noteq> {} \<Longrightarrow> phys_mem s3 f = phys_mem s f"
proof -
  note fresh = adds_dir_fresh [OF ad]
  have eq: "insert dst D - {dst} = D" using fresh(3) by auto
  have ne: "src \<noteq> dst" using fresh(3) src by auto
  have ok2: "spaces_ok s2 (insert dst D)" using c by (simp add: cloned_def)
  obtain s3 where d: "process_pd_destroy dst s2 = Some s3" "spaces_ok s3 D"
    "\<And>e. e \<in> D \<Longrightarrow> user_pte s3 e = user_pte s2 e" "\<And>e. e \<in> D \<Longrightarrow> phys_mem s3 e = phys_mem s2 e"
    "\<And>f. f \<notin> structs s2 (insert dst D) \<Longrightarrow> phys_mem s3 f = phys_mem s2 f" "refs_balanced s2 (insert dst D) s3 D"
    using destroy_ok [OF ok2 insertI1] unfolding eq refs_balanced_def by metis
  have p1: "user_pte s1 e = user_pte s e" "phys_mem s1 e = phys_mem s e" if "e \<in> D" for e
    using adds_dir_pte(4) [OF ad that] ad that fresh(3) by (auto simp: adds_dir_def)
  have src3: "user_pte s3 src p = (if p \<in> P then clone_src m p (user_pte s src p) else user_pte s src p)" for p
    using c d(3) [OF src] p1(1) [OF src] by (simp add: cloned_def)
  have oth3: "user_pte s3 e = user_pte s e" if "e \<in> D - {src}" for e
  proof -
    have e: "e \<in> D" "e \<in> insert dst D - {src, dst}" using that fresh(3) by auto
    then have "user_pte s2 e = user_pte s1 e" using c unfolding cloned_def by blast
    then show ?thesis using d(3) [OF e(1)] p1(1) [OF e(1)] by simp
  qed
  have m: "mapped s3 D f = mapped s D f" for f
  proof -
    have "bit (user_pte s3 e p) 0 = bit (user_pte s e p) 0 \<and> bit (user_pte s3 e p) 2 = bit (user_pte s e p) 2 \<and>
        frame_of (user_pte s3 e p) = frame_of (user_pte s e p)" if "e \<in> D" for e p
      using that oth3 [of e] src3 [of p] clone_entries(1-3) by (cases "e = src") auto
    then show ?thesis by (auto simp: mapped_def)
  qed
  have "phys_mem s3 e = phys_mem s e" if "e \<in> D" for e
    using d(4) [OF that] c p1(2) [OF that] that fresh(3) by (auto simp: cloned_def)
  then have st: "structs s3 D = structs s D"
  proof -
    assume a: "\<And>e. e \<in> D \<Longrightarrow> phys_mem s3 e = phys_mem s e"
    have "struct_keys s3 D = struct_keys s D" using a by (auto simp: struct_keys_def has_table_def split: option.splits)
    moreover have "struct_at s3 k = struct_at s k" if "k \<in> struct_keys s D" for k
      using a that by (cases k; cases "snd k") (auto simp: struct_keys_def table_of_def)
    ultimately show ?thesis unfolding structs_def by (intro image_cong) auto
  qed
  have "refs_balanced s1 (insert dst D) s2 (insert dst D)" using c by (simp add: cloned_def refs_balanced_def)
  then have "refs_balanced s D s3 D"
    using adds_dir_balanced(1) [OF ad] d(6) refs_balanced_trans by blast
  then have refs: "frame_refs (pg_pmm s3) f = frame_refs (pg_pmm s) f" if "paging_phys_is_pmm_frame f" for f
    using that by (simp add: refs_balanced_def frame_uses_def m st)
  have "phys_mem s3 f = phys_mem s f" if f: "mapped s D f \<noteq> {}" for f
  proof -
    have m1: "mapped s1 (insert dst D) f \<noteq> {}" using adds_dir_balanced(2) [OF ad] f by simp
    have "mapped s1 (insert dst D) f \<subseteq> mapped s2 (insert dst D) f" using c by (simp add: cloned_def)
    then have "mapped s2 (insert dst D) f \<noteq> {}" using m1 by blast
    then have "f \<notin> structs s2 (insert dst D)" using spaces_okD(6) [OF ok2] by blast
    moreover have "f \<noteq> dst" using f fresh(1) by auto
    ultimately show ?thesis using d(5) c m1 ad by (simp add: cloned_def adds_dir_def)
  qed
  then show thesis using that d(1,2) refs src3 oth3 by blast
qed

section \<open>Properties\<close>

text \<open>
  C9: Taking down an address space never panics and gives back exactly what it used: the reference count of each
  frame of the manager drops by the number of times the address space used the frame, as directory, as page table or as the
  memory behind a page. No page of another address space changes, nor does the content of any frame but
  page tables, and the other address spaces stay well formed.
\<close>

theorem process_pd_destroy_correct:
  assumes "spaces_ok s D" "d \<in> D"
  shows "\<exists>s'. process_pd_destroy d s = Some s' \<and> spaces_ok s' (D - {d}) \<and> same_other_spaces D d s s' \<and>
    (\<forall>f. f \<notin> structs s D \<longrightarrow> phys_mem s' f = phys_mem s f) \<and> refs_balanced s D s' (D - {d})"
proof -
  from destroy_ok [OF assms] obtain s' where "process_pd_destroy d s = Some s'" "spaces_ok s' (D - {d})"
    "\<And>e. e \<in> D - {d} \<Longrightarrow> user_pte s' e = user_pte s e" "\<And>f. f \<notin> structs s D \<Longrightarrow> phys_mem s' f = phys_mem s f"
    "\<And>f. paging_phys_is_pmm_frame f \<Longrightarrow>
      frame_refs (pg_pmm s') f + frame_uses s D f = frame_refs (pg_pmm s) f + frame_uses s' (D - {d}) f" by metis
  then show ?thesis by (auto simp: same_other_spaces_def refs_balanced_def)
qed

lemma example_uses:
  "frame_uses paging_example {0x200000} 0x201000 = 1" "frame_uses paging_example {0x200000} 0x202000 = 1"
  by (simp_all add: frame_uses_def example_mapped example_structs)

lemma process_pd_destroy_correct_witness:
  "\<exists>s'. process_pd_destroy 0x200000 paging_example = Some s' \<and>
    frame_refs (pg_pmm s') 0x201000 = 0 \<and> frame_refs (pg_pmm s') 0x202000 = 1"
proof -
  have d: "(0x200000 :: u32) \<in> {0x200000}" by simp
  from process_pd_destroy_correct [OF example_ok d] obtain s' where
    s': "process_pd_destroy 0x200000 paging_example = Some s'" "refs_balanced paging_example {0x200000} s' {}" by auto
  have "frame_uses s' {} f = 0" for f by (simp add: frame_uses_def mapped_def structs_def struct_keys_def)
  moreover have "paging_phys_is_pmm_frame 0x201000" "paging_phys_is_pmm_frame 0x202000"
    "frame_refs (pg_pmm paging_example) 0x201000 = 1" "frame_refs (pg_pmm paging_example) 0x202000 = 2"
    unfolding paging_example_def by code_simp+
  ultimately show ?thesis using s' example_uses unfolding refs_balanced_def by force
qed






lemma example_free: "length (filter (has_table paging_example 0x200000) user_pd_indices) < free_frames paging_example"
proof -
  have "has_table paging_example 0x200000 = (\<lambda>i. i = 1)" using example_tables(1) by blast
  then have "length (filter (has_table paging_example 0x200000) user_pd_indices) = card ({1} \<inter> set user_pd_indices)"
    using distinct_length_filter [OF user_indices(2), of "\<lambda>i. i = 1"] by simp
  also have "\<dots> \<le> card {1 :: nat}" by (rule card_mono) auto
  finally have l: "length (filter (has_table paging_example 0x200000) user_pd_indices) \<le> 1" by simp
  let ?F = "{f \<in> pmm_frames (pg_pmm paging_example). frame_refs (pg_pmm paging_example) f = 0}"
  have "0x203000 \<in> ?F" "0x204000 \<in> ?F"
    unfolding paging_example_def pmm_frames_def mem_Collect_eq by code_simp+
  then have "{0x203000, 0x204000} \<subseteq> ?F" unfolding insert_subset by (intro conjI empty_subsetI)
  then have "card {0x203000, 0x204000 :: u32} \<le> card ?F" by (intro card_mono) auto
  then show ?thesis using l by (simp add: free_frames_def)
qed


text \<open>
  C10: Fork and exit leave nothing behind. Copying an address space and taking the copy down again, whether or not the copy was
  made, returns every frame of the manager to the reference count it had; every page of the parent is where it was, with the entry
  it had or the one fork gives it, memory keeps its contents, and the other address spaces are unchanged.
\<close>

theorem fork_exit_no_leak:
  assumes "spaces_ok s D" "src \<in> D" "length (filter (has_table s src) user_pd_indices) < free_frames s"
  shows "\<exists>dst s1 s2. process_pd_clone_user src m s = Some (dst, s1) \<and> process_pd_destroy dst s1 = Some s2 \<and>
    spaces_ok s2 D \<and> frame_refs (pg_pmm s2) = frame_refs (pg_pmm s) \<and> same_other_spaces D src s s2 \<and>
    (\<forall>p. user_pte s2 src p = user_pte s src p \<or> user_pte s2 src p = clone_src m p (user_pte s src p)) \<and>
    (\<forall>f. mapped s D f \<noteq> {} \<longrightarrow> phys_mem s2 f = phys_mem s f)"
proof -
  obtain dst s1 r s2 P where run: "adds_dir D s dst s1" "cloned (insert dst D) m s1 src dst P s2"
    "process_pd_clone_user src m s = (if r then Some (dst, s2) else map_option (Pair 0) (process_pd_destroy dst s2))"
    by (rule clone_ok [OF assms, of m]) blast
  obtain s3 where s3: "process_pd_destroy dst s2 = Some s3" "spaces_ok s3 D"
    "\<And>f. paging_phys_is_pmm_frame f \<Longrightarrow> frame_refs (pg_pmm s3) f = frame_refs (pg_pmm s) f"
    "\<And>p. user_pte s3 src p = (if p \<in> P then clone_src m p (user_pte s src p) else user_pte s src p)"
    "\<And>e. e \<in> D - {src} \<Longrightarrow> user_pte s3 e = user_pte s e"
    "\<And>f. mapped s D f \<noteq> {} \<Longrightarrow> phys_mem s3 f = phys_mem s f"
    by (rule clone_undone [OF assms(1,2) run(1,2)]) blast
  have "frame_refs (pg_pmm s3) f = frame_refs (pg_pmm s) f" for f
  proof (cases "paging_phys_is_pmm_frame f")
    case False
    have "frame_refs p f = 0" if "pmm_inv p" for p
      using False pmm_frame_in_range [OF that] frame_refs_managed [of p f] by blast
    then show ?thesis using spaces_okD(2) [OF s3(2)] spaces_okD(2) [OF assms(1)] by simp
  qed (simp add: s3(3))
  then have refs: "frame_refs (pg_pmm s3) = frame_refs (pg_pmm s)" by blast
  have "\<exists>d s'. process_pd_clone_user src m s = Some (d, s') \<and> process_pd_destroy d s' = Some s3"
    using run(3) s3(1) by (cases r) (auto simp: process_pd_destroy_def)
  then show ?thesis using s3(2,4-6) refs by (force simp: same_other_spaces_def)
qed

lemma fork_exit_no_leak_witness:
  "\<exists>dst s1 s2. process_pd_clone_user 0x200000 (\<lambda>_. True) paging_example = Some (dst, s1) \<and>
    process_pd_destroy dst s1 = Some s2 \<and> frame_refs (pg_pmm s2) 0x202000 = 2"
proof -
  have d: "(0x200000 :: u32) \<in> {0x200000}" by simp
  have "frame_refs (pg_pmm paging_example) 0x202000 = 2" unfolding paging_example_def by code_simp
  then show ?thesis using fork_exit_no_leak [OF example_ok d example_free, of "\<lambda>_. True"] by auto
qed

end
