(* ===== verification/Page_Cache.thy ===== *)
theory Page_Cache
  imports Paging_Spaces Errno
begin

text \<open>
  The cache of read-only file pages that address spaces share (\<^verbatim>\<open>src/kernel/vfs.c\<close>). An entry of the cache holds one
  reference of its frame, each mapping another. The file system below, \<^verbatim>\<open>ext2\<close>, is an argument: what \<^verbatim>\<open>vfs_stat_info\<close>
  finds, and the bytes that \<^verbatim>\<open>ext2_read_at_path\<close> stores with the flag it returns. The disabling of interrupts
  is left out.
\<close>

section \<open>Bytes of a frame\<close>

definition frame_byte :: "frame_words \<Rightarrow> nat \<Rightarrow> u8" where
  "frame_byte ws k = ucast (drop_bit (8 * (k mod 4)) (ws (k div 4)))"

definition join_bytes :: "u8 \<Rightarrow> u8 \<Rightarrow> u8 \<Rightarrow> u8 \<Rightarrow> u32" where
  "join_bytes a b c d = ucast a OR push_bit 8 (ucast b) OR push_bit 16 (ucast c) OR push_bit 24 (ucast d)"

definition store_bytes :: "frame_words \<Rightarrow> nat \<Rightarrow> u8 list \<Rightarrow> frame_words" where
  "store_bytes ws off bs =
     (let b = (\<lambda>k. if off \<le> k \<and> k < off + length bs then bs ! (k - off) else frame_byte ws k)
      in (\<lambda>i. join_bytes (b (4 * i)) (b (4 * i + 1)) (b (4 * i + 2)) (b (4 * i + 3))))"

lemma byte_of_join:
  "ucast (drop_bit 0 (join_bytes a b c d)) = a" "ucast (drop_bit 8 (join_bytes a b c d)) = b"
  "ucast (drop_bit 16 (join_bytes a b c d)) = c" "ucast (drop_bit 24 (join_bytes a b c d)) = d"
  unfolding join_bytes_def
  by (rule bit_eqI; auto simp: bit_simps dest: bit_imp_le_length)+

lemma frame_byte_store:
  "frame_byte (store_bytes ws off bs) k =
     (if off \<le> k \<and> k < off + length bs then bs ! (k - off) else frame_byte ws k)"
proof -
  define b where "b = (\<lambda>k. if off \<le> k \<and> k < off + length bs then bs ! (k - off) else frame_byte ws k)"
  have k: "k = 4 * (k div 4) + k mod 4" by simp
  consider "k mod 4 = 0" | "k mod 4 = 1" | "k mod 4 = 2" | "k mod 4 = 3" by linarith
  then have "frame_byte (store_bytes ws off bs) k = b (4 * (k div 4) + k mod 4)"
    unfolding frame_byte_def [of "store_bytes ws off bs"] unfolding store_bytes_def Let_def b_def [symmetric]
    by cases (simp_all add: byte_of_join byte_of_join(1) [simplified])
  then show ?thesis unfolding b_def using k by simp
qed

lemma frame_byte_zero [simp]: "frame_byte (\<lambda>_. 0) k = 0"
  by (simp add: frame_byte_def)

section \<open>The cache\<close>

definition VFS_RO_MAP_CACHE_PAGES :: nat where "VFS_RO_MAP_CACHE_PAGES = 128"

text \<open>The fields of \<^verbatim>\<open>sys_stat_info\<close> that the cache reads, and what is used of the file system.\<close>

record sys_stat_info =
  st_ino :: u32
  st_size :: u32
  st_mtime :: u32
  st_ctime :: u32
  st_is_dir :: bool

record file_system =
  fs_stat_info :: "string \<Rightarrow> sys_stat_info option"
  fs_read_at_path :: "string \<Rightarrow> u32 \<Rightarrow> u32 \<Rightarrow> bool \<times> u8 list"

record vfs_ro_map_entry =
  rm_name :: string
  rm_ino :: u32
  rm_size :: u32
  rm_mtime :: u32
  rm_ctime :: u32
  rm_file_offset :: u32
  rm_frame :: u32

text \<open>An entry with \<^verbatim>\<open>used\<close> clear is all zero.\<close>

record vm_state =
  vs_paging :: paging
  s_ro_map_cache :: "vfs_ro_map_entry option list"

abbreviation vs_pmm :: "vm_state \<Rightarrow> pmm" where
  "vs_pmm st \<equiv> pg_pmm (vs_paging st)"

definition vs_set_pmm :: "pmm \<Rightarrow> vm_state \<Rightarrow> vm_state" where
  "vs_set_pmm p st = st\<lparr>vs_paging := set_pmm p (vs_paging st)\<rparr>"

definition vfs_zero_frame :: "u32 \<Rightarrow> vm_state \<Rightarrow> vm_state" where
  "vfs_zero_frame frame st = st\<lparr>vs_paging := set_frame frame (\<lambda>_. 0) (vs_paging st)\<rparr>"

definition vfs_ro_map_drop_entry :: "nat \<Rightarrow> vm_state \<Rightarrow> vm_state" where
  "vfs_ro_map_drop_entry i st =
     (case s_ro_map_cache st ! i of
        None \<Rightarrow> st
      | Some ent \<Rightarrow>
          let st = (if rm_frame ent \<noteq> 0 then vs_set_pmm (pmm_release_frame (vs_pmm st) (rm_frame ent)) st else st)
          in st\<lparr>s_ro_map_cache := (s_ro_map_cache st)[i := None]\<rparr>)"

definition ro_map_invalidate_at :: "string \<Rightarrow> nat \<Rightarrow> vm_state \<Rightarrow> vm_state" where
  "ro_map_invalidate_at path i st =
     (case s_ro_map_cache st ! i of
        None \<Rightarrow> st
      | Some ent \<Rightarrow> if rm_name ent = path then vfs_ro_map_drop_entry i st else st)"

definition vfs_ro_map_invalidate_path :: "string \<Rightarrow> vm_state \<Rightarrow> vm_state" where
  "vfs_ro_map_invalidate_path path st = fold (ro_map_invalidate_at path) [0..<VFS_RO_MAP_CACHE_PAGES] st"

definition ro_map_matches :: "string \<Rightarrow> sys_stat_info \<Rightarrow> u32 \<Rightarrow> vfs_ro_map_entry \<Rightarrow> bool" where
  "ro_map_matches path info file_offset ent \<longleftrightarrow>
     rm_file_offset ent = file_offset \<and> rm_ino ent = st_ino info \<and> rm_size ent = st_size info \<and>
     rm_mtime ent = st_mtime info \<and> rm_ctime ent = st_ctime info \<and> rm_name ent = path"

definition vfs_ro_map_find :: "string \<Rightarrow> sys_stat_info \<Rightarrow> u32 \<Rightarrow> vm_state \<Rightarrow> nat option" where
  "vfs_ro_map_find path info file_offset st =
     List.find (\<lambda>i. case s_ro_map_cache st ! i of None \<Rightarrow> False | Some ent \<Rightarrow> ro_map_matches path info file_offset ent)
       [0..<VFS_RO_MAP_CACHE_PAGES]"

text \<open>The loop of \<^verbatim>\<open>vfs_ro_map_victim\<close>: an entry nobody maps is dropped at once, else the first free one is taken.\<close>

fun ro_map_victim_loop :: "nat list \<Rightarrow> nat option \<Rightarrow> vm_state \<Rightarrow> nat option \<times> vm_state" where
  "ro_map_victim_loop [] first_free st = (first_free, st)"
| "ro_map_victim_loop (i # is) first_free st =
     (case s_ro_map_cache st ! i of
        None \<Rightarrow> ro_map_victim_loop is (if first_free = None then Some i else first_free) st
      | Some ent \<Rightarrow>
          if rm_frame ent \<noteq> 0 \<and> pmm_frame_refcount (vs_pmm st) (rm_frame ent) \<le> 1
          then (Some i, vfs_ro_map_drop_entry i st)
          else ro_map_victim_loop is first_free st)"

definition vfs_ro_map_victim :: "vm_state \<Rightarrow> nat option \<times> vm_state" where
  "vfs_ro_map_victim st = ro_map_victim_loop [0..<VFS_RO_MAP_CACHE_PAGES] None st"

text \<open>Reading into a frame: the result of the call, the bytes read and the state.\<close>

definition vfs_read_path_at :: "file_system \<Rightarrow> string \<Rightarrow> u32 \<Rightarrow> u32 \<Rightarrow> u32 \<Rightarrow> u32 \<Rightarrow> vm_state \<Rightarrow> int \<times> u32 \<times> vm_state" where
  "vfs_read_path_at fs path offset frame pos len st =
     (if len = 0 then (0, 0, st)
      else
        let (ok, bytes) = fs_read_at_path fs path offset len;
            st = st\<lparr>vs_paging := set_frame frame
                   (store_bytes (phys_mem (vs_paging st) frame) (unat pos) bytes) (vs_paging st)\<rparr>
        in if \<not> ok then (- EIO, 0, st) else (0, of_nat (length bytes), st))"

definition ro_map_fill :: "string \<Rightarrow> sys_stat_info \<Rightarrow> u32 \<Rightarrow> u32 \<Rightarrow> vfs_ro_map_entry" where
  "ro_map_fill path info file_offset frame =
     \<lparr>rm_name = take (PROCESS_FD_NAME_MAX - 1) path, rm_ino = st_ino info, rm_size = st_size info, rm_mtime = st_mtime info,
      rm_ctime = st_ctime info, rm_file_offset = file_offset, rm_frame = frame\<rparr>"

text \<open>A reference to a cached page for the caller.\<close>

definition ro_map_take :: "nat \<Rightarrow> u32 \<Rightarrow> vm_state \<Rightarrow> (int \<times> u32 \<times> u32 \<times> vm_state) option" where
  "ro_map_take i bytes st =
     (case s_ro_map_cache st ! i of
        None \<Rightarrow> None
      | Some cached \<Rightarrow>
          let (ok, p) = pmm_retain_frame (vs_pmm st) (rm_frame cached)
          in Some (if \<not> ok then (- EIO, 0, 0, st) else (0, rm_frame cached, bytes, vs_set_pmm p st)))"

text \<open>A page that was read becomes an entry of the cache, with a reference more for the caller.\<close>

definition ro_map_enter ::
  "string \<Rightarrow> sys_stat_info \<Rightarrow> u32 \<Rightarrow> u32 \<Rightarrow> u32 \<Rightarrow> vm_state \<Rightarrow> int \<times> u32 \<times> u32 \<times> vm_state" where
  "ro_map_enter path info file_offset frame bytes st =
     (case vfs_ro_map_victim st of
        (None, st) \<Rightarrow> (- ENOMEM, 0, 0, vs_set_pmm (pmm_release_frame (vs_pmm st) frame) st)
      | (Some i, st) \<Rightarrow>
          let st = st\<lparr>s_ro_map_cache := (s_ro_map_cache st)[i := Some (ro_map_fill path info file_offset frame)]\<rparr>;
              (ok, p) = pmm_retain_frame (vs_pmm st) frame
          in if \<not> ok then (- EIO, 0, 0, vfs_ro_map_drop_entry i st) else (0, frame, bytes, vs_set_pmm p st))"

text \<open>A page that is not in the cache is read into a new frame, and looked up once more.\<close>

definition ro_map_load ::
  "file_system \<Rightarrow> string \<Rightarrow> sys_stat_info \<Rightarrow> u32 \<Rightarrow> u32 \<Rightarrow> vm_state \<Rightarrow> (int \<times> u32 \<times> u32 \<times> vm_state) option" where
  "ro_map_load fs path info file_offset bytes st =
     (let (frame, p) = pmm_alloc_frame (vs_pmm st) in
      if frame = 0 then Some (- ENOMEM, 0, 0, st)
      else if paging_phys_to_kernel_virt frame = None then None
      else
        let st = vfs_zero_frame frame (vs_set_pmm p st);
            (rc, got, st) = vfs_read_path_at fs path file_offset frame 0 bytes st
        in if rc < 0 \<or> got \<noteq> bytes
           then Some (- EIO, 0, 0, vs_set_pmm (pmm_release_frame (vs_pmm st) frame) st)
           else
             case vfs_ro_map_find path info file_offset st of
               Some i \<Rightarrow> ro_map_take i bytes (vs_set_pmm (pmm_release_frame (vs_pmm st) frame) st)
             | None \<Rightarrow> Some (ro_map_enter path info file_offset frame bytes st))"

definition vfs_file_map_ro_page_path ::
  "file_system \<Rightarrow> string \<Rightarrow> u32 \<Rightarrow> vm_state \<Rightarrow> (int \<times> u32 \<times> u32 \<times> vm_state) option" where
  "vfs_file_map_ro_page_path fs path file_offset st =
     (if file_offset AND (PAGE_SIZE - 1) \<noteq> 0 then Some (- EINVAL, 0, 0, st)
      else
        case fs_stat_info fs path of
          None \<Rightarrow> Some (- ENOENT, 0, 0, st)
        | Some info \<Rightarrow>
            if st_is_dir info \<or> file_offset \<ge> st_size info then Some (- EINVAL, 0, 0, st)
            else
              let bytes = st_size info - file_offset;
                  bytes = (if bytes > PAGE_SIZE then PAGE_SIZE else bytes)
              in case vfs_ro_map_find path info file_offset st of
                   Some i \<Rightarrow> ro_map_take i bytes st
                 | None \<Rightarrow> ro_map_load fs path info file_offset bytes st)"

definition vfs_file_map_cache_stats :: "vm_state \<Rightarrow> u32 \<times> u32" where
  "vfs_file_map_cache_stats st =
     fold (\<lambda>x (pages, refs).
         case x of
           None \<Rightarrow> (pages, refs)
         | Some ent \<Rightarrow>
             if rm_frame ent = 0 then (pages, refs)
             else
               let refcount = pmm_frame_refcount (vs_pmm st) (rm_frame ent)
               in (pages + 1, if refcount > 1 then refs + (refcount - 1) else refs))
       (s_ro_map_cache st) (0, 0)"

section \<open>The invariant\<close>

definition cached_uses :: "vfs_ro_map_entry option list \<Rightarrow> u32 \<Rightarrow> nat" where
  "cached_uses c f = card {i. i < length c \<and> map_option rm_frame (c ! i) = Some f}"

text \<open>
  A set of address spaces with the cache: each frame has a reference for every use of it, by an address space or by the
  cache, and no page table is cached.
\<close>

definition cache_ok :: "vm_state \<Rightarrow> u32 set \<Rightarrow> bool" where
  "cache_ok st D \<longleftrightarrow> spaces_ok (vs_paging st) D \<and> length (s_ro_map_cache st) = VFS_RO_MAP_CACHE_PAGES \<and>
     (\<forall>ent. Some ent \<in> set (s_ro_map_cache st) \<longrightarrow>
        rm_frame ent \<in> pmm_frames (vs_pmm st) - structs (vs_paging st) D) \<and>
     (\<forall>f. paging_phys_is_pmm_frame f \<longrightarrow>
        frame_uses (vs_paging st) D f + cached_uses (s_ro_map_cache st) f \<le> frame_refs (vs_pmm st) f)"

lemma cache_okD:
  assumes "cache_ok st D"
  shows "spaces_ok (vs_paging st) D" "length (s_ro_map_cache st) = VFS_RO_MAP_CACHE_PAGES" "pmm_inv (vs_pmm st)"
    "Some ent \<in> set (s_ro_map_cache st) \<Longrightarrow> rm_frame ent \<in> pmm_frames (vs_pmm st)"
    "Some ent \<in> set (s_ro_map_cache st) \<Longrightarrow> rm_frame ent \<notin> structs (vs_paging st) D"
    "paging_phys_is_pmm_frame f \<Longrightarrow>
      frame_uses (vs_paging st) D f + cached_uses (s_ro_map_cache st) f \<le> frame_refs (vs_pmm st) f"
  using assms spaces_okD(2) by (auto simp: cache_ok_def)

lemma cache_ok_change:
  assumes ok: "cache_ok st D"
    and mem: "\<And>f. f \<in> structs (vs_paging st) D \<Longrightarrow> phys_mem (vs_paging st') f = phys_mem (vs_paging st) f"
      "kernel_page_directory (vs_paging st') = kernel_page_directory (vs_paging st)"
    and pmm: "pmm_inv (vs_pmm st')" "pmm_frames (vs_pmm st') = pmm_frames (vs_pmm st)"
    and cache: "length (s_ro_map_cache st') = VFS_RO_MAP_CACHE_PAGES" "\<And>ent. Some ent \<in> set (s_ro_map_cache st') \<Longrightarrow>
      rm_frame ent \<in> pmm_frames (vs_pmm st) - structs (vs_paging st) D"
    and refs: "\<And>f. paging_phys_is_pmm_frame f \<Longrightarrow>
      frame_uses (vs_paging st) D f + cached_uses (s_ro_map_cache st') f \<le> frame_refs (vs_pmm st') f"
  shows "cache_ok st' D" "e \<in> D \<Longrightarrow> user_pte (vs_paging st') e = user_pte (vs_paging st) e"
    "structs (vs_paging st') D = structs (vs_paging st) D" "mapped (vs_paging st') D f = mapped (vs_paging st) D f"
    "frame_uses (vs_paging st') D f = frame_uses (vs_paging st) D f"
proof -
  let ?s = "vs_paging st" and ?s' = "vs_paging st'"
  note oks = cache_okD(1) [OF ok]
  have same: "e \<in> D \<Longrightarrow> user_pte ?s' e = user_pte ?s e" "structs ?s' D = structs ?s D" "mapped ?s' D f = mapped ?s D f" for e f
    using same_structs [OF oks, of "set_pmm (pg_pmm ?s) ?s'"] mem by simp_all
  show "user_pte ?s' e = user_pte ?s e" if "e \<in> D" using same(1) that .
  show st: "structs ?s' D = structs ?s D" by (rule same(2))
  show m: "mapped ?s' D f = mapped ?s D f" for f by (rule same(3))
  show u: "frame_uses ?s' D f = frame_uses ?s D f" for f by (simp add: frame_uses_def st m)
  have le: "card (mapped ?s D f) + of_bool (f \<in> structs ?s D) \<le> frame_refs (vs_pmm st') f" if "paging_phys_is_pmm_frame f" for f
    using refs [OF that] by (simp add: frame_uses_def)
  have "spaces_ok ?s' D"
  proof (rule spaces_ok_same [OF oks])
    show "same_tables D ?s ?s'" using mem(1) [OF structI(1)] mem(2) by (simp add: same_tables_def)
    show "0 < frame_refs (vs_pmm st') f \<and> mapped ?s' D f = {}" if f: "f \<in> structs ?s D" for f
      using le [OF pmm_frame_in_range [OF spaces_okD(2) [OF oks] spaces_okD(4) [OF oks f]]] f spaces_okD(6) [OF oks f] by (simp add: m)
    show "card (mapped ?s' D f) \<le> frame_refs (vs_pmm st') f" if "paging_phys_is_pmm_frame f" for f
      using le [OF that] by (simp add: m)
  qed (use pmm in auto)
  then show "cache_ok st' D" using cache refs pmm(2) by (simp add: cache_ok_def st u)
qed

text \<open>Frames whose contents matter: those outside the manager and those with a reference.\<close>

definition in_use :: "vm_state \<Rightarrow> u32 \<Rightarrow> bool" where
  "in_use st f \<longleftrightarrow> (f \<in> pmm_frames (vs_pmm st) \<longrightarrow> 0 < frame_refs (vs_pmm st) f)"

lemma struct_in_use: "cache_ok st D \<Longrightarrow> f \<in> structs (vs_paging st) D \<Longrightarrow> in_use st f"
  using spaces_okD(5) [OF cache_okD(1)] by (simp add: in_use_def)

lemma cached_update:
  assumes "i < length c"
  shows "cached_uses (c[i := v]) f + of_bool (map_option rm_frame (c ! i) = Some f) =
    cached_uses c f + of_bool (map_option rm_frame v = Some f)"
proof -
  let ?S = "{j. j < length c \<and> j \<noteq> i \<and> map_option rm_frame (c ! j) = Some f}"
  have fin: "finite ?S" by simp
  have a: "{j. j < length c \<and> map_option rm_frame (c ! j) = Some f} =
      (if map_option rm_frame (c ! i) = Some f then insert i ?S else ?S)" using assms by auto
  have b: "{j. j < length (c[i := v]) \<and> map_option rm_frame (c[i := v] ! j) = Some f} =
      (if map_option rm_frame v = Some f then insert i ?S else ?S)" using assms by (auto simp: nth_list_update)
  show ?thesis unfolding cached_uses_def a b using fin by auto
qed

lemma cached_uses_pos: "Some ent \<in> set c \<Longrightarrow> 0 < cached_uses c (rm_frame ent)"
  by (fastforce simp: cached_uses_def card_gt_0_iff in_set_conv_nth)

lemma cached_refs:
  assumes ok: "cache_ok st D" and e: "Some ent \<in> set (s_ro_map_cache st)"
  shows "0 < frame_refs (vs_pmm st) (rm_frame ent)" "paging_phys_is_pmm_frame (rm_frame ent)"
proof -
  show r: "paging_phys_is_pmm_frame (rm_frame ent)" by (rule pmm_frame_in_range [OF cache_okD(3) [OF ok] cache_okD(4) [OF ok e]])
  show "0 < frame_refs (vs_pmm st) (rm_frame ent)" using cache_okD(6) [OF ok r] cached_uses_pos [OF e] by simp
qed

lemma vs_set_pmm_simps [simp]:
  "vs_pmm (vs_set_pmm p st) = p" "s_ro_map_cache (vs_set_pmm p st) = s_ro_map_cache st"
  "phys_mem (vs_paging (vs_set_pmm p st)) = phys_mem (vs_paging st)"
  "kernel_page_directory (vs_paging (vs_set_pmm p st)) = kernel_page_directory (vs_paging st)"
  by (simp_all add: vs_set_pmm_def)

section \<open>The steps\<close>

text \<open>
  A step on the cache: it writes only to the frames \<open>W\<close>, and gives the caller the references \<open>x\<close>.
\<close>

definition cache_step :: "u32 set \<Rightarrow> u32 set \<Rightarrow> (u32 \<Rightarrow> nat) \<Rightarrow> vm_state \<Rightarrow> vm_state \<Rightarrow> bool" where
  "cache_step D W x st st' \<longleftrightarrow> cache_ok st' D \<and>
     (\<forall>f. f \<notin> W \<longrightarrow> phys_mem (vs_paging st') f = phys_mem (vs_paging st) f) \<and>
     kernel_page_directory (vs_paging st') = kernel_page_directory (vs_paging st) \<and>
     pmm_frames (vs_pmm st') = pmm_frames (vs_pmm st) \<and>
     (\<forall>f. frame_refs (vs_pmm st') f + cached_uses (s_ro_map_cache st) f =
          frame_refs (vs_pmm st) f + cached_uses (s_ro_map_cache st') f + x f)"

lemma cache_step_refl: "cache_ok st D \<Longrightarrow> cache_step D W (\<lambda>_. 0) st st"
  by (simp add: cache_step_def)

lemma cache_step_refs:
  "cache_step D W x st st' \<Longrightarrow> frame_refs (vs_pmm st') f + cached_uses (s_ro_map_cache st) f =
     frame_refs (vs_pmm st) f + cached_uses (s_ro_map_cache st') f + x f"
  by (simp add: cache_step_def)

lemma cache_step_trans:
  assumes "cache_step D W x st st1" "cache_step D V y st1 st2"
  shows "cache_step D (W \<union> V) (\<lambda>f. x f + y f) st st2"
proof -
  have "frame_refs (vs_pmm st2) f + cached_uses (s_ro_map_cache st) f =
      frame_refs (vs_pmm st) f + cached_uses (s_ro_map_cache st2) f + (x f + y f)" for f
    using cache_step_refs [OF assms(1), of f] cache_step_refs [OF assms(2), of f] by linarith
  then show ?thesis using assms by (simp add: cache_step_def)
qed

lemma drop_entry_step:
  assumes ok: "cache_ok st D" and i: "i < VFS_RO_MAP_CACHE_PAGES"
  shows "cache_step D {} (\<lambda>_. 0) st (vfs_ro_map_drop_entry i st)"
    "s_ro_map_cache (vfs_ro_map_drop_entry i st) = (s_ro_map_cache st)[i := None]"
proof -
  let ?c = "s_ro_map_cache st" and ?st' = "vfs_ro_map_drop_entry i st"
  have i': "i < length ?c" using i cache_okD(2) [OF ok] by simp
  have "cache_step D {} (\<lambda>_. 0) st ?st' \<and> s_ro_map_cache ?st' = ?c[i := None]"
  proof (cases "?c ! i")
    case None
    then have "?c[i := None] = ?c" using list_update_id [of ?c i] by simp
    then show ?thesis using None cache_step_refl [OF ok] by (simp add: vfs_ro_map_drop_entry_def)
  next
    case (Some ent)
    let ?f = "rm_frame ent"
    have mem: "Some ent \<in> set ?c" using Some i' nth_mem by fastforce
    note fr = cache_okD(4) [OF ok mem] and cr = cached_refs [OF ok mem]
    note rel = release_aligned [OF cache_okD(3) [OF ok] pmm_frame_aligned [OF fr]]
    have "?f \<noteq> 0" using cr(2) by (auto simp: paging_phys_is_pmm_frame_def PMM_BASE_def)
    then have st': "?st' = (vs_set_pmm (pmm_release_frame (vs_pmm st) ?f) st)\<lparr>s_ro_map_cache := ?c[i := None]\<rparr>"
      using Some by (simp add: vfs_ro_map_drop_entry_def Let_def vs_set_pmm_def)
    have bal: "frame_refs (vs_pmm ?st') f + cached_uses ?c f = frame_refs (vs_pmm st) f + cached_uses (?c[i := None]) f" for f
      using cached_update [OF i', of None f] Some cr(1) cached_uses_pos [OF mem] rel(3) by (auto simp: st')
    have sub: "Some e \<in> set (?c[i := None]) \<Longrightarrow> Some e \<in> set ?c" for e
      using set_update_subset_insert [of ?c i None] by auto
    have "cache_ok ?st' D"
    proof (rule cache_ok_change(1) [OF ok])
      show "frame_uses (vs_paging st) D f + cached_uses (s_ro_map_cache ?st') f \<le> frame_refs (vs_pmm ?st') f"
        if "paging_phys_is_pmm_frame f" for f
        using cache_okD(6) [OF ok that] bal [of f] by (simp add: st')
    qed (use rel cache_okD(2,4,5) [OF ok] sub in \<open>auto simp: st'\<close>)
    then show ?thesis using bal rel by (simp add: cache_step_def) (simp add: st')
  qed
  then show "cache_step D {} (\<lambda>_. 0) st ?st'" "s_ro_map_cache ?st' = ?c[i := None]" by simp_all
qed

lemma cache_step_same:
  assumes ok: "cache_ok st D" and step: "cache_step D W x st st'" and W: "W \<inter> structs (vs_paging st) D = {}"
  shows "e \<in> D \<Longrightarrow> user_pte (vs_paging st') e = user_pte (vs_paging st) e"
    "structs (vs_paging st') D = structs (vs_paging st) D" "mapped (vs_paging st') D f = mapped (vs_paging st) D f"
    "frame_uses (vs_paging st') D f = frame_uses (vs_paging st) D f"
proof -
  let ?s = "vs_paging st" and ?s' = "vs_paging st'"
  have mem: "phys_mem ?s' f = phys_mem ?s f" if "f \<in> structs ?s D" for f
    using step W that by (auto simp: cache_step_def)
  have k: "kernel_page_directory ?s' = kernel_page_directory ?s" using step by (simp add: cache_step_def)
  note same = same_structs [OF cache_okD(1) [OF ok], of "set_pmm (pg_pmm ?s) ?s'", simplified, OF mem k]
  show "e \<in> D \<Longrightarrow> user_pte ?s' e = user_pte ?s e" using same(2) by blast
  show st: "structs ?s' D = structs ?s D" using same(3) by blast
  show m: "mapped ?s' D f = mapped ?s D f" using same(4) by blast
  show "frame_uses ?s' D f = frame_uses ?s D f" by (simp add: frame_uses_def st m)
qed

lemma cache_step_spare:
  assumes ok: "cache_ok st D" and step: "cache_step D W x st st'" and W: "W \<inter> structs (vs_paging st) D = {}"
    and f: "paging_phys_is_pmm_frame f"
  shows "frame_uses (vs_paging st') D f + cached_uses (s_ro_map_cache st') f + x f \<le> frame_refs (vs_pmm st') f"
  using cache_step_refs [OF step, of f] cache_okD(6) [OF ok f] cache_step_same(4) [OF ok step W, of f] by linarith

lemma retain_step:
  assumes ok: "cache_ok st D" and f: "f \<in> pmm_frames (vs_pmm st)" "pmm_retain_frame (vs_pmm st) f = (True, p)"
  shows "cache_step D {} (\<lambda>g. of_bool (g = f)) st (vs_set_pmm p st)"
proof -
  have r: "pmm_inv p" "pmm_frames p = pmm_frames (vs_pmm st)"
    "frame_refs p = (frame_refs (vs_pmm st))(f := Suc (frame_refs (vs_pmm st) f))"
    using pmm_pool.retain_frame [OF cache_okD(3) [OF ok] f] by simp_all
  have "cache_ok (vs_set_pmm p st) D"
  proof (rule cache_ok_change(1) [OF ok])
    show "frame_uses (vs_paging st) D g + cached_uses (s_ro_map_cache (vs_set_pmm p st)) g \<le> frame_refs (vs_pmm (vs_set_pmm p st)) g"
      if "paging_phys_is_pmm_frame g" for g using cache_okD(6) [OF ok that] r(3) by auto
  qed (use r cache_okD(2,4,5) [OF ok] in auto)
  then show ?thesis using r by (simp add: cache_step_def)
qed

lemma free_frame:
  assumes ok: "cache_ok st D" and f: "f \<in> pmm_frames (vs_pmm st)" "frame_refs (vs_pmm st) f = 0"
  shows "f \<notin> structs (vs_paging st) D" "mapped (vs_paging st) D f = {}" "cached_uses (s_ro_map_cache st) f = 0" "\<not> in_use st f"
  using mapped_free [OF cache_okD(1) [OF ok] f] f
    cache_okD(6) [OF ok pmm_frame_in_range [OF cache_okD(3) [OF ok] f(1)]] by (simp_all add: in_use_def)

lemma alloc_step:
  assumes ok: "cache_ok st D" and f: "pmm_alloc_frame (vs_pmm st) = (f, p)" "f \<noteq> 0"
    and st': "vs_paging st' = set_frame f ws (set_pmm p (vs_paging st))" "s_ro_map_cache st' = s_ro_map_cache st"
  shows "cache_step D {f} (\<lambda>g. of_bool (g = f)) st st'" "f \<in> pmm_frames (vs_pmm st)" "frame_refs (vs_pmm st) f = 0"
    "frame_refs (vs_pmm st') f = 1"
proof -
  note a = pmm_pool.alloc_frame [OF cache_okD(3) [OF ok] f]
  have p: "vs_pmm st' = p" by (simp add: st')
  show fr: "f \<in> pmm_frames (vs_pmm st)" "frame_refs (vs_pmm st) f = 0" "frame_refs (vs_pmm st') f = 1"
    using a by (simp_all add: p)
  note free = free_frame [OF ok fr(1,2)]
  have "cache_ok st' D"
  proof (rule cache_ok_change(1) [OF ok])
    show "frame_uses (vs_paging st) D g + cached_uses (s_ro_map_cache st') g \<le> frame_refs (vs_pmm st') g"
      if "paging_phys_is_pmm_frame g" for g using cache_okD(6) [OF ok that] a by (auto simp: p st'(2))
  qed (use a free cache_okD(2,4,5) [OF ok] in \<open>auto simp: st'\<close>)
  then show "cache_step D {f} (\<lambda>g. of_bool (g = f)) st st'" using a free by (simp add: cache_step_def st')
qed

text \<open>A reference of the caller is given back, or becomes that of a new entry.\<close>

lemma release_step:
  assumes ok: "cache_ok st D" and step: "cache_step D W x st st1" and W: "W \<inter> structs (vs_paging st) D = {}"
    and f: "f \<in> pmm_frames (vs_pmm st)" "0 < x f"
  shows "cache_step D W (x(f := x f - 1)) st (vs_set_pmm (pmm_release_frame (vs_pmm st1) f) st1)"
proof -
  let ?st2 = "vs_set_pmm (pmm_release_frame (vs_pmm st1) f) st1"
  have ok1: "cache_ok st1 D" and f1: "f \<in> pmm_frames (vs_pmm st1)" using step f(1) by (simp_all add: cache_step_def)
  note r = release_aligned [OF cache_okD(3) [OF ok1] pmm_frame_aligned [OF f(1)]]
  have "cache_ok ?st2 D"
  proof (rule cache_ok_change(1) [OF ok1])
    show "frame_uses (vs_paging st1) D g + cached_uses (s_ro_map_cache ?st2) g \<le> frame_refs (vs_pmm ?st2) g"
      if "paging_phys_is_pmm_frame g" for g
      using cache_step_spare [OF ok step W that] f(2) r(3) by auto
  qed (use r cache_okD(2,4,5) [OF ok1] in auto)
  moreover have "0 < frame_refs (vs_pmm st1) f"
    using cache_step_spare [OF ok step W pmm_frame_in_range [OF cache_okD(3) [OF ok] f(1)]] f(2) by simp
  ultimately show ?thesis using step r f(2) by (auto simp: cache_step_def)
qed

lemma enter_step:
  assumes ok: "cache_ok st D" and step: "cache_step D W x st st1" and W: "W \<inter> structs (vs_paging st) D = {}"
    and f: "rm_frame ent \<in> pmm_frames (vs_pmm st) - structs (vs_paging st) D" "0 < x (rm_frame ent)"
    and i: "i < VFS_RO_MAP_CACHE_PAGES" "s_ro_map_cache st1 ! i = None"
  shows "cache_step D W (x(rm_frame ent := x (rm_frame ent) - 1)) st
    (st1\<lparr>s_ro_map_cache := (s_ro_map_cache st1)[i := Some ent]\<rparr>)"
proof -
  let ?c = "s_ro_map_cache st1" and ?st2 = "st1\<lparr>s_ro_map_cache := (s_ro_map_cache st1)[i := Some ent]\<rparr>"
  have ok1: "cache_ok st1 D" using step by (simp add: cache_step_def)
  have u: "cached_uses (?c[i := Some ent]) g = cached_uses ?c g + of_bool (g = rm_frame ent)" for g
    using cached_update [of i ?c "Some ent" g] i cache_okD(2) [OF ok1] by auto
  have mem: "Some e \<in> set (?c[i := Some ent]) \<Longrightarrow> e = ent \<or> Some e \<in> set ?c" for e
    using set_update_subset_insert [of ?c i "Some ent"] by auto
  have fr: "pmm_frames (vs_pmm st1) = pmm_frames (vs_pmm st)" using step by (simp add: cache_step_def)
  have "cache_ok ?st2 D"
  proof (rule cache_ok_change(1) [OF ok1])
    show "frame_uses (vs_paging st1) D g + cached_uses (s_ro_map_cache ?st2) g \<le> frame_refs (vs_pmm ?st2) g"
      if "paging_phys_is_pmm_frame g" for g
      using cache_step_spare [OF ok step W that] f(2) by (auto simp: u)
    show "rm_frame e \<in> pmm_frames (vs_pmm st1) - structs (vs_paging st1) D" if "Some e \<in> set (s_ro_map_cache ?st2)" for e
      using mem [of e] that f(1) fr cache_step_same(2) [OF ok step W] cache_okD(4,5) [OF ok1] by auto
  qed (use cache_okD(2,3) [OF ok1] in auto)
  then show ?thesis using step f(2) by (auto simp: cache_step_def u)
qed

lemma victim_loop:
  assumes ok: "cache_ok st D"
  shows "set js \<subseteq> {0..<VFS_RO_MAP_CACHE_PAGES} \<Longrightarrow>
    (\<forall>j. ff = Some j \<longrightarrow> j < VFS_RO_MAP_CACHE_PAGES \<and> s_ro_map_cache st ! j = None) \<Longrightarrow>
    ro_map_victim_loop js ff st = (r, st') \<Longrightarrow>
    (case r of None \<Rightarrow> st' = st
     | Some i \<Rightarrow> i < VFS_RO_MAP_CACHE_PAGES \<and> s_ro_map_cache st' = (s_ro_map_cache st)[i := None] \<and>
         cache_step D {} (\<lambda>_. 0) st st')"
proof (induction js arbitrary: ff)
  case Nil
  have "(s_ro_map_cache st)[j := None] = s_ro_map_cache st" if "s_ro_map_cache st ! j = None" for j
    using list_update_id [of "s_ro_map_cache st" j] that by simp
  then show ?case using Nil cache_step_refl [OF ok] by (auto split: option.split)
next
  case (Cons i js)
  have i: "i < VFS_RO_MAP_CACHE_PAGES" and js: "set js \<subseteq> {0..<VFS_RO_MAP_CACHE_PAGES}" using Cons.prems(1) by auto
  show ?case
  proof (cases "s_ro_map_cache st ! i")
    case None
    then show ?thesis
      using Cons.prems(2,3) i by (intro Cons.IH [OF js, of "if ff = None then Some i else ff"]) auto
  next
    case (Some ent)
    show ?thesis
    proof (cases "rm_frame ent \<noteq> 0 \<and> pmm_frame_refcount (vs_pmm st) (rm_frame ent) \<le> 1")
      case True
      then show ?thesis using Cons.prems(3) Some i drop_entry_step [OF ok i] by auto
    next
      case False
      then show ?thesis using Cons.prems(3) Some by (intro Cons.IH [OF js Cons.prems(2)]) auto
    qed
  qed
qed

lemma victim_step:
  assumes ok: "cache_ok st D"
  obtains (none) "vfs_ro_map_victim st = (None, st)"
  | (slot) i st' where "vfs_ro_map_victim st = (Some i, st')" "i < VFS_RO_MAP_CACHE_PAGES"
      "s_ro_map_cache st' = (s_ro_map_cache st)[i := None]" "cache_step D {} (\<lambda>_. 0) st st'"
proof -
  obtain r st' where r: "vfs_ro_map_victim st = (r, st')" by (cases "vfs_ro_map_victim st")
  have "case r of None \<Rightarrow> st' = st | Some i \<Rightarrow> i < VFS_RO_MAP_CACHE_PAGES \<and>
      s_ro_map_cache st' = (s_ro_map_cache st)[i := None] \<and> cache_step D {} (\<lambda>_. 0) st st'"
    by (rule victim_loop [OF ok _ _ r [unfolded vfs_ro_map_victim_def]]) auto
  then show thesis using r that by (cases r) auto
qed

lemma find_entry:
  assumes ok: "cache_ok st D" and i: "vfs_ro_map_find path info off st = Some i"
  obtains ent where "s_ro_map_cache st ! i = Some ent" "Some ent \<in> set (s_ro_map_cache st)" "ro_map_matches path info off ent"
proof -
  obtain k where "k < VFS_RO_MAP_CACHE_PAGES" "i = k"
    "case s_ro_map_cache st ! k of None \<Rightarrow> False | Some ent \<Rightarrow> ro_map_matches path info off ent"
    using i unfolding vfs_ro_map_find_def by (auto simp: find_Some_iff)
  then obtain ent where ent: "s_ro_map_cache st ! i = Some ent" "ro_map_matches path info off ent" "i < length (s_ro_map_cache st)"
    using cache_okD(2) [OF ok] by (auto split: option.splits)
  then show thesis using that nth_mem [OF ent(3)] by simp
qed

lemma retain_one:
  assumes "pmm_inv p" "f \<in> pmm_frames p" "frame_refs p f = 1"
  obtains q where "pmm_retain_frame p f = (True, q)"
proof -
  have "pmm_managed p f" "pmm_refs p (unat (addr_to_idx f)) = 1"
    using assms(2,3) by (auto simp: pmm_frames_def frame_refs_def)
  then have "fst (pmm_retain_frame p f)" using pmm_retain_frame_spec [OF assms(1), of f]
    by (auto split: prod.splits bool.splits)
  then show thesis using that by (cases "pmm_retain_frame p f") auto
qed

section \<open>Contents\<close>

text \<open>
  What is relied on of \<^verbatim>\<open>ext2\<close>, for files with the contents \<open>content\<close>: \<^verbatim>\<open>ext2_read_at_path\<close> never stores more than it
  was asked for, and when it succeeds it has stored the bytes of the file up to its end; \<^verbatim>\<open>ext2_stat_info\<close> reports the size.
\<close>

definition reads_files :: "file_system \<Rightarrow> (string \<Rightarrow> u8 list) \<Rightarrow> bool" where
  "reads_files fs content \<longleftrightarrow>
     (\<forall>path off len. length (snd (fs_read_at_path fs path off len)) \<le> unat len \<and>
        (fst (fs_read_at_path fs path off len) \<longrightarrow>
           snd (fs_read_at_path fs path off len) = take (unat len) (drop (unat off) (content path)))) \<and>
     (\<forall>path info. fs_stat_info fs path = Some info \<and> \<not> st_is_dir info \<longrightarrow> unat (st_size info) = length (content path))"

definition file_byte :: "u8 list \<Rightarrow> nat \<Rightarrow> u8" where
  "file_byte bs n = (if n < length bs then bs ! n else 0)"

text \<open>The page of a file: its bytes from an offset, with zeros after the end.\<close>

definition holds_page :: "frame_words \<Rightarrow> u8 list \<Rightarrow> nat \<Rightarrow> bool" where
  "holds_page ws bs off \<longleftrightarrow> (\<forall>k < 4096. frame_byte ws k = file_byte bs (off + k))"

text \<open>Every entry of the cache that can still be found holds its page.\<close>

definition cache_coherent :: "file_system \<Rightarrow> (string \<Rightarrow> u8 list) \<Rightarrow> vm_state \<Rightarrow> bool" where
  "cache_coherent fs content st \<longleftrightarrow>
     (\<forall>ent info. Some ent \<in> set (s_ro_map_cache st) \<and> fs_stat_info fs (rm_name ent) = Some info \<and>
        ro_map_matches (rm_name ent) info (rm_file_offset ent) ent \<longrightarrow>
        holds_page (phys_mem (vs_paging st) (rm_frame ent)) (content (rm_name ent)) (unat (rm_file_offset ent)))"

lemma coherent_step:
  assumes ok: "cache_ok st D" and co: "cache_coherent fs content st" and step: "cache_step D W x st st'"
    and W: "\<And>f. f \<in> W \<Longrightarrow> \<not> in_use st f"
    and c: "\<And>ent. Some ent \<in> set (s_ro_map_cache st') \<Longrightarrow> Some ent \<in> set (s_ro_map_cache st) \<or>
      holds_page (phys_mem (vs_paging st') (rm_frame ent)) (content (rm_name ent)) (unat (rm_file_offset ent))"
  shows "cache_coherent fs content st'"
proof -
  have "phys_mem (vs_paging st') (rm_frame ent) = phys_mem (vs_paging st) (rm_frame ent)"
    if "Some ent \<in> set (s_ro_map_cache st)" for ent
    using cached_refs(1) [OF ok that] W [of "rm_frame ent"] step by (auto simp: in_use_def cache_step_def)
  then show ?thesis using co c unfolding cache_coherent_def by metis
qed

lemma unat_page_of:
  fixes n off :: u32
  assumes "off < n" "bytes = (if n - off > PAGE_SIZE then PAGE_SIZE else n - off)"
  shows "unat bytes = min 4096 (unat n - unat off)" "bytes \<noteq> 0"
proof -
  have "unat (n - off) = unat n - unat off" "unat PAGE_SIZE = 4096"
    using assms(1) by (simp_all add: unat_sub PAGE_SIZE_def)
  then show b: "unat bytes = min 4096 (unat n - unat off)" using assms(2) by (auto simp: word_less_nat_alt)
  then have "unat bytes \<noteq> 0" using assms(1) by (simp add: word_less_nat_alt)
  then show "bytes \<noteq> 0" by auto
qed

lemma page_bytes:
  assumes "n \<le> 4096" "n = min 4096 (length bs - off)"
  shows "holds_page (store_bytes (\<lambda>_. 0) 0 (take n (drop off bs))) bs off"
  using assms unfolding holds_page_def by (auto simp: frame_byte_store file_byte_def)

text \<open>A page handed out: the caller has a reference to a frame that holds the page.\<close>

definition page_shared ::
  "u32 set \<Rightarrow> file_system \<Rightarrow> (string \<Rightarrow> u8 list) \<Rightarrow> string \<Rightarrow> u32 \<Rightarrow> vm_state \<Rightarrow> u32 \<Rightarrow> vm_state \<Rightarrow> bool" where
  "page_shared D fs content path off st f st' \<longleftrightarrow>
     (\<exists>W. cache_step D W (\<lambda>g. of_bool (g = f)) st st' \<and> (\<forall>g \<in> W. \<not> in_use st g)) \<and>
     f \<in> pmm_frames (vs_pmm st) - structs (vs_paging st) D \<and> (in_use st f \<longrightarrow> 0 < cached_uses (s_ro_map_cache st) f) \<and>
     (\<forall>g. g \<noteq> f \<longrightarrow> cached_uses (s_ro_map_cache st') g \<le> cached_uses (s_ro_map_cache st) g) \<and>
     holds_page (phys_mem (vs_paging st') f) (content path) (unat off) \<and> cache_coherent fs content st'"

text \<open>No page: references and cache are as before.\<close>

definition page_refused :: "u32 set \<Rightarrow> vm_state \<Rightarrow> vm_state \<Rightarrow> bool" where
  "page_refused D st st' \<longleftrightarrow>
     (\<exists>W. cache_step D W (\<lambda>_. 0) st st' \<and> (\<forall>g \<in> W. \<not> in_use st g)) \<and> s_ro_map_cache st' = s_ro_map_cache st"

lemma page_refused_refl: "cache_ok st D \<Longrightarrow> page_refused D st st"
  using cache_step_refl [of st D "{}"] by (auto simp: page_refused_def)

lemma page_refused_refs: "page_refused D st st' \<Longrightarrow> frame_refs (vs_pmm st') = frame_refs (vs_pmm st)"
  by (auto simp: page_refused_def cache_step_def fun_eq_iff)

lemma take_result:
  assumes ok: "cache_ok st D" and co: "cache_coherent fs content st" and info: "fs_stat_info fs path = Some info"
    and i: "vfs_ro_map_find path info off st = Some i"
  obtains (refused) "ro_map_take i bytes st = Some (- EIO, 0, 0, st)"
  | (shared) f st' where "ro_map_take i bytes st = Some (0, f, bytes, st')" "page_shared D fs content path off st f st'"
proof -
  obtain ent where ent: "s_ro_map_cache st ! i = Some ent" "Some ent \<in> set (s_ro_map_cache st)"
    "ro_map_matches path info off ent" by (rule find_entry [OF ok i])
  obtain r q where q: "pmm_retain_frame (vs_pmm st) (rm_frame ent) = (r, q)"
    by (cases "pmm_retain_frame (vs_pmm st) (rm_frame ent)")
  show thesis
  proof (cases r)
    case False
    then show thesis using refused ent(1) q by (simp add: ro_map_take_def)
  next
    case True
    let ?st' = "vs_set_pmm q st"
    have step: "cache_step D {} (\<lambda>g. of_bool (g = rm_frame ent)) st ?st'"
      using retain_step [OF ok cache_okD(4) [OF ok ent(2)]] q True by simp
    have m: "rm_name ent = path" "rm_file_offset ent = off" using ent(3) by (auto simp: ro_map_matches_def)
    have "holds_page (phys_mem (vs_paging st) (rm_frame ent)) (content path) (unat off)"
      using co ent(2,3) info unfolding cache_coherent_def m [symmetric] by blast
    moreover have "cache_coherent fs content ?st'" by (rule coherent_step [OF ok co step]) auto
    ultimately have "page_shared D fs content path off st (rm_frame ent) ?st'"
      unfolding page_shared_def using step cache_okD(4,5) [OF ok ent(2)] cached_uses_pos [OF ent(2)] by auto
    then show thesis using shared ent(1) q True by (simp add: ro_map_take_def)
  qed
qed

lemma enter_result:
  assumes ok: "cache_ok st D" and co: "cache_coherent fs content st"
    and f: "f \<in> pmm_frames (vs_pmm st)" "frame_refs (vs_pmm st) f = 0"
    and stA: "cache_step D {f} (\<lambda>g. of_bool (g = f)) st stA" "s_ro_map_cache stA = s_ro_map_cache st"
    and page: "holds_page (phys_mem (vs_paging stA) f) (content path) (unat off)" and path: "length path < PROCESS_FD_NAME_MAX"
  obtains (refused) st' where "ro_map_enter path info off f bytes stA = (- ENOMEM, 0, 0, st')" "page_refused D st st'"
  | (shared) st' where "ro_map_enter path info off f bytes stA = (0, f, bytes, st')" "page_shared D fs content path off st f st'"
proof -
  note free = free_frame [OF ok f]
  have W: "{f} \<inter> structs (vs_paging st) D = {}" using free(1) by simp
  have okA: "cache_ok stA D" using stA(1) by (simp add: cache_step_def)
  show thesis using okA
  proof (cases rule: victim_step)
    case none
    have "cache_step D {f} (\<lambda>_. 0) st (vs_set_pmm (pmm_release_frame (vs_pmm stA) f) stA)"
      using release_step [OF ok stA(1) W f(1)] by (simp add: fun_upd_def if_distrib cong: if_cong)
    then show thesis using refused none free(4) stA(2) by (auto simp: ro_map_enter_def page_refused_def)
  next
    case (slot i stB)
    let ?ent = "ro_map_fill path info off f"
    let ?stC = "stB\<lparr>s_ro_map_cache := (s_ro_map_cache stB)[i := Some ?ent]\<rparr>"
    have ent: "rm_frame ?ent = f" "rm_name ?ent = path" "rm_file_offset ?ent = off"
      using path by (simp_all add: ro_map_fill_def)
    have len: "i < length (s_ro_map_cache st)" using slot(2) cache_okD(2) [OF ok] by simp
    have B: "cache_step D {f} (\<lambda>g. of_bool (g = f)) st stB" using cache_step_trans [OF stA(1) slot(4)] by simp
    have cB: "s_ro_map_cache stB = (s_ro_map_cache st)[i := None]" using slot(3) stA(2) by simp
    then have nB: "s_ro_map_cache stB ! i = None" using len by simp
    have C: "cache_step D {f} (\<lambda>_. 0) st ?stC"
      using enter_step [OF ok B W, of ?ent i] ent(1) f(1) free(1) slot(2) nB by (simp add: fun_upd_def if_distrib cong: if_cong)
    then have okC: "cache_ok ?stC D" by (simp add: cache_step_def)
    have "cached_uses (s_ro_map_cache stB) f = 0" using cached_update [OF len, of None f] free(3) by (simp add: cB)
    then have "frame_refs (vs_pmm stB) f = 1" using cache_step_refs [OF B, of f] free(3) f(2) by simp
    moreover have fB: "f \<in> pmm_frames (vs_pmm stB)" using B f(1) by (simp add: cache_step_def)
    ultimately obtain q where q: "pmm_retain_frame (vs_pmm stB) f = (True, q)"
      using retain_one [of "vs_pmm stB" f] cache_okD(3) [OF okC] by auto
    let ?st' = "vs_set_pmm q ?stC"
    have "cache_step D {} (\<lambda>g. of_bool (g = f)) ?stC ?st'" using retain_step [OF okC, of f q] fB q by simp
    then have st': "cache_step D {f} (\<lambda>g. of_bool (g = f)) st ?st'" using cache_step_trans [OF C] by fastforce
    have c': "s_ro_map_cache ?st' = (s_ro_map_cache st)[i := Some ?ent]" by (simp add: cB)
    have hp: "holds_page (phys_mem (vs_paging ?st') f) (content path) (unat off)"
      using page slot(4) by (simp add: cache_step_def)
    have "cache_coherent fs content ?st'"
    proof (rule coherent_step [OF ok co st'])
      show "Some e \<in> set (s_ro_map_cache st) \<or>
          holds_page (phys_mem (vs_paging ?st') (rm_frame e)) (content (rm_name e)) (unat (rm_file_offset e))"
        if "Some e \<in> set (s_ro_map_cache ?st')" for e
        using that set_update_subset_insert [of "s_ro_map_cache st" i "Some ?ent"] hp ent unfolding c' by auto
    qed (use free(4) in simp)
    moreover have "cached_uses (s_ro_map_cache ?st') g \<le> cached_uses (s_ro_map_cache st) g" if "g \<noteq> f" for g
      using cached_update [OF len, of "Some ?ent" g] that ent(1) unfolding c' by simp
    ultimately have "page_shared D fs content path off st f ?st'"
      unfolding page_shared_def using st' free f hp by auto
    then show thesis using shared slot(1) q by (simp add: ro_map_enter_def)
  qed
qed

lemma load_result:
  assumes ok: "cache_ok st D" and fs: "reads_files fs content" and co: "cache_coherent fs content st"
    and path: "length path < PROCESS_FD_NAME_MAX" and none: "vfs_ro_map_find path info off st = None"
    and bytes: "unat bytes = min 4096 (length (content path) - unat off)" "bytes \<noteq> 0"
  obtains (refused) rc st' where "ro_map_load fs path info off bytes st = Some (rc, 0, 0, st')" "rc < 0" "page_refused D st st'"
  | (shared) f n st' where "ro_map_load fs path info off bytes st = Some (0, f, n, st')"
      "page_shared D fs content path off st f st'"
proof -
  obtain f p where al: "pmm_alloc_frame (vs_pmm st) = (f, p)" by (cases "pmm_alloc_frame (vs_pmm st)")
  obtain r bs where rd: "fs_read_at_path fs path off bytes = (r, bs)" by (cases "fs_read_at_path fs path off bytes")
  let ?stA = "st\<lparr>vs_paging := set_frame f (store_bytes (\<lambda>_. 0) 0 bs) (set_pmm p (vs_paging st))\<rparr>"
  show thesis
  proof (cases "f = 0")
    case True
    then have "ro_map_load fs path info off bytes st = Some (- ENOMEM, 0, 0, st)" using al by (simp add: ro_map_load_def)
    then show thesis using refused page_refused_refl [OF ok] by (simp add: ENOMEM_def)
  next
    case False
    note a = alloc_step [OF ok al False, of ?stA "store_bytes (\<lambda>_. 0) 0 bs", simplified]
    note free = free_frame [OF ok a(2,3)]
    have virt: "paging_phys_to_kernel_virt f \<noteq> None"
      using pmm_frame_in_range [OF cache_okD(3) [OF ok] a(2)] by (simp add: paging_phys_to_kernel_virt_def)
    have "(phys_mem (vs_paging st))(f := \<lambda>_. 0, f := store_bytes (\<lambda>_. 0) 0 bs) =
        (phys_mem (vs_paging st))(f := store_bytes (\<lambda>_. 0) 0 bs)" by simp
    then have read: "vfs_read_path_at fs path off f 0 bytes (vfs_zero_frame f (vs_set_pmm p st)) =
        (if \<not> r then (- EIO, 0, ?stA) else (0, of_nat (length bs), ?stA))"
      using bytes(2) rd by (simp add: vfs_read_path_at_def vfs_zero_frame_def vs_set_pmm_def set_frame_def set_pmm_def)
    have find: "vfs_ro_map_find path info off ?stA = None" using none by (simp add: vfs_ro_map_find_def)
    have len: "length bs \<le> unat bytes" "r \<longrightarrow> bs = take (unat bytes) (drop (unat off) (content path))"
      using fs rd unfolding reads_files_def by (metis fst_conv snd_conv)+
    show thesis
    proof (cases "r \<and> of_nat (length bs) = bytes")
      case False
      then have "ro_map_load fs path info off bytes st =
          Some (- EIO, 0, 0, vs_set_pmm (pmm_release_frame (vs_pmm ?stA) f) ?stA)"
        using al \<open>f \<noteq> 0\<close> virt read by (auto simp: ro_map_load_def EIO_def)
      moreover have "cache_step D {f} (\<lambda>_. 0) st (vs_set_pmm (pmm_release_frame (vs_pmm ?stA) f) ?stA)"
        using release_step [OF ok a(1) _ a(2)] free(1) by (simp add: fun_upd_def if_distrib cong: if_cong)
      ultimately show thesis using refused free(4) by (auto simp: page_refused_def EIO_def)
    next
      case True
      then have run: "ro_map_load fs path info off bytes st = Some (ro_map_enter path info off f bytes ?stA)"
        using al \<open>f \<noteq> 0\<close> virt read find by (simp add: ro_map_load_def)
      have hp: "holds_page (phys_mem (vs_paging ?stA) f) (content path) (unat off)"
        using page_bytes [of "unat bytes" "content path" "unat off"] bytes(1) len(2) True by simp
      have cA: "s_ro_map_cache ?stA = s_ro_map_cache st" by simp
      show thesis
        by (cases rule: enter_result [OF ok co a(2,3,1) cA hp path, where info = info and bytes = bytes])
          (use run refused shared in \<open>auto simp: ENOMEM_def\<close>)
    qed
  qed
qed

lemma map_ro_result:
  assumes ok: "cache_ok st D" and fs: "reads_files fs content" and co: "cache_coherent fs content st"
    and path: "length path < PROCESS_FD_NAME_MAX"
  obtains (refused) rc st' where "vfs_file_map_ro_page_path fs path off st = Some (rc, 0, 0, st')" "rc < 0" "page_refused D st st'"
  | (shared) f n st' where "vfs_file_map_ro_page_path fs path off st = Some (0, f, n, st')"
      "page_shared D fs content path off st f st'"
proof (cases "off AND (PAGE_SIZE - 1) = 0 \<and> (\<exists>info. fs_stat_info fs path = Some info \<and> \<not> st_is_dir info \<and> off < st_size info)")
  case False
  then have "\<exists>rc. vfs_file_map_ro_page_path fs path off st = Some (rc, 0, 0, st) \<and> rc < 0"
    by (cases "fs_stat_info fs path") (auto simp: vfs_file_map_ro_page_path_def EINVAL_def ENOENT_def not_less)
  then show thesis using refused page_refused_refl [OF ok] by blast
next
  case True
  then obtain info where info: "off AND (PAGE_SIZE - 1) = 0" "fs_stat_info fs path = Some info" "\<not> st_is_dir info" "off < st_size info"
    by blast
  define bytes where "bytes = (if st_size info - off > PAGE_SIZE then PAGE_SIZE else st_size info - off)"
  note b = unat_page_of [OF info(4) bytes_def]
  have size: "unat (st_size info) = length (content path)" using fs info by (auto simp: reads_files_def)
  have unf: "vfs_file_map_ro_page_path fs path off st =
    (case vfs_ro_map_find path info off st of Some i \<Rightarrow> ro_map_take i bytes st
     | None \<Rightarrow> ro_map_load fs path info off bytes st)"
    using info not_le [THEN iffD2, OF info(4)] unfolding vfs_file_map_ro_page_path_def bytes_def Let_def by simp
  show thesis
  proof (cases "vfs_ro_map_find path info off st")
    case None
    show thesis
      by (cases rule: load_result [OF ok fs co path None b(1) [unfolded size] b(2)]) (use unf None that in auto)
  next
    case (Some i)
    show thesis
      by (cases rule: take_result [OF ok co info(2) Some, where bytes = bytes])
        (use unf Some that page_refused_refl [OF ok] in \<open>auto simp: EIO_def\<close>)
  qed
qed

section \<open>Invalidation\<close>

definition drop_path :: "string \<Rightarrow> vfs_ro_map_entry option \<Rightarrow> vfs_ro_map_entry option" where
  "drop_path path x = (case x of None \<Rightarrow> None | Some ent \<Rightarrow> if rm_name ent = path then None else Some ent)"

lemma invalidate_loop:
  assumes "cache_ok st D" "n \<le> VFS_RO_MAP_CACHE_PAGES"
    and "st' = fold (ro_map_invalidate_at path) [0..<n] st"
  shows "cache_step D {} (\<lambda>_. 0) st st' \<and>
    s_ro_map_cache st' = map (drop_path path) (take n (s_ro_map_cache st)) @ drop n (s_ro_map_cache st)"
  using assms(2,3)
proof (induction n arbitrary: st')
  case 0
  then show ?case using cache_step_refl [OF assms(1)] by simp
next
  case (Suc n)
  define st1 where "st1 = fold (ro_map_invalidate_at path) [0..<n] st"
  let ?c = "s_ro_map_cache st"
  have IH: "cache_step D {} (\<lambda>_. 0) st st1" "s_ro_map_cache st1 = map (drop_path path) (take n ?c) @ drop n ?c"
    using Suc.IH [OF _ st1_def] Suc.prems(1) by simp_all
  have n: "n < length ?c" "n < VFS_RO_MAP_CACHE_PAGES" using Suc.prems(1) cache_okD(2) [OF assms(1)] by simp_all
  have ok1: "cache_ok st1 D" using IH(1) by (simp add: cache_step_def)
  have nth: "s_ro_map_cache st1 ! n = ?c ! n" using n by (simp add: IH(2) nth_append)
  have st': "st' = ro_map_invalidate_at path n st1" using Suc.prems(2) by (simp add: st1_def)
  have upd: "(s_ro_map_cache st1)[n := drop_path path (?c ! n)] = map (drop_path path) (take (Suc n) ?c) @ drop (Suc n) ?c"
    using n by (simp add: IH(2) list_update_append take_Suc_conv_app_nth Cons_nth_drop_Suc [symmetric])
  show ?case
  proof (cases "drop_path path (?c ! n) = ?c ! n")
    case True
    then have "st' = st1" using st' nth by (auto simp: drop_path_def ro_map_invalidate_at_def split: option.splits if_splits)
    moreover have "(s_ro_map_cache st1)[n := drop_path path (?c ! n)] = s_ro_map_cache st1"
      using True nth list_update_id by metis
    ultimately show ?thesis using IH(1) upd by simp
  next
    case False
    then have d: "drop_path path (?c ! n) = None" "st' = vfs_ro_map_drop_entry n st1"
      using st' nth by (auto simp: drop_path_def ro_map_invalidate_at_def split: option.splits if_splits)
    note drop = drop_entry_step [OF ok1 n(2)]
    have "cache_step D {} (\<lambda>_. 0) st st'" using cache_step_trans [OF IH(1) drop(1)] d(2) by simp
    then show ?thesis using drop(2) upd d by simp
  qed
qed

lemma invalidate_step:
  assumes "cache_ok st D"
  shows "cache_step D {} (\<lambda>_. 0) st (vfs_ro_map_invalidate_path path st)"
    "s_ro_map_cache (vfs_ro_map_invalidate_path path st) = map (drop_path path) (s_ro_map_cache st)"
  using invalidate_loop [OF assms order_refl refl, of path] cache_okD(2) [OF assms]
  by (simp_all add: vfs_ro_map_invalidate_path_def)

text \<open>When a file changes, dropping the pages under its name makes the cache coherent with the new contents.\<close>

lemma invalidate_coherent:
  assumes ok: "cache_ok st D" and co: "cache_coherent fs content st"
    and other: "\<And>p. p \<noteq> path \<Longrightarrow> fs_stat_info fs' p = fs_stat_info fs p \<and> content' p = content p"
  shows "cache_coherent fs' content' (vfs_ro_map_invalidate_path path st)"
proof -
  note inv = invalidate_step [OF ok, of path]
  have sub: "Some ent \<in> set (s_ro_map_cache st) \<and> rm_name ent \<noteq> path"
    if "Some ent \<in> set (s_ro_map_cache (vfs_ro_map_invalidate_path path st))" for ent
    using that unfolding inv(2) by (auto simp: drop_path_def split: option.splits if_splits)
  have "phys_mem (vs_paging (vfs_ro_map_invalidate_path path st)) = phys_mem (vs_paging st)"
    using inv(1) by (auto simp: cache_step_def)
  then show ?thesis using co other sub unfolding cache_coherent_def by metis
qed

section \<open>Properties\<close>

text \<open>
  C13: Shared file pages. With a file system that reads what its files hold and a coherent cache, mapping a page of a file never
  panics. It either returns an error and leaves the cache and every reference count as they were, or a frame that holds that page of
  the file, with zeros after the end of the file and a reference for the caller that no other use of the frame counts on. In
  both cases the cache stays coherent, references keep covering all uses, no page of any
  address space changes and no frame in use is written.
\<close>

theorem vfs_file_map_ro_page_path_correct:
  assumes "cache_ok st D" "reads_files fs content" "cache_coherent fs content st" "length path < PROCESS_FD_NAME_MAX"
  shows "\<exists>rc f n st'. vfs_file_map_ro_page_path fs path off st = Some (rc, f, n, st') \<and>
    cache_ok st' D \<and> cache_coherent fs content st' \<and>
    (\<forall>d \<in> D. user_pte (vs_paging st') d = user_pte (vs_paging st) d) \<and>
    (\<forall>g. in_use st g \<longrightarrow> phys_mem (vs_paging st') g = phys_mem (vs_paging st) g) \<and>
    (if rc = 0
     then holds_page (phys_mem (vs_paging st') f) (content path) (unat off) \<and>
       frame_uses (vs_paging st') D f + cached_uses (s_ro_map_cache st') f < frame_refs (vs_pmm st') f
     else s_ro_map_cache st' = s_ro_map_cache st \<and> frame_refs (vs_pmm st') = frame_refs (vs_pmm st))"
proof -
  have common: "cache_ok st' D \<and> (\<forall>d \<in> D. user_pte (vs_paging st') d = user_pte (vs_paging st) d) \<and>
      (\<forall>g. in_use st g \<longrightarrow> phys_mem (vs_paging st') g = phys_mem (vs_paging st) g)"
    "paging_phys_is_pmm_frame f \<Longrightarrow>
      frame_uses (vs_paging st') D f + cached_uses (s_ro_map_cache st') f + x f \<le> frame_refs (vs_pmm st') f"
    if c: "cache_step D W x st st'" "\<forall>g \<in> W. \<not> in_use st g" for W x st' f
  proof -
    have W: "W \<inter> structs (vs_paging st) D = {}" using c(2) struct_in_use [OF assms(1)] by auto
    then show "cache_ok st' D \<and> (\<forall>d \<in> D. user_pte (vs_paging st') d = user_pte (vs_paging st) d) \<and>
        (\<forall>g. in_use st g \<longrightarrow> phys_mem (vs_paging st') g = phys_mem (vs_paging st) g)"
      using cache_step_same(1) [OF assms(1) c(1)] c by (auto simp: cache_step_def)
    show "paging_phys_is_pmm_frame f \<Longrightarrow>
      frame_uses (vs_paging st') D f + cached_uses (s_ro_map_cache st') f + x f \<le> frame_refs (vs_pmm st') f"
      by (rule cache_step_spare [OF assms(1) c(1) W])
  qed
  show ?thesis using assms
  proof (cases rule: map_ro_result [where off = off])
    case (refused rc st')
    then obtain W where W: "cache_step D W (\<lambda>_. 0) st st'" "\<forall>g \<in> W. \<not> in_use st g"
      "s_ro_map_cache st' = s_ro_map_cache st" by (auto simp: page_refused_def)
    have "cache_coherent fs content st'"
      by (rule coherent_step [OF assms(1,3) W(1)]) (use W in auto)
    then show ?thesis using refused common(1) [OF W(1,2)] W(3) page_refused_refs [OF refused(3)] by auto
  next
    case (shared f n st')
    then obtain W where W: "cache_step D W (\<lambda>g. of_bool (g = f)) st st'" "\<forall>g \<in> W. \<not> in_use st g"
      by (auto simp: page_shared_def)
    have fr: "paging_phys_is_pmm_frame f" "holds_page (phys_mem (vs_paging st') f) (content path) (unat off)"
      "cache_coherent fs content st'"
      using shared(2) pmm_frame_in_range [OF cache_okD(3) [OF assms(1)], of f] by (auto simp: page_shared_def)
    show ?thesis using shared(1) common(1) [OF W] common(2) [OF W fr(1)] fr(2,3) by auto
  qed
qed

text \<open>A file system with one small file, and the machine of \<open>paging_example\<close> with an empty cache.\<close>

definition fs_example :: file_system where
  "fs_example =
     \<lparr>fs_stat_info = \<lambda>p. if p = ''bin/a'' then Some \<lparr>st_ino = 12, st_size = 3, st_mtime = 0, st_ctime = 0, st_is_dir = False\<rparr> else None,
      fs_read_at_path = \<lambda>p off len. if p = ''bin/a'' then (True, take (unat len) (drop (unat off) [7, 8, 9])) else (False, [])\<rparr>"

definition content_example :: "string \<Rightarrow> u8 list" where
  "content_example p = (if p = ''bin/a'' then [7, 8, 9] else [])"

definition vm_example :: vm_state where
  "vm_example = \<lparr>vs_paging = paging_example, s_ro_map_cache = replicate VFS_RO_MAP_CACHE_PAGES None\<rparr>"

lemma fs_example_reads: "reads_files fs_example content_example"
  by (simp add: reads_files_def fs_example_def content_example_def)

lemma vm_example_ok: "cache_ok vm_example {0x200000}"
proof -
  have c: "cached_uses (replicate n None) f = 0" for n f by (auto simp: cached_uses_def)
  have refs: "frame_refs (pg_pmm paging_example) 0x200000 = 1" "frame_refs (pg_pmm paging_example) 0x201000 = 1"
    "frame_refs (pg_pmm paging_example) 0x202000 = 2" unfolding paging_example_def by code_simp+
  have "frame_uses paging_example {0x200000} f \<le> frame_refs (pg_pmm paging_example) f" for f
    using refs by (auto simp: frame_uses_def example_mapped example_structs)
  then show ?thesis using example_ok by (simp add: cache_ok_def vm_example_def c)
qed

lemma vm_example_coherent: "cache_coherent fs content vm_example"
  by (simp add: cache_coherent_def vm_example_def)

lemma vfs_file_map_ro_page_path_correct_witness:
  "\<exists>f n st'. vfs_file_map_ro_page_path fs_example ''bin/a'' 0 vm_example = Some (0, f, n, st') \<and>
    cache_ok st' {0x200000} \<and> frame_byte (phys_mem (vs_paging st') f) 1 = 8 \<and> frame_byte (phys_mem (vs_paging st') f) 5 = 0"
proof -
  have rc: "map_option fst (vfs_file_map_ro_page_path fs_example ''bin/a'' 0 vm_example) = Some 0" by code_simp
  have "length ''bin/a'' < PROCESS_FD_NAME_MAX" by code_simp
  from vfs_file_map_ro_page_path_correct [OF vm_example_ok fs_example_reads vm_example_coherent this, of 0] rc
  obtain f n st' where r: "vfs_file_map_ro_page_path fs_example ''bin/a'' 0 vm_example = Some (0, f, n, st')"
    "cache_ok st' {0x200000}" "holds_page (phys_mem (vs_paging st') f) (content_example ''bin/a'') (unat (0 :: u32))" by auto
  have "frame_byte (phys_mem (vs_paging st') f) k = file_byte [7, 8, 9] k" if "k < 4096" for k
    using r(3) that by (simp add: holds_page_def content_example_def)
  from this [of 1] this [of 5] r(1,2) show ?thesis by (auto simp: file_byte_def)
qed

end
