(* ===== verification/Path.thy ===== *)
theory Path
  imports Prelude "HOL-Library.Sublist"
begin

text \<open>
  Kernel strings (\<^verbatim>\<open>src/kernel/klib.c\<close>) and the resolution of path names
  (\<^verbatim>\<open>path_build_from\<close> of \<^verbatim>\<open>src/kernel/syscall_user.c\<close>). A C string is the list of the characters before
  its terminator; a buffer is the list of its cells, and an access past its end is \<open>None\<close>. Resolving a path
  fails with \<open>None\<close> where the function returns 0.
\<close>

section \<open>Kernel strings\<close>

definition k_memcpy :: "'a list \<Rightarrow> 'a list \<Rightarrow> nat \<Rightarrow> 'a list option" where
  "k_memcpy dst src n =
     fold (\<lambda>i d. case d of None \<Rightarrow> None
            | Some d \<Rightarrow> if i < length d \<and> i < length src then Some (d[i := src ! i]) else None) [0..<n] (Some dst)"

definition k_memset :: "'a list \<Rightarrow> 'a \<Rightarrow> nat \<Rightarrow> 'a list option" where
  "k_memset dst val n =
     fold (\<lambda>i d. case d of None \<Rightarrow> None | Some d \<Rightarrow> if i < length d then Some (d[i := val]) else None)
       [0..<n] (Some dst)"

fun k_strlen :: "string \<Rightarrow> nat" where
  "k_strlen [] = 0"
| "k_strlen (c # s) = Suc (k_strlen s)"

fun k_strcmp :: "string \<Rightarrow> string \<Rightarrow> bool" where
  "k_strcmp (x # a) (y # b) = (if x \<noteq> y then False else k_strcmp a b)"
| "k_strcmp a b = (a = [] \<and> b = [])"

fun k_starts_with :: "string \<Rightarrow> string \<Rightarrow> bool" where
  "k_starts_with s [] = True"
| "k_starts_with [] (p # pre) = False"
| "k_starts_with (c # s) (p # pre) = (if c \<noteq> p then False else k_starts_with s pre)"

lemma k_memcpy_copies: "n \<le> length dst \<Longrightarrow> n \<le> length src \<Longrightarrow> k_memcpy dst src n = Some (take n src @ drop n dst)"
proof (induction n)
  case (Suc n)
  have "k_memcpy dst src (Suc n) = Some ((take n src @ drop n dst)[n := src ! n])"
    using Suc by (simp add: k_memcpy_def)
  also have "(take n src @ drop n dst)[n := src ! n] = take (Suc n) src @ drop (Suc n) dst"
    using Suc.prems by (simp add: list_update_append take_Suc_conv_app_nth Cons_nth_drop_Suc [symmetric])
  finally show ?case .
qed (simp add: k_memcpy_def)

lemma k_memset_fills: "n \<le> length dst \<Longrightarrow> k_memset dst v n = Some (replicate n v @ drop n dst)"
proof (induction n)
  case (Suc n)
  have "k_memset dst v (Suc n) = Some ((replicate n v @ drop n dst)[n := v])"
    using Suc by (simp add: k_memset_def)
  also have "(replicate n v @ drop n dst)[n := v] = replicate (Suc n) v @ drop (Suc n) dst"
    using Suc.prems
    by (simp add: list_update_append Cons_nth_drop_Suc [symmetric] replicate_append_same [symmetric])
  finally show ?case .
qed (simp add: k_memset_def)

lemma k_strlen_length [simp]: "k_strlen s = length s"
  by (induction s) simp_all

lemma k_strcmp_eq [simp]: "k_strcmp a b \<longleftrightarrow> a = b"
  by (induction a b rule: k_strcmp.induct) auto

lemma k_starts_with_prefix: "k_starts_with s p \<longleftrightarrow> prefix p s"
  by (induction s p rule: k_starts_with.induct) auto

section \<open>Resolving a path\<close>

definition path_is_sep :: "char \<Rightarrow> bool" where
  "path_is_sep c \<longleftrightarrow> c = CHR ''/'' \<or> c = CHR 0x5C"

definition path_add_component :: "string list \<Rightarrow> string \<Rightarrow> string list option" where
  "path_add_component comps component =
     (if length comps \<ge> 16 then None
      else if k_strlen component > 31 then None
      else Some (comps @ [component]))"

lemma path_rest_shorter:
  assumes "dropWhile path_is_sep cursor \<noteq> []"
  shows "length (dropWhile (\<lambda>c. \<not> path_is_sep c) (dropWhile path_is_sep cursor)) < length cursor"
proof -
  obtain c s where cs: "dropWhile path_is_sep cursor = c # s" using assms by (cases "dropWhile path_is_sep cursor") auto
  then have "\<not> path_is_sep c" by (metis dropWhile_eq_Cons_conv)
  then have "length (dropWhile (\<lambda>c. \<not> path_is_sep c) (c # s)) \<le> length s" by (simp add: length_dropWhile_le)
  also have "\<dots> < length (c # s)" by simp
  also have "\<dots> \<le> length cursor" using cs length_dropWhile_le [of path_is_sep cursor] by simp
  finally show ?thesis by (simp add: cs)
qed

text \<open>The loop over one of the two source strings, with the components collected so far.\<close>

function path_scan :: "string \<Rightarrow> string list \<Rightarrow> string list option" where
  "path_scan cursor comps =
     (let cursor = dropWhile path_is_sep cursor in
      if cursor = [] then Some comps
      else
        let component = takeWhile (\<lambda>c. \<not> path_is_sep c) cursor;
            rest = dropWhile (\<lambda>c. \<not> path_is_sep c) cursor
        in if length component > 31 then None
           else if k_strcmp component ''.'' then path_scan rest comps
           else if k_strcmp component ''..'' then path_scan rest (if length comps > 0 then butlast comps else comps)
           else
             case path_add_component comps component of
               None \<Rightarrow> None
             | Some comps \<Rightarrow> path_scan rest comps)"
  by pat_completeness auto

termination
  by (relation "measure (\<lambda>(cursor, comps). length cursor)") (auto simp: path_rest_shorter simp del: dropWhile_eq_Nil_conv)

declare path_scan.simps [simp del]

text \<open>The writing loop; \<open>later\<close> is the test \<open>i > 0\<close> that puts a separator before a component.\<close>

fun path_emit :: "string list \<Rightarrow> bool \<Rightarrow> string \<Rightarrow> nat \<Rightarrow> string option" where
  "path_emit [] later out out_size = Some out"
| "path_emit (c # comps) later out out_size =
     (if length out + k_strlen c + (if later then 1 else 0) + 1 > out_size then None
      else path_emit comps True ((if later then out @ ''/'' else out) @ c) out_size)"

definition path_build_from :: "string option \<Rightarrow> string option \<Rightarrow> nat \<Rightarrow> string option" where
  "path_build_from base path out_size =
     (case path of
        None \<Rightarrow> None
      | Some p \<Rightarrow>
          if out_size = 0 then None
          else
            let sources =
                  (case base of
                     Some b \<Rightarrow> if b \<noteq> [] \<and> \<not> (p \<noteq> [] \<and> path_is_sep (hd p)) then [b, p] else [p]
                   | None \<Rightarrow> [p])
            in case fold (\<lambda>src acc. case acc of None \<Rightarrow> None | Some comps \<Rightarrow> path_scan src comps) sources (Some []) of
                 None \<Rightarrow> None
               | Some comps \<Rightarrow> path_emit comps False [] out_size)"

section \<open>What a path means\<close>

text \<open>
  The components of a path, the effect of each on the directory reached so far, and the name of a
  directory: the reading of a path as a walk from the root.
\<close>

function components :: "string \<Rightarrow> string list" where
  "components p =
     (let p = dropWhile path_is_sep p in
      if p = [] then []
      else takeWhile (\<lambda>c. \<not> path_is_sep c) p # components (dropWhile (\<lambda>c. \<not> path_is_sep c) p))"
  by pat_completeness auto
termination
  by (relation "measure length") (auto simp: path_rest_shorter simp del: dropWhile_eq_Nil_conv)

declare components.simps [simp del]

definition walk_step :: "string list \<Rightarrow> string \<Rightarrow> string list" where
  "walk_step dir c = (if c = ''.'' then dir else if c = ''..'' then butlast dir else dir @ [c])"

definition walk :: "string list \<Rightarrow> string \<Rightarrow> string list" where
  "walk dir p = foldl walk_step dir (components p)"

fun path_name :: "string list \<Rightarrow> string" where
  "path_name [] = []"
| "path_name [c] = c"
| "path_name (c # cs) = c @ ''/'' @ path_name cs"

definition good_component :: "string \<Rightarrow> bool" where
  "good_component c \<longleftrightarrow> c \<noteq> [] \<and> length c \<le> 31 \<and> c \<noteq> ''.'' \<and> c \<noteq> ''..'' \<and> list_all (\<lambda>x. \<not> path_is_sep x) c"

definition good_dir :: "string list \<Rightarrow> bool" where
  "good_dir d \<longleftrightarrow> length d \<le> 16 \<and> list_all good_component d"

lemma components_Nil: "dropWhile path_is_sep p = [] \<Longrightarrow> components p = []"
  by (subst components.simps) (simp del: dropWhile_eq_Nil_conv)

lemma components_Cons:
  "dropWhile path_is_sep p = q \<Longrightarrow> q \<noteq> [] \<Longrightarrow>
   components p = takeWhile (\<lambda>c. \<not> path_is_sep c) q # components (dropWhile (\<lambda>c. \<not> path_is_sep c) q)"
  by (subst components.simps) (simp add: Let_def del: dropWhile_eq_Nil_conv)

text \<open>The scanning loop as a fold over the components.\<close>

fun scan_components :: "string list \<Rightarrow> string list \<Rightarrow> string list option" where
  "scan_components [] d = Some d"
| "scan_components (c # cs) d =
     (if length c > 31 \<or> c \<noteq> ''.'' \<and> c \<noteq> ''..'' \<and> length d \<ge> 16 then None
      else scan_components cs (walk_step d c))"

lemma path_scan_components: "path_scan p d = scan_components (components p) d"
proof (induction p d rule: path_scan.induct)
  case (1 p d)
  define q where "q = dropWhile path_is_sep p"
  show ?case
  proof (cases "q = []")
    case True
    then show ?thesis
      unfolding q_def by (subst path_scan.simps) (simp add: components_Nil del: dropWhile_eq_Nil_conv)
  next
    case False
    define c r where "c = takeWhile (\<lambda>c. \<not> path_is_sep c) q" and "r = dropWhile (\<lambda>c. \<not> path_is_sep c) q"
    note defs = q_def c_def r_def
    have scan: "path_scan p d =
      (if length c > 31 then None
       else if c = ''.'' then path_scan r d
       else if c = ''..'' then path_scan r (if length d > 0 then butlast d else d)
       else case path_add_component d c of None \<Rightarrow> None | Some d \<Rightarrow> path_scan r d)"
      using False unfolding defs by (subst path_scan.simps) (simp add: Let_def del: dropWhile_eq_Nil_conv)
    have IH: "path_scan r d' = scan_components (components r) d'" if "length c \<le> 31" "c = ''.''" "d' = d" for d'
      using "1.IH"(1) [OF q_def _ c_def r_def] False that by simp
    have IH2: "path_scan r d' = scan_components (components r) d'"
      if "length c \<le> 31" "c = ''..''" "d' = (if length d > 0 then butlast d else d)" for d'
      using "1.IH"(2) [OF q_def _ c_def r_def] False that by simp
    have IH3: "path_scan r d' = scan_components (components r) d'"
      if "length c \<le> 31" "c \<noteq> ''.''" "c \<noteq> ''..''" "path_add_component d c = Some d'" for d'
      using "1.IH"(3) [OF q_def _ c_def r_def] False that by simp
    have comps: "components p = c # components r"
      using components_Cons [OF q_def [symmetric] False] by (simp add: c_def r_def)
    show ?thesis
      unfolding scan comps
      using IH IH2 IH3 by (auto simp: walk_step_def path_add_component_def)
  qed
qed

lemma scan_components_walk: "scan_components cs d = Some d' \<Longrightarrow> d' = foldl walk_step d cs"
  by (induction cs d rule: scan_components.induct) (auto split: if_splits)

lemma scan_components_good:
  "scan_components cs d = Some d' \<Longrightarrow> good_dir d \<Longrightarrow> list_all (\<lambda>c. c \<noteq> [] \<and> list_all (\<lambda>x. \<not> path_is_sep x) c) cs
   \<Longrightarrow> good_dir d'"
proof (induction cs d rule: scan_components.induct)
  case (2 c cs d)
  have ok: "length c \<le> 31" "c = ''.'' \<or> c = ''..'' \<or> length d < 16"
    and rest: "scan_components cs (walk_step d c) = Some d'"
    using "2.prems"(1) by (simp_all add: not_le split: if_splits)
  have bl: "good_dir (butlast d)"
    using "2.prems"(2) by (auto simp: good_dir_def list_all_iff dest: in_set_butlastD)
  have "good_dir (d @ [c])" if "c \<noteq> ''.''" "c \<noteq> ''..''"
    using that ok "2.prems"(2,3) by (simp add: good_dir_def good_component_def)
  then have "good_dir (walk_step d c)" using bl "2.prems"(2) by (simp add: walk_step_def)
  moreover have "\<not> (length c > 31 \<or> c \<noteq> ''.'' \<and> c \<noteq> ''..'' \<and> length d \<ge> 16)" using ok by auto
  ultimately show ?case using "2.IH" rest "2.prems"(3) by simp
qed simp

lemma components_clean: "list_all (\<lambda>c. c \<noteq> [] \<and> list_all (\<lambda>x. \<not> path_is_sep x) c) (components p)"
proof (induction p rule: components.induct)
  case (1 p)
  define q where "q = dropWhile path_is_sep p"
  show ?case
  proof (cases "q = []")
    case True
    then show ?thesis by (simp add: q_def components_Nil del: dropWhile_eq_Nil_conv)
  next
    case False
    then have "\<not> path_is_sep (hd q)" unfolding q_def by (rule hd_dropWhile)
    then have "takeWhile (\<lambda>c. \<not> path_is_sep c) q \<noteq> []" using False by (simp add: takeWhile_eq_Nil_iff)
    moreover have "list_all (\<lambda>x. \<not> path_is_sep x) (takeWhile (\<lambda>c. \<not> path_is_sep c) q)"
      unfolding list_all_iff by (blast dest: set_takeWhileD)
    ultimately show ?thesis
      using "1.IH" [OF q_def False] unfolding components_Cons [OF q_def [symmetric] False] by simp
  qed
qed

lemma path_name_concat: "path_name (c # cs) = c @ concat (map (\<lambda>c. ''/'' @ c) cs)"
  by (induction cs arbitrary: c) simp_all

lemma path_emit_eq:
  "path_emit cs later out n = Some s \<Longrightarrow>
   s = out @ concat (map (\<lambda>c. ''/'' @ c) cs) \<and> later \<or>
   s = out @ path_name cs \<and> \<not> later"
proof (induction cs later out n rule: path_emit.induct)
  case (2 c cs later out n)
  have rest: "path_emit cs True ((if later then out @ ''/'' else out) @ c) n = Some s"
    using "2.prems" by (simp split: if_splits)
  have "s = ((if later then out @ ''/'' else out) @ c) @ concat (map (\<lambda>c. ''/'' @ c) cs)"
    using "2.IH" [OF _ rest] "2.prems" by (simp split: if_splits)
  then show ?case by (cases later) (simp_all add: path_name_concat)
qed simp

lemma path_emit_bound: "path_emit cs later out n = Some s \<Longrightarrow> cs \<noteq> [] \<or> length out < n \<Longrightarrow> length s < n"
  by (induction cs later out n rule: path_emit.induct) (auto split: if_splits)

lemma components_name:
  assumes "list_all good_component cs"
  shows "components (path_name cs) = cs"
  using assms
proof (induction cs rule: path_name.induct)
  case 1
  then show ?case by (simp add: components_Nil)
next
  case (2 c)
  then have c: "c \<noteq> []" "\<forall>x \<in> set c. \<not> path_is_sep x" by (auto simp: good_component_def list_all_iff)
  then have "dropWhile path_is_sep c = c" "takeWhile (\<lambda>c. \<not> path_is_sep c) c = c"
    "dropWhile (\<lambda>c. \<not> path_is_sep c) c = []"
    by (auto simp: dropWhile_eq_self_iff)
  note cw = this
  show ?case using components_Cons [OF cw(1) c(1)] unfolding cw(2,3) by (simp add: components_Nil)
next
  case (3 c c' cs)
  let ?rest = "''/'' @ path_name (c' # cs)"
  from 3 have c: "c \<noteq> []" "\<forall>x \<in> set c. \<not> path_is_sep x" by (auto simp: good_component_def list_all_iff)
  have sep: "path_is_sep (CHR ''/'')" by (simp add: path_is_sep_def)
  have d: "dropWhile path_is_sep (c @ ?rest) = c @ ?rest" using c by (cases c) simp_all
  have t: "takeWhile (\<lambda>c. \<not> path_is_sep c) (c @ ?rest) = c" "dropWhile (\<lambda>c. \<not> path_is_sep c) (c @ ?rest) = ?rest"
    using c(2) sep by (simp_all add: takeWhile_append2 dropWhile_append2)
  have "components ?rest = components (path_name (c' # cs))"
    using sep by (subst (1 2) components.simps) simp
  then show ?case using components_Cons [OF d] c(1) t 3 by simp
qed

lemma scan_components_append:
  assumes "list_all good_component (d @ cs)" "length (d @ cs) \<le> 16"
  shows "scan_components cs d = Some (d @ cs)"
  using assms
proof (induction cs arbitrary: d)
  case (Cons c cs)
  then have c: "c \<noteq> ''.''" "c \<noteq> ''..''" "length c \<le> 31" "length d < 16" by (auto simp: good_component_def)
  have "scan_components cs (d @ [c]) = Some ((d @ [c]) @ cs)" using Cons.prems by (intro Cons.IH) simp_all
  then show ?case using c by (simp add: walk_step_def)
qed simp

lemma scan_components_self: "good_dir d \<Longrightarrow> scan_components d [] = Some d"
  using scan_components_append [of "[]" d] by (simp add: good_dir_def)

abbreviation absolute :: "string \<Rightarrow> bool" where
  "absolute p \<equiv> p \<noteq> [] \<and> path_is_sep (hd p)"

definition path_start :: "string option \<Rightarrow> string \<Rightarrow> string list option" where
  "path_start base p = (if absolute p then Some [] else case base of None \<Rightarrow> Some [] | Some b \<Rightarrow> path_scan b [])"

lemma path_build_from_eq:
  assumes "0 < n"
  shows "path_build_from base (Some p) n =
    (case path_start base p of None \<Rightarrow> None
     | Some d \<Rightarrow> (case path_scan p d of None \<Rightarrow> None | Some cs \<Rightarrow> path_emit cs False [] n))"
proof (cases "absolute p")
  case True
  then show ?thesis using assms by (cases base) (simp_all add: path_build_from_def path_start_def)
next
  case False
  then have e: "path_scan [] [] = Some []" by (simp add: path_scan_components components_Nil)
  show ?thesis
  proof (cases base)
    case (Some b)
    then show ?thesis using assms False e 
      by (cases "b = []") (auto simp: path_build_from_def path_start_def split: option.split)
  next
    case None
    then show ?thesis using assms False by (simp add: path_build_from_def path_start_def)
  qed
qed

lemma path_scan_result:
  assumes "path_scan p d = Some d'" "good_dir d"
  shows "d' = walk d p" "good_dir d'"
  using scan_components_walk [OF assms(1) [unfolded path_scan_components]]
    scan_components_good [OF assms(1) [unfolded path_scan_components] assms(2) components_clean]
  by (simp_all add: walk_def)

lemma path_start_result:
  assumes "path_start base p = Some d"
  shows "d = (if absolute p then [] else case base of None \<Rightarrow> [] | Some b \<Rightarrow> walk [] b)" "good_dir d"
  using assms path_scan_result [of _ "[]" d] by (auto simp: path_start_def good_dir_def split: if_splits option.splits)

text \<open>
  C24: Whatever text a program passes, the path the kernel works with is a clean absolute name: resolving succeeds only with the
  name of a directory of at most sixteen components, each nonempty, at most 31 characters
  long, free of separators and neither \<^verbatim>\<open>.\<close> nor \<^verbatim>\<open>..\<close>, it fits the buffer with its terminator, and it is where a
  walk from the root along the base (for a relative path) and the path leads, \<^verbatim>\<open>..\<close> never leading above the root.
\<close>
theorem path_build_from_walks:
  assumes "path_build_from base (Some p) n = Some out"
  shows "\<exists>dir. good_dir dir \<and> out = path_name dir \<and> length out < n \<and>
    dir = walk (if absolute p then [] else case base of None \<Rightarrow> [] | Some b \<Rightarrow> walk [] b) p"
proof -
  have n: "0 < n" using assms by (simp add: path_build_from_def split: if_splits)
  obtain d0 d where d: "path_start base p = Some d0" "path_scan p d0 = Some d" "path_emit d False [] n = Some out"
    using assms unfolding path_build_from_eq [OF n] by (auto split: option.splits)
  note st = path_start_result [OF d(1)]
  note sc = path_scan_result [OF d(2) st(2)]
  have "out = path_name d" using path_emit_eq [OF d(3)] by simp
  moreover have "length out < n" using path_emit_bound [OF d(3)] n by simp
  ultimately show ?thesis using sc unfolding st(1) by blast
qed

theorem path_build_from_walks_witness:
  "\<exists>dir. good_dir dir \<and> ''usr/lib'' = path_name dir \<and> length ''usr/lib'' < 32 \<and>
     dir = walk (if absolute ''../lib/.//'' then [] else case Some ''/usr/bin'' of None \<Rightarrow> [] | Some b \<Rightarrow> walk [] b)
       ''../lib/.//''"
  by (rule path_build_from_walks) code_simp

text \<open>
  Resolution is stable: a path that was resolved once resolves to itself from the root, and a walk along it
  reaches the directory the walk along the base and the original path reached.
\<close>
theorem path_build_from_stable:
  assumes "path_build_from base (Some p) n = Some out"
  shows "path_build_from None (Some out) n = Some out \<and> walk [] out = walk (the (path_start base p)) p"
proof -
  have n: "0 < n" using assms by (simp add: path_build_from_def split: if_splits)
  obtain d0 d where d: "path_start base p = Some d0" "path_scan p d0 = Some d" "path_emit d False [] n = Some out"
    using assms unfolding path_build_from_eq [OF n] by (auto split: option.splits)
  note sc = path_scan_result [OF d(2) path_start_result(2) [OF d(1)]]
  have out: "out = path_name d" using path_emit_eq [OF d(3)] by simp
  have comps: "components out = d" using components_name [of d] sc(2) by (simp add: out good_dir_def)
  have "scan_components d [] = Some d" using sc(2) by (rule scan_components_self)
  then have again: "path_scan out [] = Some d" by (simp add: path_scan_components comps)
  then have "path_build_from None (Some out) n = Some out"
    using d(3) by (simp add: path_build_from_eq [OF n] path_start_def)
  moreover have "walk [] out = d" using path_scan_result(1) [OF again] by (simp add: good_dir_def)
  ultimately show ?thesis using sc(1) d(1) by simp
qed

theorem path_build_from_stable_witness:
  "path_build_from None (Some ''usr/lib'') 32 = Some ''usr/lib'' \<and>
   walk [] ''usr/lib'' = walk (the (path_start (Some ''/usr/bin'') ''../lib/.//'')) ''../lib/.//''"
  by (rule path_build_from_stable) code_simp

end
