(* ===== verification/Fault.thy ===== *)
theory Fault
  imports Page_Cache Path
begin

text \<open>
  Page faults (\<^verbatim>\<open>src/kernel/process.c\<close>) and the access of system calls to user memory
  (\<^verbatim>\<open>src/kernel/syscall_user.c\<close>). A process is here its table of areas \<open>v\<close> and its directory \<open>d\<close>; \<open>None\<close> is a panic of
  the paging code.
\<close>

section \<open>Page faults\<close>

definition process_vm_load_file_page :: "file_system \<Rightarrow> vm_area \<Rightarrow> u32 \<Rightarrow> u32 \<Rightarrow> vm_state \<Rightarrow> bool \<times> vm_state" where
  "process_vm_load_file_page fs area page frame st =
     (if va_path area = [] then (False, st)
      else if va_file_end area \<le> page \<or> va_file_start area \<ge> page + PAGE_SIZE then (True, st)
      else
        let copy_start = (if va_file_start area > page then va_file_start area else page);
            copy_end = (if va_file_end area < page + PAGE_SIZE then va_file_end area else page + PAGE_SIZE)
        in if copy_end \<le> copy_start then (True, st)
           else
             let (rc, got, st) = vfs_read_path_at fs (va_path area)
                   (va_file_offset area + (copy_start - va_file_start area)) frame (copy_start - page)
                   (copy_end - copy_start) st
             in (if rc < 0 then False else got = copy_end - copy_start, st))"

definition vs_paging_step :: "(paging \<Rightarrow> (bool \<times> paging) option) \<Rightarrow> vm_state \<Rightarrow> (bool \<times> vm_state) option" where
  "vs_paging_step f st = map_option (\<lambda>(r, s). (r, st\<lparr>vs_paging := s\<rparr>)) (f (vs_paging st))"

definition vs_map_page :: "u32 \<Rightarrow> u32 \<Rightarrow> u32 \<Rightarrow> u32 \<Rightarrow> vm_state \<Rightarrow> (bool \<times> vm_state) option" where
  "vs_map_page d page frame flags st =
     vs_paging_step (\<lambda>s. map_option (Pair True) (paging_map_page (ProcessDirectory d) page frame flags s)) st"

text \<open>The flags of a page of its own.\<close>

definition private_flags :: "vm_area \<Rightarrow> u32" where
  "private_flags area =
     (if va_prot area AND PROCESS_VM_PROT_WRITE \<noteq> 0 then PAGE_USER OR PAGE_WRITE
      else if va_max_prot area AND PROCESS_VM_PROT_WRITE \<noteq> 0 then PAGE_USER OR PAGE_COW else PAGE_USER)"

text \<open>A page of its own for the process: zeroed, filled from the file where the area has one, and mapped.\<close>

definition fault_private_page :: "file_system \<Rightarrow> vm_area \<Rightarrow> u32 \<Rightarrow> u32 \<Rightarrow> vm_state \<Rightarrow> (bool \<times> vm_state) option" where
  "fault_private_page fs area d page st =
     (let (frame, p) = pmm_alloc_frame (vs_pmm st) in
      if frame = 0 then Some (False, st)
      else if paging_phys_to_kernel_virt frame = None then None
      else
        let st = vfs_zero_frame frame (vs_set_pmm p st);
            (ok, st) = (if file_backed area then process_vm_load_file_page fs area page frame st else (True, st))
        in if \<not> ok then Some (False, vs_set_pmm (pmm_release_frame (vs_pmm st) frame) st)
           else vs_map_page d page frame (private_flags area) st)"

text \<open>A page that is not there: a whole page of a file that is never written is shared, others are private.\<close>

definition fault_absent_page :: "file_system \<Rightarrow> vm_area \<Rightarrow> u32 \<Rightarrow> u32 \<Rightarrow> vm_state \<Rightarrow> (bool \<times> vm_state) option" where
  "fault_absent_page fs area d page st =
     (let file_off = va_file_offset area + (page - va_file_start area) in
      if file_backed area \<and> va_path area \<noteq> [] \<and>
         va_max_prot area AND PROCESS_VM_PROT_WRITE = 0 \<and> va_prot area AND PROCESS_VM_PROT_WRITE = 0 \<and>
         va_file_start area \<le> page \<and> va_file_end area \<ge> page + PAGE_SIZE \<and>
         file_off AND (PAGE_SIZE - 1) = 0
      then
        (case vfs_file_map_ro_page_path fs (va_path area) file_off st of
           None \<Rightarrow> None
         | Some (rc, frame, bytes, st) \<Rightarrow>
             if rc = 0 then vs_map_page d page frame (PAGE_USER OR PAGE_SHARED_RO_FILE) st
             else fault_private_page fs area d page st)
      else fault_private_page fs area d page st)"

definition process_vm_handle_fault ::
  "file_system \<Rightarrow> vm \<Rightarrow> u32 \<Rightarrow> u32 \<Rightarrow> u32 \<Rightarrow> vm_state \<Rightarrow> (bool \<times> vm_state) option" where
  "process_vm_handle_fault fs v d fault_addr err st =
     (if d = 0 then Some (False, st)
      else
        let page = page_floor fault_addr;
            fault_present = err AND 1 \<noteq> 0;
            fault_write = err AND 2 \<noteq> 0
        in case process_vm_lookup v page of
             None \<Rightarrow> Some (False, st)
           | Some area \<Rightarrow>
               if fault_write \<and> va_prot area AND PROCESS_VM_PROT_WRITE = 0 then Some (False, st)
               else if \<not> fault_write \<and>
                 va_prot area AND (PROCESS_VM_PROT_READ OR PROCESS_VM_PROT_WRITE OR PROCESS_VM_PROT_EXEC) = 0
               then Some (False, st)
               else if fault_present then
                 if \<not> fault_write then Some (False, st)
                 else
                   (case paging_user_page_get d page (vs_paging st) of
                      None \<Rightarrow> None
                    | Some None \<Rightarrow> Some (False, st)
                    | Some (Some (phys, flags)) \<Rightarrow>
                        if flags AND PAGE_COW = 0 then Some (False, st)
                        else vs_paging_step (paging_resolve_cow_fault d page) st)
               else
                 (case paging_user_page_present d page (vs_paging st) of
                    None \<Rightarrow> None
                  | Some True \<Rightarrow> Some (False, st)
                  | Some False \<Rightarrow> fault_absent_page fs area d page st))"

definition process_vm_fault_in_page :: "file_system \<Rightarrow> vm \<Rightarrow> u32 \<Rightarrow> u32 \<Rightarrow> bool \<Rightarrow> vm_state \<Rightarrow> (bool \<times> vm_state) option" where
  "process_vm_fault_in_page fs v d addr wr st =
     (let err = (if wr then 2 else 0) in
      if d = 0 then Some (False, st)
      else
        case paging_user_page_get d addr (vs_paging st) of
          None \<Rightarrow> None
        | Some None \<Rightarrow> process_vm_handle_fault fs v d addr err st
        | Some (Some (phys, flags)) \<Rightarrow>
            if \<not> wr then Some (True, st)
            else if flags AND PAGE_WRITE \<noteq> 0 then Some (True, st)
            else process_vm_handle_fault fs v d addr (err OR 1) st)"

section \<open>User memory\<close>

definition user_page_mapped :: "u32 \<Rightarrow> u32 \<Rightarrow> paging \<Rightarrow> bool option" where
  "user_page_mapped d addr s =
     (case paging_phys_to_kernel_virt d of
        None \<Rightarrow> None
      | Some _ \<Rightarrow>
          let pde = phys_mem s d (pd_index_of addr) in
          if pde AND PAGE_PRESENT = 0 then Some False
          else if pde AND PAGE_USER = 0 then Some False
          else
            (case paging_phys_to_kernel_virt (frame_of pde) of
               None \<Rightarrow> None
             | Some _ \<Rightarrow>
                 let pte = phys_mem s (frame_of pde) (pt_index_of addr)
                 in Some (pte AND PAGE_PRESENT \<noteq> 0 \<and> pte AND PAGE_USER \<noteq> 0)))"

definition user_page_access_ok :: "file_system \<Rightarrow> vm \<Rightarrow> u32 \<Rightarrow> u32 \<Rightarrow> bool \<Rightarrow> vm_state \<Rightarrow> (bool \<times> vm_state) option" where
  "user_page_access_ok fs v d addr wr st =
     (if d = 0 then Some (False, st)
      else if addr < USER_CODE_BASE \<or> addr \<ge> USER_STACK_TOP then Some (False, st)
      else
        case user_page_mapped d addr (vs_paging st) of
          None \<Rightarrow> None
        | Some True \<Rightarrow> if \<not> wr then Some (True, st) else process_vm_fault_in_page fs v d addr True st
        | Some False \<Rightarrow> process_vm_fault_in_page fs v d addr wr st)"

text \<open>The loop over the pages of a buffer.\<close>

partial_function (option) user_pages_ok ::
  "file_system \<Rightarrow> vm \<Rightarrow> u32 \<Rightarrow> bool \<Rightarrow> u32 \<Rightarrow> u32 \<Rightarrow> vm_state \<Rightarrow> (bool \<times> vm_state) option" where
  "user_pages_ok fs v d wr page end_page st =
     do {
       (ok, st) \<leftarrow> user_page_access_ok fs v d page wr st;
       if \<not> ok then Some (False, st)
       else if page = end_page then Some (True, st)
       else user_pages_ok fs v d wr (page + PAGE_SIZE) end_page st
     }"

text \<open>\<^verbatim>\<open>user_buf_ok\<close> and \<^verbatim>\<open>user_buf_write_ok\<close> differ in the kind of access only.\<close>

definition user_buf_check :: "file_system \<Rightarrow> vm \<Rightarrow> u32 \<Rightarrow> bool \<Rightarrow> u32 \<Rightarrow> u32 \<Rightarrow> vm_state \<Rightarrow> (bool \<times> vm_state) option" where
  "user_buf_check fs v d wr ptr len st =
     (if ptr < USER_CODE_BASE then Some (False, st)
      else if ptr \<ge> USER_STACK_TOP then Some (False, st)
      else if len = 0 then Some (False, st)
      else if len > USER_STACK_TOP - ptr then Some (False, st)
      else if d = 0 then Some (False, st)
      else
        let start_page = ptr AND NOT (PAGE_SIZE - 1);
            end_page = (ptr + len - 1) AND NOT (PAGE_SIZE - 1)
        in user_pages_ok fs v d wr start_page end_page st)"

definition user_buf_ok :: "file_system \<Rightarrow> vm \<Rightarrow> u32 \<Rightarrow> u32 \<Rightarrow> u32 \<Rightarrow> vm_state \<Rightarrow> (bool \<times> vm_state) option" where
  "user_buf_ok fs v d ptr len st = user_buf_check fs v d False ptr len st"

definition user_buf_write_ok :: "file_system \<Rightarrow> vm \<Rightarrow> u32 \<Rightarrow> u32 \<Rightarrow> u32 \<Rightarrow> vm_state \<Rightarrow> (bool \<times> vm_state) option" where
  "user_buf_write_ok fs v d ptr len st = user_buf_check fs v d True ptr len st"

definition user_count_bytes_ok :: "file_system \<Rightarrow> vm \<Rightarrow> u32 \<Rightarrow> u32 \<Rightarrow> u32 \<Rightarrow> u32 \<Rightarrow> vm_state \<Rightarrow> (u32 option \<times> bool \<times> vm_state) option" where
  "user_count_bytes_ok fs v d ptr cnt elem_size st =
     (if elem_size = 0 then Some (None, False, st)
      else if cnt > 0xFFFFFFFF div elem_size then Some (None, False, st)
      else
        let bytes = cnt * elem_size
        in map_option (\<lambda>(ok, st). (Some bytes, ok, st)) (user_buf_ok fs v d ptr bytes st))"

end
