(* ===== verification/Fault_Correct.thy ===== *)
theory Fault_Correct
  imports Fault
begin

text \<open>
  Correctness of page faults. A fault changes one page of one address space: it is served from the file cache, with a
  frame of its own, or by resolving copy-on-write, and what the page then holds is what its area says.
\<close>

section \<open>Mapping a frame the caller holds\<close>

text \<open>How often a frame is used, by address spaces and by the cache, and the balance of references and uses.\<close>

definition uses :: "vm_state \<Rightarrow> u32 set \<Rightarrow> u32 \<Rightarrow> nat" where
  "uses st D f = frame_uses (vs_paging st) D f + cached_uses (s_ro_map_cache st) f"

definition balanced :: "u32 set \<Rightarrow> vm_state \<Rightarrow> vm_state \<Rightarrow> bool" where
  "balanced D st st' \<longleftrightarrow> (\<forall>f. paging_phys_is_pmm_frame f \<longrightarrow>
     frame_refs (vs_pmm st') f + uses st D f = frame_refs (vs_pmm st) f + uses st' D f)"

text \<open>Frames that someone else than the cache holds, so that their contents must last.\<close>

definition held :: "vm_state \<Rightarrow> u32 \<Rightarrow> bool" where
  "held st f \<longleftrightarrow> (f \<in> pmm_frames (vs_pmm st) \<longrightarrow> cached_uses (s_ro_map_cache st) f < frame_refs (vs_pmm st) f)"

text \<open>
  What a step that may change page \<open>p\<close> of the address space \<open>d\<close> leaves alone: every other page of every
  space, the contents of all frames held but page tables, and the standing of a frame that only one page uses.
\<close>

definition page_only :: "u32 set \<Rightarrow> vm_state \<Rightarrow> u32 \<Rightarrow> u32 \<Rightarrow> vm_state \<Rightarrow> bool" where
  "page_only D st d p st' \<longleftrightarrow> cache_ok st' D \<and> balanced D st st' \<and>
     (\<forall>e \<in> D. \<forall>q. (e, q) \<noteq> (d, p) \<longrightarrow> user_pte (vs_paging st') e q = user_pte (vs_paging st) e q) \<and>
     (\<forall>f. held st f \<and> f \<notin> structs (vs_paging st) D \<longrightarrow> phys_mem (vs_paging st') f = phys_mem (vs_paging st) f) \<and>
     (\<forall>e \<in> D. \<forall>q. (e, q) \<noteq> (d, p) \<and> user_present (user_pte (vs_paging st) e q) \<and>
        frame_refs (vs_pmm st) (frame_of (user_pte (vs_paging st) e q)) = 1 \<longrightarrow>
        frame_refs (vs_pmm st') (frame_of (user_pte (vs_paging st) e q)) = 1)"

lemma sole_use:
  assumes ok: "cache_ok st D" and e: "e \<in> D" "user_present (user_pte (vs_paging st) e q)"
    and f: "f = frame_of (user_pte (vs_paging st) e q)" "frame_refs (vs_pmm st) f = 1"
  shows "mapped (vs_paging st) D f = {(e, q)}" "cached_uses (s_ro_map_cache st) f = 0" "f \<notin> structs (vs_paging st) D"
proof -
  have r: "paging_phys_is_pmm_frame f"
    using f(2) frame_refs_managed [of "vs_pmm st" f] pmm_frame_in_range [OF cache_okD(3) [OF ok]] by simp
  have m: "(e, q) \<in> mapped (vs_paging st) D f" using e f(1) by (simp add: mapped_def)
  have fin: "finite (mapped (vs_paging st) D f)" by (rule finite_mapped [OF spaces_okD(1) [OF cache_okD(1) [OF ok]]])
  then have "1 \<le> card (mapped (vs_paging st) D f)" using m by (metis One_nat_def Suc_leI card_gt_0_iff empty_iff)
  then have c: "card (mapped (vs_paging st) D f) = 1" "cached_uses (s_ro_map_cache st) f = 0" "f \<notin> structs (vs_paging st) D"
    using cache_okD(6) [OF ok r] f(2) by (auto simp: frame_uses_def)
  then show "mapped (vs_paging st) D f = {(e, q)}" using m by (metis card_1_singletonE singletonD)
  show "cached_uses (s_ro_map_cache st) f = 0" "f \<notin> structs (vs_paging st) D" using c by simp_all
qed

text \<open>
  The caller holds a reference to \<open>f\<close> that came from the cache or from the frame manager, and there is room
  for a page table: the frame gets mapped.
\<close>

definition granted :: "u32 set \<Rightarrow> vm_state \<Rightarrow> u32 \<Rightarrow> vm_state \<Rightarrow> bool" where
  "granted D st f st1 \<longleftrightarrow> (\<exists>W. cache_step D W (\<lambda>g. of_bool (g = f)) st st1 \<and> (\<forall>g \<in> W. \<not> in_use st g)) \<and>
     f \<in> pmm_frames (vs_pmm st) - structs (vs_paging st) D \<and> (in_use st f \<longrightarrow> 0 < cached_uses (s_ro_map_cache st) f) \<and>
     (\<forall>g. g \<noteq> f \<longrightarrow> cached_uses (s_ro_map_cache st1) g \<le> cached_uses (s_ro_map_cache st) g)"

lemma granted_same:
  assumes ok: "cache_ok st D" and g: "granted D st f st1"
  shows "cache_ok st1 D" "e \<in> D \<Longrightarrow> user_pte (vs_paging st1) e = user_pte (vs_paging st) e"
    "structs (vs_paging st1) D = structs (vs_paging st) D" "mapped (vs_paging st1) D h = mapped (vs_paging st) D h"
    "in_use st h \<Longrightarrow> phys_mem (vs_paging st1) h = phys_mem (vs_paging st) h"
    "frame_refs (vs_pmm st1) h + uses st D h = frame_refs (vs_pmm st) h + uses st1 D h + of_bool (h = f)"
    "paging_phys_is_pmm_frame h \<Longrightarrow> uses st1 D h + of_bool (h = f) \<le> frame_refs (vs_pmm st1) h"
    "pmm_frames (vs_pmm st1) = pmm_frames (vs_pmm st)"
proof -
  obtain W where W: "cache_step D W (\<lambda>g. of_bool (g = f)) st st1" "\<forall>g \<in> W. \<not> in_use st g"
    using g by (auto simp: granted_def)
  have d: "W \<inter> structs (vs_paging st) D = {}" using W(2) struct_in_use [OF ok] by auto
  note same = cache_step_same [OF ok W(1) d]
  show "cache_ok st1 D" "pmm_frames (vs_pmm st1) = pmm_frames (vs_pmm st)" "in_use st h \<Longrightarrow> phys_mem (vs_paging st1) h = phys_mem (vs_paging st) h"
    using W by (auto simp: cache_step_def)
  show "e \<in> D \<Longrightarrow> user_pte (vs_paging st1) e = user_pte (vs_paging st) e" by (rule same(1))
  show "structs (vs_paging st1) D = structs (vs_paging st) D" "mapped (vs_paging st1) D h = mapped (vs_paging st) D h"
    by (rule same(2) same(3))+
  show "frame_refs (vs_pmm st1) h + uses st D h = frame_refs (vs_pmm st) h + uses st1 D h + of_bool (h = f)"
    using cache_step_refs [OF W(1), of h] same(4) [of h] by (simp add: uses_def)
  show "paging_phys_is_pmm_frame h \<Longrightarrow> uses st1 D h + of_bool (h = f) \<le> frame_refs (vs_pmm st1) h"
    using cache_step_spare [OF ok W(1) d, of h] by (simp add: uses_def)
qed

lemma granted_sole:
  assumes ok: "cache_ok st D" and g: "granted D st f st1" and e: "e \<in> D" "user_present (user_pte (vs_paging st) e q)"
    and h: "h = frame_of (user_pte (vs_paging st) e q)" "frame_refs (vs_pmm st) h = 1"
  shows "h \<noteq> f" "frame_refs (vs_pmm st1) h = 1"
proof -
  note s = sole_use [OF ok e h]
  have "in_use st h" using h(2) by (simp add: in_use_def)
  then show ne: "h \<noteq> f" using g s(2) by (auto simp: granted_def)
  then have "cached_uses (s_ro_map_cache st1) h = 0" using g s(2) by (force simp: granted_def)
  then show "frame_refs (vs_pmm st1) h = 1"
    using granted_same(6) [OF ok g, of h] granted_same(3,4) [OF ok g] s ne h(2) by (simp add: uses_def frame_uses_def)
qed

lemma granted_held:
  assumes ok: "cache_ok st D" and g: "granted D st f st1" and h: "held st h"
  shows "in_use st h" "in_use st1 h"
proof -
  show "in_use st h" using h by (auto simp: held_def in_use_def)
  have "cached_uses (s_ro_map_cache st1) h + frame_refs (vs_pmm st) h \<le> frame_refs (vs_pmm st1) h + cached_uses (s_ro_map_cache st) h"
    using granted_same(6) [OF ok g, of h] granted_same(3,4) [OF ok g] by (simp add: uses_def frame_uses_def)
  then show "in_use st1 h" using h granted_same(8) [OF ok g] by (auto simp: held_def in_use_def)
qed

lemma map_granted:
  assumes ok: "cache_ok st D" and g: "granted D st f st1" and d: "d \<in> D"
    and p: "page_aligned p" "paging_pd_index_is_user (pd_index_of p)" and absent: "\<not> user_present (user_pte (vs_paging st) d p)"
    and fl: "frame_of flags = 0" "bit flags 2" and room: "0 < headroom (vs_paging st1) d (pd_index_of p)"
  obtains st' where "vs_map_page d p f flags st1 = Some (True, st')" "page_only D st d p st'"
    "user_pte (vs_paging st') d p = f OR (flags OR PAGE_PRESENT)" "frame_refs (vs_pmm st') f = frame_refs (vs_pmm st1) f"
    "s_ro_map_cache st' = s_ro_map_cache st1"
    "\<And>h. 0 < frame_refs (vs_pmm st1) h \<Longrightarrow> h \<notin> structs (vs_paging st) D \<Longrightarrow> phys_mem (vs_paging st') h = phys_mem (vs_paging st1) h"
    "headroom (vs_paging st1) d (pd_index_of p) \<le> headroom (vs_paging st') d (pd_index_of p)"
proof -
  let ?s1 = "vs_paging st1" and ?w = "f OR (flags OR PAGE_PRESENT)"
  note same = granted_same [OF ok g]
  note ok1 = cache_okD(1) [OF same(1)]
  have f: "f \<in> pmm_frames (vs_pmm st1)" "f \<notin> structs ?s1 D" using g same(3,8) by (auto simp: granted_def)
  have fr: "paging_phys_is_pmm_frame f" by (rule pmm_frame_in_range [OF cache_okD(3) [OF same(1)] f(1)])
  have fa: "frame_of f = f" using pmm_frame_aligned [OF f(1)] by simp
  have fw: "frame_of ?w = f"
    using frame_of_zero [OF fl(1)] by (intro frame_of_or [OF pmm_frame_aligned [OF f(1)]]) (force simp: bit_or_iff not_le [symmetric])
  have bw: "bit ?w 0" "bit ?w 2" using fl(2) by (simp_all add: bit_or_iff)
  have spare: "card (mapped ?s1 D f) < frame_refs (vs_pmm st1) f"
    using same(7) [OF fr] by (simp add: uses_def frame_uses_def)
  have may: "may_map ?s1 D ?w" using f(2) spare by (simp add: may_map_def fw)
  have abs1: "\<not> user_present (user_pte ?s1 d p)" using absent same(2) [OF d] by simp
  have freed: "freed_ref ?s1 d p h = 0" for h using abs1 by (auto simp: freed_ref_def)
  have wd: "?w = frame_of f OR (flags OR PAGE_PRESENT)" by (simp add: fa)
  have pf: "p = p AND NOT (PAGE_SIZE - 1)" by (simp add: page_floor_page [OF p(1)])
  show thesis using ok1 d p(2) wd may pf
  proof (cases rule: page_map)
    case full
    then show thesis using room headroom_zero [OF full(3,2)] by simp
  next
    case (mapped s')
    let ?st' = "st1\<lparr>vs_paging := s'\<rparr>"
    have acc: "frame_refs (pg_pmm s') h + of_bool (h \<in> structs ?s1 D) = frame_refs (vs_pmm st1) h + of_bool (h \<in> structs s' D)" for h
      using mapped(6) [of h] by (simp add: freed)
    have keep: "frame_refs (pg_pmm s') h = frame_refs (vs_pmm st1) h" if "0 < frame_refs (vs_pmm st1) h" for h
      using mapped(4) [OF that] by (simp add: freed)
    have pte: "user_pte s' e q = (if e = d \<and> q = p then ?w else user_pte ?s1 e q)" if "e \<in> D" for e q
      using mapped(2) that by (auto simp: page_update_def)
    have fin: "finite (mapped ?s1 D h)" for h by (rule finite_mapped [OF spaces_okD(1) [OF ok1]])
    have "mapped s' D h = (if h = f then insert (d, p) (mapped ?s1 D h) else mapped ?s1 D h)"
      "(d, p) \<notin> mapped ?s1 D h" for h
      using mapped_write [OF d pte, of h] abs1 bw fw by (auto simp: mapped_def)
    then have card: "card (mapped s' D h) = card (mapped ?s1 D h) + of_bool (h = f)" for h using fin [of h] by simp
    have us: "uses ?st' D h + of_bool (h \<in> structs ?s1 D) = uses st1 D h + of_bool (h = f) + of_bool (h \<in> structs s' D)" for h
      using card [of h] by (simp add: uses_def frame_uses_def)
    have "cache_ok ?st' D" unfolding cache_ok_def
    proof (intro conjI allI impI)
      show "spaces_ok (vs_paging ?st') D" using mapped(2) by (simp add: page_update_def)
      show "length (s_ro_map_cache ?st') = VFS_RO_MAP_CACHE_PAGES" using cache_okD(2) [OF same(1)] by simp
      show "rm_frame ent \<in> pmm_frames (vs_pmm ?st') - structs (vs_paging ?st') D"
        if "Some ent \<in> set (s_ro_map_cache ?st')" for ent
        using that cache_okD(4,5) [OF same(1), of ent] cached_refs(1) [OF same(1), of ent] keep [of "rm_frame ent"]
          acc [of "rm_frame ent"] mapped(2) by (auto simp: page_update_def)
      show "frame_uses (vs_paging ?st') D h + cached_uses (s_ro_map_cache ?st') h \<le> frame_refs (vs_pmm ?st') h"
        if "paging_phys_is_pmm_frame h" for h
        using same(7) [OF that] us [of h] acc [of h] by (simp add: uses_def)
    qed
    moreover have "frame_refs (vs_pmm ?st') h + uses st D h = frame_refs (vs_pmm st) h + uses ?st' D h" for h
      using same(6) [of h] us [of h] acc [of h] by simp
    then have "balanced D st ?st'" by (simp add: balanced_def)
    moreover have "phys_mem s' h = phys_mem (vs_paging st) h" if "held st h" "h \<notin> structs (vs_paging st) D" for h
      using granted_held [OF ok g that(1)] same(3,5) that(2) mapped(2) by (simp add: page_update_def in_use_def)
    ultimately have "page_only D st d p ?st'"
      unfolding page_only_def using pte same(2) granted_sole [OF ok g] keep by auto
    then show thesis
      using that [of ?st'] mapped(1,2,5) pte [OF d] keep [of f] spare same(3)
      by (auto simp: vs_map_page_def vs_paging_step_def page_update_def)
  qed
qed

section \<open>The contents of a new page\<close>

text \<open>What the memory of an area holds at first: the bytes of its file, zero elsewhere.\<close>

definition area_byte :: "(string \<Rightarrow> u8 list) \<Rightarrow> vm_area \<Rightarrow> nat \<Rightarrow> u8" where
  "area_byte content area a =
     (if file_backed area \<and> unat (va_file_start area) \<le> a \<and> a < unat (va_file_end area)
      then file_byte (content (va_path area)) (unat (va_file_offset area) + (a - unat (va_file_start area))) else 0)"

text \<open>An area of user memory with a page in it, whose file part does not wrap around.\<close>

definition area_page :: "vm_area \<Rightarrow> u32 \<Rightarrow> bool" where
  "area_page area p \<longleftrightarrow> page_aligned p \<and> USER_CODE_BASE \<le> p \<and> p < USER_STACK_TOP \<and>
     length (va_path area) < PROCESS_FD_NAME_MAX \<and>
     unat (va_file_offset area) + (unat (va_file_end area) - unat (va_file_start area)) < 2 ^ 32"

lemma area_pageD:
  assumes "area_page area p"
  shows "page_aligned p" "length (va_path area) < PROCESS_FD_NAME_MAX" "paging_pd_index_is_user (pd_index_of p)"
    "unat (p + PAGE_SIZE) = unat p + 4096"
    "unat (va_file_offset area) + (unat (va_file_end area) - unat (va_file_start area)) < 2 ^ 32"
proof -
  have b: "4194304 \<le> unat p" "unat p < 3221225472"
    using assms by (simp_all add: area_page_def USER_CODE_BASE_def USER_STACK_TOP_def word_le_nat_alt word_less_nat_alt)
  show "page_aligned p" "length (va_path area) < PROCESS_FD_NAME_MAX"
    "unat (va_file_offset area) + (unat (va_file_end area) - unat (va_file_start area)) < 2 ^ 32"
    using assms by (simp_all add: area_page_def)
  show "paging_pd_index_is_user (pd_index_of p)" using b by (simp add: user_index_range pd_index_of_unat div_less_iff_less_mult Suc_le_eq div_greater_zero_iff)
  show "unat (p + PAGE_SIZE) = unat p + 4096" using b by (simp add: PAGE_SIZE_def unat_word_ariths)
qed

lemma load_page:
  assumes fs: "reads_files fs content" and ap: "area_page area p" and fb: "file_backed area"
    and z: "phys_mem (vs_paging st) f = (\<lambda>_. 0)"
    and run: "process_vm_load_file_page fs area p f st = (ok, st')"
  shows "\<exists>ws. st' = st\<lparr>vs_paging := set_frame f ws (vs_paging st)\<rparr> \<and>
    (ok \<longrightarrow> (\<forall>k < 4096. frame_byte ws k = area_byte content area (unat p + k)))"
proof -
  define cs ce where "cs = (if va_file_start area > p then va_file_start area else p)"
    and "ce = (if va_file_end area < p + PAGE_SIZE then va_file_end area else p + PAGE_SIZE)"
  let ?fs = "unat (va_file_start area)" and ?fe = "unat (va_file_end area)" and ?off = "unat (va_file_offset area)"
  note pg = area_pageD(4) [OF ap]
  have cs: "unat cs = max ?fs (unat p)" by (auto simp: cs_def word_less_nat_alt)
  have ce: "unat ce = min ?fe (unat p + 4096)" by (auto simp: ce_def word_less_nat_alt pg)
  have same: "st\<lparr>vs_paging := set_frame f (\<lambda>_. 0) (vs_paging st)\<rparr> = st"
    using z fun_upd_triv [of "phys_mem (vs_paging st)" f] by (simp add: set_frame_def)
  show ?thesis
  proof (cases "va_path area = [] \<or> ce \<le> cs \<or> va_file_end area \<le> p \<or> va_file_start area \<ge> p + PAGE_SIZE")
    case True
    then have r: "st' = st" "ok \<longrightarrow> ce \<le> cs \<or> va_file_end area \<le> p \<or> va_file_start area \<ge> p + PAGE_SIZE"
      using run unfolding process_vm_load_file_page_def cs_def [symmetric] ce_def [symmetric] Let_def
      by (auto split: if_splits)
    then have "ok \<longrightarrow> unat ce \<le> unat cs \<or> ?fe \<le> unat p \<or> unat p + 4096 \<le> ?fs"
      by (auto simp: word_le_nat_alt pg)
    then have "ok \<longrightarrow> (\<forall>k < 4096. area_byte content area (unat p + k) = 0)"
      by (auto simp: area_byte_def cs ce)
    then show ?thesis using same r(1) by (intro exI [of _ "\<lambda>_. 0"]) simp
  next
    case False
    have lt: "unat cs < unat ce" using False by (simp add: word_le_nat_alt)
    obtain r bs where rd: "fs_read_at_path fs (va_path area) (va_file_offset area + (cs - va_file_start area)) (ce - cs) = (r, bs)"
      by fastforce
    have len: "unat (ce - cs) = unat ce - unat cs" using lt by (simp add: unat_sub word_le_nat_alt)
    have "unat (cs - va_file_start area) = unat cs - ?fs" using cs by (simp add: unat_sub word_le_nat_alt)
    moreover have "?off + (unat cs - ?fs) < 2 ^ 32" using area_pageD(5) [OF ap] lt ce by linarith
    ultimately have off: "unat (va_file_offset area + (cs - va_file_start area)) = ?off + (unat cs - ?fs)"
      by (simp only: unat_word_ariths) simp
    have b: "length bs \<le> unat ce - unat cs"
      "r \<longrightarrow> bs = take (unat ce - unat cs) (drop (?off + (unat cs - ?fs)) (content (va_path area)))"
      using fs rd unfolding reads_files_def len [symmetric] off [symmetric] by (metis fst_conv snd_conv)+
    let ?ws = "store_bytes (\<lambda>_. 0) (unat (cs - p)) bs"
    have pos: "unat (cs - p) = unat cs - unat p" using cs by (simp add: unat_sub word_le_nat_alt)
    have "ce - cs \<noteq> 0" using lt len by (metis diff_is_0_eq not_le unsigned_0)
    then have r: "st' = st\<lparr>vs_paging := set_frame f ?ws (vs_paging st)\<rparr>" "ok \<longleftrightarrow> r \<and> of_nat (length bs) = ce - cs"
      using run False unfolding process_vm_load_file_page_def cs_def [symmetric] ce_def [symmetric] Let_def
      by (cases r; auto simp: vfs_read_path_at_def Let_def rd z EIO_def)+
    have "frame_byte ?ws k = area_byte content area (unat p + k)" if ok: ok and k: "k < 4096" for k
    proof -
      have "unat (of_nat (length bs) :: u32) = length bs"
        using b(1) unat_u32_bound [of ce] by (simp add: unsigned_of_nat take_bit_nat_eq_self)
      then have l: "length bs = unat ce - unat cs" using r(2) ok len by simp
      let ?in = "unat cs \<le> unat p + k \<and> unat p + k < unat ce"
      have a: "area_byte content area (unat p + k) =
          (if ?in then file_byte (content (va_path area)) (?off + (unat p + k - ?fs)) else 0)"
        using fb k lt unfolding area_byte_def cs ce by (intro if_cong) auto
      have w: "frame_byte ?ws k = (if ?in then bs ! (unat p + k - unat cs) else 0)"
        using lt cs unfolding frame_byte_store pos l by (intro if_cong arg_cong [of _ _ "(!) bs"]) auto
      have "bs ! (unat p + k - unat cs) = file_byte (content (va_path area)) (?off + (unat p + k - ?fs))" if i: ?in
      proof -
        have bs: "bs = take (unat ce - unat cs) (drop (?off + (unat cs - ?fs)) (content (va_path area)))"
          using b(2) r(2) ok by simp
        have j: "unat p + k - unat cs < length bs" using i l by linarith
        have o: "?off + (unat p + k - ?fs) = ?off + (unat cs - ?fs) + (unat p + k - unat cs)" using i cs by linarith
        show ?thesis using j unfolding o unfolding bs by (auto simp: file_byte_def)
      qed
      then show ?thesis unfolding a w by simp
    qed
    then show ?thesis using r(1) by blast
  qed
qed

section \<open>Page faults\<close>

lemma free_drop:
  assumes "pmm_frames (pg_pmm s') = pmm_frames (pg_pmm s)"
    "\<And>h. h \<noteq> f \<Longrightarrow> frame_refs (pg_pmm s) h = 0 \<Longrightarrow> frame_refs (pg_pmm s') h = 0"
  shows "free_frames s \<le> Suc (free_frames s')"
proof -
  let ?F = "\<lambda>s. {h \<in> pmm_frames (pg_pmm s). frame_refs (pg_pmm s) h = 0}"
  have "?F s \<subseteq> insert f (?F s')" using assms by auto
  then have "card (?F s) \<le> card (insert f (?F s'))" by (intro card_mono) auto
  also have "\<dots> \<le> Suc (card (?F s'))" by (rule card_insert_le_m1) auto
  finally show ?thesis by (simp add: free_frames_def)
qed

lemma granted_headroom:
  assumes ok: "cache_ok st D" and g: "granted D st f st1" and d: "d \<in> D"
  shows "headroom (vs_paging st) d i \<le> Suc (headroom (vs_paging st1) d i)"
proof -
  note same = granted_same [OF ok g]
  have "frame_refs (vs_pmm st1) h = 0" if "h \<noteq> f" "frame_refs (vs_pmm st) h = 0" for h
  proof -
    have "cached_uses (s_ro_map_cache st1) h \<le> cached_uses (s_ro_map_cache st) h" using g that(1) by (simp add: granted_def)
    then show ?thesis using same(6) [of h] same(3,4) that by (simp add: uses_def frame_uses_def)
  qed
  then have c: "free_frames (vs_paging st) \<le> Suc (free_frames (vs_paging st1))" by (rule free_drop [OF same(8)])
  have "phys_mem (vs_paging st1) d = phys_mem (vs_paging st) d"
    by (rule same(5) [OF struct_in_use [OF ok structI(1) [OF d]]])
  then have "has_table (vs_paging st1) d i = has_table (vs_paging st) d i" by (simp add: has_table_def)
  then show ?thesis using c by (simp add: headroom_def free_frames_def)
qed

text \<open>The entry a served fault leaves: its access follows the area, and a page that is not shared with a file has its frame to itself.\<close>

definition fault_served ::
  "(string \<Rightarrow> u8 list) \<Rightarrow> vm_area \<Rightarrow> vm_state \<Rightarrow> u32 \<Rightarrow> u32 \<Rightarrow> vm_state \<Rightarrow> bool" where
  "fault_served content area st d p st' \<longleftrightarrow>
     (let e = user_pte (vs_paging st) d p; e' = user_pte (vs_paging st') d p in
      user_present e' \<and> (bit e' 1 \<longleftrightarrow> va_prot area AND PROCESS_VM_PROT_WRITE \<noteq> 0) \<and> (bit e' 1 \<longrightarrow> \<not> bit e' 9 \<and> \<not> bit e' 10) \<and>
      (\<not> bit e' 9 \<longrightarrow> frame_refs (vs_pmm st') (frame_of e') = 1) \<and> paging_phys_is_pmm_frame (frame_of e') \<and>
      (if user_present e then bit e' 1 \<and> phys_mem (vs_paging st') (frame_of e') = phys_mem (vs_paging st) (frame_of e)
       else \<forall>k < 4096. frame_byte (phys_mem (vs_paging st') (frame_of e')) k = area_byte content area (unat p + k)))"

lemma coherent_page_only:
  assumes ok: "cache_ok st1 D" and co: "cache_coherent fs content st1" and c: "s_ro_map_cache st' = s_ro_map_cache st1"
    and mem: "\<And>h. 0 < frame_refs (vs_pmm st1) h \<Longrightarrow> h \<notin> structs (vs_paging st1) D \<Longrightarrow>
      phys_mem (vs_paging st') h = phys_mem (vs_paging st1) h"
  shows "cache_coherent fs content st'"
proof -
  have "phys_mem (vs_paging st') (rm_frame ent) = phys_mem (vs_paging st1) (rm_frame ent)"
    if "Some ent \<in> set (s_ro_map_cache st1)" for ent
    by (rule mem [OF cached_refs(1) [OF ok that] cache_okD(5) [OF ok that]])
  then show ?thesis using co unfolding cache_coherent_def c by metis
qed

lemma flags_frame:
  "frame_of (private_flags area) = 0" "frame_of (PAGE_USER OR PAGE_SHARED_RO_FILE) = 0"
  unfolding word_zero_iff by (auto simp: private_flags_def bit_or_iff)

lemma flags_entry:
  assumes "page_aligned f"
  shows "frame_of (f OR (private_flags area OR PAGE_PRESENT)) = f" "frame_of (f OR ((PAGE_USER OR PAGE_SHARED_RO_FILE) OR PAGE_PRESENT)) = f"
    "bit (f OR (private_flags area OR PAGE_PRESENT)) n \<longleftrightarrow> bit f n \<or> bit (private_flags area) n \<or> n = 0"
  using assms by (auto simp: private_flags_def bit_or_iff intro!: frame_of_or)

lemma private_entry:
  assumes "page_aligned f"
  shows "user_present (f OR (private_flags area OR PAGE_PRESENT))"
    "bit (f OR (private_flags area OR PAGE_PRESENT)) 1 \<longleftrightarrow> va_prot area AND PROCESS_VM_PROT_WRITE \<noteq> 0"
    "\<not> bit (f OR (private_flags area OR PAGE_PRESENT)) 9"
    "bit (f OR (private_flags area OR PAGE_PRESENT)) 1 \<Longrightarrow> \<not> bit (f OR (private_flags area OR PAGE_PRESENT)) 10"
  using assms unfolding user_present_iff flags_entry(3) [OF assms]
  by (auto simp: private_flags_def page_aligned_bits bit_or_iff)

lemma refused_page_only:
  assumes ok: "cache_ok st D" and r: "page_refused D st st'"
  shows "page_only D st d p st'" "e \<in> D \<Longrightarrow> user_pte (vs_paging st') e = user_pte (vs_paging st) e"
    "cache_coherent fs content st \<Longrightarrow> cache_coherent fs content st'"
    "free_frames (vs_paging st') = free_frames (vs_paging st)"
proof -
  obtain W where W: "cache_step D W (\<lambda>_. 0) st st'" "\<forall>g \<in> W. \<not> in_use st g" "s_ro_map_cache st' = s_ro_map_cache st"
    using r by (auto simp: page_refused_def)
  have d: "W \<inter> structs (vs_paging st) D = {}" using W(2) struct_in_use [OF ok] by auto
  note same = cache_step_same [OF ok W(1) d] and refs = page_refused_refs [OF r]
  show pte: "e \<in> D \<Longrightarrow> user_pte (vs_paging st') e = user_pte (vs_paging st) e" for e by (rule same(1))
  have "balanced D st st'" by (simp add: balanced_def uses_def same(4) refs W(3))
  moreover have "in_use st f" if "held st f" for f using that by (auto simp: held_def in_use_def)
  ultimately show "page_only D st d p st'"
    unfolding page_only_def using W pte refs by (auto simp: cache_step_def)
  show "cache_coherent fs content st \<Longrightarrow> cache_coherent fs content st'"
    by (rule coherent_step [OF ok _ W(1)]) (use W in auto)
  show "free_frames (vs_paging st') = free_frames (vs_paging st)"
    using W(1) refs by (simp add: free_frames_def cache_step_def)
qed

lemma alloc_free:
  assumes "pmm_inv (pg_pmm s)" "0 < free_frames s" "pmm_alloc_frame (pg_pmm s) = (f, q)"
  shows "f \<noteq> 0"
proof
  assume "f = 0"
  then have "\<forall>a \<in> pmm_frames (pg_pmm s). frame_refs (pg_pmm s) a \<noteq> 0"
    using pmm_pool.alloc_full [OF assms(1), of q] assms(3) by simp
  then have "{a \<in> pmm_frames (pg_pmm s). frame_refs (pg_pmm s) a = 0} = {}" by blast
  then have "free_frames s = 0" unfolding free_frames_def by (simp only: card.empty)
  then show False using assms(2) by simp
qed

text \<open>The frame for a private page, filled from the file; \<open>b\<close> is whether that went well.\<close>

lemma private_frame:
  assumes ok: "cache_ok st D" and fs: "reads_files fs content" and ap: "area_page area p" and free: "0 < free_frames (vs_paging st)"
  obtains f b st1 ws where "fault_private_page fs area d p st =
      (if \<not> b then Some (False, vs_set_pmm (pmm_release_frame (vs_pmm st1) f) st1)
       else vs_map_page d p f (private_flags area) st1)"
    "cache_step D {f} (\<lambda>g. of_bool (g = f)) st st1" "f \<in> pmm_frames (vs_pmm st)" "frame_refs (vs_pmm st) f = 0"
    "frame_refs (vs_pmm st1) f = 1" "s_ro_map_cache st1 = s_ro_map_cache st" "phys_mem (vs_paging st1) f = ws"
    "b \<Longrightarrow> \<forall>k < 4096. frame_byte ws k = area_byte content area (unat p + k)" "\<not> file_backed area \<Longrightarrow> b"
proof -
  obtain f q where al: "pmm_alloc_frame (vs_pmm st) = (f, q)" by (cases "pmm_alloc_frame (vs_pmm st)")
  have f0: "f \<noteq> 0" by (rule alloc_free [OF cache_okD(3) [OF ok] free al])
  let ?z = "vfs_zero_frame f (vs_set_pmm q st)"
  obtain b st1 where ld: "(if file_backed area then process_vm_load_file_page fs area p f ?z else (True, ?z)) = (b, st1)"
    by (cases "if file_backed area then process_vm_load_file_page fs area p f ?z else (True, ?z)") auto
  have zf: "?z = st\<lparr>vs_paging := set_frame f (\<lambda>_. 0) (set_pmm q (vs_paging st))\<rparr>"
    by (simp add: vfs_zero_frame_def vs_set_pmm_def)
  have "\<exists>ws. st1 = ?z\<lparr>vs_paging := set_frame f ws (vs_paging ?z)\<rparr> \<and>
      (b \<longrightarrow> (\<forall>k < 4096. frame_byte ws k = area_byte content area (unat p + k)))"
  proof (cases "file_backed area")
    case True
    then show ?thesis using load_page [OF fs ap True, of ?z f b st1] ld by (simp add: vfs_zero_frame_def)
  next
    case False
    have "?z = ?z\<lparr>vs_paging := set_frame f (\<lambda>_. 0) (vs_paging ?z)\<rparr>" by (simp add: vfs_zero_frame_def set_frame_def)
    then show ?thesis using ld False by (intro exI [of _ "\<lambda>_. 0"]) (simp add: area_byte_def)
  qed
  then obtain ws where ws: "st1 = ?z\<lparr>vs_paging := set_frame f ws (vs_paging ?z)\<rparr>"
    "b \<longrightarrow> (\<forall>k < 4096. frame_byte ws k = area_byte content area (unat p + k))" by blast
  have st1: "vs_paging st1 = set_frame f ws (set_pmm q (vs_paging st))" "s_ro_map_cache st1 = s_ro_map_cache st"
    by (simp_all add: ws(1) zf set_frame_def set_pmm_def)
  note a = alloc_step [OF ok al f0 st1]
  have virt: "paging_phys_to_kernel_virt f \<noteq> None"
    using pmm_frame_in_range [OF cache_okD(3) [OF ok] a(2)] by (simp add: paging_phys_to_kernel_virt_def)
  have run: "fault_private_page fs area d p st =
      (if \<not> b then Some (False, vs_set_pmm (pmm_release_frame (vs_pmm st1) f) st1)
       else vs_map_page d p f (private_flags area) st1)"
    unfolding fault_private_page_def al Let_def prod.case ld using f0 virt by auto
  show thesis by (rule that [OF run a st1(2)]) (use st1(1) ws(2) ld in \<open>auto split: if_splits\<close>)
qed

lemma private_result:
  assumes ok: "cache_ok st D" and fs: "reads_files fs content" and co: "cache_coherent fs content st" and d: "d \<in> D"
    and ap: "area_page area p" and absent: "\<not> user_present (user_pte (vs_paging st) d p)"
    and room: "2 \<le> headroom (vs_paging st) d (pd_index_of p)" "0 < free_frames (vs_paging st)"
  obtains (refused) st' where "fault_private_page fs area d p st = Some (False, st')" "page_refused D st st'" "file_backed area"
  | (served) st' where "fault_private_page fs area d p st = Some (True, st')" "page_only D st d p st'"
      "cache_coherent fs content st'" "fault_served content area st d p st'"
      "headroom (vs_paging st) d (pd_index_of p) \<le> Suc (headroom (vs_paging st') d (pd_index_of p))"
proof -
  obtain f b st1 ws where run: "fault_private_page fs area d p st =
      (if \<not> b then Some (False, vs_set_pmm (pmm_release_frame (vs_pmm st1) f) st1)
       else vs_map_page d p f (private_flags area) st1)"
    and a: "cache_step D {f} (\<lambda>g. of_bool (g = f)) st st1" "f \<in> pmm_frames (vs_pmm st)" "frame_refs (vs_pmm st) f = 0"
      "frame_refs (vs_pmm st1) f = 1" and c: "s_ro_map_cache st1 = s_ro_map_cache st"
    and ws: "phys_mem (vs_paging st1) f = ws" "b \<Longrightarrow> \<forall>k < 4096. frame_byte ws k = area_byte content area (unat p + k)"
      "\<not> file_backed area \<Longrightarrow> b" by (rule private_frame [OF ok fs ap room(2), of d]) blast
  note free = free_frame [OF ok a(2,3)]
  have g: "granted D st f st1" unfolding granted_def using a free c by auto
  show thesis
  proof (cases b)
    case False
    have "cache_step D {f} (\<lambda>_. 0) st (vs_set_pmm (pmm_release_frame (vs_pmm st1) f) st1)"
      using release_step [OF ok a(1) _ a(2)] free(1) by (simp add: fun_upd_def if_distrib cong: if_cong)
    then have "page_refused D st (vs_set_pmm (pmm_release_frame (vs_pmm st1) f) st1)"
      using free(4) c by (auto simp: page_refused_def)
    then show thesis using refused run False ws(3) by auto
  next
    case True
    note pa = pmm_frame_aligned [OF a(2)]
    have hr: "headroom (vs_paging st) d (pd_index_of p) \<le> Suc (headroom (vs_paging st1) d (pd_index_of p))"
      by (rule granted_headroom [OF ok g d])
    then have r1: "0 < headroom (vs_paging st1) d (pd_index_of p)" using room(1) by linarith
    have fb2: "bit (private_flags area) 2" by (simp add: private_flags_def bit_or_iff)
    obtain st' where st': "vs_map_page d p f (private_flags area) st1 = Some (True, st')" "page_only D st d p st'"
      "user_pte (vs_paging st') d p = f OR (private_flags area OR PAGE_PRESENT)" "frame_refs (vs_pmm st') f = frame_refs (vs_pmm st1) f"
      "s_ro_map_cache st' = s_ro_map_cache st1"
      "\<And>h. 0 < frame_refs (vs_pmm st1) h \<Longrightarrow> h \<notin> structs (vs_paging st) D \<Longrightarrow> phys_mem (vs_paging st') h = phys_mem (vs_paging st1) h"
      "headroom (vs_paging st1) d (pd_index_of p) \<le> headroom (vs_paging st') d (pd_index_of p)"
      by (rule map_granted [OF ok g d area_pageD(1,3) [OF ap] absent flags_frame(1) fb2 r1]) blast
    have co1: "cache_coherent fs content st1" by (rule coherent_step [OF ok co a(1)]) (use free(4) c in auto)
    have "cache_coherent fs content st'"
      by (rule coherent_page_only [OF granted_same(1) [OF ok g] co1 st'(5)]) (use st'(6) granted_same(3) [OF ok g] in auto)
    moreover have "phys_mem (vs_paging st') f = ws" using st'(6) [of f] free(1) a(4) ws(1) by simp
    then have "fault_served content area st d p st'"
      using private_entry [OF pa, of area] flags_entry(1) [OF pa, of area] absent st'(3,4) a(4) ws(2) True
        pmm_frame_in_range [OF cache_okD(3) [OF ok] a(2)]
      unfolding fault_served_def Let_def by auto
    ultimately show thesis using served [OF _ st'(2)] run True st'(1,7) hr by auto
  qed
qed

lemma refused_then:
  assumes ok: "cache_ok st D" and r: "page_refused D st st1" and d: "d \<in> D"
  shows "page_only D st1 d p st' \<Longrightarrow> page_only D st d p st'" "page_refused D st1 st' \<Longrightarrow> page_refused D st st'"
    "headroom (vs_paging st1) d i = headroom (vs_paging st) d i" "cache_ok st1 D"
proof -
  obtain W where W: "cache_step D W (\<lambda>_. 0) st st1" "\<forall>g \<in> W. \<not> in_use st g" "s_ro_map_cache st1 = s_ro_map_cache st"
    using r by (auto simp: page_refused_def)
  have dj: "W \<inter> structs (vs_paging st) D = {}" using W(2) struct_in_use [OF ok] by auto
  note same = cache_step_same [OF ok W(1) dj] and refs = page_refused_refs [OF r]
  have fr: "pmm_frames (vs_pmm st1) = pmm_frames (vs_pmm st)" using W(1) by (simp add: cache_step_def)
  have u: "in_use st1 h = in_use st h" "held st1 h = held st h" "uses st1 D h = uses st D h" for h
    using fr refs W(3) same(4) by (simp_all add: in_use_def held_def uses_def)
  have mem: "phys_mem (vs_paging st1) h = phys_mem (vs_paging st) h" if "in_use st h" for h
    using W that by (auto simp: cache_step_def)
  have hu: "in_use st h" if "held st h" for h using that by (auto simp: held_def in_use_def)
  show "page_only D st1 d p st' \<Longrightarrow> page_only D st d p st'"
    unfolding page_only_def balanced_def using same u mem refs hu by auto
  show "page_refused D st st'" if r1: "page_refused D st1 st'"
  proof -
    obtain V where V: "cache_step D V (\<lambda>_. 0) st1 st'" "\<forall>g \<in> V. \<not> in_use st1 g" "s_ro_map_cache st' = s_ro_map_cache st1"
      using r1 by (auto simp: page_refused_def)
    have "cache_step D (W \<union> V) (\<lambda>_. 0) st st'" using cache_step_trans [OF W(1) V(1)] by simp
    then show ?thesis using W V u(1) unfolding page_refused_def by (intro conjI exI [of _ "W \<union> V"]) auto
  qed
  show "cache_ok st1 D" using W(1) by (simp add: cache_step_def)
  have "phys_mem (vs_paging st1) d = phys_mem (vs_paging st) d" by (rule mem [OF struct_in_use [OF ok structI(1) [OF d]]])
  then show "headroom (vs_paging st1) d i = headroom (vs_paging st) d i"
    by (simp add: headroom_def has_table_def fr refs)
qed

lemma shared_granted: "page_shared D fs content path off st f st' \<Longrightarrow> granted D st f st'"
  by (simp add: page_shared_def granted_def)

lemma shared_page_bytes:
  assumes ap: "area_page area p" and fb: "file_backed area" "va_file_start area \<le> p" "va_file_end area \<ge> p + PAGE_SIZE"
    and hp: "holds_page ws (content (va_path area)) (unat (va_file_offset area + (p - va_file_start area)))"
    and k: "k < 4096"
  shows "frame_byte ws k = area_byte content area (unat p + k)"
proof -
  let ?fs = "unat (va_file_start area)" and ?fe = "unat (va_file_end area)" and ?off = "unat (va_file_offset area)"
  have b: "?fs \<le> unat p" "unat p + 4096 \<le> ?fe" using fb(2,3) area_pageD(4) [OF ap] by (simp_all add: word_le_nat_alt)
  have "unat (p - va_file_start area) = unat p - ?fs" using b(1) by (simp add: unat_sub word_le_nat_alt)
  moreover have "?off + (unat p - ?fs) < 2 ^ 32" using area_pageD(5) [OF ap] b by linarith
  ultimately have o: "unat (va_file_offset area + (p - va_file_start area)) = ?off + (unat p - ?fs)"
    by (simp only: unat_word_ariths) simp
  have i: "?off + (unat p - ?fs) + k = ?off + (unat p + k - ?fs)" using b by linarith
  show ?thesis using hp k b fb(1) unfolding holds_page_def o i [symmetric] area_byte_def by (simp add: i)
qed

lemma shared_served:
  assumes ok: "cache_ok st D" and d: "d \<in> D" and ap: "area_page area p" and absent: "\<not> user_present (user_pte (vs_paging st) d p)"
    and fb: "file_backed area" "va_file_start area \<le> p" "va_file_end area \<ge> p + PAGE_SIZE" "va_prot area AND PROCESS_VM_PROT_WRITE = 0"
    and sh: "page_shared D fs content (va_path area) (va_file_offset area + (p - va_file_start area)) st f st1"
    and room: "2 \<le> headroom (vs_paging st) d (pd_index_of p)"
  obtains st' where "vs_map_page d p f (PAGE_USER OR PAGE_SHARED_RO_FILE) st1 = Some (True, st')" "page_only D st d p st'"
    "cache_coherent fs content st'" "fault_served content area st d p st'"
    "headroom (vs_paging st) d (pd_index_of p) \<le> Suc (headroom (vs_paging st') d (pd_index_of p))"
proof -
  note g = shared_granted [OF sh] and same = granted_same [OF ok shared_granted [OF sh]]
  let ?fl = "PAGE_USER OR PAGE_SHARED_RO_FILE"
  have f: "f \<in> pmm_frames (vs_pmm st)" "f \<notin> structs (vs_paging st) D" using sh by (auto simp: page_shared_def)
  have fr: "0 < frame_refs (vs_pmm st1) f"
    using same(7) [OF pmm_frame_in_range [OF cache_okD(3) [OF ok] f(1)]] by simp
  note pa = pmm_frame_aligned [OF f(1)]
  have hr: "headroom (vs_paging st) d (pd_index_of p) \<le> Suc (headroom (vs_paging st1) d (pd_index_of p))"
    by (rule granted_headroom [OF ok g d])
  then have r1: "0 < headroom (vs_paging st1) d (pd_index_of p)" using room by linarith
  have b2: "bit ?fl 2" by (simp add: bit_or_iff)
  obtain st' where st': "vs_map_page d p f ?fl st1 = Some (True, st')" "page_only D st d p st'"
    "user_pte (vs_paging st') d p = f OR (?fl OR PAGE_PRESENT)" "s_ro_map_cache st' = s_ro_map_cache st1"
    "\<And>h. 0 < frame_refs (vs_pmm st1) h \<Longrightarrow> h \<notin> structs (vs_paging st) D \<Longrightarrow> phys_mem (vs_paging st') h = phys_mem (vs_paging st1) h"
    "headroom (vs_paging st1) d (pd_index_of p) \<le> headroom (vs_paging st') d (pd_index_of p)"
    by (rule map_granted [OF ok g d area_pageD(1,3) [OF ap] absent flags_frame(2) b2 r1]) blast
  have "cache_coherent fs content st1" using sh by (simp add: page_shared_def)
  then have "cache_coherent fs content st'"
    by (rule coherent_page_only [OF same(1) _ st'(4)]) (use st'(5) same(3) in auto)
  moreover have "frame_byte (phys_mem (vs_paging st') f) k = area_byte content area (unat p + k)" if "k < 4096" for k
    using shared_page_bytes [OF ap fb(1-3) _ that, of "phys_mem (vs_paging st1) f" content] sh st'(5) [OF fr f(2)]
    by (simp add: page_shared_def)
  then have "fault_served content area st d p st'"
    using pa absent fb(4) pmm_frame_in_range [OF cache_okD(3) [OF ok] f(1)]
    unfolding fault_served_def Let_def st'(3) flags_entry(2) [OF pa]
    by (auto simp: bit_or_iff page_aligned_bits)
  ultimately show thesis using that st'(1,2,6) hr by auto
qed

section \<open>Copy on write\<close>

lemma cow_lift:
  assumes ok: "cache_ok st D" and co: "cache_coherent fs content st" and d: "d \<in> D"
    and c: "cow_entry (user_pte (vs_paging st) d p)" "cow_resolved D (vs_paging st) d p s'"
    and st: "structs s' D = structs (vs_paging st) D"
    and refs: "\<And>g. frame_refs (pg_pmm s') g + card (mapped (vs_paging st) D g) = frame_refs (vs_pmm st) g + card (mapped s' D g)"
      "\<And>g. frame_refs (vs_pmm st) g = 1 \<Longrightarrow> frame_refs (pg_pmm s') g = 1"
  shows "page_only D st d p (st\<lparr>vs_paging := s'\<rparr>)" "cache_coherent fs content (st\<lparr>vs_paging := s'\<rparr>)"
proof -
  let ?st' = "st\<lparr>vs_paging := s'\<rparr>"
  have u: "page_update D (vs_paging st) d p (user_pte s' d p) s'" using c(2) by (simp add: cow_resolved_def Let_def)
  have us: "frame_refs (pg_pmm s') g + uses st D g = frame_refs (vs_pmm st) g + uses ?st' D g" for g
    using refs(1) [of g] st by (simp add: uses_def frame_uses_def)
  have ok': "cache_ok ?st' D" unfolding cache_ok_def
  proof (intro conjI allI impI)
    show "spaces_ok (vs_paging ?st') D" using u by (simp add: page_update_def)
    show "length (s_ro_map_cache ?st') = VFS_RO_MAP_CACHE_PAGES" using cache_okD(2) [OF ok] by simp
    show "rm_frame ent \<in> pmm_frames (vs_pmm ?st') - structs (vs_paging ?st') D"
      if "Some ent \<in> set (s_ro_map_cache ?st')" for ent
      using that cache_okD(4,5) [OF ok, of ent] u st by (simp add: page_update_def)
    show "frame_uses (vs_paging ?st') D h + cached_uses (s_ro_map_cache ?st') h \<le> frame_refs (vs_pmm ?st') h"
      if "paging_phys_is_pmm_frame h" for h
      using cache_okD(6) [OF ok that] us [of h] by (simp add: uses_def)
  qed
  have mem: "phys_mem s' h = phys_mem (vs_paging st) h" if "h \<notin> structs (vs_paging st) D" "in_use st h" for h
    using u that by (simp add: page_update_def in_use_def)
  have "in_use st h" if "held st h" for h using that by (auto simp: held_def in_use_def)
  then show "page_only D st d p ?st'" unfolding page_only_def balanced_def
    using ok' us u mem refs(2) by (auto simp: page_update_def)
  show "cache_coherent fs content ?st'"
    by (rule coherent_page_only [OF ok co]) (use mem in \<open>auto simp: in_use_def\<close>)
qed

lemma same_dirs_structs:
  assumes "spaces_ok s D" "d \<in> D" "has_table s d i" "kernel_page_directory s' = kernel_page_directory s"
    "\<And>f. f \<in> D \<Longrightarrow> f \<noteq> table_of s d i \<Longrightarrow> phys_mem s' f = phys_mem s f"
  shows "structs s' D = structs s D"
proof (rule same_tables_structs(3))
  have "phys_mem s' f = phys_mem s f" if "f \<in> D" for f using assms(5) [OF that] table_not_dir [OF assms(1-3)] that by blast
  then show "same_tables D s s'" using assms(4) by (simp add: same_tables_def)
qed

lemma cow_served:
  assumes ok: "cache_ok st D" and co: "cache_coherent fs content st" and d: "d \<in> D" and p: "page_aligned p"
    and c: "cow_entry (user_pte (vs_paging st) d p)" and free: "0 < free_frames (vs_paging st)"
  obtains s' where "paging_resolve_cow_fault d p (vs_paging st) = Some (True, s')"
    "page_only D st d p (st\<lparr>vs_paging := s'\<rparr>)" "cache_coherent fs content (st\<lparr>vs_paging := s'\<rparr>)"
    "cow_resolved D (vs_paging st) d p s'" "free_frames (vs_paging st) \<le> Suc (free_frames s')"
proof -
  let ?s = "vs_paging st" and ?e = "user_pte (vs_paging st) d p" and ?f = "frame_of (user_pte (vs_paging st) d p)"
  note oks = cache_okD(1) [OF ok]
  have ht: "has_table ?s d (pd_index_of p)" using c user_pte_has_table(1) [of ?s d p 0] by (simp add: cow_entry_def)
  note cases = cow_cases [OF oks d page_floor_page [OF p, symmetric] refl refl]
  show thesis
  proof (cases "frame_refs (vs_pmm st) ?f \<le> 1")
    case True
    let ?s' = "set_word (table_of ?s d (pd_index_of p)) (pt_index_of p) (?f OR cow_flags ?e) ?s"
    have r: "cow_resolved D ?s d p ?s'" by (rule cow_inplace [OF oks d c True])
    have st: "structs ?s' D = structs ?s D" by (rule same_dirs_structs [OF oks d ht]) auto
    have "user_pte ?s' e q = (if e = d \<and> q = p then ?f OR cow_flags ?e else user_pte ?s e q)" if "e \<in> D" for e q
      using write_entry(2) [OF oks d ht p, of ?s' "?f OR cow_flags ?e" e q] that cow_entry_new(2) [OF page_aligned_frame_of c] by simp
    then have m: "mapped ?s' D g = mapped ?s D g" for g
      using mapped_write [OF d, of ?s' p "?f OR cow_flags ?e" ?s g] cow_entry_new [OF page_aligned_frame_of c] d c
      by (auto simp: mapped_def cow_entry_def)
    have "free_frames ?s' = free_frames ?s" by (simp add: free_frames_def)
    then show thesis using that [of ?s'] cow_lift [OF ok co d c r st] cases c True r by (auto simp: m)
  next
    case False
    obtain a q where al: "pmm_alloc_frame (vs_pmm st) = (a, q)" by (cases "pmm_alloc_frame (vs_pmm st)")
    have a0: "a \<noteq> 0" using alloc_free [OF cache_okD(3) [OF ok] free al] .
    note a = pmm_pool.alloc_frame [OF cache_okD(3) [OF ok] al a0]
    have fr: "mapped ?s D a = {}" "a \<notin> structs ?s D" using mapped_free [OF oks, of a] a by simp_all
    let ?w = "a OR cow_flags ?e"
    let ?s' = "set_pmm (pmm_release_frame q ?f) (set_word (table_of ?s d (pd_index_of p)) (pt_index_of p) ?w
        (set_frame a (phys_mem ?s ?f) (set_pmm q ?s)))"
    have r: "cow_resolved D ?s d p ?s'" "frame_refs (pg_pmm ?s') = (frame_refs (vs_pmm st))(a := 1, ?f := frame_refs (vs_pmm st) ?f - 1)"
      using cow_copy [OF oks d c _ al a0 refl] False by auto
    have pa: "page_aligned a" using a pmm_frame_aligned by blast
    note at = fr(2)
    have st: "structs ?s' D = structs ?s D"
      by (rule same_dirs_structs [OF oks d ht]) (use at structI(1) [of _ D ?s] in auto)
    have "phys_mem ?s' g = (if g = table_of ?s d (pd_index_of p) then (phys_mem ?s g)(pt_index_of p := ?w) else phys_mem ?s g)"
      if "g \<in> structs ?s D" for g using that at by auto
    then have "user_pte ?s' e x = (if e = d \<and> x = p then ?w else user_pte ?s e x)" if "e \<in> D" for e x
      using write_entry(2) [OF oks d ht p, where s' = ?s' and w = ?w and e = e and q = x] that cow_entry_new(2) [OF pa c] by simp
    then have m: "mapped ?s' D g = (if g = a then {(d, p)} else mapped ?s D g - {(d, p)})" for g
      using mapped_write [OF d, of ?s' p ?w ?s g] cow_entry_new [OF pa c] fr a by auto
    have fin: "finite (mapped ?s D g)" for g by (rule finite_mapped [OF spaces_okD(1) [OF oks]])
    have dp: "(d, p) \<in> mapped ?s D g \<longleftrightarrow> g = ?f" for g using d c by (auto simp: mapped_def cow_entry_def)
    have "0 < card (mapped ?s D ?f)" using fin [of ?f] dp [of ?f] by (auto simp: card_gt_0_iff)
    then have bal: "frame_refs (pg_pmm ?s') g + card (mapped ?s D g) = frame_refs (vs_pmm st) g + card (mapped ?s' D g)" for g
      using False a fr(1) dp [of g] fin [of g] unfolding r(2) m by (auto simp: card_Diff_singleton_if)
    have one: "frame_refs (pg_pmm ?s') g = 1" if "frame_refs (vs_pmm st) g = 1" for g
      using that False a unfolding r(2) by auto
    have "frame_refs (pg_pmm ?s') h = 0" if "h \<noteq> a" "frame_refs (vs_pmm st) h = 0" for h
      using that unfolding r(2) by auto
    moreover have "pmm_frames (pg_pmm ?s') = pmm_frames (vs_pmm st)" using r(1) by (simp add: cow_resolved_def page_update_def Let_def)
    ultimately have "free_frames ?s \<le> Suc (free_frames ?s')" by (intro free_drop [of _ _ a])
    then show thesis using that [of ?s'] cow_lift [OF ok co d c r(1) st bal one] cases c False r(1) al a0 by (auto simp: Let_def)
  qed
qed

section \<open>The handler\<close>

definition fault_allowed :: "vm_area \<Rightarrow> u32 \<Rightarrow> bool" where
  "fault_allowed area err \<longleftrightarrow>
     (if err AND 2 \<noteq> 0 then va_prot area AND PROCESS_VM_PROT_WRITE \<noteq> 0
      else va_prot area AND (PROCESS_VM_PROT_READ OR PROCESS_VM_PROT_WRITE OR PROCESS_VM_PROT_EXEC) \<noteq> 0)"

text \<open>The faults that must be served: memory without a file that is not there yet, and writes to copy-on-write pages.\<close>

definition fault_due :: "vm_area \<Rightarrow> u32 \<Rightarrow> u32 \<Rightarrow> bool" where
  "fault_due area err e \<longleftrightarrow> fault_allowed area err \<and>
     (if err AND 1 \<noteq> 0 then err AND 2 \<noteq> 0 \<and> cow_entry e else \<not> user_present e \<and> \<not> file_backed area)"

definition fault_result ::
  "u32 set \<Rightarrow> file_system \<Rightarrow> (string \<Rightarrow> u8 list) \<Rightarrow> vm_area \<Rightarrow> vm_state \<Rightarrow> u32 \<Rightarrow> u32 \<Rightarrow> bool \<Rightarrow> vm_state \<Rightarrow> bool" where
  "fault_result D fs content area st d p r st' \<longleftrightarrow> page_only D st d p st' \<and> cache_coherent fs content st' \<and>
     free_frames (vs_paging st) \<le> free_frames (vs_paging st') + 2 \<and>
     (if r then fault_served content area st d p st'
      else user_pte (vs_paging st') d p = user_pte (vs_paging st) d p \<and> frame_refs (vs_pmm st') = frame_refs (vs_pmm st))"

lemma result_refused:
  assumes "cache_ok st D" "cache_coherent fs content st" "d \<in> D" "page_refused D st st'"
  shows "fault_result D fs content area st d p False st'"
  using refused_page_only [OF assms(1,4)] page_refused_refs [OF assms(4)] assms(2,3) by (simp add: fault_result_def)

lemma result_same: "cache_ok st D \<Longrightarrow> cache_coherent fs content st \<Longrightarrow> d \<in> D \<Longrightarrow> fault_result D fs content area st d p False st"
  by (rule result_refused [OF _ _ _ page_refused_refl])

lemma result_served:
  assumes "page_only D st d p st'" "cache_coherent fs content st'" "fault_served content area st d p st'"
    "headroom (vs_paging st) d i \<le> Suc (headroom (vs_paging st') d i)"
  shows "fault_result D fs content area st d p True st'"
  using assms headroom_free(2) [of "vs_paging st" d i] by (auto simp: fault_result_def headroom_def free_frames_def split: if_splits)

lemma absent_result:
  assumes ok: "cache_ok st D" and fs: "reads_files fs content" and co: "cache_coherent fs content st" and d: "d \<in> D"
    and ap: "area_page area p" and absent: "\<not> user_present (user_pte (vs_paging st) d p)" and free: "2 \<le> free_frames (vs_paging st)"
  shows "\<exists>r st'. fault_private_page fs area d p st = Some (r, st') \<and> fault_result D fs content area st d p r st' \<and> (\<not> file_backed area \<longrightarrow> r)"
proof -
  have room: "2 \<le> headroom (vs_paging st) d (pd_index_of p)" "0 < free_frames (vs_paging st)"
    using free headroom_free(2) [of "vs_paging st" d "pd_index_of p"] by simp_all
  show ?thesis using ok fs co d ap absent room
  proof (cases rule: private_result)
    case (refused st')
    then show ?thesis using result_refused [OF ok co d] by blast
  next
    case (served st')
    then show ?thesis using result_served by blast
  qed
qed

lemma result_after_refused:
  assumes ok: "cache_ok st D" and d: "d \<in> D" and r: "page_refused D st st1" and absent: "\<not> user_present (user_pte (vs_paging st) d p)"
    and res: "fault_result D fs content area st1 d p b st'"
  shows "fault_result D fs content area st d p b st'"
proof -
  note pte = refused_page_only(2) [OF ok r d]
  have "fault_served content area st1 d p st' = fault_served content area st d p st'"
    unfolding fault_served_def Let_def pte using absent by argo
  then show ?thesis
    using res refused_then(1) [OF ok r d, of p st'] pte refused_page_only(4) [OF ok r]
      page_refused_refs [OF r] by (cases b) (simp_all add: fault_result_def)
qed

lemma absent_page_result:
  assumes ok: "cache_ok st D" and fs: "reads_files fs content" and co: "cache_coherent fs content st" and d: "d \<in> D"
    and ap: "area_page area p" and absent: "\<not> user_present (user_pte (vs_paging st) d p)" and free: "2 \<le> free_frames (vs_paging st)"
  shows "\<exists>r st'. fault_absent_page fs area d p st = Some (r, st') \<and> fault_result D fs content area st d p r st' \<and> (\<not> file_backed area \<longrightarrow> r)"
proof -
  let ?off = "va_file_offset area + (p - va_file_start area)"
  let ?ro = "file_backed area \<and> va_path area \<noteq> [] \<and> va_max_prot area AND PROCESS_VM_PROT_WRITE = 0 \<and>
    va_prot area AND PROCESS_VM_PROT_WRITE = 0 \<and> va_file_start area \<le> p \<and> va_file_end area \<ge> p + PAGE_SIZE \<and>
    ?off AND (PAGE_SIZE - 1) = 0"
  note own = absent_result [OF ok fs co d ap absent free]
  show ?thesis
  proof (cases ?ro)
    case False
    show ?thesis unfolding fault_absent_page_def Let_def if_not_P [OF False] by (rule own)
  next
    case True
    have unf: "fault_absent_page fs area d p st =
      (case vfs_file_map_ro_page_path fs (va_path area) ?off st of
         None \<Rightarrow> None
       | Some (rc, frame, bytes, st) \<Rightarrow>
           if rc = 0 then vs_map_page d p frame (PAGE_USER OR PAGE_SHARED_RO_FILE) st else fault_private_page fs area d p st)"
      unfolding fault_absent_page_def Let_def if_P [OF True] ..
    show ?thesis using ok fs co area_pageD(2) [OF ap]
    proof (cases rule: map_ro_result [where off = ?off])
      case (refused rc st1)
      note r1 = refused_then(4) [OF ok refused(3) d] and pte = refused_page_only(2) [OF ok refused(3) d]
      obtain r st' where "fault_private_page fs area d p st1 = Some (r, st')" "fault_result D fs content area st1 d p r st'"
        using absent_result [OF r1 fs refused_page_only(3) [OF ok refused(3) co] d ap] absent free
          refused_page_only(4) [OF ok refused(3)] by (auto simp: pte)
      then show ?thesis using result_after_refused [OF ok d refused(3) absent] refused True by (auto simp: unf)
    next
      case (shared f n st1)
      have room: "2 \<le> headroom (vs_paging st) d (pd_index_of p)"
        using free headroom_free(2) [of "vs_paging st" d "pd_index_of p"] by simp
      obtain st' where "vs_map_page d p f (PAGE_USER OR PAGE_SHARED_RO_FILE) st1 = Some (True, st')" "page_only D st d p st'"
        "cache_coherent fs content st'" "fault_served content area st d p st'"
        "headroom (vs_paging st) d (pd_index_of p) \<le> Suc (headroom (vs_paging st') d (pd_index_of p))"
        using shared_served [OF ok d ap absent _ _ _ _ shared(2) room] True by blast
      then show ?thesis using shared(1) result_served by (auto simp: unf)
    qed
  qed
qed

lemma handle_fault_unfold:
  assumes ok: "cache_ok st D" and d: "d \<in> D" and a: "process_vm_lookup v (page_floor addr) = Some area"
  shows "process_vm_handle_fault fs v d addr err st =
    (let p = page_floor addr; e = user_pte (vs_paging st) d p in
     if \<not> fault_allowed area err then Some (False, st)
     else if err AND 1 \<noteq> 0 then
       if err AND 2 \<noteq> 0 \<and> user_present e \<and> bit e 10
       then vs_paging_step (paging_resolve_cow_fault d p) st else Some (False, st)
     else if user_present e then Some (False, st) else fault_absent_page fs area d p st)"
proof -
  note oks = cache_okD(1) [OF ok]
  have d0: "d \<noteq> 0" by (rule dir_virt(2) [OF oks d])
  have pf: "page_floor addr AND NOT (PAGE_SIZE - 1) = page_floor addr"
    by (rule page_floor_page) (simp add: page_floor_def)
  have b: "bit (e AND 0xFFF) 10 \<longleftrightarrow> bit e 10" for e :: u32
    unfolding bit_and_iff bit_offset_mask by simp
  show ?thesis
    unfolding process_vm_handle_fault_def a Let_def option.case page_get [OF oks d] page_present [OF oks d] pf
      fault_allowed_def user_page_present_def
    using d0 by (auto simp: b split: bool.split)
qed

lemma cow_result:
  assumes ok: "cache_ok st D" and co: "cache_coherent fs content st" and d: "d \<in> D" and p: "page_aligned p"
    and free: "2 \<le> free_frames (vs_paging st)" and al: "va_prot area AND PROCESS_VM_PROT_WRITE \<noteq> 0"
    and u: "user_present (user_pte (vs_paging st) d p)"
  shows "\<exists>r st'. vs_paging_step (paging_resolve_cow_fault d p) st = Some (r, st') \<and>
    fault_result D fs content area st d p r st' \<and> (cow_entry (user_pte (vs_paging st) d p) \<longrightarrow> r)"
proof (cases "cow_entry (user_pte (vs_paging st) d p)")
  case False
  then have "paging_resolve_cow_fault d p (vs_paging st) = Some (False, vs_paging st)"
    using cow_cases [OF cache_okD(1) [OF ok] d page_floor_page [OF p, symmetric] refl refl] by simp
  then show ?thesis using False result_same [OF ok co d] by (auto simp: vs_paging_step_def)
next
  case True
  have "0 < free_frames (vs_paging st)" using free by simp
  with ok co d p True obtain s' where s': "paging_resolve_cow_fault d p (vs_paging st) = Some (True, s')"
    "page_only D st d p (st\<lparr>vs_paging := s'\<rparr>)" "cache_coherent fs content (st\<lparr>vs_paging := s'\<rparr>)"
    "cow_resolved D (vs_paging st) d p s'" "free_frames (vs_paging st) \<le> Suc (free_frames s')" by (rule cow_served)
  moreover have "paging_phys_is_pmm_frame (frame_of (user_pte s' d p))"
    using s'(2,4) frame_refs_managed [of "pg_pmm s'"] pmm_frame_in_range [of "pg_pmm s'"] cache_okD(3)
    by (fastforce simp: cow_resolved_def Let_def page_only_def)
  ultimately have "fault_result D fs content area st d p True (st\<lparr>vs_paging := s'\<rparr>)"
    using al u by (simp add: fault_result_def fault_served_def cow_resolved_def Let_def)
  then show ?thesis using s'(1) by (auto simp: vs_paging_step_def)
qed

lemma handle_fault_result:
  assumes "cache_ok st D" "reads_files fs content" "cache_coherent fs content st" "d \<in> D"
    "process_vm_lookup v (page_floor addr) = Some area" "area_page area (page_floor addr)" "2 \<le> free_frames (vs_paging st)"
  shows "\<exists>r st'. process_vm_handle_fault fs v d addr err st = Some (r, st') \<and>
    fault_result D fs content area st d (page_floor addr) r st' \<and>
    (r \<longrightarrow> fault_allowed area err) \<and> (fault_due area err (user_pte (vs_paging st) d (page_floor addr)) \<longrightarrow> r)"
proof -
  let ?p = "page_floor addr" and ?e = "user_pte (vs_paging st) d (page_floor addr)"
  note same = result_same [OF assms(1,3,4), of area ?p]
  note unf = handle_fault_unfold [OF assms(1,4,5), of fs err, unfolded Let_def]
  show ?thesis
  proof (cases "fault_allowed area err")
    case True
    note al = this
    show ?thesis
    proof (cases "err AND 1 = 0")
      case True
      then show ?thesis using al same unf absent_page_result [OF assms(1-4,6) _ assms(7)]
        by (cases "user_present ?e") (auto simp: fault_due_def)
    next
      case False
      note pa = area_pageD(1) [OF assms(6)]
      show ?thesis
      proof (cases "err AND 2 \<noteq> 0 \<and> user_present ?e \<and> bit ?e 10")
        case True
        have "\<exists>r st'. vs_paging_step (paging_resolve_cow_fault d ?p) st = Some (r, st') \<and>
            fault_result D fs content area st d ?p r st' \<and> (cow_entry ?e \<longrightarrow> r)"
          using cow_result [OF assms(1,3,4) pa assms(7), of area] True al by (auto simp: fault_allowed_def)
        then show ?thesis using unf True False al by (auto simp: fault_due_def)
      next
        case False
        then show ?thesis using unf \<open>err AND 1 \<noteq> 0\<close> same by (auto simp: fault_due_def cow_entry_def)
      qed
    qed
  qed (use unf same in \<open>auto simp: fault_due_def\<close>)
qed

section \<open>Properties\<close>

text \<open>
  C11: Page faults. In well-formed address spaces with two frames free, the handler never panics on a fault in a memory
  area. If it reports success the access was allowed by the area's protection, and the page is now there: writable
  exactly when the area is, in a frame that no other page and no cache entry uses unless it is a shared page of a file,
  and holding what the area holds there (the bytes of its file, zeros elsewhere) or, after copy-on-write, what it
  held before. If it reports failure no page and no reference count changes. A write to a copy-on-write page and an access to memory
  without a file always succeed when the protection allows them. In every case no other page of any address space
  changes, nor what it holds, each frame gains as many references as uses, and the file cache stays coherent.
\<close>

theorem process_vm_handle_fault_correct:
  assumes "cache_ok st D" "reads_files fs content" "cache_coherent fs content st" "d \<in> D"
    "process_vm_lookup v (page_floor addr) = Some area" "area_page area (page_floor addr)" "2 \<le> free_frames (vs_paging st)"
  shows "\<exists>r st'. process_vm_handle_fault fs v d addr err st = Some (r, st') \<and>
    fault_result D fs content area st d (page_floor addr) r st' \<and>
    (r \<longrightarrow> fault_allowed area err) \<and> (fault_due area err (user_pte (vs_paging st) d (page_floor addr)) \<longrightarrow> r)"
  using assms by (rule handle_fault_result)

definition area_example :: vm_area where
  "area_example =
     \<lparr>va_start = 0x400000, va_end = 0x404000, va_prot = 1, va_max_prot = 3, va_kind = PROCESS_VM_KIND_FILE_PRIVATE, va_flags = 0,
      va_file_start = 0x400000, va_file_end = 0x400003, va_file_offset = 0, va_file_size = 3, va_path = ''bin/a''\<rparr>"

definition areas_example :: vm where
  "areas_example = \<lparr>vm_areas = Some [area_example], vm_area_capacity = 32, user_ptes = \<lambda>_. 0\<rparr>"

lemma example_frames: "4 \<le> free_frames paging_example"
proof -
  let ?F = "{f \<in> pmm_frames (pg_pmm paging_example). frame_refs (pg_pmm paging_example) f = 0}"
  have "0x203000 \<in> ?F" "0x204000 \<in> ?F" "0x205000 \<in> ?F" "0x206000 \<in> ?F"
    unfolding paging_example_def pmm_frames_def mem_Collect_eq by code_simp+
  then have "{0x203000, 0x204000, 0x205000, 0x206000} \<subseteq> ?F" unfolding insert_subset by (intro conjI empty_subsetI)
  then have "card {0x203000, 0x204000, 0x205000, 0x206000 :: u32} \<le> card ?F" by (intro card_mono) auto
  then show ?thesis by (simp add: free_frames_def)
qed

lemma process_vm_handle_fault_correct_witness:
  "\<exists>st'. process_vm_handle_fault fs_example areas_example 0x200000 0x400123 0 vm_example = Some (True, st') \<and>
    cache_ok st' {0x200000} \<and> user_present (user_pte (vs_paging st') 0x200000 0x400000) \<and>
    frame_byte (phys_mem (vs_paging st') (frame_of (user_pte (vs_paging st') 0x200000 0x400000))) 1 = 8"
proof -
  have d: "(0x200000 :: u32) \<in> {0x200000}" by simp
  have a: "process_vm_lookup areas_example (page_floor 0x400123) = Some area_example" "page_floor 0x400123 = 0x400000" by code_simp+
  have ap: "area_page area_example (page_floor 0x400123)"
    by (simp add: a(2) area_page_def area_example_def page_aligned_def PROCESS_FD_NAME_MAX_def USER_CODE_BASE_def USER_STACK_TOP_def)
  have f: "2 \<le> free_frames (vs_paging vm_example)" using example_frames by (simp add: vm_example_def)
  have n: "\<not> user_present (user_pte (vs_paging vm_example) 0x200000 0x400000)"
    unfolding user_present_iff by (simp add: vm_example_def example_pte)
  have t: "map_option fst (process_vm_handle_fault fs_example areas_example 0x200000 0x400123 0 vm_example) = Some True"
    by code_simp
  have b: "area_byte content_example area_example (unat (0x400000 :: u32) + 1) = 8"
    by (simp add: area_byte_def area_example_def file_backed_def file_byte_def content_example_def)
  from process_vm_handle_fault_correct [OF vm_example_ok fs_example_reads vm_example_coherent d a(1) ap f, of 0] t
  obtain st' where st': "process_vm_handle_fault fs_example areas_example 0x200000 0x400123 0 vm_example = Some (True, st')"
    "fault_result {0x200000} fs_example content_example area_example vm_example 0x200000 0x400000 True st'"
    unfolding a(2) by auto
  then have s: "cache_ok st' {0x200000}" "fault_served content_example area_example vm_example 0x200000 0x400000 st'"
    by (auto simp: fault_result_def page_only_def)
  have "user_present (user_pte (vs_paging st') 0x200000 0x400000)"
    "\<forall>k < 4096. frame_byte (phys_mem (vs_paging st') (frame_of (user_pte (vs_paging st') 0x200000 0x400000))) k =
      area_byte content_example area_example (unat (0x400000 :: u32) + k)"
    using s(2) n unfolding fault_served_def Let_def by simp_all
  then show ?thesis using st'(1) s(1) b by auto
qed

end
