(* ===== verification/User_Memory.thy ===== *)
theory User_Memory
  imports Fault_Correct
begin

text \<open>
  The access of system calls to the memory of the calling process (\<^verbatim>\<open>src/kernel/syscall_user.c\<close>): a buffer is checked page by
  page, which brings in what is missing, and then copied through the page tables of the process. The kernel's
  own buffers are byte lists.
\<close>

section \<open>Copies\<close>

text \<open>A byte of user memory, through the entry of its page; an access where nothing is mapped is a fault of the kernel.\<close>

definition user_load :: "u32 \<Rightarrow> u32 \<Rightarrow> vm_state \<Rightarrow> u8" where
  "user_load d a st =
     frame_byte (phys_mem (vs_paging st) (frame_of (user_pte (vs_paging st) d (page_floor a)))) (unat (a AND 0xFFF))"

definition user_store :: "u32 \<Rightarrow> u32 \<Rightarrow> u8 \<Rightarrow> vm_state \<Rightarrow> vm_state" where
  "user_store d a b st =
     (let frame = frame_of (user_pte (vs_paging st) d (page_floor a))
      in st\<lparr>vs_paging := set_frame frame
             (store_bytes (phys_mem (vs_paging st) frame) (unat (a AND 0xFFF)) [b]) (vs_paging st)\<rparr>)"

definition user_loads :: "u32 \<Rightarrow> u32 \<Rightarrow> nat \<Rightarrow> vm_state \<Rightarrow> u8 list" where
  "user_loads d a n st = map (\<lambda>i. user_load d (a + of_nat i) st) [0..<n]"

primrec user_stores :: "u32 \<Rightarrow> u32 \<Rightarrow> u8 list \<Rightarrow> vm_state \<Rightarrow> vm_state" where
  "user_stores d a [] st = st"
| "user_stores d a (b # bs) st = user_stores d (a + 1) bs (user_store d a b st)"

definition copy_from_user :: "file_system \<Rightarrow> vm \<Rightarrow> u32 \<Rightarrow> u32 \<Rightarrow> u32 \<Rightarrow> vm_state \<Rightarrow> (int \<times> u8 list \<times> vm_state) option" where
  "copy_from_user fs v d src len st =
     (if len = 0 then Some (0, [], st)
      else if src = 0 then Some (- EFAULT, [], st)
      else
        case user_buf_ok fs v d src len st of
          None \<Rightarrow> None
        | Some (False, st) \<Rightarrow> Some (- EFAULT, [], st)
        | Some (True, st) \<Rightarrow> Some (0, user_loads d src (unat len) st, st))"

definition copy_to_user :: "file_system \<Rightarrow> vm \<Rightarrow> u32 \<Rightarrow> u32 \<Rightarrow> u8 list \<Rightarrow> vm_state \<Rightarrow> (int \<times> vm_state) option" where
  "copy_to_user fs v d dst src st =
     (let len = of_nat (length src) in
      if len = 0 then Some (0, st)
      else if dst = 0 then Some (- EFAULT, st)
      else
        case user_buf_write_ok fs v d dst len st of
          None \<Rightarrow> None
        | Some (False, st) \<Rightarrow> Some (- EFAULT, st)
        | Some (True, st) \<Rightarrow> Some (0, user_stores d dst src st))"

definition read_user_u32 :: "file_system \<Rightarrow> vm \<Rightarrow> u32 \<Rightarrow> u32 \<Rightarrow> vm_state \<Rightarrow> (int \<times> u32 option \<times> vm_state) option" where
  "read_user_u32 fs v d src st =
     map_option (\<lambda>(rc, bs, st). (rc, case bs of [b0, b1, b2, b3] \<Rightarrow> Some (join_bytes b0 b1 b2 b3) | _ \<Rightarrow> None, st))
       (copy_from_user fs v d src 4 st)"

definition write_user_u32 :: "file_system \<Rightarrow> vm \<Rightarrow> u32 \<Rightarrow> u32 \<Rightarrow> u32 \<Rightarrow> vm_state \<Rightarrow> (int \<times> vm_state) option" where
  "write_user_u32 fs v d dst value st = copy_to_user fs v d dst (map (frame_byte (\<lambda>_. value)) [0..<4]) st"

text \<open>The loop of \<^verbatim>\<open>copy_user_cstr\<close>, from index \<open>i\<close> with \<open>n\<close> bytes of the buffer left.\<close>

fun cstr_loop :: "file_system \<Rightarrow> vm \<Rightarrow> u32 \<Rightarrow> u32 \<Rightarrow> nat \<Rightarrow> nat \<Rightarrow> u8 list \<Rightarrow> vm_state \<Rightarrow> (int \<times> u8 list \<times> vm_state) option" where
  "cstr_loop fs v d ptr i 0 dst st = Some (- ENAMETOOLONG, dst, st)"
| "cstr_loop fs v d ptr i (Suc n) dst st =
     (let addr = ptr + of_nat i in
      if addr < USER_CODE_BASE \<or> addr \<ge> USER_STACK_TOP then Some (- EFAULT, dst, st)
      else
        case user_page_access_ok fs v d addr False st of
          None \<Rightarrow> None
        | Some (False, st) \<Rightarrow> Some (- EFAULT, dst, st)
        | Some (True, st) \<Rightarrow>
            let b = user_load d addr st; dst = dst @ [b]
            in if b = 0 then Some (int i + 1, dst, st) else cstr_loop fs v d ptr (Suc i) n dst st)"

definition copy_user_cstr :: "file_system \<Rightarrow> vm \<Rightarrow> u32 \<Rightarrow> nat \<Rightarrow> u32 \<Rightarrow> vm_state \<Rightarrow> (int \<times> u8 list \<times> vm_state) option" where
  "copy_user_cstr fs v d dst_size ptr st =
     (if ptr = 0 \<or> dst_size = 0 then Some (- EFAULT, [], st)
      else if ptr < USER_CODE_BASE \<or> ptr \<ge> USER_STACK_TOP then Some (- EFAULT, [], st)
      else if d = 0 then Some (- EFAULT, [], st)
      else cstr_loop fs v d ptr 0 dst_size [] st)"

text \<open>A path argument, resolved against the working directory.\<close>

definition copy_user_path_resolved ::
  "file_system \<Rightarrow> vm \<Rightarrow> u32 \<Rightarrow> string \<Rightarrow> nat \<Rightarrow> u32 \<Rightarrow> vm_state \<Rightarrow> (int \<times> string \<times> vm_state) option" where
  "copy_user_path_resolved fs v d cwd dst_size src st =
     map_option (\<lambda>(copied, raw, st).
         if copied < 0 then (copied, [], st)
         else if copied \<le> 1 then (- EINVAL, [], st)
         else
           case path_build_from (Some cwd) (Some (map (\<lambda>b. char_of (unat b)) (butlast raw))) dst_size of
             None \<Rightarrow> (- ENAMETOOLONG, [], st)
           | Some path \<Rightarrow> (1, path, st))
       (copy_user_cstr fs v d PROCESS_FD_NAME_MAX src st)"

section \<open>Bringing in a page\<close>

definition user_areas :: "vm \<Rightarrow> bool" where
  "user_areas v \<longleftrightarrow> (\<forall>a \<in> set (areas v). USER_CODE_BASE \<le> va_start a \<and> va_end a \<le> USER_STACK_TOP \<and>
     length (va_path a) < PROCESS_FD_NAME_MAX \<and>
     unat (va_file_offset a) + (unat (va_file_end a) - unat (va_file_start a)) < 2 ^ 32)"

lemma user_areas_page:
  assumes "user_areas v" "process_vm_lookup v p = Some area" "page_aligned p"
  shows "area_page area p"
proof -
  have "area \<in> set (areas v) \<and> covers area p"
    using assms(2) by (auto simp: process_vm_lookup_def process_vm_find_index_def find_Some_iff)
  then show ?thesis using assms(1,3) by (auto simp: user_areas_def area_page_def covers_def)
qed

text \<open>No page of any address space is lost, nor its contents, nor the right to write to it.\<close>

definition pages_kept :: "u32 set \<Rightarrow> vm_state \<Rightarrow> vm_state \<Rightarrow> bool" where
  "pages_kept D st st' \<longleftrightarrow> (\<forall>e \<in> D. \<forall>q. user_present (user_pte (vs_paging st) e q) \<longrightarrow>
     user_present (user_pte (vs_paging st') e q) \<and>
     phys_mem (vs_paging st') (frame_of (user_pte (vs_paging st') e q)) =
       phys_mem (vs_paging st) (frame_of (user_pte (vs_paging st) e q)) \<and>
     (bit (user_pte (vs_paging st) e q) 1 \<longrightarrow> bit (user_pte (vs_paging st') e q) 1))"

text \<open>Only ordinary memory is mapped, no device.\<close>

definition ram_only :: "u32 \<Rightarrow> vm_state \<Rightarrow> bool" where
  "ram_only d st \<longleftrightarrow> (\<forall>q. user_present (user_pte (vs_paging st) d q) \<longrightarrow>
     paging_phys_is_pmm_frame (frame_of (user_pte (vs_paging st) d q)))"

lemma pages_kept_refl [simp]: "pages_kept D st st"
  by (simp add: pages_kept_def)

lemma pages_kept_trans: "pages_kept D st st1 \<Longrightarrow> pages_kept D st1 st2 \<Longrightarrow> pages_kept D st st2"
  by (simp add: pages_kept_def)

text \<open>A page of ordinary memory that may be written has its frame to itself.\<close>

definition writable_sole :: "u32 set \<Rightarrow> vm_state \<Rightarrow> bool" where
  "writable_sole D st \<longleftrightarrow> (\<forall>e \<in> D. \<forall>q. let w = user_pte (vs_paging st) e q in
     user_present w \<and> bit w 1 \<and> paging_phys_is_pmm_frame (frame_of w) \<longrightarrow> frame_refs (vs_pmm st) (frame_of w) = 1)"

lemma mapped_held:
  assumes ok: "cache_ok st D" and e: "e \<in> D" "user_present (user_pte (vs_paging st) e q)"
  shows "held st (frame_of (user_pte (vs_paging st) e q))" "frame_of (user_pte (vs_paging st) e q) \<notin> structs (vs_paging st) D"
proof -
  let ?f = "frame_of (user_pte (vs_paging st) e q)"
  have m: "(e, q) \<in> mapped (vs_paging st) D ?f" using e by (simp add: mapped_def)
  have "finite (mapped (vs_paging st) D ?f)" by (rule finite_mapped [OF spaces_okD(1) [OF cache_okD(1) [OF ok]]])
  then have "0 < card (mapped (vs_paging st) D ?f)" using m by (auto simp: card_gt_0_iff)
  then show "held st ?f"
    using cache_okD(6) [OF ok pmm_frame_in_range [OF cache_okD(3) [OF ok]], of ?f] by (auto simp: held_def frame_uses_def)
  show "?f \<notin> structs (vs_paging st) D" using spaces_okD(6) [OF cache_okD(1) [OF ok]] m by blast
qed

lemma page_only_kept:
  assumes ok: "cache_ok st D" and po: "page_only D st d p st'"
    and p: "d \<in> D \<Longrightarrow> user_present (user_pte (vs_paging st) d p) \<Longrightarrow> user_present (user_pte (vs_paging st') d p) \<and>
      phys_mem (vs_paging st') (frame_of (user_pte (vs_paging st') d p)) = phys_mem (vs_paging st) (frame_of (user_pte (vs_paging st) d p)) \<and>
      (bit (user_pte (vs_paging st) d p) 1 \<longrightarrow> bit (user_pte (vs_paging st') d p) 1)"
  shows "pages_kept D st st'"
  unfolding pages_kept_def
proof (intro ballI allI impI)
  fix e q assume e: "e \<in> D" "user_present (user_pte (vs_paging st) e q)"
  show "user_present (user_pte (vs_paging st') e q) \<and>
     phys_mem (vs_paging st') (frame_of (user_pte (vs_paging st') e q)) =
       phys_mem (vs_paging st) (frame_of (user_pte (vs_paging st) e q)) \<and>
     (bit (user_pte (vs_paging st) e q) 1 \<longrightarrow> bit (user_pte (vs_paging st') e q) 1)"
    using p e po mapped_held [OF ok e] by (cases "(e, q) = (d, p)") (auto simp: page_only_def)
qed

definition access_ok :: "u32 set \<Rightarrow> u32 \<Rightarrow> file_system \<Rightarrow> (string \<Rightarrow> u8 list) \<Rightarrow> vm_state \<Rightarrow> bool" where
  "access_ok D d fs content st \<longleftrightarrow> cache_ok st D \<and> cache_coherent fs content st \<and> writable_sole D st \<and> d \<in> D \<and> ram_only d st"

lemma result_access:
  assumes a: "access_ok D d fs content st" and d: "d \<in> D" and r: "fault_result D fs content area st d p b st'"
  shows "access_ok D d fs content st'" "pages_kept D st st'"
proof -
  have ok: "cache_ok st D" and ws: "writable_sole D st" using a by (simp_all add: access_ok_def)
  have po: "page_only D st d p st'" using r by (simp add: fault_result_def)
  have "writable_sole D st'" unfolding writable_sole_def Let_def
  proof (intro ballI allI impI)
    fix e q let ?w = "user_pte (vs_paging st') e q"
    assume e: "e \<in> D" and w: "user_present ?w \<and> bit ?w 1 \<and> paging_phys_is_pmm_frame (frame_of ?w)"
    show "frame_refs (vs_pmm st') (frame_of ?w) = 1"
    proof (cases "(e, q) = (d, p)")
      case True
      then show ?thesis using r w ws e
        by (cases b) (auto simp: fault_result_def fault_served_def writable_sole_def Let_def)
    next
      case False
      then have "?w = user_pte (vs_paging st) e q" using po e by (simp add: page_only_def)
      then show ?thesis using po e w ws False by (auto simp: page_only_def writable_sole_def Let_def)
    qed
  qed
  moreover have "ram_only d st'" unfolding ram_only_def
  proof (intro allI impI)
    fix q assume q: "user_present (user_pte (vs_paging st') d q)"
    show "paging_phys_is_pmm_frame (frame_of (user_pte (vs_paging st') d q))"
    proof (cases "q = p \<and> b")
      case True
      then show ?thesis using r by (simp add: fault_result_def fault_served_def Let_def)
    next
      case False
      then have "user_pte (vs_paging st') d q = user_pte (vs_paging st) d q"
        using r d po by (cases "q = p") (simp_all add: fault_result_def page_only_def)
      then show ?thesis using a q by (simp add: access_ok_def ram_only_def)
    qed
  qed
  ultimately show "access_ok D d fs content st'" using po r d by (simp add: access_ok_def fault_result_def page_only_def)
  show "pages_kept D st st'"
  proof (rule page_only_kept [OF ok po])
    assume e: "user_present (user_pte (vs_paging st) d p)"
    show "user_present (user_pte (vs_paging st') d p) \<and>
      phys_mem (vs_paging st') (frame_of (user_pte (vs_paging st') d p)) = phys_mem (vs_paging st) (frame_of (user_pte (vs_paging st) d p)) \<and>
      (bit (user_pte (vs_paging st) d p) 1 \<longrightarrow> bit (user_pte (vs_paging st') d p) 1)"
    proof (cases b)
      case True
      then show ?thesis using r e by (auto simp: fault_result_def fault_served_def Let_def)
    next
      case False
      then have "user_pte (vs_paging st') d p = user_pte (vs_paging st) d p" using r by (simp add: fault_result_def)
      then show ?thesis using e po mapped_held [OF ok d e] by (simp add: page_only_def)
    qed
  qed
qed

text \<open>The handler in the middle of a system call, on any address.\<close>

lemma handle_fault_access:
  assumes a: "access_ok D d fs content st" and fs: "reads_files fs content" and d: "d \<in> D" and v: "user_areas v"
    and free: "2 \<le> free_frames (vs_paging st)"
  shows "\<exists>r st'. process_vm_handle_fault fs v d addr err st = Some (r, st') \<and> access_ok D d fs content st' \<and> pages_kept D st st' \<and>
    free_frames (vs_paging st) \<le> free_frames (vs_paging st') + 2 \<and>
    (r \<longrightarrow> user_present (user_pte (vs_paging st') d (page_floor addr)) \<and>
       (err AND 2 \<noteq> 0 \<longrightarrow> bit (user_pte (vs_paging st') d (page_floor addr)) 1))"
proof (cases "process_vm_lookup v (page_floor addr)")
  case None
  then have "process_vm_handle_fault fs v d addr err st = Some (False, st)" by (simp add: process_vm_handle_fault_def Let_def)
  then show ?thesis using a by auto
next
  case (Some area)
  have ok: "cache_ok st D" and co: "cache_coherent fs content st" using a by (simp_all add: access_ok_def)
  have ap: "area_page area (page_floor addr)"
    by (rule user_areas_page [OF v Some]) (simp add: page_floor_def)
  obtain r st' where r: "process_vm_handle_fault fs v d addr err st = Some (r, st')"
    "fault_result D fs content area st d (page_floor addr) r st'" "r \<longrightarrow> fault_allowed area err"
    using handle_fault_result [OF ok fs co d Some ap free] by blast
  have "free_frames (vs_paging st) \<le> free_frames (vs_paging st') + 2" using r(2) by (simp add: fault_result_def)
  moreover have "user_present (user_pte (vs_paging st') d (page_floor addr)) \<and>
      (err AND 2 \<noteq> 0 \<longrightarrow> bit (user_pte (vs_paging st') d (page_floor addr)) 1)" if r
    using r(2,3) that by (simp add: fault_result_def fault_served_def fault_allowed_def Let_def)
  ultimately show ?thesis using r(1) result_access [OF a d r(2)] by blast
qed

text \<open>What an access check promises of an address.\<close>

definition accessible :: "u32 \<Rightarrow> bool \<Rightarrow> u32 \<Rightarrow> vm_state \<Rightarrow> bool" where
  "accessible d wr p st \<longleftrightarrow> user_present (user_pte (vs_paging st) d p) \<and> (wr \<longrightarrow> bit (user_pte (vs_paging st) d p) 1)"

lemma accessible_kept: "pages_kept D st st' \<Longrightarrow> d \<in> D \<Longrightarrow> accessible d wr p st \<Longrightarrow> accessible d wr p st'"
  by (simp add: pages_kept_def accessible_def)

lemma fault_in_access:
  assumes a: "access_ok D d fs content st" and fs: "reads_files fs content" and d: "d \<in> D" and v: "user_areas v"
    and free: "2 \<le> free_frames (vs_paging st)"
  shows "\<exists>r st'. process_vm_fault_in_page fs v d addr wr st = Some (r, st') \<and> access_ok D d fs content st' \<and> pages_kept D st st' \<and>
    free_frames (vs_paging st) \<le> free_frames (vs_paging st') + 2 \<and> (r \<longrightarrow> accessible d wr (page_floor addr) st')"
proof -
  let ?e = "user_pte (vs_paging st) d (page_floor addr)"
  have ok: "spaces_ok (vs_paging st) D" using a cache_okD(1) by (auto simp: access_ok_def)
  have b: "(?e AND 0xFFF) AND PAGE_WRITE = 0 \<longleftrightarrow> \<not> bit ?e 1"
    unfolding flag_tests bit_and_iff bit_offset_mask by simp
  have d0: "d \<noteq> 0" by (rule dir_virt(2) [OF ok d])
  have unf: "process_vm_fault_in_page fs v d addr wr st =
    (if \<not> user_present ?e then process_vm_handle_fault fs v d addr (if wr then 2 else 0) st
     else if \<not> wr \<or> bit ?e 1 then Some (True, st)
     else process_vm_handle_fault fs v d addr ((if wr then 2 else 0) OR 1) st)"
    unfolding process_vm_fault_in_page_def page_get [OF ok d] page_floor_def [symmetric] Let_def using d0 b by auto
  have h: "\<exists>r st'. process_vm_handle_fault fs v d addr err st = Some (r, st') \<and> access_ok D d fs content st' \<and> pages_kept D st st' \<and>
      free_frames (vs_paging st) \<le> free_frames (vs_paging st') + 2 \<and> (r \<longrightarrow> accessible d wr (page_floor addr) st')"
    if "wr \<longrightarrow> err AND 2 \<noteq> 0" for err
    using handle_fault_access [OF a fs d v free, of addr err] that by (auto simp: accessible_def)
  have two: "(2 :: u32) AND 2 \<noteq> 0" "((2 :: u32) OR 1) AND 2 \<noteq> 0" by simp_all
  show ?thesis
  proof (cases "user_present ?e \<and> (\<not> wr \<or> bit ?e 1)")
    case True
    then show ?thesis using unf a by (auto simp: accessible_def)
  next
    case False
    then show ?thesis unfolding unf using h [of "if wr then 2 else 0"] h [of "(if wr then 2 else 0) OR 1"] two by auto
  qed
qed

lemma present_flags [simp]: "PAGE_PRESENT OR PAGE_USER \<noteq> 0"
  by (simp add: PAGE_PRESENT_def PAGE_USER_def)

lemma page_mapped:
  assumes ok: "spaces_ok s D" and d: "d \<in> D" and a: "USER_CODE_BASE \<le> addr" "addr < USER_STACK_TOP"
  shows "user_page_mapped d addr s = Some (user_present (user_pte s d (page_floor addr)))"
proof -
  note dir = dir_virt(3) [OF ok d]
  have b: "4194304 \<le> unat addr" "unat addr < 3221225472"
    using a by (simp_all add: USER_CODE_BASE_def USER_STACK_TOP_def word_le_nat_alt word_less_nat_alt)
  have i: "paging_pd_index_is_user (pd_index_of addr)"
    using b by (simp add: user_index_range pd_index_of_unat div_less_iff_less_mult Suc_le_eq div_greater_zero_iff)
  show ?thesis
  proof (cases "has_table s d (pd_index_of addr)")
    case True
    have "paging_phys_is_pmm_frame (table_of s d (pd_index_of addr))"
      by (rule pmm_frame_in_range [OF spaces_okD(2) [OF ok] spaces_okD(4) [OF ok structI(2) [OF d True]]])
    moreover have "bit (phys_mem s d (pd_index_of addr)) 2" by (rule spaces_okD(7) [OF ok d True])
    ultimately show ?thesis using True dir user_pte_table [OF True] unfolding has_table_def table_of_def
      by (auto simp: user_page_mapped_def paging_phys_to_kernel_virt_def page_floor_def Let_def)
  next
    case False
    have "user_pte s d (page_floor addr) = 0" using False by (intro user_pte_no_table) (simp add: page_floor_def)
    then show ?thesis using False i dir
      by (auto simp: user_page_mapped_def paging_phys_to_kernel_virt_def has_table_def Let_def)
  qed
qed

lemma page_access:
  assumes a: "access_ok D d fs content st" and fs: "reads_files fs content" and d: "d \<in> D" and v: "user_areas v"
    and free: "2 \<le> free_frames (vs_paging st)"
  shows "\<exists>r st'. user_page_access_ok fs v d addr wr st = Some (r, st') \<and> access_ok D d fs content st' \<and> pages_kept D st st' \<and>
    free_frames (vs_paging st) \<le> free_frames (vs_paging st') + 2 \<and> (r \<longrightarrow> accessible d wr (page_floor addr) st')"
proof -
  have ok: "spaces_ok (vs_paging st) D" using a cache_okD(1) by (auto simp: access_ok_def)
  have d0: "d \<noteq> 0" by (rule dir_virt(2) [OF ok d])
  show ?thesis
  proof (cases "addr < USER_CODE_BASE \<or> addr \<ge> USER_STACK_TOP")
    case True
    then show ?thesis using a by (auto simp: user_page_access_ok_def)
  next
    case False
    then have r: "USER_CODE_BASE \<le> addr" "addr < USER_STACK_TOP" by auto
    have "user_page_access_ok fs v d addr wr st =
      (if user_present (user_pte (vs_paging st) d (page_floor addr)) \<and> \<not> wr then Some (True, st)
       else process_vm_fault_in_page fs v d addr wr st)"
      unfolding user_page_access_ok_def page_mapped [OF ok d r] using d0 False by (auto split: bool.split)
    then show ?thesis using fault_in_access [OF a fs d v free, of addr wr] a by (auto simp: accessible_def)
  qed
qed

text \<open>The loop over the pages: \<open>n\<close> more pages after the first.\<close>

lemma pages_access:
  assumes fs: "reads_files fs content" and d: "d \<in> D" and v: "user_areas v"
  shows "access_ok D d fs content st \<Longrightarrow> page_aligned p \<Longrightarrow> unat p + 4096 * n < 2 ^ 32 \<Longrightarrow> 2 * Suc n \<le> free_frames (vs_paging st) \<Longrightarrow>
    \<exists>r st'. user_pages_ok fs v d wr p (p + of_nat (4096 * n)) st = Some (r, st') \<and> access_ok D d fs content st' \<and> pages_kept D st st' \<and>
      (r \<longrightarrow> (\<forall>k \<le> n. accessible d wr (p + of_nat (4096 * k)) st'))"
proof (induction n arbitrary: p st)
  case 0
  have pf: "page_floor p = p" using page_floor_page [OF 0(2)] by (simp add: page_floor_def)
  obtain r st' where "user_page_access_ok fs v d p wr st = Some (r, st')" "access_ok D d fs content st'" "pages_kept D st st'"
    "r \<longrightarrow> accessible d wr p st'" using page_access [OF 0(1) fs d v, of p wr] 0(4) pf by auto
  then show ?case by (cases r) (auto simp: user_pages_ok.simps [of fs v d wr p])
next
  case (Suc n)
  have pf: "page_floor p = p" using page_floor_page [OF Suc.prems(2)] by (simp add: page_floor_def)
  obtain r st1 where s1: "user_page_access_ok fs v d p wr st = Some (r, st1)" "access_ok D d fs content st1" "pages_kept D st st1"
    "free_frames (vs_paging st) \<le> free_frames (vs_paging st1) + 2" "r \<longrightarrow> accessible d wr p st1"
    using page_access [OF Suc.prems(1) fs d v, of p wr] Suc.prems(4) pf by auto
  show ?case
  proof (cases r)
    case False
    then show ?thesis using s1 by (auto simp: user_pages_ok.simps [of fs v d wr p])
  next
    case True
    let ?q = "p + PAGE_SIZE"
    have nx: "unat ?q = unat p + 4096" using Suc.prems(3) by (simp add: PAGE_SIZE_def unat_word_ariths)
    then have al: "page_aligned ?q" using Suc.prems(2) by (simp add: page_aligned_dvd)
    have q: "?q + of_nat (4096 * k) = p + of_nat (4096 * Suc k)" for k by (simp add: PAGE_SIZE_def algebra_simps)
    have "unat (p + of_nat (4096 * Suc n)) = unat p + 4096 * Suc n"
      using Suc.prems(3) by (simp add: unat_word_ariths unsigned_of_nat take_bit_nat_eq_self)
    then have ne: "p \<noteq> p + of_nat (4096 * Suc n)" by auto
    obtain b st' where st': "user_pages_ok fs v d wr ?q (?q + of_nat (4096 * n)) st1 = Some (b, st')" "access_ok D d fs content st'"
      "pages_kept D st1 st'" "b \<longrightarrow> (\<forall>k \<le> n. accessible d wr (?q + of_nat (4096 * k)) st')"
      using Suc.IH [OF s1(2) al] nx Suc.prems(3,4) s1(4) by auto
    have "user_pages_ok fs v d wr p (p + of_nat (4096 * Suc n)) st = Some (b, st')"
      using st'(1) s1(1) True ne unfolding q by (subst user_pages_ok.simps) simp
    moreover have "accessible d wr (p + of_nat (4096 * k)) st'" if b "k \<le> Suc n" for k
    proof (cases k)
      case 0
      then show ?thesis using s1(5) True accessible_kept [OF st'(3) d, of wr p] by simp
    next
      case (Suc j)
      then show ?thesis using that st'(4) unfolding Suc q [symmetric] by blast
    qed
    ultimately show ?thesis using st'(2) pages_kept_trans [OF s1(3) st'(3)] by blast
  qed
qed

section \<open>Buffers\<close>

lemma unat_page_floor_nat: "unat (page_floor x) = unat x div 4096 * 4096"
  by (simp add: page_floor_def PAGE_SIZE_def unat_page_floor')

lemma unat_plus_nat: "unat (x :: u32) + m < 2 ^ 32 \<Longrightarrow> unat (x + of_nat m) = unat x + m"
  by (simp add: unat_word_ariths unsigned_of_nat take_bit_nat_eq_self)

lemma page_floor_plus:
  assumes "unat x + m < 2 ^ 32"
  shows "page_floor (x + of_nat m) = page_floor x + of_nat (4096 * ((unat x + m) div 4096 - unat x div 4096))"
    (is "_ = _ + of_nat (4096 * ?k)")
proof (rule unsigned_word_eqI [where 'a = nat])
  have le: "unat x div 4096 \<le> (unat x + m) div 4096" by (rule div_le_mono) simp
  have "unat (page_floor (x + of_nat m)) = (unat x + m) div 4096 * 4096"
    unfolding unat_page_floor_nat unat_plus_nat [OF assms] ..
  moreover have "unat (page_floor x) + 4096 * ?k = (unat x + m) div 4096 * 4096"
    unfolding unat_page_floor_nat using le by (simp add: algebra_simps)
  moreover from this have "unat (page_floor x + of_nat (4096 * ?k)) = unat (page_floor x) + 4096 * ?k"
    using assms by (intro unat_plus_nat) (simp add: order.strict_trans1 [OF div_times_less_eq_dividend])
  ultimately show "unat (page_floor (x + of_nat m)) = unat (page_floor x + of_nat (4096 * ?k))" by linarith
qed

text \<open>A buffer lies in user memory.\<close>

definition user_range :: "u32 \<Rightarrow> nat \<Rightarrow> bool" where
  "user_range ptr n \<longleftrightarrow> unat USER_CODE_BASE \<le> unat ptr \<and> unat ptr + n \<le> unat USER_STACK_TOP"

lemma buf_access:
  assumes a: "access_ok D d fs content st" and fs: "reads_files fs content" and d: "d \<in> D" and v: "user_areas v"
    and free: "2 * (unat len div 4096 + 2) \<le> free_frames (vs_paging st)"
  shows "\<exists>r st'. user_buf_check fs v d wr ptr len st = Some (r, st') \<and> access_ok D d fs content st' \<and> pages_kept D st st' \<and>
    (r \<longrightarrow> user_range ptr (unat len) \<and> (\<forall>i < unat len. accessible d wr (page_floor (ptr + of_nat i)) st'))"
proof (cases "ptr < USER_CODE_BASE \<or> ptr \<ge> USER_STACK_TOP \<or> len = 0 \<or> len > USER_STACK_TOP - ptr")
  case True
  then show ?thesis using a by (auto simp: user_buf_check_def)
next
  case False
  have d0: "d \<noteq> 0" using a dir_virt(2) [OF cache_okD(1) d, of st] by (simp add: access_ok_def)
  have "ptr \<le> USER_STACK_TOP" using False by auto
  then have "unat (USER_STACK_TOP - ptr) = unat USER_STACK_TOP - unat ptr" by (rule unat_sub)
  then have r: "unat USER_CODE_BASE \<le> unat ptr" "0 < unat len" "unat ptr + unat len \<le> unat USER_STACK_TOP"
    using False by (auto simp: word_le_nat_alt word_less_nat_alt unat_gt_0 not_less)
  have top: "unat USER_STACK_TOP < 2 ^ 32" by (simp add: USER_STACK_TOP_def)
  define n where "n = (unat ptr + (unat len - 1)) div 4096 - unat ptr div 4096"
  have l: "ptr + len - 1 = ptr + of_nat (unat len - 1)" using r(2) by (simp add: of_nat_diff)
  have e: "page_floor (ptr + len - 1) = page_floor ptr + of_nat (4096 * n)"
    unfolding l n_def by (rule page_floor_plus) (use r top in linarith)
  have "unat ptr div 4096 \<le> (unat ptr + (unat len - 1)) div 4096" by (rule div_le_mono) simp
  then have nb: "unat (page_floor ptr) + 4096 * n < 2 ^ 32"
    unfolding unat_page_floor_nat n_def using r top by (simp add: algebra_simps order.strict_trans1 [OF div_times_less_eq_dividend])
  have "(unat ptr + (unat len - 1)) div 4096 \<le> unat ptr div 4096 + (unat len - 1) div 4096 + 1"
    by (simp add: div_add1_eq [of "unat ptr" "unat len - 1"])
  moreover have "(unat len - 1) div 4096 \<le> unat len div 4096" by (rule div_le_mono) simp
  ultimately have "Suc n \<le> unat len div 4096 + 2" unfolding n_def by linarith
  then have fr: "2 * Suc n \<le> free_frames (vs_paging st)" by (rule order_trans [OF mult_le_mono2 free])
  have al: "page_aligned (page_floor ptr)" by (simp add: page_floor_def)
  obtain b st' where st': "user_pages_ok fs v d wr (page_floor ptr) (page_floor ptr + of_nat (4096 * n)) st = Some (b, st')"
    "access_ok D d fs content st'" "pages_kept D st st'"
    "b \<longrightarrow> (\<forall>k \<le> n. accessible d wr (page_floor ptr + of_nat (4096 * k)) st')"
    using pages_access [OF fs d v a al nb fr] by blast
  have "accessible d wr (page_floor (ptr + of_nat i)) st'" if b "i < unat len" for i
  proof -
    have i: "unat ptr + i < 2 ^ 32" "(unat ptr + i) div 4096 - unat ptr div 4096 \<le> n"
      using that(2) r(3) top unfolding n_def by (linarith, intro diff_le_mono div_le_mono) linarith
    show ?thesis using st'(4) that(1) i(2) unfolding page_floor_plus [OF i(1)] by blast
  qed
  moreover have "user_buf_check fs v d wr ptr len st = Some (b, st')"
    using False d0 st'(1) e unfolding user_buf_check_def Let_def page_floor_def [symmetric] by simp
  ultimately show ?thesis using st'(2,3) r by (auto simp: user_range_def)
qed

section \<open>Writing\<close>

lemma offset_less: "unat (x AND 0xFFF :: u32) < 4096"
  using unat_page_offset [of x] by simp

lemma floor_offset_inj: "page_floor x = page_floor a \<Longrightarrow> unat (x AND 0xFFF) = unat (a AND 0xFFF) \<Longrightarrow> x = a"
proof -
  assume "page_floor x = page_floor a" "unat (x AND 0xFFF) = unat (a AND 0xFFF)"
  then have "unat x div 4096 * 4096 = unat a div 4096 * 4096" "unat x mod 4096 = unat a mod 4096"
    by (simp_all add: unat_page_floor_nat [symmetric] unat_page_offset)
  then have "unat x = unat a" using div_mult_mod_eq [of "unat x" 4096] div_mult_mod_eq [of "unat a" 4096] by metis
  then show "x = a" by (rule unsigned_word_eqI)
qed

lemma store_access:
  assumes a: "access_ok D d fs content st" and w: "accessible d True (page_floor x) st"
  shows "access_ok D d fs content (user_store d x b st)"
    "e \<in> D \<Longrightarrow> user_pte (vs_paging (user_store d x b st)) e = user_pte (vs_paging st) e"
    "e \<in> D \<Longrightarrow> user_present (user_pte (vs_paging st) e (page_floor y)) \<Longrightarrow>
      user_load e y (user_store d x b st) = (if e = d \<and> y = x then b else user_load e y st)"
proof -
  let ?f = "frame_of (user_pte (vs_paging st) d (page_floor x))" and ?st' = "user_store d x b st"
  have ok: "cache_ok st D" and d: "d \<in> D" using a by (simp_all add: access_ok_def)
  have u: "user_present (user_pte (vs_paging st) d (page_floor x))" "bit (user_pte (vs_paging st) d (page_floor x)) 1"
    using w by (simp_all add: accessible_def)
  have one: "frame_refs (vs_pmm st) ?f = 1"
    using a u d by (auto simp: access_ok_def writable_sole_def ram_only_def Let_def)
  note sole = sole_use [OF ok d u(1) refl one]
  have st': "phys_mem (vs_paging ?st') = (phys_mem (vs_paging st))
      (?f := store_bytes (phys_mem (vs_paging st) ?f) (unat (x AND 0xFFF)) [b])" "vs_pmm ?st' = vs_pmm st"
    "kernel_page_directory (vs_paging ?st') = kernel_page_directory (vs_paging st)" "s_ro_map_cache ?st' = s_ro_map_cache st"
    by (simp_all add: user_store_def Let_def)
  have mem: "phys_mem (vs_paging ?st') g = phys_mem (vs_paging st) g" if "g \<in> structs (vs_paging st) D" for g
    using sole(3) that by (auto simp: st'(1))
  have ch: "cache_ok ?st' D" "e \<in> D \<Longrightarrow> user_pte (vs_paging ?st') e = user_pte (vs_paging st) e" for e
    using cache_ok_change(1,2) [OF ok mem st'(3)] cache_okD(2-6) [OF ok] by (simp_all add: st'(2,4))
  show pte: "e \<in> D \<Longrightarrow> user_pte (vs_paging ?st') e = user_pte (vs_paging st) e" for e by (rule ch(2))
  have "rm_frame ent \<noteq> ?f" if "Some ent \<in> set (s_ro_map_cache st)" for ent
    using cached_uses_pos [OF that] sole(2) by auto
  then have "cache_coherent fs content ?st'"
    using a unfolding access_ok_def cache_coherent_def st'(1,4) by (metis fun_upd_apply)
  then show "access_ok D d fs content ?st'"
    using a ch d by (simp add: access_ok_def writable_sole_def ram_only_def st'(2))
  show "user_load e y ?st' = (if e = d \<and> y = x then b else user_load e y st)"
    if e: "e \<in> D" "user_present (user_pte (vs_paging st) e (page_floor y))"
  proof (cases "frame_of (user_pte (vs_paging st) e (page_floor y)) = ?f")
    case False
    then show ?thesis using pte [OF e(1)] by (auto simp: user_load_def st'(1))
  next
    case True
    have "(e, page_floor y) \<in> mapped (vs_paging st) D ?f" using e True by (simp add: mapped_def)
    then have "e = d" "page_floor y = page_floor x" using sole(1) by auto
    then show ?thesis using pte [OF d] floor_offset_inj [of y x]
      by (auto simp: user_load_def st'(1) frame_byte_store)
  qed
qed

definition in_buffer :: "u32 \<Rightarrow> nat \<Rightarrow> u32 \<Rightarrow> bool" where
  "in_buffer x n y \<longleftrightarrow> unat x \<le> unat y \<and> unat y < unat x + n"

lemma stores_access:
  assumes "access_ok D d fs content st" "user_range x (length bs)" "\<forall>i < length bs. accessible d True (page_floor (x + of_nat i)) st"
  shows "access_ok D d fs content (user_stores d x bs st) \<and>
    (\<forall>e \<in> D. user_pte (vs_paging (user_stores d x bs st)) e = user_pte (vs_paging st) e) \<and>
    (\<forall>e \<in> D. \<forall>y. user_present (user_pte (vs_paging st) e (page_floor y)) \<longrightarrow> user_load e y (user_stores d x bs st) =
      (if e = d \<and> in_buffer x (length bs) y then bs ! (unat y - unat x) else user_load e y st))"
  using assms
proof (induction bs arbitrary: x st)
  case (Cons b bs)
  let ?st1 = "user_store d x b st"
  have w: "accessible d True (page_floor x) st" using Cons.prems(3) by force
  note s1 = store_access [OF Cons.prems(1) w, where b = b]
  have d: "d \<in> D" using Cons.prems(1) by (simp add: access_ok_def)
  have top: "unat USER_STACK_TOP < 2 ^ 32" by (simp add: USER_STACK_TOP_def)
  have x1: "unat (x + 1) = unat x + 1" using Cons.prems(2) top unat_plus_nat [of x 1] by (simp add: user_range_def)
  have r: "user_range (x + 1) (length bs)" using Cons.prems(2) x1 by (simp add: user_range_def)
  have acc: "accessible d True (page_floor (x + 1 + of_nat i)) ?st1" if "i < length bs" for i
    using Cons.prems(3) [rule_format, of "Suc i"] that s1(2) [OF d] by (simp add: accessible_def algebra_simps)
  note IH = Cons.IH [OF s1(1) r, rule_format, OF acc]
  have "user_load e y (user_stores d (x + 1) bs ?st1) =
      (if e = d \<and> in_buffer x (length (b # bs)) y then (b # bs) ! (unat y - unat x) else user_load e y st)"
    if e: "e \<in> D" "user_present (user_pte (vs_paging st) e (page_floor y))" for e y
  proof -
    have "user_load e y (user_stores d (x + 1) bs ?st1) =
        (if e = d \<and> in_buffer (x + 1) (length bs) y then bs ! (unat y - unat (x + 1)) else user_load e y ?st1)"
      using IH e s1(2) [OF e(1)] by auto
    moreover have "in_buffer x (length (b # bs)) y \<longleftrightarrow> y = x \<or> in_buffer (x + 1) (length bs) y"
      using x1 word_unat_eq_iff [of y x] by (auto simp: in_buffer_def)
    moreover have "(b # bs) ! (unat y - unat x) = bs ! (unat y - unat (x + 1))" if "in_buffer (x + 1) (length bs) y"
    proof -
      have "unat y - unat x = Suc (unat y - unat (x + 1))" using that unfolding in_buffer_def x1 by linarith
      then show ?thesis by simp
    qed
    moreover have "\<not> in_buffer (x + 1) (length bs) x" using x1 by (simp add: in_buffer_def)
    ultimately show ?thesis using s1(3) [OF e] by auto
  qed
  then show ?case using IH s1(2) by simp
qed (auto simp: in_buffer_def)

section \<open>Properties\<close>

text \<open>
  C12: Copying to user memory. For a process whose memory areas lie in user space, with frames enough for the pages of the buffer,
  the copy never panics and returns 0 or the error for a bad address. When it returns 0 the whole buffer lies in user memory and
  reads back as what was copied. Every other byte that was mapped, of this and of every other process, is still
  mapped and unchanged, also where memory was shared copy-on-write or with the file cache. The address spaces,
  their reference counts and the cache stay well formed.
\<close>

theorem copy_to_user_correct:
  assumes "access_ok D d fs content st" "reads_files fs content" "user_areas v" "length src < 2 ^ 32"
    "2 * (length src div 4096 + 2) \<le> free_frames (vs_paging st)"
  shows "\<exists>rc st'. copy_to_user fs v d dst src st = Some (rc, st') \<and> rc \<in> {0, - EFAULT} \<and> access_ok D d fs content st' \<and>
    (rc = 0 \<longrightarrow> src = [] \<or> user_range dst (length src) \<and> user_loads d dst (length src) st' = src) \<and>
    (\<forall>e \<in> D. \<forall>y. user_present (user_pte (vs_paging st) e (page_floor y)) \<and> (e \<noteq> d \<or> rc \<noteq> 0 \<or> \<not> in_buffer dst (length src) y) \<longrightarrow>
       user_present (user_pte (vs_paging st') e (page_floor y)) \<and> user_load e y st' = user_load e y st)"
proof (cases "src = [] \<or> dst = 0")
  case True
  have "(of_nat (length src) :: u32) = 0 \<longleftrightarrow> src = []"
    using assms(4) by (simp add: word_unat_eq_iff unsigned_of_nat take_bit_nat_eq_self)
  then have "copy_to_user fs v d dst src st = Some (if src = [] then 0 else - EFAULT, st)"
    using True by (auto simp: copy_to_user_def Let_def)
  then show ?thesis using assms(1) by (auto simp: EFAULT_def)
next
  case False
  let ?len = "of_nat (length src) :: u32"
  have len: "unat ?len = length src" using assms(4) by (simp add: unsigned_of_nat take_bit_nat_eq_self)
  then have l0: "?len \<noteq> 0" using False by auto
  obtain b st1 where st1: "user_buf_check fs v d True dst ?len st = Some (b, st1)" "access_ok D d fs content st1" "pages_kept D st st1"
    "b \<longrightarrow> user_range dst (length src) \<and> (\<forall>i < length src. accessible d True (page_floor (dst + of_nat i)) st1)"
    using buf_access [OF assms(1,2) _ assms(3), of ?len True dst] assms(1,5) len by (auto simp: access_ok_def)
  have kept: "user_present (user_pte (vs_paging st1) e (page_floor y)) \<and> user_load e y st1 = user_load e y st"
    if "e \<in> D" "user_present (user_pte (vs_paging st) e (page_floor y))" for e y
    using st1(3) that by (simp add: pages_kept_def user_load_def)
  have run: "copy_to_user fs v d dst src st = Some (if b then (0, user_stores d dst src st1) else (- EFAULT, st1))"
    using False l0 st1(1) by (simp add: copy_to_user_def user_buf_write_ok_def Let_def split: bool.split)
  show ?thesis
  proof (cases b)
    case True
    let ?st' = "user_stores d dst src st1"
    have r: "user_range dst (length src)" using st1(4) True by simp
    note w = stores_access [OF st1(2) r] 
    have d: "d \<in> D" using assms(1) by (simp add: access_ok_def)
    have "user_load d (dst + of_nat i) ?st' = src ! i" if i: "i < length src" for i
    proof -
      have "unat dst + i < 2 ^ 32" using r i by (simp add: user_range_def USER_STACK_TOP_def)
      then have "unat (dst + of_nat i) = unat dst + i" by (rule unat_plus_nat)
      then show ?thesis using w st1(4) True d i by (auto simp: accessible_def in_buffer_def)
    qed
    then have "user_loads d dst (length src) ?st' = src" by (intro nth_equalityI) (simp_all add: user_loads_def)
    then show ?thesis using run True r w st1(4) kept by auto
  next
    case False
    then show ?thesis using run st1(2) kept by (auto simp: EFAULT_def)
  qed
qed

definition areas_rw_example :: vm where
  "areas_rw_example =
     \<lparr>vm_areas = Some [\<lparr>va_start = 0x405000, va_end = 0x408000, va_prot = 3, va_max_prot = 3, va_kind = 2, va_flags = 0,
        va_file_start = 0, va_file_end = 0, va_file_offset = 0, va_file_size = 0, va_path = []\<rparr>],
      vm_area_capacity = 32, user_ptes = \<lambda>_. 0\<rparr>"

lemma vm_example_access: "access_ok {0x200000} 0x200000 fs content vm_example"
proof -
  have b: "\<not> bit (0x202405 :: u32) (Suc 0)" "paging_phys_is_pmm_frame (frame_of 0x202405)" by code_simp+
  have "writable_sole {0x200000} vm_example" "ram_only 0x200000 vm_example"
    using b by (auto simp: writable_sole_def ram_only_def vm_example_def example_pte Let_def)
  then show ?thesis using vm_example_ok vm_example_coherent by (simp add: access_ok_def)
qed

lemma copy_to_user_correct_witness:
  "\<exists>st'. copy_to_user fs_example areas_rw_example 0x200000 0x405010 [5, 6, 7] vm_example = Some (0, st') \<and>
    access_ok {0x200000} 0x200000 fs_example content_example st' \<and> user_loads 0x200000 0x405010 3 st' = [5, 6, 7]"
proof -
  have v: "user_areas areas_rw_example"
    by (simp add: user_areas_def areas_rw_example_def areas_def USER_CODE_BASE_def USER_STACK_TOP_def PROCESS_FD_NAME_MAX_def)
  have f: "2 * (length [5, 6, 7 :: u8] div 4096 + 2) \<le> free_frames (vs_paging vm_example)"
    using example_frames by (simp add: vm_example_def)
  have "map_option fst (user_page_access_ok fs_example areas_rw_example 0x200000 0x405000 True vm_example) = Some True"
    by code_simp
  then obtain st1 where "user_page_access_ok fs_example areas_rw_example 0x200000 0x405000 True vm_example = Some (True, st1)" by auto
  then have "user_pages_ok fs_example areas_rw_example 0x200000 True 0x405000 0x405000 vm_example = Some (True, st1)"
    by (subst user_pages_ok.simps) simp
  then have "user_buf_write_ok fs_example areas_rw_example 0x200000 0x405010 3 vm_example = Some (True, st1)"
    by (simp add: user_buf_write_ok_def user_buf_check_def USER_CODE_BASE_def USER_STACK_TOP_def PAGE_SIZE_def)
  then have t: "map_option fst (copy_to_user fs_example areas_rw_example 0x200000 0x405010 [5, 6, 7] vm_example) = Some 0"
    by (simp add: copy_to_user_def)
  have l: "length [5, 6, 7 :: u8] < 2 ^ 32" by simp
  from copy_to_user_correct [OF vm_example_access fs_example_reads v l f, of "0x405010"] t
  obtain st' where "copy_to_user fs_example areas_rw_example 0x200000 0x405010 [5, 6, 7] vm_example = Some (0, st')"
    "access_ok {0x200000} 0x200000 fs_example content_example st'"
    "user_loads 0x200000 0x405010 (length [5, 6, 7 :: u8]) st' = [5, 6, 7]" by auto
  then show ?thesis by (simp add: numeral_3_eq_3)
qed

end
