(* ===== verification/Gui_Region.thy ===== *)
theory Gui_Region
  imports Prelude
begin

text \<open>
  Screen rectangles of the desktop (\<^verbatim>\<open>src/user/gui/region.c\<close>, \<^verbatim>\<open>occlusion.c\<close>, \<^verbatim>\<open>layout.c\<close>): the
  rectangle operations, the subtraction of one rectangle from another, the regions of a rectangle that
  opaque rectangles leave visible, and the layout helpers.

  Coordinates are C \<^verbatim>\<open>int\<close>s: integers on which every addition, subtraction and product is brought
  back into 32 bits by \<open>i32\<close>. C leaves signed overflow undefined; the properties hold for
  rectangles within \<open>rect_ok\<close>, on which nothing overflows. An array a function fills and the count it
  returns are the list of its filled entries; the null pointers the functions test for are not modelled.
\<close>

section \<open>C integers\<close>

definition i32 :: "int \<Rightarrow> int" where
  "i32 k = (k + 2147483648) mod 4294967296 - 2147483648"

lemma i32_id [simp]: "- 2147483648 \<le> k \<Longrightarrow> k \<le> 2147483647 \<Longrightarrow> i32 k = k"
  by (simp add: i32_def)

lemma i32_range: "- 2147483648 \<le> i32 k" "i32 k \<le> 2147483647"
  using pos_mod_bound [of 4294967296 "k + 2147483648"] by (simp_all add: i32_def)

section \<open>Rectangles\<close>

record gui_rect_t =
  rx :: int
  ry :: int
  rw :: int
  rh :: int

definition gui_rect_make :: "int \<Rightarrow> int \<Rightarrow> int \<Rightarrow> int \<Rightarrow> gui_rect_t" where
  "gui_rect_make x y w h = \<lparr>rx = x, ry = y, rw = w, rh = h\<rparr>"

definition gui_rect_empty :: "gui_rect_t \<Rightarrow> bool" where
  "gui_rect_empty r \<longleftrightarrow> rw r \<le> 0 \<or> rh r \<le> 0"

definition gui_rect_intersects :: "gui_rect_t \<Rightarrow> gui_rect_t \<Rightarrow> bool" where
  "gui_rect_intersects a b \<longleftrightarrow> \<not> gui_rect_empty a \<and> \<not> gui_rect_empty b \<and>
     rx a < i32 (rx b + rw b) \<and> rx b < i32 (rx a + rw a) \<and>
     ry a < i32 (ry b + rh b) \<and> ry b < i32 (ry a + rh a)"

definition gui_rect_touches :: "gui_rect_t \<Rightarrow> gui_rect_t \<Rightarrow> bool" where
  "gui_rect_touches a b \<longleftrightarrow> \<not> gui_rect_empty a \<and> \<not> gui_rect_empty b \<and>
     rx a \<le> i32 (i32 (rx b + rw b) + 1) \<and> rx b \<le> i32 (i32 (rx a + rw a) + 1) \<and>
     ry a \<le> i32 (i32 (ry b + rh b) + 1) \<and> ry b \<le> i32 (i32 (ry a + rh a) + 1)"

definition gui_rect_union :: "gui_rect_t \<Rightarrow> gui_rect_t \<Rightarrow> gui_rect_t" where
  "gui_rect_union a b =
     (let x0 = (if rx a < rx b then rx a else rx b);
          y0 = (if ry a < ry b then ry a else ry b);
          x1 = (if i32 (rx a + rw a) > i32 (rx b + rw b) then i32 (rx a + rw a) else i32 (rx b + rw b));
          y1 = (if i32 (ry a + rh a) > i32 (ry b + rh b) then i32 (ry a + rh a) else i32 (ry b + rh b))
      in gui_rect_make x0 y0 (i32 (x1 - x0)) (i32 (y1 - y0)))"

definition gui_rect_area :: "gui_rect_t \<Rightarrow> u32" where
  "gui_rect_area r = (if gui_rect_empty r then 0 else word_of_int (rw r) * word_of_int (rh r))"

definition gui_rect_should_merge :: "gui_rect_t \<Rightarrow> gui_rect_t \<Rightarrow> bool" where
  "gui_rect_should_merge a b =
     (if \<not> gui_rect_touches a b then False
      else
        let combined = gui_rect_union a b;
            separate = gui_rect_area a + gui_rect_area b
        in gui_rect_area combined \<le> separate * 2)"

definition gui_rect_clip :: "gui_rect_t \<Rightarrow> int \<Rightarrow> int \<Rightarrow> gui_rect_t" where
  "gui_rect_clip r width height =
     (let x0 = (if rx r < 0 then 0 else rx r);
          y0 = (if ry r < 0 then 0 else ry r);
          x1 = (if i32 (rx r + rw r) > width then width else i32 (rx r + rw r));
          y1 = (if i32 (ry r + rh r) > height then height else i32 (ry r + rh r))
      in gui_rect_make x0 y0 (i32 (x1 - x0)) (i32 (y1 - y0)))"

definition gui_rect_exclude :: "gui_rect_t \<Rightarrow> gui_rect_t \<Rightarrow> gui_rect_t list" where
  "gui_rect_exclude source cutr =
     (if gui_rect_empty source then []
      else if \<not> gui_rect_intersects source cutr then [source]
      else
        let source_right = i32 (rx source + rw source);
            source_bottom = i32 (ry source + rh source);
            cut_right = i32 (rx cutr + rw cutr);
            cut_bottom = i32 (ry cutr + rh cutr);
            ox = (if rx source > rx cutr then rx source else rx cutr);
            oy = (if ry source > ry cutr then ry source else ry cutr);
            ow = i32 ((if source_right < cut_right then source_right else cut_right) - ox);
            oh = i32 ((if source_bottom < cut_bottom then source_bottom else cut_bottom) - oy)
        in (if oy > ry source
            then [gui_rect_make (rx source) (ry source) (rw source) (i32 (oy - ry source))] else []) @
           (if i32 (oy + oh) < source_bottom
            then [gui_rect_make (rx source) (i32 (oy + oh)) (rw source)
                    (i32 (source_bottom - i32 (oy + oh)))] else []) @
           (if ox > rx source
            then [gui_rect_make (rx source) oy (i32 (ox - rx source)) oh] else []) @
           (if i32 (ox + ow) < source_right
            then [gui_rect_make (i32 (ox + ow)) oy (i32 (source_right - i32 (ox + ow))) oh] else []))"

section \<open>Visible regions\<close>

definition GUI_VISIBLE_REGION_CAPACITY :: nat where "GUI_VISIBLE_REGION_CAPACITY = 64"

text \<open>One pass of the inner loop: cut every current region, giving up when the pieces overflow.\<close>

fun cut_regions :: "gui_rect_t \<Rightarrow> gui_rect_t list \<Rightarrow> gui_rect_t list \<Rightarrow> gui_rect_t list option" where
  "cut_regions cutr [] nxt = Some nxt"
| "cut_regions cutr (r # current) nxt =
     (let pieces = gui_rect_exclude r cutr in
      if length nxt + length pieces > GUI_VISIBLE_REGION_CAPACITY then None
      else cut_regions cutr current (nxt @ pieces))"

fun cut_all_regions :: "gui_rect_t list \<Rightarrow> gui_rect_t list \<Rightarrow> gui_rect_t list option" where
  "cut_all_regions [] current = Some current"
| "cut_all_regions (cutr # opaque) current =
     (case cut_regions cutr current [] of
        None \<Rightarrow> None
      | Some nxt \<Rightarrow> if nxt = [] then Some [] else cut_all_regions opaque nxt)"

text \<open>The result is \<open>None\<close> where the C function returns \<open>-1\<close>.\<close>

definition gui_visible_regions :: "gui_rect_t \<Rightarrow> gui_rect_t list \<Rightarrow> int \<Rightarrow> gui_rect_t list option" where
  "gui_visible_regions source opaque output_capacity =
     (if output_capacity \<le> 0 \<or> gui_rect_empty source then Some []
      else
        case cut_all_regions opaque [source] of
          None \<Rightarrow> None
        | Some current \<Rightarrow> if int (length current) > output_capacity then None else Some current)"

section \<open>Layout\<close>

record gui_vlayout_t =
  l_bounds :: gui_rect_t
  l_cursor :: int
  l_gap :: int

definition gui_vlayout_begin :: "gui_rect_t \<Rightarrow> int \<Rightarrow> gui_vlayout_t" where
  "gui_vlayout_begin bounds gap =
     \<lparr>l_bounds = bounds, l_cursor = ry bounds, l_gap = (if gap < 0 then 0 else gap)\<rparr>"

definition gui_vlayout_take :: "gui_vlayout_t \<Rightarrow> int \<Rightarrow> gui_rect_t \<times> gui_vlayout_t" where
  "gui_vlayout_take layout height =
     (if height \<le> 0 then (gui_rect_make 0 0 0 0, layout)
      else
        let bottom = i32 (ry (l_bounds layout) + rh (l_bounds layout)) in
        if l_cursor layout \<ge> bottom then (gui_rect_make 0 0 0 0, layout)
        else
          let height = (if i32 (l_cursor layout + height) > bottom
                        then i32 (bottom - l_cursor layout) else height)
          in (gui_rect_make (rx (l_bounds layout)) (l_cursor layout) (rw (l_bounds layout)) height,
              layout\<lparr>l_cursor := i32 (l_cursor layout + i32 (height + l_gap layout))\<rparr>))"

definition gui_layout_inset :: "gui_rect_t \<Rightarrow> int \<Rightarrow> gui_rect_t" where
  "gui_layout_inset bounds inset =
     (let inset = (if inset < 0 then 0 else inset);
          w = i32 (rw bounds - i32 (inset * 2));
          h = i32 (rh bounds - i32 (inset * 2))
      in \<lparr>rx = i32 (rx bounds + inset), ry = i32 (ry bounds + inset),
          rw = (if w < 0 then 0 else w), rh = (if h < 0 then 0 else h)\<rparr>)"

text \<open>C division of an \<^verbatim>\<open>int\<close> by a positive count truncates towards zero.\<close>

definition cdiv :: "int \<Rightarrow> int \<Rightarrow> int" where
  "cdiv a b = (if a < 0 then - ((- a) div b) else a div b)"

definition gui_layout_cell :: "gui_rect_t \<Rightarrow> int \<Rightarrow> int \<Rightarrow> int \<Rightarrow> gui_rect_t" where
  "gui_layout_cell row count gap index =
     (if count \<le> 0 \<or> index < 0 \<or> index \<ge> count then gui_rect_make 0 0 0 0
      else
        let gap = (if gap < 0 then 0 else gap);
            width = cdiv (i32 (rw row - i32 (gap * i32 (count - 1)))) count;
            width = (if width < 0 then 0 else width)
        in gui_rect_make (i32 (rx row + i32 (index * i32 (width + gap)))) (ry row) width (rh row))"

section \<open>Rectangles as sets of pixels\<close>

definition pixels :: "gui_rect_t \<Rightarrow> (int \<times> int) set" where
  "pixels r = {(px, py). rx r \<le> px \<and> px < rx r + rw r \<and> ry r \<le> py \<and> py < ry r + rh r}"

definition pixels_of :: "gui_rect_t list \<Rightarrow> (int \<times> int) set" where
  "pixels_of rs = \<Union> (pixels ` set rs)"

definition in_plane :: "int \<Rightarrow> bool" where
  "in_plane k \<longleftrightarrow> - 536870912 \<le> k \<and> k \<le> 536870912"

definition rect_ok :: "gui_rect_t \<Rightarrow> bool" where
  "rect_ok r \<longleftrightarrow> in_plane (rx r) \<and> in_plane (ry r) \<and> in_plane (rx r + rw r) \<and> in_plane (ry r + rh r)"

text \<open>Regions that do not overlap: the pixels of no two entries of the list meet.\<close>

fun disjoint_rects :: "gui_rect_t list \<Rightarrow> bool" where
  "disjoint_rects [] \<longleftrightarrow> True"
| "disjoint_rects (r # rs) \<longleftrightarrow> pixels r \<inter> pixels_of rs = {} \<and> disjoint_rects rs"

lemma pixels_of_simps [simp]:
  "pixels_of [] = {}" "pixels_of (r # rs) = pixels r \<union> pixels_of rs"
  "pixels_of (rs @ ss) = pixels_of rs \<union> pixels_of ss"
  by (auto simp: pixels_of_def)

lemma gui_rect_make_sel [simp]:
  "rx (gui_rect_make x y w h) = x" "ry (gui_rect_make x y w h) = y"
  "rw (gui_rect_make x y w h) = w" "rh (gui_rect_make x y w h) = h"
  by (simp_all add: gui_rect_make_def)

lemma pixels_make: "pixels (gui_rect_make x y w h) = {x..<x + w} \<times> {y..<y + h}"
  by (auto simp: pixels_def gui_rect_make_def)

lemma pixels_eq: "pixels r = {rx r..<rx r + rw r} \<times> {ry r..<ry r + rh r}"
  by (auto simp: pixels_def)

lemma pixels_empty_iff: "pixels r = {} \<longleftrightarrow> gui_rect_empty r"
  by (auto simp: pixels_eq gui_rect_empty_def)

lemma disjoint_rects_append:
  "disjoint_rects (rs @ ss) \<longleftrightarrow> disjoint_rects rs \<and> disjoint_rects ss \<and> pixels_of rs \<inter> pixels_of ss = {}"
  by (induction rs) auto

lemma rect_okD:
  assumes "rect_ok r"
  shows "i32 (rx r + rw r) = rx r + rw r" "i32 (ry r + rh r) = ry r + rh r"
  using assms by (simp_all add: rect_ok_def in_plane_def)

lemma i32_plane:
  assumes "in_plane a" "in_plane b"
  shows "i32 (a - b) = a - b" "i32 (a + (b - a)) = b" "i32 a = a"
  using assms by (auto simp: in_plane_def)

lemma in_plane_minmax:
  "in_plane a \<Longrightarrow> in_plane b \<Longrightarrow> in_plane (min a b)" "in_plane a \<Longrightarrow> in_plane b \<Longrightarrow> in_plane (max a b)"
  "in_plane 0"
  by (auto simp: in_plane_def)

text \<open>The conditional expressions of the source as minimum and maximum.\<close>

lemma if_minmax:
  "(if a < b then a else b) = min a (b :: int)" "(if b < a then a else b) = max a b"
  "(if a < b then b else a) = max b a" "(if b < a then b else a) = min b a"
  by auto

lemma in_plane_if [simp]: "in_plane a \<Longrightarrow> in_plane b \<Longrightarrow> in_plane (if c then a else b)"
  by simp

lemma gui_rect_intersects_iff:
  assumes "rect_ok a" "rect_ok b"
  shows "gui_rect_intersects a b \<longleftrightarrow> pixels a \<inter> pixels b \<noteq> {}"
  by (auto simp: gui_rect_intersects_def rect_okD [OF assms(1)] rect_okD [OF assms(2)]
      gui_rect_empty_def pixels_eq Times_Int_Times)

lemma gui_rect_intersectsD:
  assumes "rect_ok s" "rect_ok c" "gui_rect_intersects s c"
  shows "rx s < rx c + rw c" "rx c < rx s + rw s" "ry s < ry c + rh c" "ry c < ry s + rh s"
    "0 < rw s" "0 < rh s" "0 < rw c" "0 < rh c"
  using assms(3) by (auto simp: gui_rect_intersects_def rect_okD [OF assms(1)] rect_okD [OF assms(2)]
      gui_rect_empty_def)

text \<open>The pieces in terms of the edges of the overlap, once nothing can overflow.\<close>

lemma gui_rect_exclude_edges:
  assumes ok: "rect_ok s" "rect_ok c" and meet: "gui_rect_intersects s c"
  defines "l \<equiv> max (rx s) (rx c)" and "t \<equiv> max (ry s) (ry c)"
    and "r \<equiv> min (rx s + rw s) (rx c + rw c)" and "b \<equiv> min (ry s + rh s) (ry c + rh c)"
  shows "gui_rect_exclude s c =
    (if ry s < t then [gui_rect_make (rx s) (ry s) (rw s) (t - ry s)] else []) @
    (if b < ry s + rh s then [gui_rect_make (rx s) b (rw s) (ry s + rh s - b)] else []) @
    (if rx s < l then [gui_rect_make (rx s) t (l - rx s) (b - t)] else []) @
    (if r < rx s + rw s then [gui_rect_make r t (rx s + rw s - r) (b - t)] else [])"
proof -
  have le: "l = (if rx s > rx c then rx s else rx c)" "t = (if ry s > ry c then ry s else ry c)"
    "r = (if rx s + rw s < rx c + rw c then rx s + rw s else rx c + rw c)"
    "b = (if ry s + rh s < ry c + rh c then ry s + rh s else ry c + rh c)"
    by (simp_all add: l_def t_def r_def b_def)
  have pl: "in_plane l" "in_plane t" "in_plane r" "in_plane b" "in_plane (rx s)" "in_plane (ry s)"
    "in_plane (rx s + rw s)" "in_plane (ry s + rh s)"
    using ok unfolding le by (simp_all add: rect_ok_def)
  have "\<not> gui_rect_empty s" using meet by (simp add: gui_rect_intersects_def)
  with meet show ?thesis
    unfolding gui_rect_exclude_def Let_def
    by (simp only: rect_okD [OF ok(1)] rect_okD [OF ok(2)] le [symmetric] i32_plane pl if_False not_True_eq_False
        simp_thms)
qed

lemma mem_pixels: "(px, py) \<in> pixels r \<longleftrightarrow> rx r \<le> px \<and> px < rx r + rw r \<and> ry r \<le> py \<and> py < ry r + rh r"
  by (simp add: pixels_def)

lemma mem_pixels_make:
  "(px, py) \<in> pixels (gui_rect_make x y w h) \<longleftrightarrow> x \<le> px \<and> px < x + w \<and> y \<le> py \<and> py < y + h"
  by (simp add: pixels_def gui_rect_make_def)

lemma gui_rect_exclude_pixels:
  assumes ok: "rect_ok s" "rect_ok c"
  shows "pixels_of (gui_rect_exclude s c) = pixels s - pixels c"
proof (cases "gui_rect_intersects s c")
  case False
  then have "pixels s \<inter> pixels c = {}" using gui_rect_intersects_iff [OF ok] by simp
  moreover have "gui_rect_empty s \<Longrightarrow> pixels s = {}" by (simp add: pixels_empty_iff)
  ultimately show ?thesis using False by (auto simp: gui_rect_exclude_def)
next
  case True
  note meet = gui_rect_intersectsD [OF ok True]
  define l t r b where "l = max (rx s) (rx c)" and "t = max (ry s) (ry c)"
    and "r = min (rx s + rw s) (rx c + rw c)" and "b = min (ry s + rh s) (ry c + rh c)"
  have in_if: "(px, py) \<in> pixels_of (if q then [gui_rect_make x y w h] else []) \<longleftrightarrow>
      q \<and> x \<le> px \<and> px < x + w \<and> y \<le> py \<and> py < y + h" for q x y w h px py
    by (simp add: mem_pixels_make)
  have edges: "rx s \<le> l" "ry s \<le> t" "r \<le> rx s + rw s" "b \<le> ry s + rh s" "l < r" "t < b"
    using meet by (simp_all add: l_def t_def r_def b_def)
  have "(px, py) \<in> pixels_of (gui_rect_exclude s c) \<longleftrightarrow>
      (px, py) \<in> pixels s \<and> \<not> (l \<le> px \<and> px < r \<and> t \<le> py \<and> py < b)" for px py
    unfolding gui_rect_exclude_edges [OF ok True, folded l_def t_def r_def b_def] pixels_of_simps Un_iff
      in_if mem_pixels using edges by linarith
  also have "(px, py) \<in> pixels s \<and> \<not> (l \<le> px \<and> px < r \<and> t \<le> py \<and> py < b) \<longleftrightarrow>
      (px, py) \<in> pixels s - pixels c" for px py
    by (auto simp: l_def t_def r_def b_def mem_pixels)
  finally show ?thesis by auto
qed

lemma pixels_make_apart:
  "y + h \<le> y' \<or> y' + h' \<le> y \<or> x + w \<le> x' \<or> x' + w' \<le> x \<Longrightarrow>
   pixels (gui_rect_make x y w h) \<inter> pixels (gui_rect_make x' y' w' h') = {}"
  by (auto simp: mem_pixels_make)

lemma gui_rect_exclude_disjoint:
  assumes ok: "rect_ok s" "rect_ok c"
  shows "disjoint_rects (gui_rect_exclude s c)"
proof (cases "gui_rect_intersects s c")
  case False
  then show ?thesis by (simp add: gui_rect_exclude_def)
next
  case True
  note meet = gui_rect_intersectsD [OF ok True]
  define l t r b where "l = max (rx s) (rx c)" and "t = max (ry s) (ry c)"
    and "r = min (rx s + rw s) (rx c + rw c)" and "b = min (ry s + rh s) (ry c + rh c)"
  have lt: "l < r" "t < b" using meet by (simp_all add: l_def t_def r_def b_def)
  show ?thesis
    unfolding gui_rect_exclude_edges [OF ok True, folded l_def t_def r_def b_def] disjoint_rects_append
    using lt by (simp add: pixels_make_apart Int_Un_distrib)
qed

lemma gui_rect_exclude_ok:
  assumes ok: "rect_ok s" "rect_ok c"
  shows "list_all rect_ok (gui_rect_exclude s c)"
proof (cases "gui_rect_intersects s c")
  case False
  then show ?thesis using ok by (simp add: gui_rect_exclude_def)
next
  case True
  note meet = gui_rect_intersectsD [OF ok True]
  show ?thesis
    using ok by (simp add: gui_rect_exclude_edges [OF ok True] rect_ok_def gui_rect_make_def min_def max_def)
qed

section \<open>What is visible\<close>

lemma cut_regions_pixels:
  assumes "rect_ok c" "list_all rect_ok rs" "cut_regions c rs nxt = Some out"
  shows "pixels_of out = pixels_of nxt \<union> (pixels_of rs - pixels c)"
  using assms(2,3)
proof (induction rs arbitrary: nxt)
  case (Cons r rs)
  then have ok: "rect_ok r" by simp
  from Cons have "pixels_of out = pixels_of (nxt @ gui_rect_exclude r c) \<union> (pixels_of rs - pixels c)"
    by (intro Cons.IH) (auto simp: Let_def split: if_splits)
  then show ?case by (auto simp: gui_rect_exclude_pixels [OF ok assms(1)])
qed simp

lemma cut_regions_ok:
  assumes "rect_ok c" "list_all rect_ok rs" "list_all rect_ok nxt" "cut_regions c rs nxt = Some out"
  shows "list_all rect_ok out"
  using assms(2-4)
proof (induction rs arbitrary: nxt)
  case (Cons r rs)
  then have "list_all rect_ok (nxt @ gui_rect_exclude r c)"
    using gui_rect_exclude_ok [of r c] assms(1) by simp
  from Cons.IH [OF _ this] Cons.prems show ?case by (auto simp: Let_def split: if_splits)
qed simp

lemma cut_regions_disjoint:
  assumes "rect_ok c" "list_all rect_ok rs" "disjoint_rects rs" "disjoint_rects nxt"
    "pixels_of nxt \<inter> pixels_of rs = {}" "cut_regions c rs nxt = Some out"
  shows "disjoint_rects out"
  using assms(2-6)
proof (induction rs arbitrary: nxt)
  case (Cons r rs)
  then have ok: "rect_ok r" by simp
  note px = gui_rect_exclude_pixels [OF ok assms(1)]
  have "disjoint_rects (nxt @ gui_rect_exclude r c)"
    using Cons.prems gui_rect_exclude_disjoint [OF ok assms(1)]
    by (auto simp: disjoint_rects_append px)
  moreover have "pixels_of (nxt @ gui_rect_exclude r c) \<inter> pixels_of rs = {}"
    using Cons.prems by (auto simp: px)
  ultimately show ?case using Cons.prems by (intro Cons.IH) (auto simp: Let_def split: if_splits)
qed simp

lemma cut_all_regions_exact:
  assumes "list_all rect_ok opaque" "list_all rect_ok rs" "disjoint_rects rs"
    "cut_all_regions opaque rs = Some out"
  shows "pixels_of out = pixels_of rs - pixels_of opaque \<and> disjoint_rects out"
  using assms
proof (induction opaque arbitrary: rs)
  case (Cons c opaque)
  then obtain nxt where nxt: "cut_regions c rs [] = Some nxt"
    by (auto split: option.splits)
  have ok: "rect_ok c" "list_all rect_ok rs" using Cons.prems by simp_all
  have p: "pixels_of nxt = pixels_of rs - pixels c"
    using cut_regions_pixels [OF ok nxt] by simp
  have n: "list_all rect_ok nxt" "disjoint_rects nxt"
    using cut_regions_ok [OF ok _ nxt] cut_regions_disjoint [OF ok Cons.prems(3) _ _ nxt] by simp_all
  show ?case
  proof (cases "nxt = []")
    case True
    then show ?thesis using Cons.prems(4) nxt p by auto
  next
    case False
    then have "cut_all_regions opaque nxt = Some out" using Cons.prems(4) nxt by simp
    then show ?thesis using Cons.IH [OF _ n] Cons.prems(1) p by auto
  qed
qed simp

text \<open>
  C25: Subtracting the opaque rectangles from a source rectangle leaves exactly its visible pixels: when the
  function succeeds, the pixels of the regions it returns are those of the source that no opaque
  rectangle covers, and no pixel belongs to two regions.
\<close>
theorem gui_visible_regions_exact:
  assumes "rect_ok source" "list_all rect_ok opaque" "0 < output_capacity"
    "gui_visible_regions source opaque output_capacity = Some regions"
  shows "pixels_of regions = pixels source - pixels_of opaque \<and> disjoint_rects regions"
proof (cases "gui_rect_empty source")
  case True
  then show ?thesis using assms(3,4) pixels_empty_iff [of source] by (simp add: gui_visible_regions_def)
next
  case False
  then have "cut_all_regions opaque [source] = Some regions"
    using assms(3,4) by (auto simp: gui_visible_regions_def split: option.splits if_splits)
  from cut_all_regions_exact [OF assms(2) _ _ this] show ?thesis using assms(1) by simp
qed

theorem gui_visible_regions_exact_witness:
  "pixels_of [gui_rect_make 0 0 10 2, gui_rect_make 0 4 10 6, gui_rect_make 0 2 3 2, gui_rect_make 8 2 2 2] =
     pixels (gui_rect_make 0 0 10 10) - pixels_of [gui_rect_make 3 2 5 2]
   \<and> disjoint_rects [gui_rect_make 0 0 10 2, gui_rect_make 0 4 10 6, gui_rect_make 0 2 3 2, gui_rect_make 8 2 2 2]"
  by (rule gui_visible_regions_exact [where output_capacity = 64])
    (simp_all add: rect_ok_def in_plane_def gui_rect_make_def gui_visible_regions_def gui_rect_exclude_def
      gui_rect_empty_def gui_rect_intersects_def GUI_VISIBLE_REGION_CAPACITY_def)

text \<open>A region the function cannot represent is refused, never truncated.\<close>

lemma gui_visible_regions_bounded:
  assumes "gui_visible_regions source opaque output_capacity = Some regions"
  shows "int (length regions) \<le> max 0 output_capacity"
  using assms by (auto simp: gui_visible_regions_def split: if_splits option.splits)

section \<open>Layout\<close>

lemma gui_vlayout_take_inside:
  assumes "rect_ok (l_bounds l)" "in_plane (l_cursor l)" "in_plane height" "ry (l_bounds l) \<le> l_cursor l"
    "0 \<le> l_gap l" "l_gap l \<le> 536870912" "gui_vlayout_take l height = (r, l')"
  shows "pixels r \<subseteq> pixels (l_bounds l)"
    "gui_rect_empty r \<or> ry r = l_cursor l \<and> ry r + rh r + l_gap l = l_cursor l'"
  using assms by (auto simp: gui_vlayout_take_def Let_def rect_okD rect_ok_def in_plane_def pixels_def
      gui_rect_make_def gui_rect_empty_def split: if_splits)

lemma gui_layout_inset_inside:
  assumes "rect_ok r" "0 \<le> rw r" "0 \<le> rh r" "in_plane inset"
  shows "pixels (gui_layout_inset r inset) \<subseteq> pixels r"
  using assms by (auto simp: gui_layout_inset_def Let_def rect_ok_def in_plane_def pixels_def)

end
