(* ===== verification/Gui_Compositor.thy ===== *)
theory Gui_Compositor
  imports Gui_Region Timer
begin

text \<open>
  The desktop's compositor (\<^verbatim>\<open>src/user/gui/damage.c\<close>, \<^verbatim>\<open>compositor.c\<close>): the list of damaged screen
  rectangles, the counters shown in the performance overlay, and the pacing of frames. The static
  \<^verbatim>\<open>g_compositor\<close> is a record passed along; the entries of the damage array below its count are a
  list.
\<close>

section \<open>Damage\<close>

definition GUI_DAMAGE_CAPACITY :: nat where "GUI_DAMAGE_CAPACITY = 32"

record gui_damage_t =
  d_rects :: "gui_rect_t list"
  d_full :: bool

definition gui_damage_clear :: "gui_damage_t \<Rightarrow> gui_damage_t" where
  "gui_damage_clear damage = damage\<lparr>d_rects := [], d_full := False\<rparr>"

definition gui_damage_full :: "gui_damage_t \<Rightarrow> int \<Rightarrow> int \<Rightarrow> gui_damage_t" where
  "gui_damage_full damage width height =
     damage\<lparr>d_full := True, d_rects := [gui_rect_make 0 0 width height]\<rparr>"

text \<open>The search loop: the first entry that should be merged with the new rectangle is replaced.\<close>

fun merge_first :: "gui_rect_t list \<Rightarrow> gui_rect_t \<Rightarrow> int \<Rightarrow> int \<Rightarrow> gui_rect_t list option" where
  "merge_first [] rect width height = None"
| "merge_first (r # rs) rect width height =
     (if gui_rect_should_merge r rect
      then Some (gui_rect_clip (gui_rect_union r rect) width height # rs)
      else map_option ((#) r) (merge_first rs rect width height))"

definition gui_damage_add :: "gui_damage_t \<Rightarrow> gui_rect_t \<Rightarrow> int \<Rightarrow> int \<Rightarrow> gui_damage_t" where
  "gui_damage_add damage rect width height =
     (if d_full damage then damage
      else
        let rect = gui_rect_clip rect width height in
        if gui_rect_empty rect then damage
        else
          case merge_first (d_rects damage) rect width height of
            Some rs \<Rightarrow> damage\<lparr>d_rects := rs\<rparr>
          | None \<Rightarrow>
              if length (d_rects damage) \<ge> GUI_DAMAGE_CAPACITY then gui_damage_full damage width height
              else damage\<lparr>d_rects := d_rects damage @ [rect]\<rparr>)"

section \<open>The compositor\<close>

definition PERF_WINDOW_TICKS :: u32 where "PERF_WINDOW_TICKS = SMALLOS_TIMER_HZ"
definition FRAME_FPS :: u32 where "FRAME_FPS = 60"
definition FRAME_TICKS :: u32 where "FRAME_TICKS = (SMALLOS_TIMER_HZ + FRAME_FPS - 1) div FRAME_FPS"

record gui_compositor_metrics_t =
  shown_loops :: u32
  shown_presents :: u32
  shown_input_events :: u32
  shown_max_loop_gap :: u32
  shown_max_present_ticks :: u32
  shown_composed_pixels :: u32
  shown_presented_pixels :: u32
  shown_dirty_regions :: u32
  shown_full_repaints :: u32
  shown_idle_wakeups :: u32
  shown_pty_wakeups :: u32
  total_loops :: u32
  total_presents :: u32
  total_input_events :: u32
  total_composed_pixels :: u32
  total_presented_pixels :: u32
  total_dirty_regions :: u32
  total_full_repaints :: u32
  total_idle_wakeups :: u32
  total_pty_wakeups :: u32

record compositor_state =
  c_width :: int
  c_height :: int
  damage :: gui_damage_t
  window_start :: u32
  last_loop :: u32
  loops :: u32
  presents :: u32
  input_events :: u32
  max_loop_gap :: u32
  max_present_ticks :: u32
  composed_pixels :: u32
  presented_pixels :: u32
  dirty_regions :: u32
  full_repaints :: u32
  idle_wakeups :: u32
  pty_wakeups :: u32
  metrics :: gui_compositor_metrics_t
  frame_pending :: bool
  frame_deadline :: u32
  overlay_visible :: bool
  overlay_x :: int
  overlay_y :: int

definition no_metrics :: gui_compositor_metrics_t where
  "no_metrics =
     \<lparr>shown_loops = 0, shown_presents = 0, shown_input_events = 0, shown_max_loop_gap = 0,
      shown_max_present_ticks = 0, shown_composed_pixels = 0, shown_presented_pixels = 0,
      shown_dirty_regions = 0, shown_full_repaints = 0, shown_idle_wakeups = 0, shown_pty_wakeups = 0,
      total_loops = 0, total_presents = 0, total_input_events = 0, total_composed_pixels = 0,
      total_presented_pixels = 0, total_dirty_regions = 0, total_full_repaints = 0,
      total_idle_wakeups = 0, total_pty_wakeups = 0\<rparr>"

definition gui_compositor_init :: "int \<Rightarrow> int \<Rightarrow> u32 \<Rightarrow> compositor_state" where
  "gui_compositor_init width height now =
     \<lparr>c_width = width, c_height = height, damage = \<lparr>d_rects = [], d_full = False\<rparr>,
      window_start = now, last_loop = now, loops = 0, presents = 0, input_events = 0,
      max_loop_gap = 0, max_present_ticks = 0, composed_pixels = 0, presented_pixels = 0,
      dirty_regions = 0, full_repaints = 0, idle_wakeups = 0, pty_wakeups = 0, metrics = no_metrics,
      frame_pending = False, frame_deadline = 0, overlay_visible = False, overlay_x = 0,
      overlay_y = 0\<rparr>"

definition gui_compositor_resize :: "int \<Rightarrow> int \<Rightarrow> compositor_state \<Rightarrow> compositor_state" where
  "gui_compositor_resize width height c = c\<lparr>c_width := width, c_height := height\<rparr>"

definition gui_compositor_invalidate :: "gui_rect_t \<Rightarrow> compositor_state \<Rightarrow> compositor_state" where
  "gui_compositor_invalidate rect c =
     c\<lparr>damage := gui_damage_add (damage c) rect (c_width c) (c_height c)\<rparr>"

definition gui_compositor_invalidate_full :: "compositor_state \<Rightarrow> compositor_state" where
  "gui_compositor_invalidate_full c =
     c\<lparr>damage := gui_damage_full (damage c) (c_width c) (c_height c),
       full_repaints := full_repaints c + 1,
       metrics := (metrics c)\<lparr>total_full_repaints := total_full_repaints (metrics c) + 1\<rparr>\<rparr>"

definition gui_compositor_clear_damage :: "compositor_state \<Rightarrow> compositor_state" where
  "gui_compositor_clear_damage c = c\<lparr>damage := gui_damage_clear (damage c)\<rparr>"

definition gui_compositor_perf_tick :: "u32 \<Rightarrow> compositor_state \<Rightarrow> bool \<times> compositor_state" where
  "gui_compositor_perf_tick now c =
     (let gap = now - last_loop c;
          m = metrics c;
          m = m\<lparr>total_loops := total_loops m + 1\<rparr>;
          c = c\<lparr>last_loop := now, loops := loops c + 1,
                max_loop_gap := (if gap > max_loop_gap c then gap else max_loop_gap c)\<rparr>
      in if now - window_start c < PERF_WINDOW_TICKS then (False, c\<lparr>metrics := m\<rparr>)
         else
           (True, c\<lparr>metrics :=
                m\<lparr>shown_loops := loops c, shown_presents := presents c,
                  shown_input_events := input_events c, shown_max_loop_gap := max_loop_gap c,
                  shown_max_present_ticks := max_present_ticks c,
                  shown_composed_pixels := composed_pixels c,
                  shown_presented_pixels := presented_pixels c,
                  shown_dirty_regions := dirty_regions c, shown_full_repaints := full_repaints c,
                  shown_idle_wakeups := idle_wakeups c, shown_pty_wakeups := pty_wakeups c\<rparr>,
                window_start := now, loops := 0, presents := 0, input_events := 0,
                max_loop_gap := 0, max_present_ticks := 0, composed_pixels := 0,
                presented_pixels := 0, dirty_regions := 0, full_repaints := 0, idle_wakeups := 0,
                pty_wakeups := 0\<rparr>))"

definition gui_compositor_note_input :: "u32 \<Rightarrow> compositor_state \<Rightarrow> compositor_state" where
  "gui_compositor_note_input count c =
     c\<lparr>input_events := input_events c + count,
       metrics := (metrics c)\<lparr>total_input_events := total_input_events (metrics c) + count\<rparr>\<rparr>"

definition gui_compositor_note_present :: "u32 \<Rightarrow> compositor_state \<Rightarrow> compositor_state" where
  "gui_compositor_note_present elapsed c =
     c\<lparr>presents := presents c + 1,
       metrics := (metrics c)\<lparr>total_presents := total_presents (metrics c) + 1\<rparr>,
       max_present_ticks := (if elapsed > max_present_ticks c then elapsed else max_present_ticks c)\<rparr>"

definition gui_compositor_note_idle_resume :: "u32 \<Rightarrow> compositor_state \<Rightarrow> compositor_state" where
  "gui_compositor_note_idle_resume now c =
     c\<lparr>last_loop := now, idle_wakeups := idle_wakeups c + 1,
       metrics := (metrics c)\<lparr>total_idle_wakeups := total_idle_wakeups (metrics c) + 1\<rparr>\<rparr>"

definition gui_compositor_note_fd_wakeup :: "compositor_state \<Rightarrow> compositor_state" where
  "gui_compositor_note_fd_wakeup c =
     c\<lparr>pty_wakeups := pty_wakeups c + 1,
       metrics := (metrics c)\<lparr>total_pty_wakeups := total_pty_wakeups (metrics c) + 1\<rparr>\<rparr>"

definition gui_compositor_add_composed :: "u32 \<Rightarrow> compositor_state \<Rightarrow> compositor_state" where
  "gui_compositor_add_composed n c =
     c\<lparr>composed_pixels := composed_pixels c + n,
       metrics := (metrics c)\<lparr>total_composed_pixels := total_composed_pixels (metrics c) + n\<rparr>\<rparr>"

definition gui_compositor_add_presented :: "u32 \<Rightarrow> compositor_state \<Rightarrow> compositor_state" where
  "gui_compositor_add_presented n c =
     c\<lparr>presented_pixels := presented_pixels c + n,
       metrics := (metrics c)\<lparr>total_presented_pixels := total_presented_pixels (metrics c) + n\<rparr>\<rparr>"

definition gui_compositor_note_dirty_region :: "compositor_state \<Rightarrow> compositor_state" where
  "gui_compositor_note_dirty_region c =
     c\<lparr>dirty_regions := dirty_regions c + 1,
       metrics := (metrics c)\<lparr>total_dirty_regions := total_dirty_regions (metrics c) + 1\<rparr>\<rparr>"

definition gui_compositor_request_frame :: "u32 \<Rightarrow> bool \<Rightarrow> compositor_state \<Rightarrow> compositor_state" where
  "gui_compositor_request_frame now immediate c =
     (if immediate \<or> frame_deadline c = 0 \<or> sint (now - frame_deadline c) \<ge> 0
      then c\<lparr>frame_pending := True, frame_deadline := now\<rparr>
      else c\<lparr>frame_pending := True\<rparr>)"

definition gui_compositor_frame_due :: "u32 \<Rightarrow> compositor_state \<Rightarrow> bool" where
  "gui_compositor_frame_due now c \<longleftrightarrow> frame_pending c \<and> sint (now - frame_deadline c) \<ge> 0"

definition gui_compositor_finish_frame :: "u32 \<Rightarrow> compositor_state \<Rightarrow> compositor_state" where
  "gui_compositor_finish_frame now c = c\<lparr>frame_pending := False, frame_deadline := now + FRAME_TICKS\<rparr>"

definition gui_compositor_cancel_frame :: "compositor_state \<Rightarrow> compositor_state" where
  "gui_compositor_cancel_frame c = c\<lparr>frame_pending := False, frame_deadline := 0\<rparr>"

definition gui_compositor_set_drag_overlay :: "bool \<Rightarrow> int \<Rightarrow> int \<Rightarrow> compositor_state \<Rightarrow> compositor_state" where
  "gui_compositor_set_drag_overlay visible x y c =
     c\<lparr>overlay_visible := visible, overlay_x := x, overlay_y := y\<rparr>"

section \<open>Damage covers what was invalidated\<close>

abbreviation screen :: "int \<Rightarrow> int \<Rightarrow> (int \<times> int) set" where
  "screen w h \<equiv> pixels (gui_rect_make 0 0 w h)"

text \<open>
  The damage is within its screen, within its capacity, and the flag for a full repaint is only set
  when the whole screen is listed.
\<close>

definition damage_ok :: "int \<Rightarrow> int \<Rightarrow> gui_damage_t \<Rightarrow> bool" where
  "damage_ok w h d \<longleftrightarrow> length (d_rects d) \<le> GUI_DAMAGE_CAPACITY \<and>
     (\<forall>r \<in> set (d_rects d). rect_ok r \<and> pixels r \<subseteq> screen w h) \<and>
     (d_full d \<longrightarrow> pixels_of (d_rects d) = screen w h)"

lemma gui_rect_clip_eq:
  assumes "rect_ok r" "in_plane w" "in_plane h" "0 \<le> w" "0 \<le> h"
  shows "gui_rect_clip r w h = gui_rect_make (max 0 (rx r)) (max 0 (ry r))
    (min w (rx r + rw r) - max 0 (rx r)) (min h (ry r + rh r) - max 0 (ry r))"
  using assms unfolding gui_rect_clip_def Let_def rect_ok_def
  by (simp only: rect_okD [OF assms(1)] if_minmax i32_plane in_plane_minmax)

lemma gui_rect_clip_pixels:
  assumes "rect_ok r" "in_plane w" "in_plane h" "0 \<le> w" "0 \<le> h"
  shows "pixels (gui_rect_clip r w h) = pixels r \<inter> screen w h"
  unfolding gui_rect_clip_eq [OF assms] by (auto simp: mem_pixels)

lemma gui_rect_union_eq:
  assumes "rect_ok a" "rect_ok b"
  shows "gui_rect_union a b = gui_rect_make (min (rx a) (rx b)) (min (ry a) (ry b))
    (max (rx a + rw a) (rx b + rw b) - min (rx a) (rx b))
    (max (ry a + rh a) (ry b + rh b) - min (ry a) (ry b))"
  using assms unfolding gui_rect_union_def Let_def rect_ok_def
  by (simp only: rect_okD [OF assms(1)] rect_okD [OF assms(2)] if_minmax i32_plane in_plane_minmax)

lemma gui_rect_union_covers:
  assumes "rect_ok a" "rect_ok b"
  shows "pixels a \<union> pixels b \<subseteq> pixels (gui_rect_union a b)"
  unfolding gui_rect_union_eq [OF assms]
  by (auto simp: mem_pixels_make mem_pixels [of _ _ a] mem_pixels [of _ _ b] min_le_iff_disj less_max_iff_disj)

lemma gui_rect_union_ok: "rect_ok a \<Longrightarrow> rect_ok b \<Longrightarrow> rect_ok (gui_rect_union a b)"
  unfolding gui_rect_union_eq by (simp add: rect_ok_def gui_rect_make_def in_plane_minmax)

lemma gui_rect_clip_ok:
  "rect_ok r \<Longrightarrow> in_plane w \<Longrightarrow> in_plane h \<Longrightarrow> 0 \<le> w \<Longrightarrow> 0 \<le> h \<Longrightarrow> rect_ok (gui_rect_clip r w h)"
  unfolding gui_rect_clip_eq by (simp add: rect_ok_def gui_rect_make_def in_plane_minmax)

abbreviation dims_ok :: "int \<Rightarrow> int \<Rightarrow> bool" where
  "dims_ok w h \<equiv> in_plane w \<and> in_plane h \<and> 0 \<le> w \<and> 0 \<le> h"

lemma screen_ok: "dims_ok w h \<Longrightarrow> rect_ok (gui_rect_make 0 0 w h)"
  by (simp add: rect_ok_def in_plane_minmax)

lemma merge_first_covers:
  assumes dims: "dims_ok w h" and rect: "rect_ok rect" "pixels rect \<subseteq> screen w h"
    and rs: "\<forall>r \<in> set rs. rect_ok r \<and> pixels r \<subseteq> screen w h"
    and m: "merge_first rs rect w h = Some out"
  shows "pixels_of rs \<union> pixels rect \<subseteq> pixels_of out \<and> length out = length rs \<and>
    (\<forall>r \<in> set out. rect_ok r \<and> pixels r \<subseteq> screen w h)"
  using rs m
proof (induction rs arbitrary: out)
  case (Cons r rs)
  have r: "rect_ok r" "pixels r \<subseteq> screen w h" using Cons.prems(1) by auto
  let ?u = "gui_rect_union r rect"
  show ?case
  proof (cases "gui_rect_should_merge r rect")
    case True
    have "pixels (gui_rect_clip ?u w h) = pixels ?u \<inter> screen w h" "rect_ok (gui_rect_clip ?u w h)"
      using gui_rect_union_ok [OF r(1) rect(1)] dims by (simp_all add: gui_rect_clip_pixels gui_rect_clip_ok)
    moreover have "pixels r \<union> pixels rect \<subseteq> pixels ?u" by (rule gui_rect_union_covers [OF r(1) rect(1)])
    ultimately show ?thesis using True Cons.prems r(2) rect(2) by auto
  next
    case False
    with Cons.prems obtain out' where "merge_first rs rect w h = Some out'" "out = r # out'" by auto
    then show ?thesis using Cons.IH [of out'] Cons.prems(1) by auto
  qed
qed simp

lemma gui_damage_full_ok:
  assumes "dims_ok w h"
  shows "damage_ok w h (gui_damage_full d w h)" "pixels_of (d_rects (gui_damage_full d w h)) = screen w h"
  using screen_ok [OF assms] by (simp_all add: damage_ok_def gui_damage_full_def GUI_DAMAGE_CAPACITY_def)

lemma damage_ok_inside: "damage_ok w h d \<Longrightarrow> pixels_of (d_rects d) \<subseteq> screen w h"
  by (auto simp: damage_ok_def pixels_of_def)

lemma gui_damage_add_covers:
  assumes dims: "dims_ok w h" and d: "damage_ok w h d" and r: "rect_ok rect"
  defines "d' \<equiv> gui_damage_add d rect w h"
  shows "damage_ok w h d' \<and> pixels_of (d_rects d) \<union> (pixels rect \<inter> screen w h) \<subseteq> pixels_of (d_rects d')"
proof (cases "d_full d")
  case True
  then show ?thesis using d damage_ok_inside [OF d] by (auto simp: d'_def gui_damage_add_def damage_ok_def)
next
  case False
  let ?r = "gui_rect_clip rect w h"
  have cr: "rect_ok ?r" "pixels ?r = pixels rect \<inter> screen w h"
    using dims r by (simp_all add: gui_rect_clip_ok gui_rect_clip_pixels)
  have rs: "\<forall>r \<in> set (d_rects d). rect_ok r \<and> pixels r \<subseteq> screen w h" "length (d_rects d) \<le> GUI_DAMAGE_CAPACITY"
    using d by (auto simp: damage_ok_def)
  show ?thesis
  proof (cases "gui_rect_empty ?r")
    case True
    then show ?thesis using False d cr pixels_empty_iff [of ?r] by (simp add: d'_def gui_damage_add_def)
  next
    case nonempty: False
    show ?thesis
    proof (cases "merge_first (d_rects d) ?r w h")
      case (Some out)
      then show ?thesis
        using merge_first_covers [OF dims cr(1) _ rs(1) Some] cr(2) rs(2) False nonempty
        by (simp add: d'_def gui_damage_add_def damage_ok_def)
    next
      case None
      then show ?thesis
        using gui_damage_full_ok [OF dims] damage_ok_inside [OF d] False nonempty cr rs
        by (auto simp: d'_def gui_damage_add_def damage_ok_def Let_def)
    qed
  qed
qed

text \<open>What the desktop asks of the compositor between two frames.\<close>

datatype gui_request = Invalidate gui_rect_t | InvalidateFull

fun gui_request_apply :: "gui_request \<Rightarrow> compositor_state \<Rightarrow> compositor_state" where
  "gui_request_apply (Invalidate r) c = gui_compositor_invalidate r c"
| "gui_request_apply InvalidateFull c = gui_compositor_invalidate_full c"

fun request_pixels :: "int \<Rightarrow> int \<Rightarrow> gui_request \<Rightarrow> (int \<times> int) set" where
  "request_pixels w h (Invalidate r) = pixels r \<inter> screen w h"
| "request_pixels w h InvalidateFull = screen w h"

fun request_ok :: "gui_request \<Rightarrow> bool" where
  "request_ok (Invalidate r) \<longleftrightarrow> rect_ok r"
| "request_ok InvalidateFull \<longleftrightarrow> True"

lemma gui_request_covers:
  assumes "dims_ok (c_width c) (c_height c)" "damage_ok (c_width c) (c_height c) (damage c)" "request_ok q"
  shows "c_width (gui_request_apply q c) = c_width c \<and> c_height (gui_request_apply q c) = c_height c \<and>
    damage_ok (c_width c) (c_height c) (damage (gui_request_apply q c)) \<and>
    pixels_of (d_rects (damage c)) \<union> request_pixels (c_width c) (c_height c) q
      \<subseteq> pixels_of (d_rects (damage (gui_request_apply q c)))"
proof (cases q)
  case (Invalidate r)
  then show ?thesis using gui_damage_add_covers [OF assms(1,2), of r] assms(3)
    by (simp add: gui_compositor_invalidate_def)
next
  case InvalidateFull
  then show ?thesis using gui_damage_full_ok [OF assms(1)] damage_ok_inside [OF assms(2)]
    by (simp add: gui_compositor_invalidate_full_def)
qed

text \<open>
  C26: Damage is never lost. Whatever rectangles are invalidated between two frames, in any order and however
  the compositor merges, clips or gives up and repaints everything, the damage list keeps its invariant
  and covers every screen pixel that was damaged before or that a request named.
\<close>
theorem gui_compositor_damage_covers:
  assumes "dims_ok (c_width c) (c_height c)" "damage_ok (c_width c) (c_height c) (damage c)"
    "list_all request_ok qs" "c' = fold gui_request_apply qs c"
  shows "damage_ok (c_width c) (c_height c) (damage c') \<and>
    pixels_of (d_rects (damage c)) \<union> \<Union> (request_pixels (c_width c) (c_height c) ` set qs)
      \<subseteq> pixels_of (d_rects (damage c'))"
  using assms
proof (induction qs arbitrary: c)
  case (Cons q qs)
  note q = gui_request_covers [OF Cons.prems(1,2), of q]
  have "damage_ok (c_width c) (c_height c) (damage c') \<and>
      pixels_of (d_rects (damage (gui_request_apply q c))) \<union> \<Union> (request_pixels (c_width c) (c_height c) ` set qs)
      \<subseteq> pixels_of (d_rects (damage c'))"
    using Cons.IH [of "gui_request_apply q c"] Cons.prems q by simp
  with q Cons.prems(3) show ?case by auto
qed simp

theorem gui_compositor_damage_covers_witness:
  "damage_ok 640 480 (damage (fold gui_request_apply
       [Invalidate (gui_rect_make 10 10 20 20), Invalidate (gui_rect_make 600 400 90 90)]
       (gui_compositor_init 640 480 0)))"
  using gui_compositor_damage_covers [of "gui_compositor_init 640 480 0"
      "[Invalidate (gui_rect_make 10 10 20 20), Invalidate (gui_rect_make 600 400 90 90)]"]
  by (simp add: gui_compositor_init_def in_plane_def damage_ok_def rect_ok_def)

section \<open>Frame pacing\<close>

text \<open>
  A requested frame becomes due no later than one frame period after the last one, and an immediate
  request is due at once; before that moment a frame is never due.
\<close>

lemma FRAME_TICKS_value: "FRAME_TICKS = 5"
  by (simp add: FRAME_TICKS_def SMALLOS_TIMER_HZ_def FRAME_FPS_def)

lemma gui_compositor_immediate_due: "gui_compositor_frame_due now (gui_compositor_request_frame now True c)"
  by (simp add: gui_compositor_frame_due_def gui_compositor_request_frame_def)

lemma gui_compositor_frame_spacing:
  assumes "now + FRAME_TICKS \<noteq> 0" "d < FRAME_TICKS" "e \<le> d"
  shows "\<not> gui_compositor_frame_due (now + d)
    (gui_compositor_request_frame (now + e) False (gui_compositor_finish_frame now c))"
proof -
  have neg: "\<not> sint (now + x - (now + FRAME_TICKS)) \<ge> 0" if "x < FRAME_TICKS" for x
  proof -
    have "x = 0 \<or> x = 1 \<or> x = 2 \<or> x = 3 \<or> x = 4"
      using that unfolding FRAME_TICKS_value by (simp add: word_less_nat_alt word_unat_eq_iff) linarith
    then show ?thesis by (auto simp: FRAME_TICKS_value)
  qed
  have e: "e < FRAME_TICKS" using assms(2,3) by simp
  show ?thesis
    using assms(1) neg [OF assms(2)] neg [OF e]
    by (simp add: gui_compositor_frame_due_def gui_compositor_request_frame_def gui_compositor_finish_frame_def)
qed

lemma gui_compositor_frame_after_period:
  "gui_compositor_frame_due (now + FRAME_TICKS)
     (gui_compositor_request_frame now False (gui_compositor_finish_frame now c))"
proof -
  have "sint (- now) \<ge> 0" if "now + 5 = 0"
  proof -
    from that have "- now = 5" by (metis add.commute minus_unique)
    then show ?thesis by simp
  qed
  then show ?thesis
    by (simp add: gui_compositor_frame_due_def gui_compositor_request_frame_def gui_compositor_finish_frame_def
        FRAME_TICKS_value)
qed

end
