(* ===== verification/Gui_Canvas.thy ===== *)
theory Gui_Canvas
  imports Gui_Region
begin

text \<open>
  Drawing (\<^verbatim>\<open>src/user/gui/canvas.c\<close>, \<^verbatim>\<open>client_surface.c\<close>, \<^verbatim>\<open>cursor.c\<close>): pixels, filled rectangles, lines and
  the mouse cursor, written to a surface under the canvas's clip rectangle, and the surface a window draws
  its client area on. Pixel memory is a function from the address of a pixel to its colour; a surface's
  \<^verbatim>\<open>pixels\<close> pointer is such an address, \<open>None\<close> when it is null. The clip statics are the record
  \<open>canvas\<close>.
\<close>

section \<open>The canvas\<close>

type_synonym pixel_mem = "nat \<Rightarrow> u32"

record gfx_surface_t =
  s_width :: u32
  s_height :: u32
  s_pitch :: u32
  s_pixels :: "nat option"

record canvas =
  canvas_clip_rect :: gui_rect_t
  canvas_clip_enabled :: bool


definition gui_canvas_clear_clip :: "canvas \<Rightarrow> canvas" where
  "gui_canvas_clear_clip cv = cv\<lparr>canvas_clip_enabled := False\<rparr>"


text \<open>The inner loop writes \<open>n\<close> pixels from \<open>row\<close> on, the outer one does so for each line.\<close>

definition fill_row :: "nat \<Rightarrow> nat \<Rightarrow> u32 \<Rightarrow> pixel_mem \<Rightarrow> pixel_mem" where
  "fill_row row n color mem = fold (\<lambda>k m. m(row + k := color)) [0..<n] mem"

definition gui_canvas_fill_rect ::
    "canvas \<Rightarrow> gfx_surface_t \<Rightarrow> int \<Rightarrow> int \<Rightarrow> int \<Rightarrow> int \<Rightarrow> u32 \<Rightarrow> pixel_mem \<Rightarrow> pixel_mem" where
  "gui_canvas_fill_rect cv s x y w h color mem =
     (case s_pixels s of
        None \<Rightarrow> mem
      | Some base \<Rightarrow>
          if w \<le> 0 \<or> h \<le> 0 then mem
          else
            let x0 = (if x < 0 then 0 else x);
                y0 = (if y < 0 then 0 else y);
                x1 = (if i32 (x + w) > sint (s_width s) then sint (s_width s) else i32 (x + w));
                y1 = (if i32 (y + h) > sint (s_height s) then sint (s_height s) else i32 (y + h));
                c = canvas_clip_rect cv;
                on = canvas_clip_enabled cv;
                x0 = (if on \<and> x0 < rx c then rx c else x0);
                y0 = (if on \<and> y0 < ry c then ry c else y0);
                x1 = (if on \<and> x1 > i32 (rx c + rw c) then i32 (rx c + rw c) else x1);
                y1 = (if on \<and> y1 > i32 (ry c + rh c) then i32 (ry c + rh c) else y1)
            in if x1 \<le> x0 \<or> y1 \<le> y0 then mem
               else fold (\<lambda>py m. fill_row (base + unat (word_of_int py * s_pitch s) + unat (word_of_int x0 :: u32))
                                   (nat (x1 - x0)) color m)
                      [y0..y1 - 1] mem)"




section \<open>The cursor\<close>

definition GUI_CURSOR_WIDTH :: int where "GUI_CURSOR_WIDTH = 9"
definition GUI_CURSOR_HEIGHT :: int where "GUI_CURSOR_HEIGHT = 12"

definition gui_cursor_rect :: "int \<Rightarrow> int \<Rightarrow> gui_rect_t" where
  "gui_cursor_rect x y = gui_rect_make x y GUI_CURSOR_WIDTH GUI_CURSOR_HEIGHT"



section \<open>Client surfaces\<close>


definition gui_client_pointer :: "gui_rect_t \<Rightarrow> int \<Rightarrow> int \<Rightarrow> int \<times> int" where
  "gui_client_pointer client_screen screen_x screen_y =
     (let x = i32 (screen_x - rx client_screen);
          y = i32 (screen_y - ry client_screen)
      in if x < 0 \<or> y < 0 \<or> x \<ge> rw client_screen \<or> y \<ge> rh client_screen then (- 1, - 1) else (x, y))"

section \<open>Addresses of pixels\<close>

definition pixel_addr :: "gfx_surface_t \<Rightarrow> int \<times> int \<Rightarrow> nat" where
  "pixel_addr s p = the (s_pixels s) + (nat (snd p) * unat (s_pitch s) + nat (fst p))"

text \<open>The pixels a canvas lets through to a surface, and when drawing on them cannot wrap around.\<close>

definition canvas_pixels :: "canvas \<Rightarrow> gfx_surface_t \<Rightarrow> (int \<times> int) set" where
  "canvas_pixels cv s = {0..<sint (s_width s)} \<times> {0..<sint (s_height s)} \<inter>
     (if canvas_clip_enabled cv then pixels (canvas_clip_rect cv) else UNIV)"

definition draw_ok :: "canvas \<Rightarrow> gfx_surface_t \<Rightarrow> bool" where
  "draw_ok cv s \<longleftrightarrow> s_pixels s \<noteq> None \<and> (canvas_clip_enabled cv \<longrightarrow> rect_ok (canvas_clip_rect cv)) \<and>
     (\<forall>p \<in> canvas_pixels cv s. nat (snd p) * unat (s_pitch s) + nat (fst p) < 4294967296)"

text \<open>Drawing one colour on a set of pixels.\<close>

definition paint :: "gfx_surface_t \<Rightarrow> (int \<times> int) set \<Rightarrow> u32 \<Rightarrow> pixel_mem \<Rightarrow> pixel_mem" where
  "paint s P color mem = (\<lambda>a. if a \<in> pixel_addr s ` P then color else mem a)"

lemma paint_empty [simp]: "paint s {} color mem = mem"
  by (simp add: paint_def)

lemma canvas_pixels_range:
  assumes "(x, y) \<in> canvas_pixels cv s"
  shows "0 \<le> x" "0 \<le> y" "x < 2147483648" "y < 2147483648"
  using assms sint_less [of "s_width s"] sint_less [of "s_height s"] by (auto simp: canvas_pixels_def)

lemma unat_coord: "0 \<le> x \<Longrightarrow> x < 2147483648 \<Longrightarrow> unat (word_of_int x :: u32) = nat x"
  by (simp add: unat_eq_nat_uint uint_word_of_int)

lemma pixel_index:
  assumes "draw_ok cv s" and p: "(x, y) \<in> canvas_pixels cv s"
  shows "unat (word_of_int y * s_pitch s) = nat y * unat (s_pitch s)"
    "unat (word_of_int y * s_pitch s + word_of_int x) = nat y * unat (s_pitch s) + nat x"
proof -
  note r = canvas_pixels_range [OF p]
  have b: "nat y * unat (s_pitch s) + nat x < 4294967296" using assms by (auto simp: draw_ok_def)
  show m: "unat (word_of_int y * s_pitch s) = nat y * unat (s_pitch s)"
    using b r by (simp add: unat_mult_u32 unat_coord)
  show "unat (word_of_int y * s_pitch s + word_of_int x) = nat y * unat (s_pitch s) + nat x"
    using b r by (simp add: unat_add_u32 unat_coord m)
qed


lemma fill_row_eq: "fill_row row n color mem = (\<lambda>a. if row \<le> a \<and> a < row + n then color else mem a)"
  by (induction n) (auto simp: fill_row_def fun_eq_iff)

lemma fold_fill_row:
  "fold (\<lambda>py m. fill_row (f py) n color m) ys mem =
     (\<lambda>a. if \<exists>py \<in> set ys. f py \<le> a \<and> a < f py + n then color else mem a)"
  by (induction ys arbitrary: mem) (auto simp: fill_row_eq fun_eq_iff)

lemma fill_box_paint:
  assumes ok: "draw_ok cv s" and base: "s_pixels s = Some base" and box: "{x0..<x1} \<times> {y0..<y1} \<subseteq> canvas_pixels cv s"
    and ne: "x0 < x1" "y0 < y1"
  shows "fold (\<lambda>py m. fill_row (base + unat (word_of_int py * s_pitch s) + unat (word_of_int x0 :: u32))
           (nat (x1 - x0)) color m) [y0..y1 - 1] mem = paint s ({x0..<x1} \<times> {y0..<y1}) color mem"
proof -
  have row: "unat (word_of_int py * s_pitch s) = nat py * unat (s_pitch s)"
    "unat (word_of_int x0 :: u32) = nat x0" "0 \<le> py" "0 \<le> x0" if "py \<in> {y0..<y1}" for py
  proof -
    have p: "(x0, py) \<in> canvas_pixels cv s" using box that ne by auto
    show "unat (word_of_int py * s_pitch s) = nat py * unat (s_pitch s)" by (rule pixel_index(1) [OF ok p])
    show "unat (word_of_int x0 :: u32) = nat x0" "0 \<le> py" "0 \<le> x0"
      using canvas_pixels_range [OF p] by (simp_all add: unat_coord)
  qed
  have "(\<exists>py \<in> set [y0..y1 - 1]. base + unat (word_of_int py * s_pitch s) + unat (word_of_int x0 :: u32) \<le> a \<and>
      a < base + unat (word_of_int py * s_pitch s) + unat (word_of_int x0 :: u32) + nat (x1 - x0))
    \<longleftrightarrow> (\<exists>py \<in> {y0..<y1}. base + nat py * unat (s_pitch s) + nat x0 \<le> a \<and>
      a < base + nat py * unat (s_pitch s) + nat x0 + nat (x1 - x0))" for a
    using row by auto
  also have "\<dots> a \<longleftrightarrow> a \<in> pixel_addr s ` ({x0..<x1} \<times> {y0..<y1})" for a
  proof
    assume "\<exists>py \<in> {y0..<y1}. base + nat py * unat (s_pitch s) + nat x0 \<le> a \<and>
      a < base + nat py * unat (s_pitch s) + nat x0 + nat (x1 - x0)"
    then obtain py where py: "py \<in> {y0..<y1}" "base + nat py * unat (s_pitch s) + nat x0 \<le> a"
      "a < base + nat py * unat (s_pitch s) + nat x0 + nat (x1 - x0)" by blast
    define R where "R = nat py * unat (s_pitch s)"
    define px where "px = int (a - (base + R))"
    have "px \<in> {x0..<x1}" "a = base + (R + nat px)"
      using py(2,3) row(4) [OF py(1)] unfolding px_def R_def [symmetric] by auto
    then have "px \<in> {x0..<x1}" "a = pixel_addr s (px, py)" by (simp_all add: pixel_addr_def base R_def)
    with py(1) show "a \<in> pixel_addr s ` ({x0..<x1} \<times> {y0..<y1})" by blast
  next
    assume "a \<in> pixel_addr s ` ({x0..<x1} \<times> {y0..<y1})"
    then obtain px py where "px \<in> {x0..<x1}" "py \<in> {y0..<y1}" "a = pixel_addr s (px, py)" by auto
    then show "\<exists>py \<in> {y0..<y1}. base + nat py * unat (s_pitch s) + nat x0 \<le> a \<and>
      a < base + nat py * unat (s_pitch s) + nat x0 + nat (x1 - x0)"
      using row(4) [of py] by (intro bexI [of _ py]) (auto simp: pixel_addr_def base)
  qed
  finally show ?thesis unfolding fold_fill_row paint_def by simp
qed

lemma clip_interval:
  fixes x0 x1 l r :: int
  shows "{(if on \<and> x0 < l then l else x0)..<(if on \<and> r < x1 then r else x1)} =
    {x0..<x1} \<inter> (if on then {l..<r} else UNIV)"
  by auto

lemma surface_interval:
  fixes x b w :: int
  shows "{(if x < 0 then 0 else x)..<(if w < b then w else b)} = {x..<b} \<inter> {0..<w}"
  by auto

lemma gui_canvas_fill_rect_paint:
  assumes ok: "draw_ok cv s"
  shows "gui_canvas_fill_rect cv s x y w h color mem =
    paint s (if w \<le> 0 \<or> h \<le> 0 then {}
      else {x..<i32 (x + w)} \<times> {y..<i32 (y + h)} \<inter> canvas_pixels cv s) color mem"
proof (cases "w \<le> 0 \<or> h \<le> 0")
  case True
  then show ?thesis by (auto simp: gui_canvas_fill_rect_def split: option.split)
next
  case False
  obtain base where base: "s_pixels s = Some base" using ok by (auto simp: draw_ok_def)
  define on c where "on = canvas_clip_enabled cv" and "c = canvas_clip_rect cv"
  define x0 where "x0 = (if on \<and> (if x < 0 then 0 else x) < rx c then rx c else (if x < 0 then 0 else x))"
  define y0 where "y0 = (if on \<and> (if y < 0 then 0 else y) < ry c then ry c else (if y < 0 then 0 else y))"
  define x1 where "x1 = (let x1 = (if i32 (x + w) > sint (s_width s) then sint (s_width s) else i32 (x + w))
    in if on \<and> x1 > i32 (rx c + rw c) then i32 (rx c + rw c) else x1)"
  define y1 where "y1 = (let y1 = (if i32 (y + h) > sint (s_height s) then sint (s_height s) else i32 (y + h))
    in if on \<and> y1 > i32 (ry c + rh c) then i32 (ry c + rh c) else y1)"
  have clip: "on \<Longrightarrow> i32 (rx c + rw c) = rx c + rw c \<and> i32 (ry c + rh c) = ry c + rh c"
    using ok by (simp add: draw_ok_def on_def c_def rect_okD)
  have box: "{x0..<x1} \<times> {y0..<y1} = {x..<i32 (x + w)} \<times> {y..<i32 (y + h)} \<inter> canvas_pixels cv s"
    unfolding x0_def x1_def y0_def y1_def Let_def clip_interval surface_interval
    using clip by (cases on) (auto simp: canvas_pixels_def pixels_eq simp flip: on_def c_def)
  have "gui_canvas_fill_rect cv s x y w h color mem =
    (if x1 \<le> x0 \<or> y1 \<le> y0 then mem
     else fold (\<lambda>py m. fill_row (base + unat (word_of_int py * s_pitch s) + unat (word_of_int x0 :: u32))
       (nat (x1 - x0)) color m) [y0..y1 - 1] mem)"
    using False unfolding gui_canvas_fill_rect_def base x0_def x1_def y0_def y1_def on_def c_def Let_def by simp
  also have "\<dots> = paint s ({x0..<x1} \<times> {y0..<y1}) color mem"
    using fill_box_paint [OF ok base, of x0 x1 y0 y1] box by auto
  finally show ?thesis using False box by simp
qed

section \<open>Drawing is exact and confined\<close>

text \<open>
  C27: Filling a rectangle paints exactly the pixels that lie in the rectangle, on the surface and inside
  the clip rectangle, and leaves every other cell of memory alone.
\<close>
theorem gui_canvas_fill_rect_exact:
  assumes "draw_ok cv s" "rect_ok (gui_rect_make x y w h)"
  shows "gui_canvas_fill_rect cv s x y w h color mem =
    (\<lambda>a. if a \<in> pixel_addr s ` (pixels (gui_rect_make x y w h) \<inter> canvas_pixels cv s) then color else mem a)"
proof -
  have "(if w \<le> 0 \<or> h \<le> 0 then {} else {x..<i32 (x + w)} \<times> {y..<i32 (y + h)} \<inter> canvas_pixels cv s) =
      pixels (gui_rect_make x y w h) \<inter> canvas_pixels cv s"
    using rect_okD [OF assms(2)] by (auto simp: pixels_make)
  then show ?thesis using gui_canvas_fill_rect_paint [OF assms(1)] by (simp add: paint_def)
qed

definition example_canvas :: canvas where
  "example_canvas = \<lparr>canvas_clip_rect = gui_rect_make 1 0 2 4, canvas_clip_enabled = True\<rparr>"

definition example_surface :: gfx_surface_t where
  "example_surface = \<lparr>s_width = 4, s_height = 4, s_pitch = 10, s_pixels = Some 0\<rparr>"

lemma example_draw_ok: "draw_ok example_canvas example_surface"
proof -
  have "nat y * 10 + nat x < 4294967296" if "x < 4" "y < 4" for x y :: int
    using that by auto
  then show ?thesis
    by (auto simp: draw_ok_def example_canvas_def example_surface_def canvas_pixels_def rect_ok_def in_plane_def)
qed

theorem gui_canvas_fill_rect_exact_witness:
  "gui_canvas_fill_rect example_canvas example_surface 0 1 3 1 7 (\<lambda>_. 0) 11 = 7 \<and>
   gui_canvas_fill_rect example_canvas example_surface 0 1 3 1 7 (\<lambda>_. 0) 10 = 0"
proof -
  have "11 = pixel_addr example_surface (1, 1)" by (simp add: pixel_addr_def example_surface_def)
  moreover have "(1, 1) \<in> pixels (gui_rect_make 0 1 3 1) \<inter> canvas_pixels example_canvas example_surface"
    by (simp add: mem_pixels canvas_pixels_def example_canvas_def example_surface_def)
  ultimately have in11: "11 \<in> pixel_addr example_surface `
      (pixels (gui_rect_make 0 1 3 1) \<inter> canvas_pixels example_canvas example_surface)" by blast
  have out10: "10 \<notin> pixel_addr example_surface `
      (pixels (gui_rect_make 0 1 3 1) \<inter> canvas_pixels example_canvas example_surface)"
    by (auto simp: mem_pixels canvas_pixels_def example_canvas_def example_surface_def pixel_addr_def)
  show ?thesis
    using in11 out10
    by (simp add: gui_canvas_fill_rect_exact [OF example_draw_ok, of 0 1 3 1] rect_ok_def in_plane_def)
qed





















end
