(* ===== verification/Gui_Window.thy ===== *)
theory Gui_Window
  imports Gui_Region
begin

text \<open>
  The window manager of the desktop (\<^verbatim>\<open>src/user/gui/window.c\<close>, \<^verbatim>\<open>window_manager.c\<close>) and the registry of
  applications (\<^verbatim>\<open>app_registry.c\<close>). The statics are the record \<open>wm\<close>; a window pointer is the index of
  its slot in \<^verbatim>\<open>g_windows\<close>, \<open>None\<close> being the null pointer; the stacking order is the list of the
  first \<^verbatim>\<open>count\<close> entries of the order array, bottom first; a title is the string before its terminator.
\<close>

section \<open>The stacking order\<close>

definition GUI_WINDOW_CAPACITY :: nat where "GUI_WINDOW_CAPACITY = 8"
definition GUI_WINDOW_TITLE_CAPACITY :: nat where "GUI_WINDOW_TITLE_CAPACITY = 64"

type_synonym gui_window_stack_t = "int list"

definition gui_window_stack_init :: gui_window_stack_t where
  "gui_window_stack_init = []"

definition gui_window_stack_remove :: "gui_window_stack_t \<Rightarrow> int \<Rightarrow> gui_window_stack_t" where
  "gui_window_stack_remove stack window_id = filter (\<lambda>w. w \<noteq> window_id) stack"

definition gui_window_stack_raise :: "gui_window_stack_t \<Rightarrow> int \<Rightarrow> gui_window_stack_t" where
  "gui_window_stack_raise stack window_id =
     (let stack = gui_window_stack_remove stack window_id in
      if length stack < GUI_WINDOW_CAPACITY then stack @ [window_id] else stack)"

definition gui_window_stack_top :: "gui_window_stack_t \<Rightarrow> int" where
  "gui_window_stack_top stack = (if stack = [] then - 1 else stack ! (length stack - 1))"

definition gui_window_stack_at :: "gui_window_stack_t \<Rightarrow> int \<Rightarrow> int" where
  "gui_window_stack_at stack position =
     (if position < 0 \<or> position \<ge> int (length stack) then - 1 else stack ! nat position)"

section \<open>Windows\<close>

record gui_window =
  w_active :: bool
  w_minimized :: bool
  w_maximized :: bool
  w_type :: nat
  w_x :: int
  w_y :: int
  w_w :: int
  w_h :: int
  restore_x :: int
  restore_y :: int
  restore_w :: int
  restore_h :: int
  w_title :: string
  w_state :: u32
  focused_widget :: int
  pressed_widget :: int
  next_tick :: u32

definition zero_window :: gui_window where
  "zero_window =
     \<lparr>w_active = False, w_minimized = False, w_maximized = False, w_type = 0, w_x = 0, w_y = 0, w_w = 0,
      w_h = 0, restore_x = 0, restore_y = 0, restore_w = 0, restore_h = 0, w_title = '''', w_state = 0,
      focused_widget = 0, pressed_widget = 0, next_tick = 0\<rparr>"

record wm =
  g_windows :: "gui_window list"
  g_stack :: gui_window_stack_t
  g_focused_window :: int

type_synonym window_ptr = "nat option"

definition gui_wm_init :: wm where
  "gui_wm_init = \<lparr>g_windows = replicate GUI_WINDOW_CAPACITY zero_window, g_stack = gui_window_stack_init,
     g_focused_window = - 1\<rparr>"

definition gui_wm_at :: "int \<Rightarrow> window_ptr" where
  "gui_wm_at index = (if index \<ge> 0 \<and> index < int GUI_WINDOW_CAPACITY then Some (nat index) else None)"

definition gui_wm_index :: "window_ptr \<Rightarrow> int" where
  "gui_wm_index window =
     (case window of None \<Rightarrow> - 1 | Some i \<Rightarrow> if i \<ge> GUI_WINDOW_CAPACITY then - 1 else int i)"

text \<open>Changing the window a pointer designates; a null pointer changes nothing.\<close>

definition on_window :: "window_ptr \<Rightarrow> (gui_window \<Rightarrow> gui_window) \<Rightarrow> wm \<Rightarrow> wm" where
  "on_window window f s =
     (case window of None \<Rightarrow> s | Some i \<Rightarrow> s\<lparr>g_windows := (g_windows s)[i := f (g_windows s ! i)]\<rparr>)"

definition gui_wm_reset :: "window_ptr \<Rightarrow> wm \<Rightarrow> wm" where
  "gui_wm_reset window = on_window window (\<lambda>_. zero_window)"

fun free_slot :: "nat list \<Rightarrow> wm \<Rightarrow> nat option" where
  "free_slot [] s = None"
| "free_slot (i # is) s = (if \<not> w_active (g_windows s ! i) then Some i else free_slot is s)"

definition gui_wm_allocate :: "wm \<Rightarrow> window_ptr \<times> wm" where
  "gui_wm_allocate s =
     (case free_slot [0..<GUI_WINDOW_CAPACITY] s of
        None \<Rightarrow> (None, s)
      | Some i \<Rightarrow>
          let s = gui_wm_reset (Some i) s;
              s = on_window (Some i) (\<lambda>w. w\<lparr>w_active := True\<rparr>) s;
              s = s\<lparr>g_stack := gui_window_stack_raise (g_stack s) (int i)\<rparr>
          in (Some i, s))"

definition gui_wm_remove :: "window_ptr \<Rightarrow> wm \<Rightarrow> wm" where
  "gui_wm_remove window s =
     (let index = gui_wm_index window in
      if index < 0 then s
      else
        let s = s\<lparr>g_stack := gui_window_stack_remove (g_stack s) index\<rparr>;
            s = on_window window (\<lambda>w. w\<lparr>w_active := False\<rparr>) s
        in if g_focused_window s = index then s\<lparr>g_focused_window := - 1\<rparr> else s)"

definition gui_wm_active :: "window_ptr \<Rightarrow> wm \<Rightarrow> bool" where
  "gui_wm_active w s = (case w of None \<Rightarrow> False | Some i \<Rightarrow> w_active (g_windows s ! i))"

definition gui_wm_minimized :: "window_ptr \<Rightarrow> wm \<Rightarrow> bool" where
  "gui_wm_minimized w s = (case w of None \<Rightarrow> False | Some i \<Rightarrow> w_minimized (g_windows s ! i))"

definition gui_wm_raise :: "window_ptr \<Rightarrow> wm \<Rightarrow> wm" where
  "gui_wm_raise window s =
     (let index = gui_wm_index window in
      if index \<ge> 0 \<and> gui_wm_active window s
      then s\<lparr>g_stack := gui_window_stack_raise (g_stack s) index\<rparr> else s)"

text \<open>The two searches run down the stack from its top: position \<open>n - 1\<close> to \<open>0\<close>.\<close>

fun stack_search :: "(window_ptr \<Rightarrow> bool) \<Rightarrow> gui_window_stack_t \<Rightarrow> nat \<Rightarrow> window_ptr" where
  "stack_search P stack 0 = None"
| "stack_search P stack (Suc i) =
     (let window = gui_wm_at (gui_window_stack_at stack (int i)) in
      if window \<noteq> None \<and> P window then window else stack_search P stack i)"

definition gui_wm_top :: "wm \<Rightarrow> window_ptr" where
  "gui_wm_top s =
     stack_search (\<lambda>window. gui_wm_active window s \<and> \<not> gui_wm_minimized window s)
       (g_stack s) (length (g_stack s))"

definition window_contains :: "gui_window \<Rightarrow> int \<Rightarrow> int \<Rightarrow> bool" where
  "window_contains w x y \<longleftrightarrow> x \<ge> w_x w \<and> x < i32 (w_x w + w_w w) \<and> y \<ge> w_y w \<and> y < i32 (w_y w + w_h w)"

definition gui_wm_hit :: "int \<Rightarrow> int \<Rightarrow> wm \<Rightarrow> window_ptr" where
  "gui_wm_hit x y s =
     stack_search (\<lambda>window. gui_wm_active window s \<and> \<not> gui_wm_minimized window s \<and>
         (case window of None \<Rightarrow> False | Some i \<Rightarrow> window_contains (g_windows s ! i) x y))
       (g_stack s) (length (g_stack s))"

definition gui_wm_stack_at :: "int \<Rightarrow> wm \<Rightarrow> window_ptr" where
  "gui_wm_stack_at position s = gui_wm_at (gui_window_stack_at (g_stack s) position)"

definition gui_wm_set_focused_window :: "int \<Rightarrow> wm \<Rightarrow> wm" where
  "gui_wm_set_focused_window index s =
     s\<lparr>g_focused_window := (if index \<ge> - 1 \<and> index < int GUI_WINDOW_CAPACITY then index else - 1)\<rparr>"

definition gui_wm_set_active :: "window_ptr \<Rightarrow> bool \<Rightarrow> wm \<Rightarrow> wm" where
  "gui_wm_set_active w v = on_window w (\<lambda>w. w\<lparr>w_active := v\<rparr>)"

definition gui_wm_set_minimized :: "window_ptr \<Rightarrow> bool \<Rightarrow> wm \<Rightarrow> wm" where
  "gui_wm_set_minimized w v = on_window w (\<lambda>w. w\<lparr>w_minimized := v\<rparr>)"

definition gui_wm_set_maximized :: "window_ptr \<Rightarrow> bool \<Rightarrow> wm \<Rightarrow> wm" where
  "gui_wm_set_maximized w v = on_window w (\<lambda>w. w\<lparr>w_maximized := v\<rparr>)"

definition gui_wm_set_app_id :: "window_ptr \<Rightarrow> nat \<Rightarrow> wm \<Rightarrow> wm" where
  "gui_wm_set_app_id w i = on_window w (\<lambda>w. w\<lparr>w_type := i\<rparr>)"

definition gui_wm_set_geometry :: "window_ptr \<Rightarrow> int \<Rightarrow> int \<Rightarrow> int \<Rightarrow> int \<Rightarrow> wm \<Rightarrow> wm" where
  "gui_wm_set_geometry w x y width height =
     on_window w (\<lambda>w. w\<lparr>w_x := x, w_y := y, w_w := width, w_h := height\<rparr>)"

definition gui_wm_set_restore_geometry :: "window_ptr \<Rightarrow> int \<Rightarrow> int \<Rightarrow> int \<Rightarrow> int \<Rightarrow> wm \<Rightarrow> wm" where
  "gui_wm_set_restore_geometry w x y width height =
     on_window w (\<lambda>w. w\<lparr>restore_x := x, restore_y := y, restore_w := width, restore_h := height\<rparr>)"

definition gui_wm_set_title :: "window_ptr \<Rightarrow> string option \<Rightarrow> wm \<Rightarrow> wm" where
  "gui_wm_set_title w title =
     on_window w (\<lambda>w. w\<lparr>w_title := take (GUI_WINDOW_TITLE_CAPACITY - 1)
       (case title of None \<Rightarrow> '''' | Some t \<Rightarrow> t)\<rparr>)"

definition gui_wm_set_state :: "window_ptr \<Rightarrow> u32 \<Rightarrow> wm \<Rightarrow> wm" where
  "gui_wm_set_state w st = on_window w (\<lambda>w. w\<lparr>w_state := st\<rparr>)"

definition gui_wm_set_focused_control :: "window_ptr \<Rightarrow> int \<Rightarrow> wm \<Rightarrow> wm" where
  "gui_wm_set_focused_control w c = on_window w (\<lambda>w. w\<lparr>focused_widget := c\<rparr>)"

definition gui_wm_set_captured_control :: "window_ptr \<Rightarrow> int \<Rightarrow> wm \<Rightarrow> wm" where
  "gui_wm_set_captured_control w c = on_window w (\<lambda>w. w\<lparr>pressed_widget := c\<rparr>)"

definition gui_wm_set_deadline :: "window_ptr \<Rightarrow> u32 \<Rightarrow> wm \<Rightarrow> wm" where
  "gui_wm_set_deadline w d = on_window w (\<lambda>w. w\<lparr>next_tick := d\<rparr>)"

section \<open>The registry of applications\<close>

record gui_app_descriptor_t =
  app_title :: "string option"
  app_id :: nat
  launcher_order :: int
  show_in_start :: bool

definition GUI_APP_REGISTRY_CAPACITY :: nat where "GUI_APP_REGISTRY_CAPACITY = 16"

type_synonym app_registry = "gui_app_descriptor_t list"

fun gui_app_registry_find :: "app_registry \<Rightarrow> nat \<Rightarrow> gui_app_descriptor_t option" where
  "gui_app_registry_find [] i = None"
| "gui_app_registry_find (d # ds) i = (if app_id d = i then Some d else gui_app_registry_find ds i)"

text \<open>
  The shifting loop: entries with a greater launcher order move up one place, starting from the end;
  the new one goes where the shifting stops.
\<close>

fun registry_insert :: "app_registry \<Rightarrow> nat \<Rightarrow> gui_app_descriptor_t \<Rightarrow> app_registry" where
  "registry_insert ds 0 d = d # ds"
| "registry_insert ds (Suc i) d =
     (if launcher_order (ds ! i) > launcher_order d then registry_insert ds i d
      else take (Suc i) ds @ d # drop (Suc i) ds)"

definition gui_app_registry_add :: "app_registry \<Rightarrow> gui_app_descriptor_t option \<Rightarrow> bool \<times> app_registry" where
  "gui_app_registry_add ds descriptor =
     (case descriptor of
        None \<Rightarrow> (False, ds)
      | Some d \<Rightarrow>
          if app_id d = 0 \<or> app_title d = None \<or> length ds \<ge> GUI_APP_REGISTRY_CAPACITY \<or>
             gui_app_registry_find ds (app_id d) \<noteq> None
          then (False, ds) else (True, registry_insert ds (length ds) d))"

definition gui_app_registry_at :: "app_registry \<Rightarrow> nat \<Rightarrow> gui_app_descriptor_t option" where
  "gui_app_registry_at ds index = (if index < length ds then Some (ds ! index) else None)"

definition gui_app_registry_launcher_count :: "app_registry \<Rightarrow> nat" where
  "gui_app_registry_launcher_count ds = fold (\<lambda>d count. if show_in_start d then Suc count else count) ds 0"

fun gui_app_registry_launcher_at :: "app_registry \<Rightarrow> nat \<Rightarrow> gui_app_descriptor_t option" where
  "gui_app_registry_launcher_at [] index = None"
| "gui_app_registry_launcher_at (d # ds) index =
     (if \<not> show_in_start d then gui_app_registry_launcher_at ds index
      else if index = 0 then Some d else gui_app_registry_launcher_at ds (index - 1))"

section \<open>The window manager's states\<close>

text \<open>The calls the desktop makes, on the window pointers it holds.\<close>

inductive wm_step :: "wm \<Rightarrow> wm \<Rightarrow> bool" where
  allocate: "gui_wm_allocate s = (w, s') \<Longrightarrow> wm_step s s'"
| remove: "wm_step s (gui_wm_remove w s)"
| raise: "wm_step s (gui_wm_raise w s)"
| focus: "wm_step s (gui_wm_set_focused_window i s)"
| minimize: "wm_step s (gui_wm_set_minimized w v s)"
| maximize: "wm_step s (gui_wm_set_maximized w v s)"
| app: "wm_step s (gui_wm_set_app_id w a s)"
| geometry: "wm_step s (gui_wm_set_geometry w x y width height s)"
| restore_geometry: "wm_step s (gui_wm_set_restore_geometry w x y width height s)"
| title: "wm_step s (gui_wm_set_title w t s)"
| app_state: "wm_step s (gui_wm_set_state w st s)"
| focus_control: "wm_step s (gui_wm_set_focused_control w c s)"
| capture_control: "wm_step s (gui_wm_set_captured_control w c s)"
| deadline: "wm_step s (gui_wm_set_deadline w d s)"

inductive wm_reachable :: "wm \<Rightarrow> bool" where
  init: "wm_reachable gui_wm_init"
| step: "wm_reachable s \<Longrightarrow> wm_step s s' \<Longrightarrow> wm_reachable s'"

text \<open>
  Every active window is stacked exactly once and nothing else is; titles are terminated inside their
  array; the focus is on a slot or on none.
\<close>

definition wm_ok :: "wm \<Rightarrow> bool" where
  "wm_ok s \<longleftrightarrow> length (g_windows s) = GUI_WINDOW_CAPACITY \<and> distinct (g_stack s) \<and>
     set (g_stack s) = int ` {i. i < GUI_WINDOW_CAPACITY \<and> w_active (g_windows s ! i)} \<and>
     (\<forall>w \<in> set (g_windows s). length (w_title w) < GUI_WINDOW_TITLE_CAPACITY) \<and>
     - 1 \<le> g_focused_window s \<and> g_focused_window s < int GUI_WINDOW_CAPACITY"

lemma wm_okD:
  assumes "wm_ok s"
  shows "length (g_windows s) = GUI_WINDOW_CAPACITY" "distinct (g_stack s)"
    "int i \<in> set (g_stack s) \<longleftrightarrow> i < GUI_WINDOW_CAPACITY \<and> w_active (g_windows s ! i)"
  using assms by (auto simp: wm_ok_def)

lemma on_window_ok:
  assumes "wm_ok s" "\<And>w. w_active (f w) = w_active w"
    "\<And>w. length (w_title w) < GUI_WINDOW_TITLE_CAPACITY \<Longrightarrow> length (w_title (f w)) < GUI_WINDOW_TITLE_CAPACITY"
  shows "wm_ok (on_window w f s)"
proof (cases w)
  case (Some i)
  show ?thesis
  proof (cases "i < GUI_WINDOW_CAPACITY")
    case True
    have "w_active ((g_windows s)[i := f (g_windows s ! i)] ! j) = w_active (g_windows s ! j)" for j
      using True wm_okD(1) [OF assms(1)] assms(2) by (simp add: nth_list_update)
    moreover have "g_windows s ! i \<in> set (g_windows s)" using True assms(1) by (simp add: wm_ok_def)
    ultimately show ?thesis
      using assms(1,3) by (auto simp: Some on_window_def wm_ok_def dest!: subsetD [OF set_update_subset_insert])
  next
    case False
    then have "on_window w f s = s"
      using wm_okD(1) [OF assms(1)] by (simp add: Some on_window_def list_update_beyond)
    then show ?thesis using assms(1) by simp
  qed
qed (simp add: on_window_def assms(1))

lemma free_slot_SomeD: "free_slot is s = Some i \<Longrightarrow> i \<in> set is \<and> \<not> w_active (g_windows s ! i)"
  by (induction "is") (auto split: if_splits)

lemma free_slot_NoneD: "free_slot is s = None \<Longrightarrow> i \<in> set is \<Longrightarrow> w_active (g_windows s ! i)"
  by (induction "is") (auto split: if_splits)

lemma stack_short:
  assumes "wm_ok s"
  shows "length (g_stack s) = card {i. i < GUI_WINDOW_CAPACITY \<and> w_active (g_windows s ! i)}"
  using assms card_image [of int "{i. i < GUI_WINDOW_CAPACITY \<and> w_active (g_windows s ! i)}"]
  by (simp add: wm_ok_def flip: distinct_card)

lemma allocate_ok:
  assumes "wm_ok s" "gui_wm_allocate s = (w, s')"
  shows "wm_ok s'"
proof (cases "free_slot [0..<GUI_WINDOW_CAPACITY] s")
  case None
  then show ?thesis using assms by (simp add: gui_wm_allocate_def)
next
  case (Some i)
  then have i: "i < GUI_WINDOW_CAPACITY" "\<not> w_active (g_windows s ! i)" using free_slot_SomeD [OF Some] by auto
  have "{j. j < GUI_WINDOW_CAPACITY \<and> w_active (g_windows s ! j)} \<subset> {..<GUI_WINDOW_CAPACITY}" using i by auto
  then have short: "length (g_stack s) < GUI_WINDOW_CAPACITY"
    using psubset_card_mono [of "{..<GUI_WINDOW_CAPACITY}"] stack_short [OF assms(1)] by simp
  have "int i \<notin> set (g_stack s)" using wm_okD(3) [OF assms(1)] i by simp
  then have keep: "filter (\<lambda>w. w \<noteq> int i) (g_stack s) = g_stack s" by (auto simp: filter_id_conv)
  have s': "s' = s\<lparr>g_windows := (g_windows s)[i := zero_window\<lparr>w_active := True\<rparr>], g_stack := g_stack s @ [int i]\<rparr>"
    using assms(2) Some short i wm_okD(1) [OF assms(1)]
    by (simp add: gui_wm_allocate_def gui_wm_reset_def on_window_def gui_window_stack_raise_def
        gui_window_stack_remove_def Let_def keep)
  have "{j. j < GUI_WINDOW_CAPACITY \<and> w_active ((g_windows s)[i := zero_window\<lparr>w_active := True\<rparr>] ! j)} =
      insert i {j. j < GUI_WINDOW_CAPACITY \<and> w_active (g_windows s ! j)}"
    using i wm_okD(1) [OF assms(1)] by (auto simp: nth_list_update)
  then show ?thesis
    using assms(1) i \<open>int i \<notin> set (g_stack s)\<close>
    by (auto simp: s' wm_ok_def zero_window_def GUI_WINDOW_TITLE_CAPACITY_def
        dest!: subsetD [OF set_update_subset_insert])
qed

lemma remove_ok:
  assumes "wm_ok s"
  shows "wm_ok (gui_wm_remove w s)"
proof (cases "gui_wm_index w < 0")
  case False
  then obtain i where w: "w = Some i" and i: "i < GUI_WINDOW_CAPACITY"
    by (auto simp: gui_wm_index_def split: option.splits if_splits)
  let ?ws = "(g_windows s)[i := (g_windows s ! i)\<lparr>w_active := False\<rparr>]"
  have act: "{j. j < GUI_WINDOW_CAPACITY \<and> w_active (?ws ! j)} =
      {j. j < GUI_WINDOW_CAPACITY \<and> w_active (g_windows s ! j)} - {i}"
    using i wm_okD(1) [OF assms] by (auto simp: nth_list_update)
  have "g_windows s ! i \<in> set (g_windows s)" using i wm_okD(1) [OF assms] by simp
  then show ?thesis
    using assms i
    by (auto simp: gui_wm_remove_def gui_wm_index_def w on_window_def gui_window_stack_remove_def wm_ok_def act
        Let_def dest!: subsetD [OF set_update_subset_insert])
qed (simp add: gui_wm_remove_def assms)

lemma raise_ok:
  assumes "wm_ok s"
  shows "wm_ok (gui_wm_raise w s)"
proof (cases "gui_wm_index w \<ge> 0 \<and> gui_wm_active w s")
  case True
  then obtain i where w: "w = Some i" and i: "i < GUI_WINDOW_CAPACITY" "w_active (g_windows s ! i)"
    by (auto simp: gui_wm_index_def gui_wm_active_def split: option.splits if_splits)
  then have on: "int i \<in> set (g_stack s)" using wm_okD(3) [OF assms] by simp
  have "length (filter (\<lambda>w. w \<noteq> int i) (g_stack s)) < length (g_stack s)"
    using on by (intro length_filter_less) auto
  also have "\<dots> \<le> GUI_WINDOW_CAPACITY"
    unfolding stack_short [OF assms] by (rule card_less_le)
  finally show ?thesis
    using assms i on
    by (auto simp: gui_wm_raise_def gui_wm_index_def w gui_wm_active_def gui_window_stack_raise_def
        gui_window_stack_remove_def Let_def wm_ok_def)
qed (auto simp: gui_wm_raise_def Let_def assms)

lemma wm_step_ok:
  assumes "wm_step s s'" "wm_ok s"
  shows "wm_ok s'"
  using assms
proof (induction rule: wm_step.induct)
  case (focus s i)
  then show ?case by (auto simp: gui_wm_set_focused_window_def wm_ok_def)
qed (auto intro: allocate_ok remove_ok raise_ok on_window_ok
    simp: gui_wm_set_minimized_def gui_wm_set_maximized_def gui_wm_set_app_id_def gui_wm_set_geometry_def
      gui_wm_set_restore_geometry_def gui_wm_set_title_def gui_wm_set_state_def gui_wm_set_focused_control_def
      gui_wm_set_captured_control_def gui_wm_set_deadline_def GUI_WINDOW_TITLE_CAPACITY_def)

lemma gui_wm_init_ok: "wm_ok gui_wm_init"
  by (auto simp: wm_ok_def gui_wm_init_def gui_window_stack_init_def zero_window_def
      GUI_WINDOW_TITLE_CAPACITY_def nth_replicate)

lemma wm_reachable_ok: "wm_reachable s \<Longrightarrow> wm_ok s"
  by (induction rule: wm_reachable.induct) (auto intro: gui_wm_init_ok wm_step_ok)

section \<open>Finding the window under the pointer\<close>

text \<open>A window shows at a point when it is open, not minimized and contains the point.\<close>

definition shows_at :: "wm \<Rightarrow> int \<Rightarrow> int \<Rightarrow> nat \<Rightarrow> bool" where
  "shows_at s x y i \<longleftrightarrow> w_active (g_windows s ! i) \<and> \<not> w_minimized (g_windows s ! i) \<and>
     window_contains (g_windows s ! i) x y"

lemma stack_search_spec:
  assumes "n \<le> length stack" "\<forall>w \<in> set stack. 0 \<le> w \<and> w < int GUI_WINDOW_CAPACITY"
  shows "case stack_search P stack n of
      None \<Rightarrow> \<forall>w \<in> set (take n stack). \<not> P (Some (nat w))
    | Some i \<Rightarrow> P (Some i) \<and> i < GUI_WINDOW_CAPACITY \<and>
        (\<exists>below above. take n stack = below @ int i # above \<and> (\<forall>w \<in> set above. \<not> P (Some (nat w))))"
  using assms(1)
proof (induction n)
  case (Suc n)
  define w where "w = stack ! n"
  have w: "0 \<le> w" "w < int GUI_WINDOW_CAPACITY" using assms(2) Suc.prems by (auto simp: w_def)
  have take: "take (Suc n) stack = take n stack @ [w]"
    using Suc.prems by (simp add: take_Suc_conv_app_nth w_def)
  have at: "gui_wm_at (gui_window_stack_at stack (int n)) = Some (nat w)"
    using Suc.prems w by (simp add: gui_window_stack_at_def gui_wm_at_def flip: w_def)
  show ?case
  proof (cases "P (Some (nat w))")
    case True
    have "\<exists>below above. take n stack @ [w] = below @ int (nat w) # above \<and>
        (\<forall>w \<in> set above. \<not> P (Some (nat w)))"
      using w by (intro exI [of _ "take n stack"] exI [of _ "[]"]) simp
    moreover have "nat w < GUI_WINDOW_CAPACITY" using w by linarith
    ultimately show ?thesis using True unfolding take by (simp add: at)
  next
    case False
    then have same: "stack_search P stack (Suc n) = stack_search P stack n" by (simp add: at)
    show ?thesis
    proof (cases "stack_search P stack n")
      case None
      then show ?thesis using Suc.IH Suc.prems False unfolding same take by simp
    next
      case (Some i)
      then obtain below above where ba: "take n stack = below @ int i # above"
        "\<forall>w \<in> set above. \<not> P (Some (nat w))" "P (Some i)" "i < GUI_WINDOW_CAPACITY"
        using Suc.IH Suc.prems by auto
      then have "take (Suc n) stack = below @ int i # (above @ [w])" unfolding take by simp
      moreover have "\<forall>w \<in> set (above @ [w]). \<not> P (Some (nat w))" using ba(2) False by simp
      ultimately have "\<exists>below above. take (Suc n) stack = below @ int i # above \<and>
          (\<forall>w \<in> set above. \<not> P (Some (nat w)))" by blast
      then show ?thesis using ba(3,4) unfolding same Some by simp
    qed
  qed
qed simp

text \<open>
  C29: The pointer always reaches the window the user sees. In every state the desktop can bring the window
  manager to, the hit test returns no window only if no open window shows at the point; otherwise it returns
  one that does, and no window stacked above it shows there.
\<close>
theorem gui_wm_hit_topmost:
  assumes "wm_reachable s"
  shows "case gui_wm_hit x y s of
      None \<Rightarrow> \<not> (\<exists>i < GUI_WINDOW_CAPACITY. shows_at s x y i)
    | Some i \<Rightarrow> i < GUI_WINDOW_CAPACITY \<and> shows_at s x y i \<and>
        (\<exists>below above. g_stack s = below @ int i # above \<and> \<not> (\<exists>w \<in> set above. shows_at s x y (nat w)))"
proof -
  let ?P = "\<lambda>window. gui_wm_active window s \<and> \<not> gui_wm_minimized window s \<and>
    (case window of None \<Rightarrow> False | Some i \<Rightarrow> window_contains (g_windows s ! i) x y)"
  have ok: "wm_ok s" using assms by (rule wm_reachable_ok)
  then have bounds: "\<forall>w \<in> set (g_stack s). 0 \<le> w \<and> w < int GUI_WINDOW_CAPACITY" by (auto simp: wm_ok_def)
  have P: "?P (Some i) = shows_at s x y i" for i
    by (simp add: shows_at_def gui_wm_active_def gui_wm_minimized_def)
  have on: "int i \<in> set (g_stack s)" if "i < GUI_WINDOW_CAPACITY" "shows_at s x y i" for i
    using that wm_okD(3) [OF ok] by (simp add: shows_at_def)
  have "case gui_wm_hit x y s of
      None \<Rightarrow> \<forall>w \<in> set (g_stack s). \<not> shows_at s x y (nat w)
    | Some i \<Rightarrow> shows_at s x y i \<and> i < GUI_WINDOW_CAPACITY \<and>
        (\<exists>below above. g_stack s = below @ int i # above \<and> (\<forall>w \<in> set above. \<not> shows_at s x y (nat w)))"
    using stack_search_spec [OF le_refl bounds, of ?P] unfolding gui_wm_hit_def P take_all [OF le_refl] .
  then show ?thesis using on by (auto split: option.splits) (metis nat_int)
qed

definition example_wm :: wm where
  "example_wm = gui_wm_set_geometry (Some 0) 0 0 10 10 (snd (gui_wm_allocate gui_wm_init))"

lemma example_wm_reachable: "wm_reachable example_wm"
  unfolding example_wm_def
  by (rule wm_reachable.step [OF wm_reachable.step [OF wm_reachable.init wm_step.allocate] wm_step.geometry])
    (rule prod.collapse [symmetric])

lemma example_wm_shows: "shows_at example_wm 3 4 0"
  by (simp add: shows_at_def example_wm_def gui_wm_set_geometry_def gui_wm_allocate_def gui_wm_init_def
      on_window_def GUI_WINDOW_CAPACITY_def zero_window_def gui_wm_reset_def window_contains_def upt_rec
      nth_Cons' Let_def numeral_eq_Suc)

theorem gui_wm_hit_topmost_witness:
  "\<exists>i. gui_wm_hit 3 4 example_wm = Some i \<and> shows_at example_wm 3 4 i"
  using gui_wm_hit_topmost [OF example_wm_reachable, of 3 4] example_wm_shows
  by (auto simp: GUI_WINDOW_CAPACITY_def split: option.splits)

section \<open>The registry\<close>

definition registry_ok :: "app_registry \<Rightarrow> bool" where
  "registry_ok ds \<longleftrightarrow> length ds \<le> GUI_APP_REGISTRY_CAPACITY \<and> distinct (map app_id ds) \<and>
     sorted (map launcher_order ds)"

lemma gui_app_registry_find_append:
  "gui_app_registry_find (l @ r) i =
     (case gui_app_registry_find l i of None \<Rightarrow> gui_app_registry_find r i | Some d \<Rightarrow> Some d)"
  by (induction l) auto

lemma gui_app_registry_find_None: "gui_app_registry_find ds i = None \<longleftrightarrow> i \<notin> app_id ` set ds"
  by (induction ds) auto

lemma registry_insert_split:
  assumes "n \<le> length ds" "sorted (map launcher_order ds)"
    "\<forall>e \<in> set (drop n ds). launcher_order d < launcher_order e"
  shows "\<exists>l r. ds = l @ r \<and> registry_insert ds n d = l @ d # r \<and>
    (\<forall>e \<in> set l. launcher_order e \<le> launcher_order d) \<and> (\<forall>e \<in> set r. launcher_order d < launcher_order e)"
  using assms(1,3)
proof (induction n)
  case 0
  then show ?case by (intro exI [of _ "[]"] exI [of _ ds]) simp
next
  case (Suc n)
  show ?case
  proof (cases "launcher_order (ds ! n) > launcher_order d")
    case True
    then have "\<forall>e \<in> set (drop n ds). launcher_order d < launcher_order e"
      using Suc.prems Cons_nth_drop_Suc [of n ds] by (metis Suc_le_eq set_ConsD)
    then show ?thesis using Suc True by simp
  next
    case False
    have "launcher_order e \<le> launcher_order d" if e: "e \<in> set (take (Suc n) ds)" for e
    proof -
      from e obtain i where i: "i < Suc n" "e = ds ! i" by (auto simp: in_set_conv_nth)
      then have "launcher_order (ds ! i) \<le> launcher_order (ds ! n)"
        using sorted_nth_mono [OF assms(2), of i n] Suc.prems(1) by simp
      with i False show ?thesis by simp
    qed
    then show ?thesis using False Suc.prems by (intro exI [of _ "take (Suc n) ds"] exI [of _ "drop (Suc n) ds"]) simp
  qed
qed

text \<open>
  Registering an application keeps the registry sorted by launcher order with one entry for each
  identifier, and the application is found under its identifier from then on while every other
  lookup is unchanged.
\<close>

lemma gui_app_registry_add_correct:
  assumes "registry_ok ds" "gui_app_registry_add ds (Some d) = (True, ds')"
  shows "registry_ok ds'"
    "gui_app_registry_find ds' i = (if i = app_id d then Some d else gui_app_registry_find ds i)"
proof -
  have fresh: "app_id d \<notin> app_id ` set ds" and room: "length ds < GUI_APP_REGISTRY_CAPACITY"
    and ds': "ds' = registry_insert ds (length ds) d"
    using assms(2) by (auto simp: gui_app_registry_add_def gui_app_registry_find_None split: if_splits)
  obtain l r where lr: "ds = l @ r" "ds' = l @ d # r" "\<forall>e \<in> set l. launcher_order e \<le> launcher_order d"
    "\<forall>e \<in> set r. launcher_order d < launcher_order e"
    using registry_insert_split [of "length ds" ds d] assms(1) ds' by (auto simp: registry_ok_def)
  show "registry_ok ds'"
    using assms(1) fresh room lr by (auto simp: registry_ok_def sorted_append less_imp_le)
  have "app_id d \<notin> app_id ` set l" using fresh lr(1) by auto
  then have "gui_app_registry_find l (app_id d) = None" by (simp add: gui_app_registry_find_None)
  then show "gui_app_registry_find ds' i = (if i = app_id d then Some d else gui_app_registry_find ds i)"
    by (auto simp: lr(1,2) gui_app_registry_find_append split: option.split)
qed

end
