(* ===== verification/Gui_Models.thy ===== *)
theory Gui_Models
  imports Gui_Region "HOL-Library.List_Lexorder" "HOL-Library.Multiset"
begin

text \<open>
  The models behind four desktop applications: the taskbar and start menu
  (\<^verbatim>\<open>src/user/gui/desktop_model.c\<close>), the network settings (\<^verbatim>\<open>network_model.c\<close>), the task list
  (\<^verbatim>\<open>tasks_model.c\<close>) and the image viewer (\<^verbatim>\<open>viewer_model.c\<close>). A C string is the list of its
  characters, \<open>None\<close> where a null pointer is accepted; an output parameter is part of the
  result.
\<close>

section \<open>Taskbar and start menu\<close>

record gui_taskbar_layout_t =
  button_width :: int
  per_page :: int
  page_count :: int
  first_x :: int
  paging :: bool

definition gui_taskbar_layout :: "int \<Rightarrow> int \<Rightarrow> gui_taskbar_layout_t" where
  "gui_taskbar_layout screen_width window_count =
     (let layout = \<lparr>button_width = 0, per_page = 0, page_count = 1, first_x = 58, paging = False\<rparr>;
          available = i32 (i32 (screen_width - 58) - 190)
      in if window_count \<le> 0 \<or> available \<le> 0 then layout
         else
           let bw = available div window_count;
               bw = (if bw > 120 then 120 else bw)
           in if bw \<ge> 56 then layout\<lparr>button_width := bw, per_page := window_count\<rparr>
              else
                let available = i32 (available - 40);
                    pp = cdiv available 56;
                    pp = (if pp < 1 then 1 else pp)
                in \<lparr>button_width = 56, per_page = pp,
                    page_count = i32 (i32 (window_count + pp) - 1) div pp, first_x = 58 + 20, paging = True\<rparr>)"

definition gui_taskbar_clamp_page :: "gui_taskbar_layout_t \<Rightarrow> int \<Rightarrow> int" where
  "gui_taskbar_clamp_page layout page =
     (if page < 0 then 0 else if page \<ge> page_count layout then i32 (page_count layout - 1) else page)"

text \<open>C's remainder has the sign of its dividend.\<close>

definition crem :: "int \<Rightarrow> int \<Rightarrow> int" where
  "crem a b = a - cdiv a b * b"

definition gui_start_move_selection :: "int \<Rightarrow> int \<Rightarrow> int \<Rightarrow> int" where
  "gui_start_move_selection selection n delta =
     (if n \<le> 0 then 0
      else
        let selection = crem (i32 (selection + delta)) n in
        if selection < 0 then i32 (selection + n) else selection)"

definition upper :: "nat \<Rightarrow> nat" where
  "upper c = (if c \<ge> 97 \<and> c \<le> 122 then c - 97 + 65 else c)"

text \<open>The first index whose label starts with the letter, whatever its case; \<open>-1\<close> if there is none.\<close>

fun first_letter_from :: "int \<Rightarrow> string option list \<Rightarrow> nat \<Rightarrow> int" where
  "first_letter_from i [] letter = - 1"
| "first_letter_from i (label # labels) letter =
     (let first = (case label of None \<Rightarrow> 0 | Some [] \<Rightarrow> 0 | Some (c # _) \<Rightarrow> of_char c) in
      if upper first = letter then i else first_letter_from (i + 1) labels letter)"

definition gui_start_first_letter :: "string option list \<Rightarrow> char \<Rightarrow> int" where
  "gui_start_first_letter labels letter = first_letter_from 0 labels (upper (of_char letter))"

section \<open>Network settings\<close>

datatype gui_ipv4_validation_t =
    GUI_IPV4_VALID
  | GUI_IPV4_INVALID_ADDRESS
  | GUI_IPV4_INVALID_PREFIX
  | GUI_IPV4_INVALID_GATEWAY
  | GUI_IPV4_INVALID_DNS
  | GUI_IPV4_NETWORK_OR_BROADCAST
  | GUI_IPV4_GATEWAY_OUTSIDE_SUBNET

record gui_ipv4_config_t =
  cf_address :: u32
  cf_prefix :: u32
  cf_netmask :: u32
  cf_gateway :: u32
  cf_dns :: u32

abbreviation is_digit :: "char \<Rightarrow> bool" where
  "is_digit c \<equiv> 48 \<le> (of_char c :: nat) \<and> (of_char c :: nat) \<le> 57"

abbreviation digit_value :: "char \<Rightarrow> u32" where
  "digit_value c \<equiv> of_nat (of_char c) - 48"

text \<open>One number of an address: its value, how many digits it has and the rest of the text.\<close>

fun octet_loop :: "string \<Rightarrow> u32 \<Rightarrow> nat \<Rightarrow> (u32 \<times> nat \<times> string) option" where
  "octet_loop [] v digits = Some (v, digits, [])"
| "octet_loop (c # p) v digits =
     (if is_digit c then
        let v = v * 10 + digit_value c;
            digits = Suc digits
        in if digits > 3 \<or> v > 255 then None else octet_loop p v digits
      else Some (v, digits, c # p))"

text \<open>The outer loop, \<open>k\<close> numbers before the last one.\<close>

fun address_loop :: "nat \<Rightarrow> string \<Rightarrow> u32 \<Rightarrow> u32 option" where
  "address_loop k p address =
     (case octet_loop p 0 0 of
        None \<Rightarrow> None
      | Some (v, digits, p) \<Rightarrow>
          if digits = 0 then None
          else
            let address = push_bit 8 address OR v in
            case k of
              0 \<Rightarrow> if p = [] then Some address else None
            | Suc k \<Rightarrow> (case p of c # p \<Rightarrow> if c = CHR ''.'' then address_loop k p address else None | [] \<Rightarrow> None))"

declare address_loop.simps [simp del]

definition gui_ipv4_parse :: "string option \<Rightarrow> u32 option" where
  "gui_ipv4_parse text =
     (case text of None \<Rightarrow> None | Some [] \<Rightarrow> None | Some p \<Rightarrow> address_loop 3 p 0)"

fun prefix_loop :: "string \<Rightarrow> u32 \<Rightarrow> (u32 \<times> string) option" where
  "prefix_loop [] v = Some (v, [])"
| "prefix_loop (c # p) v =
     (if is_digit c then
        let v = v * 10 + digit_value c in if v > 30 then None else prefix_loop p v
      else Some (v, c # p))"

definition parse_prefix :: "string option \<Rightarrow> u32 option" where
  "parse_prefix text =
     (case text of None \<Rightarrow> None | Some [] \<Rightarrow> None
      | Some p \<Rightarrow>
          (case prefix_loop p 0 of None \<Rightarrow> None
           | Some (v, p) \<Rightarrow> if p \<noteq> [] \<or> v < 1 then None else Some v))"

fun mask_loop :: "u32 \<Rightarrow> nat list \<Rightarrow> u32 \<Rightarrow> bool \<Rightarrow> u32 option" where
  "mask_loop m [] n saw_zero = Some n"
| "mask_loop m (b # bits) n saw_zero =
     (if m AND drop_bit b 0x80000000 \<noteq> 0 then
        (if saw_zero then None else mask_loop m bits (n + 1) saw_zero)
      else mask_loop m bits n True)"

definition gui_ipv4_mask_prefix :: "u32 \<Rightarrow> u32 option" where
  "gui_ipv4_mask_prefix m = mask_loop m [0..<32] 0 False"

text \<open>
  An optional field is used when it is there and not empty. The result carries the configuration exactly
  when it is valid, as the output parameter does.
\<close>

definition optional_address :: "string option \<Rightarrow> u32 option option" where
  "optional_address text =
     (case text of None \<Rightarrow> Some None | Some [] \<Rightarrow> Some None
      | Some p \<Rightarrow> (case gui_ipv4_parse (Some p) of None \<Rightarrow> None | Some a \<Rightarrow> Some (Some a)))"

definition gui_ipv4_validate ::
    "string option \<Rightarrow> string option \<Rightarrow> string option \<Rightarrow> string option
     \<Rightarrow> gui_ipv4_validation_t \<times> gui_ipv4_config_t option" where
  "gui_ipv4_validate address prefix_text gateway dns =
     (case gui_ipv4_parse address of
        None \<Rightarrow> (GUI_IPV4_INVALID_ADDRESS, None)
      | Some addr \<Rightarrow>
        (case parse_prefix prefix_text of
           None \<Rightarrow> (GUI_IPV4_INVALID_PREFIX, None)
         | Some pre \<Rightarrow>
           (case optional_address gateway of
              None \<Rightarrow> (GUI_IPV4_INVALID_GATEWAY, None)
            | Some gw \<Rightarrow>
              (case optional_address dns of
                 None \<Rightarrow> (GUI_IPV4_INVALID_DNS, None)
               | Some d \<Rightarrow>
                 let gw = (case gw of None \<Rightarrow> 0 | Some a \<Rightarrow> a);
                     d = (case d of None \<Rightarrow> 0 | Some a \<Rightarrow> a);
                     netmask = push_bit (unat (32 - pre)) 0xFFFFFFFF;
                     host = addr AND NOT netmask
                 in if host = 0 \<or> host = NOT netmask then (GUI_IPV4_NETWORK_OR_BROADCAST, None)
                    else if gw \<noteq> 0 \<and> gw AND netmask \<noteq> addr AND netmask
                    then (GUI_IPV4_GATEWAY_OUTSIDE_SUBNET, None)
                    else (GUI_IPV4_VALID, Some \<lparr>cf_address = addr, cf_prefix = pre, cf_netmask = netmask,
                           cf_gateway = gw, cf_dns = d\<rparr>)))))"

section \<open>Task list\<close>

record gui_task_model_row_t =
  t_pid :: u32
  t_parent_pid :: u32
  t_state :: u32
  t_cpu_delta :: u32
  t_ram_bytes :: u32
  t_heap_bytes :: u32
  t_name :: "string option"

definition lower :: "char \<Rightarrow> nat" where
  "lower c = (let k = of_char c in if k \<ge> 65 \<and> k \<le> 90 then k + 32 else k)"

fun text_compare_loop :: "string \<Rightarrow> string \<Rightarrow> int" where
  "text_compare_loop (x # a) (y # b) =
     (let ca = lower x; cb = lower y in
      if ca \<noteq> cb then (if ca < cb then - 1 else 1) else text_compare_loop a b)"
| "text_compare_loop (x # a) [] = 1"
| "text_compare_loop [] (y # b) = - 1"
| "text_compare_loop [] [] = 0"

definition text_compare :: "string option \<Rightarrow> string option \<Rightarrow> int" where
  "text_compare a b =
     text_compare_loop (case a of None \<Rightarrow> [] | Some s \<Rightarrow> s) (case b of None \<Rightarrow> [] | Some s \<Rightarrow> s)"

definition task_value :: "int \<Rightarrow> gui_task_model_row_t \<Rightarrow> u32" where
  "task_value column r =
     (if column = 0 then t_pid r else if column = 2 then t_state r else if column = 3 then t_cpu_delta r
      else if column = 4 then t_ram_bytes r else t_heap_bytes r)"

definition gui_tasks_compare :: "gui_task_model_row_t \<Rightarrow> gui_task_model_row_t \<Rightarrow> int \<Rightarrow> int" where
  "gui_tasks_compare a b column =
     (if column = 1 then text_compare (t_name a) (t_name b)
      else
        let av = task_value column a; bv = task_value column b in
        if av < bv then - 1 else if av > bv then 1 else 0)"

text \<open>The condition under which the sorting loops exchange the entries at \<open>j\<close> and \<open>i\<close>.\<close>

definition tasks_before :: "int \<Rightarrow> bool \<Rightarrow> gui_task_model_row_t \<Rightarrow> gui_task_model_row_t \<Rightarrow> bool" where
  "tasks_before column descending a b =
     (let comparison = gui_tasks_compare a b column in
      (comparison > 0) = descending \<and> comparison \<noteq> 0)"

definition exchange_row :: "('a \<Rightarrow> 'a \<Rightarrow> bool) \<Rightarrow> nat \<Rightarrow> nat list \<Rightarrow> 'a list \<Rightarrow> 'a list" where
  "exchange_row before i js rows =
     fold (\<lambda>j rows. if before (rows ! j) (rows ! i) then rows[i := rows ! j, j := rows ! i] else rows) js rows"

definition gui_tasks_sort :: "gui_task_model_row_t list \<Rightarrow> int \<Rightarrow> bool \<Rightarrow> gui_task_model_row_t list" where
  "gui_tasks_sort rows column descending =
     (let n = length rows in
      fold (\<lambda>i rows. exchange_row (tasks_before column descending) i [Suc i..<n] rows) [0..<n] rows)"

definition gui_tasks_is_protected :: "gui_task_model_row_t option \<Rightarrow> u32 \<Rightarrow> bool" where
  "gui_tasks_is_protected row gui_pid =
     (case row of None \<Rightarrow> True | Some r \<Rightarrow> t_pid r = 1 \<or> t_pid r = gui_pid \<or> t_parent_pid r = 0)"

section \<open>Image viewer\<close>

record gui_viewer_geometry_t =
  g_width :: int
  g_height :: int
  pan_x :: int
  pan_y :: int

definition gui_viewer_scaled_size :: "u32 \<Rightarrow> u32 \<Rightarrow> int \<Rightarrow> int \<Rightarrow> int \<Rightarrow> int \<times> int" where
  "gui_viewer_scaled_size source_width source_height viewport_width viewport_height zoom_percent =
     (let vw = (word_of_int viewport_width :: u32);
          vh = (word_of_int viewport_height :: u32);
          zoom = (word_of_int zoom_percent :: u32);
          (width, height) =
            (if source_width = 0 \<or> source_height = 0 \<or> viewport_width \<le> 0 \<or> viewport_height \<le> 0 then (0, 0)
             else if zoom_percent > 0 then (source_width * zoom div 100, source_height * zoom div 100)
             else if source_width > vw \<or> source_height > vh then
               (if (ucast source_width :: u64) * ucast vh > (ucast source_height :: u64) * ucast vw
                then (vw, ucast ((ucast source_height :: u64) * ucast vw div ucast source_width))
                else (ucast ((ucast source_width :: u64) * ucast vh div ucast source_height), vh))
             else (source_width, source_height));
          width = (if source_width \<noteq> 0 \<and> width = 0 then 1 else width);
          height = (if source_height \<noteq> 0 \<and> height = 0 then 1 else height)
      in (sint width, sint height))"

definition clamp_pan :: "int \<Rightarrow> int \<Rightarrow> int \<Rightarrow> int" where
  "clamp_pan extent viewport pan =
     (let m = (if extent > viewport then cdiv (i32 (i32 (extent - viewport) + 1)) 2 else 0);
          pan = (if pan < - m then - m else pan)
      in if pan > m then m else pan)"

definition gui_viewer_clamp_pan :: "gui_viewer_geometry_t \<Rightarrow> int \<Rightarrow> int \<Rightarrow> gui_viewer_geometry_t" where
  "gui_viewer_clamp_pan geometry viewport_width viewport_height =
     geometry\<lparr>pan_x := clamp_pan (g_width geometry) viewport_width (pan_x geometry),
              pan_y := clamp_pan (g_height geometry) viewport_height (pan_y geometry)\<rparr>"

section \<open>Sorting by exchanges\<close>

text \<open>
  The sorting loops work for every strict weak order: an asymmetric relation whose complement is
  transitive.
\<close>

locale exchange_order =
  fixes before :: "'a \<Rightarrow> 'a \<Rightarrow> bool"
  assumes before_asym: "before a b \<Longrightarrow> \<not> before b a"
    and before_trans: "\<not> before a b \<Longrightarrow> \<not> before b c \<Longrightarrow> \<not> before a c"
begin

abbreviation upto_order :: "'a \<Rightarrow> 'a \<Rightarrow> bool" where
  "upto_order a b \<equiv> \<not> before b a"

lemma exchange_row_props:
  assumes "set js \<subseteq> {i<..<length rows}"
  shows "length (exchange_row before i js rows) = length rows"
    "mset (exchange_row before i js rows) = mset rows"
    "take i (exchange_row before i js rows) = take i rows"
    "\<forall>j \<in> set js. upto_order (exchange_row before i js rows ! i) (exchange_row before i js rows ! j)"
proof -
  have "length (exchange_row before i js rows) = length rows \<and>
    mset (exchange_row before i js rows) = mset rows \<and> take i (exchange_row before i js rows) = take i rows \<and>
    (\<forall>j \<in> set js. upto_order (exchange_row before i js rows ! i) (exchange_row before i js rows ! j))"
    using assms
  proof (induction js rule: rev_induct)
    case Nil
    then show ?case by (simp add: exchange_row_def)
  next
    case (snoc j js)
    define r where "r = exchange_row before i js rows"
    have IH: "length r = length rows" "mset r = mset rows" "take i r = take i rows"
      "\<And>m. m \<in> set js \<Longrightarrow> upto_order (r ! i) (r ! m)"
      using snoc by (auto simp: r_def)
    have j: "i < j" "j < length r" using snoc.prems IH(1) by auto
    have m: "i < m" "m < length r" if "m \<in> set js" for m using snoc.prems IH(1) that by auto
    have step: "exchange_row before i (js @ [j]) rows =
        (if before (r ! j) (r ! i) then r[i := r ! j, j := r ! i] else r)"
      by (simp add: exchange_row_def r_def)
    show ?case
    proof (cases "before (r ! j) (r ! i)")
      case True
      have "upto_order (r ! j) (r ! m)" if "m \<in> set js" for m
        using IH(4) [OF that] before_asym [OF True] before_trans by blast
      then show ?thesis
        using True IH j m before_asym [OF True] unfolding step
        by (auto simp: nth_list_update mset_swap)
    next
      case False
      then show ?thesis using IH unfolding step by auto
    qed
  qed
  then show "length (exchange_row before i js rows) = length rows"
    "mset (exchange_row before i js rows) = mset rows"
    "take i (exchange_row before i js rows) = take i rows"
    "\<forall>j \<in> set js. upto_order (exchange_row before i js rows ! i) (exchange_row before i js rows ! j)"
    by blast+
qed

lemma exchange_sort_prefix:
  assumes "k \<le> length rows"
  defines "r \<equiv> fold (\<lambda>i rs. exchange_row before i [Suc i..<length rows] rs) [0..<k] rows"
  shows "mset r = mset rows \<and> sorted_wrt upto_order (take k r) \<and>
    (\<forall>x \<in> set (take k r). \<forall>y \<in> set (drop k r). upto_order x y)"
  using assms(1) unfolding r_def
proof (induction k)
  case (Suc k)
  define r where "r = fold (\<lambda>i rs. exchange_row before i [Suc i..<length rows] rs) [0..<k] rows"
  define r' where "r' = exchange_row before k [Suc k..<length rows] r"
  have IH: "mset r = mset rows" "sorted_wrt upto_order (take k r)"
    "\<And>x y. x \<in> set (take k r) \<Longrightarrow> y \<in> set (drop k r) \<Longrightarrow> upto_order x y"
    using Suc by (auto simp: r_def)
  have len: "length r = length rows" using IH(1) by (rule mset_eq_length)
  have k: "k < length rows" using Suc.prems by simp
  have "set [Suc k..<length rows] \<subseteq> {k<..<length r}" using len by auto
  note row = exchange_row_props [OF this, folded r'_def]
  have props: "length r' = length rows" "mset r' = mset rows" "take k r' = take k r"
    "\<And>j. k < j \<Longrightarrow> j < length rows \<Longrightarrow> upto_order (r' ! k) (r' ! j)"
    using row len IH(1) by auto
  have "mset (take k r') + mset (drop k r') = mset (take k r) + mset (drop k r)"
    using props(2) IH(1) by (simp flip: mset_append)
  then have "set (drop k r') = set (drop k r)" using props(3) by (metis add_left_cancel set_mset_mset)
  then have low: "upto_order x y" if "x \<in> set (take k r)" "y \<in> set (drop k r')" for x y
    using IH(3) that by simp
  have split: "take (Suc k) r' = take k r @ [r' ! k]" "drop k r' = r' ! k # drop (Suc k) r'"
    using k props(1,3) by (simp_all add: take_Suc_conv_app_nth Cons_nth_drop_Suc)
  have "upto_order (r' ! k) y" if "y \<in> set (drop (Suc k) r')" for y
  proof -
    from that obtain n where "n < length (drop (Suc k) r')" "y = drop (Suc k) r' ! n"
      by (auto simp: in_set_conv_nth)
    then show ?thesis using props(1) props(4) [of "Suc k + n"] by simp
  qed
  then have "sorted_wrt upto_order (take (Suc k) r') \<and>
      (\<forall>x \<in> set (take (Suc k) r'). \<forall>y \<in> set (drop (Suc k) r'). upto_order x y)"
    using IH(2) low unfolding split(1) by (auto simp: sorted_wrt_append split(2))
  with props(2) show ?case by (simp add: r'_def r_def)
qed simp

lemma exchange_sort_sorts:
  "mset (fold (\<lambda>i rs. exchange_row before i [Suc i..<length rows] rs) [0..<length rows] rows) = mset rows \<and>
   sorted_wrt upto_order (fold (\<lambda>i rs. exchange_row before i [Suc i..<length rows] rs) [0..<length rows] rows)"
proof -
  let ?r = "fold (\<lambda>i rs. exchange_row before i [Suc i..<length rows] rs) [0..<length rows] rows"
  have "mset ?r = mset rows" "sorted_wrt upto_order (take (length rows) ?r)"
    using exchange_sort_prefix [of "length rows" rows] by simp_all
  then show ?thesis using mset_eq_length [of ?r rows] by simp
qed

end

text \<open>The comparison of two rows is the comparison of their keys, so both sorting directions are such orders.\<close>

definition task_key :: "int \<Rightarrow> gui_task_model_row_t \<Rightarrow> nat list" where
  "task_key column r =
     (if column = 1 then map lower (case t_name r of None \<Rightarrow> [] | Some s \<Rightarrow> s) else [unat (task_value column r)])"

lemma text_compare_loop_key:
  "text_compare_loop a b = (if map lower a < map lower b then - 1 else if map lower b < map lower a then 1 else 0)"
  by (induction a b rule: text_compare_loop.induct) (auto simp: Let_def)

lemma gui_tasks_compare_key:
  "gui_tasks_compare a b column =
     (if task_key column a < task_key column b then - 1 else if task_key column b < task_key column a then 1 else 0)"
  by (simp add: gui_tasks_compare_def task_key_def text_compare_def text_compare_loop_key Let_def
      word_less_nat_alt)

lemma tasks_before_key:
  "tasks_before column descending a b \<longleftrightarrow>
     (if descending then task_key column b < task_key column a else task_key column a < task_key column b)"
  by (auto simp: tasks_before_def gui_tasks_compare_key Let_def)

interpretation task_order: exchange_order "tasks_before column descending"
  by unfold_locales (auto simp: tasks_before_key split: if_splits)

text \<open>
  Sorting the task list by any column, in either direction, rearranges its rows and leaves no row
  after one that the chosen order puts behind it; names compare without regard to case.
\<close>
theorem gui_tasks_sort_correct:
  "mset (gui_tasks_sort rows column descending) = mset rows \<and>
   (if descending then sorted_wrt (\<lambda>a b. task_key column b \<le> task_key column a)
    else sorted_wrt (\<lambda>a b. task_key column a \<le> task_key column b)) (gui_tasks_sort rows column descending)"
proof -
  have "(\<lambda>a b. \<not> tasks_before column descending b a) =
      (if descending then (\<lambda>a b. task_key column b \<le> task_key column a)
       else (\<lambda>a b. task_key column a \<le> task_key column b))"
    by (auto simp: tasks_before_key not_less fun_eq_iff)
  then show ?thesis
    using task_order.exchange_sort_sorts [of column descending rows] unfolding gui_tasks_sort_def Let_def
    by (cases descending) simp_all
qed

section \<open>Taskbar, start menu and viewer\<close>

lemma gui_start_move_selection_range:
  assumes "0 < n" "n \<le> 2147483647"
  shows "0 \<le> gui_start_move_selection selection n delta \<and> gui_start_move_selection selection n delta < n"
proof -
  define k where "k = i32 (selection + delta)"
  have c: "crem k n = (if k < 0 then - (- k mod n) else k mod n)"
    using minus_mod_eq_mult_div [of k n, symmetric] minus_mod_eq_mult_div [of "- k" n, symmetric]
    by (simp add: crem_def cdiv_def mult.commute [of _ n] del: minus_mod_eq_mult_div)
  have m: "0 \<le> k mod n" "k mod n < n" "0 \<le> - k mod n" "- k mod n < n" using assms(1) by simp_all
  have "- n < crem k n \<and> crem k n < n"
  proof (cases "k < 0")
    case True
    then have "crem k n = - (- k mod n)" using c by simp
    with m assms(1) show ?thesis by linarith
  next
    case False
    then have "crem k n = k mod n" using c by simp
    with m assms(1) show ?thesis by linarith
  qed
  then show ?thesis using assms by (auto simp: gui_start_move_selection_def Let_def simp flip: k_def)
qed

lemma int_div_le_self: "0 \<le> a \<Longrightarrow> 1 \<le> b \<Longrightarrow> a div b \<le> (a :: int)"
  using zdiv_mono2 [of a 1 b] by simp

text \<open>With a paged taskbar every window has a place on some page, and the page shown always exists.\<close>

lemma gui_taskbar_pages_cover:
  assumes "0 \<le> screen_width" "screen_width \<le> 65536" "0 < n" "n \<le> 65536" "paging (gui_taskbar_layout screen_width n)"
  defines "l \<equiv> gui_taskbar_layout screen_width n"
  shows "0 < per_page l" "0 < page_count l" "n \<le> per_page l * page_count l"
    "0 \<le> gui_taskbar_clamp_page l page" "gui_taskbar_clamp_page l page < page_count l"
proof -
  define a where "a = screen_width - 248"
  define pp where "pp = (if cdiv (i32 (a - 40)) 56 < 1 then 1 else cdiv (i32 (a - 40)) 56)"
  have av: "i32 (i32 (screen_width - 58) - 190) = a" "i32 (a - 40) = a - 40"
    using assms(1,2) by (simp_all add: a_def)
  have "cdiv (a - 40) 56 \<le> 65536"
  proof (cases "a - 40 < 0")
    case True
    then have "0 \<le> (- (a - 40)) div 56" by (intro pos_imp_zdiv_nonneg_iff [THEN iffD2]) simp_all
    with True show ?thesis by (simp add: cdiv_def)
  next
    case False
    then show ?thesis using int_div_le_self [of "a - 40" 56] assms(2) by (simp add: cdiv_def a_def)
  qed
  then have pp1: "1 \<le> pp" "pp \<le> 65536" by (simp_all add: pp_def av(2))
  have "l = \<lparr>button_width = 56, per_page = pp, page_count = i32 (i32 (n + pp) - 1) div pp, first_x = 78,
      paging = True\<rparr>"
    using assms(5) unfolding l_def gui_taskbar_layout_def av(1) Let_def pp_def
    by (simp del: i32_id split: if_splits)
  then have pp: "per_page l = pp" "1 \<le> pp" "pp \<le> 65536" "page_count l = i32 (i32 (n + pp) - 1) div pp"
    using pp1 by simp_all
  have pc: "page_count l = (n + pp - 1) div pp" using pp assms by simp
  show "0 < per_page l" using pp by simp
  have "pp \<le> n + pp - 1" using assms(3) by simp
  then have "1 \<le> (n + pp - 1) div pp" using pp(2) zdiv_mono1 [of pp "n + pp - 1" pp] by simp
  then show pos: "0 < page_count l" unfolding pc by simp
  have "n + pp - 1 < pp * ((n + pp - 1) div pp) + pp"
    using pp(2) mult_div_mod_eq [of pp "n + pp - 1"] pos_mod_bound [of pp "n + pp - 1"] by linarith
  then show "n \<le> per_page l * page_count l" unfolding pc pp(1) by simp
  have "(n + pp - 1) div pp \<le> n + pp - 1" using pp(2) assms(3) by (intro int_div_le_self) simp_all
  then show "0 \<le> gui_taskbar_clamp_page l page" "gui_taskbar_clamp_page l page < page_count l"
    using pos pp(3) assms(4) unfolding gui_taskbar_clamp_page_def pc by auto
qed

section \<open>Network settings\<close>

lemma bit_single: "n < 32 \<Longrightarrow> bit (push_bit n 1 :: u32) i \<longleftrightarrow> i = n"
  by (auto simp: bit_simps)

lemma test_bit_below:
  assumes "b < 32" "\<And>i. bit (h :: u32) i \<longleftrightarrow> i = 31"
  shows "m AND drop_bit b h \<noteq> 0 \<longleftrightarrow> bit m (31 - b)"
proof -
  have "bit (drop_bit b h) i \<longleftrightarrow> i = 31 - b" for i
    unfolding bit_drop_bit_eq o_apply assms(2) using assms(1) by linarith
  note d = this
  have w: "bit (m AND drop_bit b h) i \<longleftrightarrow> bit m (31 - b) \<and> i = 31 - b" for i
    unfolding bit_and_iff d by blast
  show ?thesis
  proof
    assume "m AND drop_bit b h \<noteq> 0"
    moreover have "m AND drop_bit b h = 0" if "\<not> bit m (31 - b)"
      using that by (intro bit_eqI) (simp only: w bit_0_eq bot_apply bot_bool_def simp_thms)
    ultimately show "bit m (31 - b)" by blast
  next
    assume "bit m (31 - b)"
    then have "bit (m AND drop_bit b h) (31 - b)" unfolding w by simp
    then show "m AND drop_bit b h \<noteq> 0" by (metis bit_0_eq bot_apply bot_bool_def)
  qed
qed

lemma test_mask_bit: "b < 32 \<Longrightarrow> m AND drop_bit b 0x80000000 \<noteq> (0 :: u32) \<longleftrightarrow> bit m (31 - b)"
  using bit_single [of 31] by (intro test_bit_below) simp_all

lemma mask_loop_zeros:
  assumes "\<And>b. b \<in> set bs \<Longrightarrow> b < 32 \<and> \<not> bit m (31 - b)"
  shows "mask_loop m bs c True = Some c"
  using assms
proof (induction bs)
  case (Cons b bs)
  then have "m AND drop_bit b 0x80000000 = 0" using test_mask_bit [of b m] by auto
  then show ?case using Cons by simp
qed simp

lemma mask_loop_ones:
  assumes "\<And>b. b \<in> set bs \<Longrightarrow> b < 32 \<and> bit m (31 - b)"
  shows "mask_loop m (bs @ cs) c False = mask_loop m cs (c + of_nat (length bs)) False"
  using assms
proof (induction bs arbitrary: c)
  case (Cons b bs)
  then have "m AND drop_bit b 0x80000000 \<noteq> 0" using test_mask_bit [of b m] by auto
  then show ?case using Cons by (simp add: ac_simps)
qed simp

lemma bit_netmask: "bit (push_bit k 0xFFFFFFFF :: u32) i \<longleftrightarrow> k \<le> i \<and> i < 32"
proof -
  have m1: "(0xFFFFFFFF :: u32) = - 1" by simp
  show ?thesis unfolding m1 by (auto simp: bit_simps)
qed

text \<open>Counting the leading ones of a netmask gives back the prefix length it was made from.\<close>

lemma gui_ipv4_mask_prefix_netmask:
  assumes "p \<le> 32"
  shows "gui_ipv4_mask_prefix (push_bit (32 - p) 0xFFFFFFFF) = Some (of_nat p)"
proof -
  let ?m = "push_bit (32 - p) 0xFFFFFFFF :: u32"
  have split: "[0..<32] = [0..<p] @ [p..<32]" using assms by (metis le0 upt_add_eq_append le_add_diff_inverse add_0)
  have ones: "b < 32 \<and> bit ?m (31 - b)" if "b \<in> set [0..<p]" for b
    using that assms by (auto simp: bit_netmask)
  have zeros: "b < 32 \<and> \<not> bit ?m (31 - b)" if "b \<in> set [p..<32]" for b
    using that assms by (auto simp: bit_netmask)
  have "mask_loop ?m [p..<32] (of_nat p) False = Some (of_nat p)"
  proof (cases "p < 32")
    case True
    then have u: "[p..<32] = p # [Suc p..<32]" by (rule upt_conv_Cons)
    have "?m AND drop_bit p 0x80000000 = 0" using test_mask_bit [of p ?m] zeros [of p] True by auto
    then show ?thesis using mask_loop_zeros [of "[Suc p..<32]" ?m "of_nat p"] zeros unfolding u by simp
  next
    case False
    then show ?thesis by simp
  qed
  then show ?thesis
    unfolding gui_ipv4_mask_prefix_def split using mask_loop_ones [of "[0..<p]" ?m "[p..<32]" 0] ones by simp
qed

lemma prefix_loop_bound: "prefix_loop p v = Some (w, r) \<Longrightarrow> v \<le> 30 \<Longrightarrow> w \<le> 30"
  by (induction p v rule: prefix_loop.induct) (auto simp: Let_def split: if_splits)

lemma parse_prefix_range:
  assumes "parse_prefix text = Some v"
  shows "1 \<le> v \<and> v \<le> 30"
proof -
  obtain p where "prefix_loop p 0 = Some (v, [])" "\<not> v < 1"
    using assms by (auto simp: parse_prefix_def simp del: prefix_loop.simps
        split: option.splits list.splits if_splits)
  then show ?thesis using prefix_loop_bound [of p 0 v "[]", OF _ word_zero_le] leI [of v 1] by blast
qed

text \<open>
  A network configuration the settings accept is consistent: its prefix length is between 1 and 30 and is the one its netmask
  stands for, its address is neither the network's own nor its broadcast address, and its gateway, when there is
  one, lies in the subnet.
\<close>
theorem gui_ipv4_validate_sound:
  assumes "gui_ipv4_validate address prefix_text gateway dns = (GUI_IPV4_VALID, Some c)"
  shows "1 \<le> cf_prefix c \<and> cf_prefix c \<le> 30 \<and> gui_ipv4_mask_prefix (cf_netmask c) = Some (cf_prefix c) \<and>
    cf_address c AND NOT (cf_netmask c) \<noteq> 0 \<and> cf_address c OR cf_netmask c \<noteq> - 1 \<and>
    (cf_gateway c = 0 \<or> cf_gateway c AND cf_netmask c = cf_address c AND cf_netmask c)"
proof -
  obtain pre addr gw d where pre: "parse_prefix prefix_text = Some pre"
    and c: "c = \<lparr>cf_address = addr, cf_prefix = pre, cf_netmask = push_bit (unat (32 - pre)) 0xFFFFFFFF,
      cf_gateway = gw, cf_dns = d\<rparr>"
    and host: "addr AND NOT (cf_netmask c) \<noteq> 0" "addr AND NOT (cf_netmask c) \<noteq> NOT (cf_netmask c)"
    and gw: "gw = 0 \<or> gw AND cf_netmask c = addr AND cf_netmask c"
    using assms by (auto simp: gui_ipv4_validate_def Let_def split: option.splits if_splits)
  have r: "1 \<le> pre" "pre \<le> 30" using parse_prefix_range [OF pre] by auto
  have p: "unat (32 - pre) = 32 - unat pre" "unat pre \<le> 32"
    using r(2) by (simp_all add: unat_sub_u32 word_le_nat_alt)
  have "gui_ipv4_mask_prefix (cf_netmask c) = Some (cf_prefix c)"
    using gui_ipv4_mask_prefix_netmask [OF p(2)] by (simp add: c p(1))
  moreover have "addr OR cf_netmask c \<noteq> - 1"
  proof
    assume "addr OR cf_netmask c = - 1"
    then have "(addr OR cf_netmask c) AND NOT (cf_netmask c) = NOT (cf_netmask c)" by simp
    then show False using host(2) by (simp add: and.commute bit.conj_disj_distrib)
  qed
  ultimately show ?thesis using r host(1) gw by (simp add: c)
qed

theorem gui_ipv4_validate_sound_witness:
  "\<exists>c. gui_ipv4_validate (Some ''10.0.0.2'') (Some ''24'') (Some ''10.0.0.1'') None = (GUI_IPV4_VALID, Some c) \<and>
     1 \<le> cf_prefix c \<and> cf_prefix c \<le> 30"
proof -
  have "gui_ipv4_validate (Some ''10.0.0.2'') (Some ''24'') (Some ''10.0.0.1'') None =
    (GUI_IPV4_VALID, Some \<lparr>cf_address = 0x0A000002, cf_prefix = 24, cf_netmask = 0xFFFFFF00,
       cf_gateway = 0x0A000001, cf_dns = 0\<rparr>)"
    by code_simp
  with gui_ipv4_validate_sound [OF this] show ?thesis by blast
qed

section \<open>Image viewer\<close>

lemma unat_ucast_wide: "unat (ucast (a :: u32) :: u64) = unat a"
  using unat_u32_bound [of a] by (simp add: unsigned_ucast_eq take_bit_nat_eq_self)

lemma unat_mult_u64:
  fixes a b :: u32
  shows "unat ((ucast a :: u64) * ucast b) = unat a * unat b"
proof -
  have "unat a * unat b < 4294967296 * 4294967296"
    using unat_u32_bound [of a] unat_u32_bound [of b] by (intro mult_strict_mono) simp_all
  then show ?thesis by (simp add: unat_word_ariths unat_ucast_wide)
qed

lemma unat_scaled:
  fixes a b c d :: u32
  assumes "unat a * unat b \<le> unat c * unat d" "c \<noteq> 0"
  shows "unat (ucast ((ucast a :: u64) * ucast b div ucast c) :: u32) = unat a * unat b div unat c"
    "unat a * unat b div unat c \<le> unat d"
proof -
  have c: "0 < unat c" using assms(2) by (simp add: unat_gt_0)
  have "unat a * unat b div unat c \<le> unat c * unat d div unat c" by (rule div_le_mono [OF assms(1)])
  then show le: "unat a * unat b div unat c \<le> unat d" using c by simp
  then have "unat a * unat b div unat c < 4294967296" using unat_u32_bound [of d] by simp
  then show "unat (ucast ((ucast a :: u64) * ucast b div ucast c) :: u32) = unat a * unat b div unat c"
    by (subst unsigned_ucast_eq) (simp add: unat_div unat_mult_u64 unat_ucast_wide take_bit_nat_eq_self)
qed

lemma sint_u32_nat: "unat (w :: u32) < 2147483648 \<Longrightarrow> sint w = int (unat w)"
proof -
  assume "unat w < 2147483648"
  then have "int (unat w) < 2147483648" by linarith
  moreover have "- 2147483648 \<le> uint w" by (rule order_trans [of _ 0]) simp_all
  ultimately show ?thesis unfolding sint_uint by (subst signed_take_bit_int_eq_self) simp_all
qed

lemma visible_extent:
  fixes x :: u32
  assumes "unat x \<le> nat v" "0 < v" "v < 2147483648"
  shows "1 \<le> sint (if x = 0 then 1 else x)" "sint (if x = 0 then 1 else x) \<le> v"
proof -
  have s: "sint x = int (unat x)" using assms by (intro sint_u32_nat) linarith
  have "unat x \<noteq> 0" if "x \<noteq> 0" using that by (simp add: unat_eq_0)
  then have "x \<noteq> 0 \<Longrightarrow> 1 \<le> sint x" "sint x \<le> v" using assms unfolding s by linarith+
  then show "1 \<le> sint (if x = 0 then 1 else x)" "sint (if x = 0 then 1 else x) \<le> v"
    using assms(2) by auto
qed

text \<open>
  Fitting an image into a viewport keeps it inside, however extreme its proportions, and never makes it vanish.
\<close>

lemma gui_viewer_scaled_size_fits:
  assumes "sw \<noteq> 0" "sh \<noteq> 0" "0 < vw" "vw < 2147483648" "0 < vh" "vh < 2147483648" "zoom \<le> 0"
    "gui_viewer_scaled_size sw sh vw vh zoom = (w, h)"
  shows "1 \<le> w" "w \<le> vw" "1 \<le> h" "h \<le> vh"
proof -
  define W H where "W = (word_of_int vw :: u32)" and "H = (word_of_int vh :: u32)"
  have WH: "unat W = nat vw" "unat H = nat vh"
    using assms(3-6) by (simp_all add: W_def H_def unat_eq_nat_uint uint_word_of_int)
  define p where "p = (if sw > W \<or> sh > H then
      (if (ucast sw :: u64) * ucast H > (ucast sh :: u64) * ucast W
       then (W, ucast ((ucast sh :: u64) * ucast W div ucast sw))
       else (ucast ((ucast sw :: u64) * ucast H div ucast sh), H)) else (sw, sh))"
  have cmp: "(ucast sw :: u64) * ucast H > (ucast sh :: u64) * ucast W \<longleftrightarrow>
      unat sh * unat W < unat sw * unat H" by (simp add: word_less_nat_alt unat_mult_u64)
  have fit: "unat (fst p) \<le> nat vw" "unat (snd p) \<le> nat vh"
    unfolding p_def cmp
    using unat_scaled [of sh W sw H] unat_scaled [of sw H sh W] assms(1,2)
    by (auto simp: WH [symmetric] not_less word_le_nat_alt word_less_nat_alt)
  have wh: "w = sint (if fst p = 0 then 1 else fst p)" "h = sint (if snd p = 0 then 1 else snd p)"
    using assms(1-3,5,7,8) unfolding gui_viewer_scaled_size_def Let_def W_def [symmetric] H_def [symmetric]
      p_def by (auto split: if_splits)
  show "1 \<le> w" "w \<le> vw" "1 \<le> h" "h \<le> vh"
    unfolding wh using visible_extent [OF fit(1)] visible_extent [OF fit(2)] assms(3-6) by blast+
qed

end
