(* ===== verification/Spec2Isabelle.thy ===== *)
theory Spec2Isabelle
  imports Frame_Pool Memory Unicode Compiler_Rt Time Net Input Scheduler Pipe Vm User_Memory
    Gui_Compositor Gui_Canvas Gui_Window Gui_Models
begin

text \<open>
  A verification of SmallOS, a 32-bit x86 operating system written in C, on a shallow embedding of
  its code. The paths below are relative to \<^verbatim>\<open>src/src/\<close> of the repository.

  \<^bold>\<open>How the code is modelled.\<close> A C function is an Isabelle function of the same name; a loop or a
  piece of a body that needs a name of its own is a helper next to it. The static variables of a
  file are a \<^verbatim>\<open>record\<close> that operations take and return; several files that share state share the
  record. Machine integers are words of their width (\<open>u8\<close> to \<open>u64\<close>), so arithmetic wraps around
  as in C; array positions that the code keeps in range are natural numbers. A pointer to an
  element of a pool is its index, a pointer to a process a key of a store. \<open>None\<close> stands for what
  must not happen: a read outside a buffer, a null dereference, an endless loop, a halt; error
  returns are values. Loops are structural recursion, \<^verbatim>\<open>function\<close> with a termination proof, or
  \<^verbatim>\<open>partial_function (option)\<close>; for the latter it is proved that they return. Console output is
  left out, and the hardware (network card, clock, memory map) and the success of allocations
  come in as arguments.

  \<^bold>\<open>Memory.\<close> \<open>Boot_Info\<close> (\<^verbatim>\<open>kernel/boot_info.c\<close>) checks the block the boot loader leaves. \<open>Pmm\<close>
  (\<^verbatim>\<open>kernel/pmm.c\<close>) is the frame allocator, a bitmap with reference counts; \<open>Pmm_Correct\<close> proves its
  operations and \<open>Frame_Pool\<close> states the contract of a reference counted pool as a locale,
  interprets it on the allocator and derives that a frame still referenced is never handed out
  again, that single and contiguous allocation fail only when they must, and that freeing undoes
  allocating. \<open>Memory\<close> (\<^verbatim>\<open>kernel/memory.c\<close> and the start-up part of \<^verbatim>\<open>pmm.c\<close>) shows which frames are
  free after boot, and that the bump allocator and the frame allocator do not collide before the
  latter runs, and can afterwards. \<open>Vm\<close> (\<^verbatim>\<open>kernel/process.c\<close>) is the table of virtual memory areas
  of a process; it is read as a function from addresses to attributes, and adding, unmapping and
  protecting a range change this function on exactly that range. \<open>Paging\<close> (\<^verbatim>\<open>kernel/paging.c\<close>) has the page
  directories and tables, in a store of physical frames; \<open>Paging_Views\<close> reads them as one entry for each user page
  and states when a set of address spaces is well formed, \<open>Paging_Correct\<close> shows that the operations act on one
  entry of one space, so that the loops of \<open>Vm\<close> mean the same on them (the locale \<open>page_store\<close>), and that a
  copy-on-write fault makes a page private, and \<open>Paging_Fork\<close> and \<open>Paging_Spaces\<close> show that fork shares an address space page by
  page and that exit gives back exactly what it used. \<open>Page_Cache\<close> (\<^verbatim>\<open>kernel/vfs.c\<close>) has the cache of file pages that address spaces share;
  the state of the memory is from here on the page tables together with this cache, and the file system below it is an argument, with what is relied
  on of it in \<open>reads_files\<close>. \<open>Fault\<close> (\<^verbatim>\<open>kernel/process.c\<close>, \<^verbatim>\<open>kernel/syscall_user.c\<close>) has the page fault handler and the checks of user buffers, \<open>Fault_Correct\<close>
  shows what a fault does to the page and that it does nothing else, and \<open>User_Memory\<close> adds the copies between kernel and user
  memory, which never touch the memory of another process.

  \<^bold>\<open>Processes.\<close> \<open>Proc\<close> holds the process record that the following share. \<open>Registry\<close>
  (\<^verbatim>\<open>kernel/process.c\<close>) finds processes and allocates their ids; the allocation ends with a free id.
  \<open>Scheduler\<close> (\<^verbatim>\<open>kernel/scheduler.c\<close>) is the run queue, refined to a list, with the proof that no
  runnable task starves. \<open>Wait\<close> (\<^verbatim>\<open>kernel/wait.c\<close>) is the pool of linked wait queues; adding and
  waking end and wake exactly the waiters. \<open>Ring\<close> gives the contract of a bounded queue as a
  locale and proves the loops that fill and drain it once; \<open>Input\<close> (\<^verbatim>\<open>kernel/input.c\<close>) and \<open>Pipe\<close>
  (\<^verbatim>\<open>kernel/process.c\<close>) interpret it. Mouse motion is conserved by the merging of events; pipes
  deliver all bytes in order under any interleaving, write up to \<^verbatim>\<open>PIPE_BUF\<close> bytes atomically and
  poll truthfully. An operation that blocks is modelled as the stretch of code it runs before it
  parks and the stretch after it is woken. \<open>Errno\<close> has the error numbers.

  \<^bold>\<open>Network.\<close> \<open>Bytes\<close> reads and writes big-endian fields in buffers. \<open>Ipv4\<close>, \<open>Arp\<close>, \<open>Dhcp\<close>,
  \<open>Ntp\<close> and \<open>Net\<close> (\<^verbatim>\<open>drivers/ipv4.c\<close>, \<^verbatim>\<open>arp.c\<close>, \<^verbatim>\<open>dhcp.c\<close>, \<^verbatim>\<open>ntp.c\<close>, \<^verbatim>\<open>net.c\<close>, \<^verbatim>\<open>nic.c\<close>) build and
  parse packets. What is built carries right checksums and is parsed back; what is received is
  handled without leaving the buffer, up to the length field of echo replies; \<^verbatim>\<open>dhcp_configure\<close>
  returns.

  \<^bold>\<open>Text, numbers and time.\<close> \<open>Unicode\<close> (\<^verbatim>\<open>drivers/unicode.c\<close>, \<^verbatim>\<open>drivers/terminal.c\<close>) decodes exactly
  UTF-8. \<open>Compiler_Rt\<close> (\<^verbatim>\<open>user/libc/compiler_rt.c\<close>) divides 64-bit numbers. \<open>Time\<close>
  (\<^verbatim>\<open>user/libc/time.c\<close>) converts times and dates, with round trips. \<open>Prelude\<close> has the integer types,
  facts on words and page masks, and the page-stepping loop.

  \<^bold>\<open>Desktop.\<close> \<open>Gui_Region\<close> (\<^verbatim>\<open>user/gui/region.c\<close>, \<^verbatim>\<open>occlusion.c\<close>, \<^verbatim>\<open>layout.c\<close>) has rectangles and the visible parts of a window,
  \<open>Gui_Compositor\<close> (\<^verbatim>\<open>damage.c\<close>, \<^verbatim>\<open>compositor.c\<close>) the damage list and frame pacing, \<open>Gui_Canvas\<close> (\<^verbatim>\<open>canvas.c\<close>, \<^verbatim>\<open>cursor.c\<close>,
  \<^verbatim>\<open>client_surface.c\<close>) drawing, \<open>Gui_Window\<close> (\<^verbatim>\<open>window.c\<close>, \<^verbatim>\<open>window_manager.c\<close>, \<^verbatim>\<open>app_registry.c\<close>) the stack of windows and
  \<open>Gui_Models\<close> the models behind the taskbar, the network settings, the task list and the viewer. Rectangles denote sets of
  pixels: what is visible is computed exactly, damage is never lost, drawing stays inside its clip, and the window
  that is hit is the topmost one. C \<^verbatim>\<open>int\<close> arithmetic wraps in the model, and the theorems say in which range of
  coordinates they hold.

  \<^bold>\<open>Paths and the clock.\<close> \<open>Path\<close> (\<^verbatim>\<open>kernel/syscall_user.c\<close>, \<^verbatim>\<open>kernel/klib.c\<close>) resolves path names, which agrees with a
  walk along the components; \<open>Timer\<close> (\<^verbatim>\<open>kernel/timer.c\<close>) counts ticks.

  \<^bold>\<open>Fuel.\<close> Only the outer loop of \<^verbatim>\<open>process_registry_add\<close> runs on fuel, 257 rounds; each round but
  the last doubles a registry of at most 256 entries, and with memory and a free place two rounds
  are proved to be enough.

  \<^bold>\<open>Not modelled.\<close> Assembly and what only drives hardware (boot loader, descriptor tables,
  interrupts, disk, display, sound, USB and network cards); translation caches; setting up the kernel directory; descriptors other than pipes, signals and terminals;
  system call dispatch; open files and the file system on disk, which is a parameter of the page cache; sockets and TCP, which are parameters of the polling loop; the
  program loader; user programs and the rest of the C library. Arguments that C code checks
  against null are taken not to be null, except buffers, for which the branch is modelled. The
  counters of pages used for a table are left out.
\<close>

end
